(* ===== verification/Prelude.thy ===== *)
theory Prelude
  imports Main "HOL-Library.Word" "HOL-Library.Multiset"
begin

unbundle bit_operations_syntax

section \<open>Shared types, interfaces and generic lemmas\<close>

text \<open>
  The vocabulary every component of the runtime shares: the C integer types of a 64-bit build
  (SIZEOF_VOID_P is 8, no half-word heap), the interface of a three-way comparison function
  (the C convention: negative, zero, positive), the interface of a keyed store with the run of
  a sequence of operations over it, and generic list lemmas.
\<close>

type_synonym byte = "8 word"
type_synonym Uint16 = "16 word"
type_synonym Uint32 = "32 word"
type_synonym Uint64 = "64 word"
type_synonym Uint = "64 word"

named_theorems frame_simps \<open>what an operation leaves unchanged\<close>

subsection \<open>Three-way comparison functions\<close>

text \<open>
  A comparison function is used on a set of keys (\<open>ok\<close>): the laws are promised there only,
  because several comparison functions of the runtime are orders on the well-formed keys and
  nothing more.
\<close>

locale comparator =
  fixes cmp :: "'k \<Rightarrow> 'k \<Rightarrow> int"
    and ok :: "'k \<Rightarrow> bool"
  assumes cmp_zero: "ok a \<Longrightarrow> ok b \<Longrightarrow> cmp a b = 0 \<longleftrightarrow> a = b"
    and cmp_flip: "ok a \<Longrightarrow> ok b \<Longrightarrow> cmp a b < 0 \<longleftrightarrow> 0 < cmp b a"
    and cmp_trans: "ok a \<Longrightarrow> ok b \<Longrightarrow> ok c \<Longrightarrow> cmp a b < 0 \<Longrightarrow> cmp b c < 0 \<Longrightarrow> cmp a c < 0"
begin

lemma cmp_refl: "ok a \<Longrightarrow> cmp a a = 0"
  by (simp add: cmp_zero)

lemma cmp_pos_trans: "ok a \<Longrightarrow> ok b \<Longrightarrow> ok c \<Longrightarrow> 0 < cmp a b \<Longrightarrow> 0 < cmp b c \<Longrightarrow> 0 < cmp a c"
  using cmp_flip cmp_trans by blast

lemma cmp_neq: "ok a \<Longrightarrow> ok b \<Longrightarrow> a \<noteq> b \<Longrightarrow> cmp a b < 0 \<or> cmp b a < 0"
  by (metis cmp_flip cmp_zero linorder_neqE_linordered_idom)

end

text \<open>Comparing one component first and the other on a tie is again a comparison.\<close>

definition lex_pair :: "('a \<Rightarrow> 'a \<Rightarrow> int) \<Rightarrow> ('b \<Rightarrow> 'b \<Rightarrow> int) \<Rightarrow> 'a \<times> 'b \<Rightarrow> 'a \<times> 'b \<Rightarrow> int" where
  "lex_pair f g p q = (if f (fst p) (fst q) \<noteq> 0 then f (fst p) (fst q) else g (snd p) (snd q))"

locale comparator_pair =
  c1: comparator cmp1 ok1 + c2: comparator cmp2 ok2
  for cmp1 :: "'a \<Rightarrow> 'a \<Rightarrow> int" and ok1 and cmp2 :: "'b \<Rightarrow> 'b \<Rightarrow> int" and ok2

sublocale comparator_pair \<subseteq> lex: comparator "lex_pair cmp1 cmp2" "\<lambda>p. ok1 (fst p) \<and> ok2 (snd p)"
proof unfold_locales
  fix p q r :: "'a \<times> 'b"
  assume p: "ok1 (fst p) \<and> ok2 (snd p)" and q: "ok1 (fst q) \<and> ok2 (snd q)"
  show "lex_pair cmp1 cmp2 p q = 0 \<longleftrightarrow> p = q"
    using p q by (auto simp: lex_pair_def c1.cmp_zero c2.cmp_zero prod_eq_iff)
  show "lex_pair cmp1 cmp2 p q < 0 \<longleftrightarrow> 0 < lex_pair cmp1 cmp2 q p"
    using p q by (auto simp: lex_pair_def c1.cmp_flip c2.cmp_flip c1.cmp_zero)
  assume r: "ok1 (fst r) \<and> ok2 (snd r)"
    and pq: "lex_pair cmp1 cmp2 p q < 0" and qr: "lex_pair cmp1 cmp2 q r < 0"
  show "lex_pair cmp1 cmp2 p r < 0"
  proof (cases "cmp1 (fst p) (fst q) = 0 \<or> cmp1 (fst q) (fst r) = 0")
    case True
    with p q r pq qr show ?thesis
      using c2.cmp_trans [of "snd p" "snd q" "snd r"]
      by (auto simp: lex_pair_def c1.cmp_zero split: if_splits)
  next
    case False
    with pq qr have "cmp1 (fst p) (fst q) < 0" and "cmp1 (fst q) (fst r) < 0"
      by (simp_all add: lex_pair_def)
    with p q r have "cmp1 (fst p) (fst r) < 0" using c1.cmp_trans by blast
    then show ?thesis by (simp add: lex_pair_def)
  qed
qed

subsection \<open>Keyed stores\<close>

text \<open>
  What the clients of a keyed table rely on: looking a key up after an update or a removal, on
  the states and the keys the table is used with. The abstract specification of a table is a
  finite map, and a history of operations on the table is the same history on the map.
\<close>

datatype ('k, 'v) store_op = Put 'k 'v | Del 'k

fun op_key :: "('k, 'v) store_op \<Rightarrow> 'k" where
  "op_key (Put k v) = k"
| "op_key (Del k) = k"

fun spec_step :: "('k, 'v) store_op \<Rightarrow> ('k \<rightharpoonup> 'v) \<Rightarrow> ('k \<rightharpoonup> 'v)" where
  "spec_step (Put k v) m = m(k \<mapsto> v)"
| "spec_step (Del k) m = m(k := None)"

fun spec_run :: "('k, 'v) store_op list \<Rightarrow> ('k \<rightharpoonup> 'v) \<Rightarrow> ('k \<rightharpoonup> 'v)" where
  "spec_run [] m = m"
| "spec_run (x # xs) m = spec_run xs (spec_step x m)"

fun store_run ::
  "('s \<Rightarrow> 'k \<Rightarrow> 'v \<Rightarrow> 's) \<Rightarrow> ('s \<Rightarrow> 'k \<Rightarrow> 's) \<Rightarrow> ('k, 'v) store_op list \<Rightarrow> 's \<Rightarrow> 's" where
  "store_run put del [] s = s"
| "store_run put del (Put k v # xs) s = store_run put del xs (put s k v)"
| "store_run put del (Del k # xs) s = store_run put del xs (del s k)"

locale keyed_store =
  fixes inv :: "'s \<Rightarrow> bool"
    and ok :: "'k \<Rightarrow> bool"
    and get :: "'s \<Rightarrow> 'k \<Rightarrow> 'v option"
    and put :: "'s \<Rightarrow> 'k \<Rightarrow> 'v \<Rightarrow> 's"
    and del :: "'s \<Rightarrow> 'k \<Rightarrow> 's"
  assumes put_inv: "inv s \<Longrightarrow> ok k \<Longrightarrow> inv (put s k v)"
    and del_inv: "inv s \<Longrightarrow> ok k \<Longrightarrow> inv (del s k)"
    and get_put: "inv s \<Longrightarrow> ok k \<Longrightarrow> ok j \<Longrightarrow> get (put s k v) j = ((get s)(k \<mapsto> v)) j"
    and get_del: "inv s \<Longrightarrow> ok k \<Longrightarrow> ok j \<Longrightarrow> get (del s k) j = ((get s)(k := None)) j"
begin

lemma run_inv:
  "inv s \<Longrightarrow> (\<And>x. x \<in> set xs \<Longrightarrow> ok (op_key x)) \<Longrightarrow> inv (store_run put del xs s)"
proof (induction xs arbitrary: s)
  case (Cons x xs)
  have "ok (op_key x)" using Cons.prems(2) by simp
  with Cons.prems(1) have "inv (case x of Put k v \<Rightarrow> put s k v | Del k \<Rightarrow> del s k)"
    by (cases x) (auto simp: put_inv del_inv)
  with Cons.IH Cons.prems(2) show ?case by (cases x) auto
qed simp

lemma run_get_gen:
  assumes "inv s" and "\<And>x. x \<in> set xs \<Longrightarrow> ok (op_key x)" and "ok j"
    and "\<And>i. ok i \<Longrightarrow> get s i = m i"
  shows "get (store_run put del xs s) j = spec_run xs m j"
  using assms
proof (induction xs arbitrary: s m)
  case (Cons x xs)
  show ?case
  proof (cases x)
    case (Put k v)
    with Cons.prems have "ok k" by fastforce
    with Cons.prems have "get (store_run put del xs (put s k v)) j = spec_run xs (m(k \<mapsto> v)) j"
      by (intro Cons.IH) (auto simp: put_inv get_put)
    with Put show ?thesis by simp
  next
    case (Del k)
    with Cons.prems have "ok k" by fastforce
    with Cons.prems have "get (store_run put del xs (del s k)) j = spec_run xs (m(k := None)) j"
      by (intro Cons.IH) (auto simp: del_inv get_del)
    with Del show ?thesis by simp
  qed
qed simp

theorem run_refines:
  assumes "inv s" and "\<And>x. x \<in> set xs \<Longrightarrow> ok (op_key x)" and "ok j"
  shows "get (store_run put del xs s) j = spec_run xs (get s) j"
  using assms by (intro run_get_gen) auto

end

subsection \<open>Lists\<close>

lemma sorted_wrt_append_mid:
  "sorted_wrt R (xs @ x # ys) \<longleftrightarrow>
     sorted_wrt R xs \<and> sorted_wrt R ys \<and> (\<forall>a\<in>set xs. R a x) \<and> (\<forall>b\<in>set ys. R x b) \<and>
     (\<forall>a\<in>set xs. \<forall>b\<in>set ys. R a b)"
  by (auto simp: sorted_wrt_append)

lemma ex_bool [simp]: "\<exists>s. \<not> s" "\<exists>s. s"
  by blast+

lemma max_Suc_self [simp]: "max (Suc n) n = Suc n" "max n (Suc n) = Suc n"
  by (auto simp: max_def)

lemma mset_concat_update:
  assumes "i < length bv"
  shows "mset (concat (bv[i := c])) + mset (bv ! i) = mset (concat bv) + mset c"
proof -
  have "mset (concat bv) = mset (concat (take i bv @ bv ! i # drop (Suc i) bv))"
    using id_take_nth_drop [OF assms] by simp
  then show ?thesis by (simp add: upd_conv_take_nth_drop [OF assms])
qed

subsection \<open>Lexicographic comparison\<close>

text \<open>The order memcmp and strcmp style loops compute, as a three-way comparison.\<close>

fun lexcmp :: "'a::linorder list \<Rightarrow> 'a list \<Rightarrow> int" where
  "lexcmp [] [] = 0"
| "lexcmp [] (y # ys) = - 1"
| "lexcmp (x # xs) [] = 1"
| "lexcmp (x # xs) (y # ys) = (if x < y then - 1 else if y < x then 1 else lexcmp xs ys)"

lemma lexcmp_zero: "lexcmp xs ys = 0 \<longleftrightarrow> xs = ys"
  by (induction xs ys rule: lexcmp.induct) auto

lemma lexcmp_flip: "lexcmp ys xs = - lexcmp xs ys"
  by (induction xs ys rule: lexcmp.induct) auto

lemma lexcmp_trans: "lexcmp xs ys < 0 \<Longrightarrow> lexcmp ys zs < 0 \<Longrightarrow> lexcmp xs zs < 0"
proof (induction xs ys arbitrary: zs rule: lexcmp.induct)
  case (2 y ys)
  then show ?case by (cases zs) auto
next
  case (4 x xs y ys)
  then show ?case by (cases zs) (auto split: if_splits)
qed auto

interpretation lexcmp: comparator "lexcmp :: 'a::linorder list \<Rightarrow> 'a list \<Rightarrow> int" "\<lambda>_. True"
proof unfold_locales
  fix a b c :: "'a list"
  show "lexcmp a b = 0 \<longleftrightarrow> a = b" by (rule lexcmp_zero)
  show "lexcmp a b < 0 \<longleftrightarrow> 0 < lexcmp b a" using lexcmp_flip [of b a] by auto
  show "lexcmp a b < 0 \<Longrightarrow> lexcmp b c < 0 \<Longrightarrow> lexcmp a c < 0" by (rule lexcmp_trans)
qed

subsection \<open>Bytes\<close>

text \<open>A decidable statement about one byte holds if it holds of the 256 bytes.\<close>

lemma byte_all:
  fixes b :: byte
  assumes "list_all (\<lambda>n. P (word_of_int n)) [0..255]"
  shows "P b"
proof -
  have "uint b \<in> set [0..255]" using uint_lt2p [of b] by simp
  then have "P (word_of_int (uint b))" using assms by (simp only: list_all_iff)
  then show ?thesis by simp
qed

lemma uint_byte_bounds: "0 \<le> uint (b :: byte)" "uint (b :: byte) \<le> 255"
  using uint_lt2p [of b] by simp_all

lemma uint_word_of_int_small: "0 \<le> k \<Longrightarrow> k < 2 ^ LENGTH('a) \<Longrightarrow> uint (word_of_int k :: 'a::len word) = k"
  by (simp add: uint_word_of_int)

subsection \<open>Words\<close>

lemma push_or_take: "push_bit k u OR take_bit k v = push_bit k u + take_bit k (v :: 'a::len word)"
  by (subst disjunctive_add_eq_or) (auto intro!: bit_eqI simp: bit_and_iff bit_push_bit_iff bit_take_bit_iff)

lemma push_or:
  fixes u v :: Uint
  assumes "uint v < 2 ^ k"
  shows "push_bit k u OR v = word_of_int (uint u * 2 ^ k + uint v)"
proof -
  have "take_bit k v = v" using assms
    by (intro word_uint_eqI) (simp add: unsigned_take_bit_eq take_bit_int_eq_self)
  with push_or_take [of k u v] show ?thesis by (simp add: push_bit_eq_mult word_of_int_uint)
qed

lemma uint_and_mask: "uint (w AND mask k) = uint (w :: 'a::len word) mod 2 ^ k"
  by (simp only: take_bit_eq_mask [symmetric] unsigned_take_bit_eq) (simp add: take_bit_eq_mod)

lemma uint_drop: "uint (drop_bit k w) = uint (w :: 'a::len word) div 2 ^ k"
proof -
  have "take_bit LENGTH('a) (uint w) = uint w" by (rule take_bit_int_eq_self) simp_all
  then show ?thesis by (simp only: unsigned_drop_bit_eq) (simp only: drop_bit_eq_div)
qed

end
