(* ===== verification/Avl.thy ===== *)
theory Avl
  imports Prelude
begin

section \<open>The AVL trees of erl_monitors.c\<close>

text \<open>
  Monitors, links and suspend monitors are kept in AVL trees whose nodes all start as an
  ErtsMonitorOrLink (left, right, balance); the insertion and deletion code works on that common
  head. A tree is a value of \<open>mol\<close>; NULL is \<open>Null\<close>. The arrays tstack and dstack
  of the code, which hold the links walked through and the direction taken at each, are one list
  of frames: the frame of a link holds what the node it points at has beside the subtree the walk
  went into, so that writing through the pointer \<open>this\<close> is replacing that subtree. DIR_END
  at the bottom of dstack is the end of the list. Following a NULL pointer is \<open>None\<close>.
\<close>

datatype 'd mol = Null | Node "'d mol" int 'd "'d mol"

datatype dir = DIR_LEFT | DIR_RIGHT

datatype 'd frame = Frame dir int 'd "'d mol"

fun plug :: "'d frame \<Rightarrow> 'd mol \<Rightarrow> 'd mol" where
  "plug (Frame DIR_LEFT b d r) t = Node t b d r"
| "plug (Frame DIR_RIGHT b d l) t = Node l b d t"

fun unwind :: "'d frame list \<Rightarrow> 'd mol \<Rightarrow> 'd mol" where
  "unwind [] t = t"
| "unwind (f # st) t = unwind st (plug f t)"

subsection \<open>Insertion\<close>

text \<open>The two switches of insertion\_rotation: the new tree at \<open>this\<close> and the new state.\<close>

fun grown_left :: "'d mol \<Rightarrow> ('d mol \<times> bool) option" where
  "grown_left Null = None"
| "grown_left (Node p1 b d r) =
     (if b = 1 then Some (Node p1 0 d r, False)
      else if b = 0 then Some (Node p1 (- 1) d r, True)
      else if b = - 1 then
        (case p1 of
           Null \<Rightarrow> None
         | Node l1 b1 d1 r1 \<Rightarrow>
             if b1 = - 1 then Some (Node l1 0 d1 (Node r1 0 d r), False)
             else (case r1 of
                     Null \<Rightarrow> None
                   | Node l2 b2 d2 r2 \<Rightarrow>
                       Some (Node (Node l1 (if b2 = 1 then - 1 else 0) d1 l2) 0 d2
                                  (Node r2 (if b2 = - 1 then 1 else 0) d r), False)))
      else Some (Node p1 b d r, True))"

fun grown_right :: "'d mol \<Rightarrow> ('d mol \<times> bool) option" where
  "grown_right Null = None"
| "grown_right (Node l b d p1) =
     (if b = - 1 then Some (Node l 0 d p1, False)
      else if b = 0 then Some (Node l 1 d p1, True)
      else if b = 1 then
        (case p1 of
           Null \<Rightarrow> None
         | Node l1 b1 d1 r1 \<Rightarrow>
             if b1 = 1 then Some (Node (Node l 0 d l1) 0 d1 r1, False)
             else (case l1 of
                     Null \<Rightarrow> None
                   | Node l2 b2 d2 r2 \<Rightarrow>
                       Some (Node (Node l (if b2 = 1 then - 1 else 0) d l2) 0 d2
                                  (Node r2 (if b2 = - 1 then 1 else 0) d1 r1), False)))
      else Some (Node l b d p1, True))"

fun insertion_rotation :: "'d frame list \<Rightarrow> 'd mol \<Rightarrow> bool \<Rightarrow> 'd mol option" where
  "insertion_rotation [] t state = Some t"
| "insertion_rotation (Frame dir b d s # st) t state =
     (if \<not> state then Some (unwind (Frame dir b d s # st) t)
      else case (if dir = DIR_LEFT then grown_left (Node t b d s) else grown_right (Node s b d t)) of
             None \<Rightarrow> None
           | Some (p, state') \<Rightarrow> insertion_rotation st p state')"

subsection \<open>Deletion\<close>

fun balance_left :: "'d mol \<Rightarrow> ('d mol \<times> bool) option" where
  "balance_left Null = None"
| "balance_left (Node l b d p1) =
     (if b = - 1 then Some (Node l 0 d p1, True)
      else if b = 0 then Some (Node l 1 d p1, False)
      else if b = 1 then
        (case p1 of
           Null \<Rightarrow> None
         | Node l1 b1 d1 r1 \<Rightarrow>
             if b1 \<ge> 0 then
               (if b1 = 0 then Some (Node (Node l 1 d l1) (- 1) d1 r1, False)
                else Some (Node (Node l 0 d l1) 0 d1 r1, True))
             else (case l1 of
                     Null \<Rightarrow> None
                   | Node l2 b2 d2 r2 \<Rightarrow>
                       Some (Node (Node l (if b2 = 1 then - 1 else 0) d l2) 0 d2
                                  (Node r2 (if b2 = - 1 then 1 else 0) d1 r1), True)))
      else Some (Node l b d p1, True))"

fun balance_right :: "'d mol \<Rightarrow> ('d mol \<times> bool) option" where
  "balance_right Null = None"
| "balance_right (Node p1 b d r) =
     (if b = 1 then Some (Node p1 0 d r, True)
      else if b = 0 then Some (Node p1 (- 1) d r, False)
      else if b = - 1 then
        (case p1 of
           Null \<Rightarrow> None
         | Node l1 b1 d1 r1 \<Rightarrow>
             if b1 \<le> 0 then
               (if b1 = 0 then Some (Node l1 1 d1 (Node r1 (- 1) d r), False)
                else Some (Node l1 0 d1 (Node r1 0 d r), True))
             else (case r1 of
                     Null \<Rightarrow> None
                   | Node l2 b2 d2 r2 \<Rightarrow>
                       Some (Node (Node l1 (if b2 = 1 then - 1 else 0) d1 l2) 0 d2
                                  (Node r2 (if b2 = - 1 then 1 else 0) d r), True)))
      else Some (Node p1 b d r, True))"

text \<open>
  The loop that ends every removal (and, with right turns only, the one of delsub): rebalance
  upwards while the height has shrunk; the result also says whether the loop ran out of frames
  with the height still shrunk.
\<close>

fun balance_up :: "'d frame list \<Rightarrow> 'd mol \<Rightarrow> bool \<Rightarrow> ('d mol \<times> bool) option" where
  "balance_up [] t state = Some (t, state)"
| "balance_up (Frame dir b d s # st) t state =
     (if \<not> state then Some (unwind (Frame dir b d s # st) t, False)
      else case (if dir = DIR_LEFT then balance_left (Node t b d s) else balance_right (Node s b d t)) of
             None \<Rightarrow> None
           | Some (p, state') \<Rightarrow> balance_up st p state')"

text \<open>The walk of delsub to the rightmost node of the left subtree, pushing the links passed.\<close>

fun walk_right :: "'d mol \<Rightarrow> 'd frame list \<Rightarrow> 'd frame list \<times> 'd mol" where
  "walk_right Null st = (st, Null)"
| "walk_right (Node l b d r) st =
     (if r = Null then (st, Node l b d r) else walk_right r (Frame DIR_RIGHT b d l # st))"

fun delsub :: "'d mol \<Rightarrow> ('d mol \<times> bool) option" where
  "delsub Null = None"
| "delsub (Node l b d r) =
     (case walk_right l [] of
        (st, Null) \<Rightarrow> None
      | (st, Node ml mb md mr) \<Rightarrow>
          (case balance_up st ml True of
             None \<Rightarrow> None
           | Some (l', h) \<Rightarrow> Some (Node l' b md r, h)))"

text \<open>The part of erts\_remove\_monitor and its kin that unlinks the node \<open>q\<close> found.\<close>

fun unlink_node :: "'d frame list \<Rightarrow> 'd mol \<Rightarrow> 'd mol option" where
  "unlink_node st Null = None"
| "unlink_node st (Node l b d r) =
     (if r = Null then map_option fst (balance_up st l True)
      else if l = Null then map_option fst (balance_up st r True)
      else case delsub (Node l b d r) of
             Some (Node l' b' d' r', state) \<Rightarrow>
               map_option fst (balance_up (Frame DIR_LEFT b' d' r' # st) l' state)
           | _ \<Rightarrow> None)"

subsection \<open>Search\<close>

text \<open>
  The loop at the head of every operation: compare, push the link and go left or right, stop
  at NULL or at an equal key. The result is the stack and the tree at \<open>this\<close>.
\<close>

fun descend :: "('d \<Rightarrow> int) \<Rightarrow> 'd mol \<Rightarrow> 'd frame list \<Rightarrow> 'd frame list \<times> 'd mol" where
  "descend c Null st = (st, Null)"
| "descend c (Node l b d r) st =
     (if c d < 0 then descend c l (Frame DIR_LEFT b d r # st)
      else if c d > 0 then descend c r (Frame DIR_RIGHT b d l # st)
      else (st, Node l b d r))"

fun lookup_node :: "('d \<Rightarrow> int) \<Rightarrow> 'd mol \<Rightarrow> 'd option" where
  "lookup_node c Null = None"
| "lookup_node c (Node l b d r) =
     (if c d = 0 then Some d else if c d < 0 then lookup_node c l else lookup_node c r)"

subsection \<open>The sweep\<close>

text \<open>
  erts\_sweep\_monitors and its copies walk the tree with an explicit stack and call \<open>doit\<close>
  on a node when both its subtrees are done.
\<close>

fun mol_size :: "'d mol \<Rightarrow> nat" where
  "mol_size Null = 0"
| "mol_size (Node l b d r) = Suc (mol_size l + mol_size r)"

fun sweep_work :: "(dir \<times> 'd \<times> 'd mol) list \<Rightarrow> nat" where
  "sweep_work [] = 0"
| "sweep_work ((DIR_LEFT, d, r) # st) = 2 + 3 * mol_size r + sweep_work st"
| "sweep_work ((DIR_RIGHT, d, r) # st) = 1 + sweep_work st"

function sweep ::
  "('d \<Rightarrow> 'c \<Rightarrow> 'c) \<Rightarrow> 'd mol \<Rightarrow> (dir \<times> 'd \<times> 'd mol) list \<Rightarrow> 'c \<Rightarrow> 'c" where
  "sweep doit Null [] ctx = ctx"
| "sweep doit Null ((DIR_LEFT, d, r) # st) ctx = sweep doit r ((DIR_RIGHT, d, r) # st) ctx"
| "sweep doit Null ((DIR_RIGHT, d, r) # st) ctx = sweep doit Null st (doit d ctx)"
| "sweep doit (Node l b d r) st ctx = sweep doit l ((DIR_LEFT, d, r) # st) ctx"
  by pat_completeness auto

termination
  by (relation "measure (\<lambda>(doit, t, st, ctx). 3 * mol_size t + sweep_work st)") auto

subsection \<open>Abstraction and invariant\<close>

fun inorder :: "'d mol \<Rightarrow> 'd list" where
  "inorder Null = []"
| "inorder (Node l b d r) = inorder l @ d # inorder r"

fun postorder :: "'d mol \<Rightarrow> 'd list" where
  "postorder Null = []"
| "postorder (Node l b d r) = postorder l @ postorder r @ [d]"

fun height :: "'d mol \<Rightarrow> nat" where
  "height Null = 0"
| "height (Node l b d r) = Suc (max (height l) (height r))"

text \<open>The balance field of a node is the height of its right subtree less that of its left one.\<close>

definition bal_ok :: "int \<Rightarrow> nat \<Rightarrow> nat \<Rightarrow> bool" where
  "bal_ok b m n \<longleftrightarrow> b = 0 \<and> n = m \<or> b = 1 \<and> n = Suc m \<or> b = - 1 \<and> m = Suc n"

lemma bal_ok_diff: "bal_ok b m n \<longleftrightarrow> b = int n - int m \<and> \<bar>b\<bar> \<le> 1"
  by (auto simp: bal_ok_def)

lemma bal_ok_simps [simp]:
  "bal_ok 0 m n \<longleftrightarrow> n = m"
  "bal_ok 1 m n \<longleftrightarrow> n = Suc m"
  "bal_ok (- 1) m n \<longleftrightarrow> m = Suc n"
  by (auto simp: bal_ok_def)

lemma bal_ok_cases:
  assumes "bal_ok b m n"
  obtains "b = 0" "n = m" | "b = 1" "n = Suc m" | "b = - 1" "m = Suc n"
  using assms by (auto simp: bal_ok_def)

fun avl :: "'d mol \<Rightarrow> bool" where
  "avl Null = True"
| "avl (Node l b d r) = (bal_ok b (height l) (height r) \<and> avl l \<and> avl r)"

text \<open>A stack that expects a subtree of height \<open>h\<close> at its top.\<close>

fun stack_ok :: "'d frame list \<Rightarrow> nat \<Rightarrow> bool" where
  "stack_ok [] h = True"
| "stack_ok (Frame DIR_LEFT b d r # st) h =
     (bal_ok b h (height r) \<and> avl r \<and> stack_ok st (Suc (max h (height r))))"
| "stack_ok (Frame DIR_RIGHT b d l # st) h =
     (bal_ok b (height l) h \<and> avl l \<and> stack_ok st (Suc (max (height l) h)))"

fun before :: "'d frame list \<Rightarrow> 'd list" where
  "before [] = []"
| "before (Frame DIR_LEFT b d r # st) = before st"
| "before (Frame DIR_RIGHT b d l # st) = before st @ inorder l @ [d]"

fun after :: "'d frame list \<Rightarrow> 'd list" where
  "after [] = []"
| "after (Frame DIR_LEFT b d r # st) = d # inorder r @ after st"
| "after (Frame DIR_RIGHT b d l # st) = after st"

lemma avl_unwind: "avl (unwind st t) \<longleftrightarrow> avl t \<and> stack_ok st (height t)"
proof (induction st arbitrary: t)
  case (Cons f st)
  obtain dir b d s where f: "f = Frame dir b d s" by (cases f)
  show ?case using Cons.IH f by (cases dir) (auto simp: max.commute)
qed simp

lemma inorder_unwind: "inorder (unwind st t) = before st @ inorder t @ after st"
proof (induction st arbitrary: t)
  case (Cons f st)
  obtain dir b d s where f: "f = Frame dir b d s" by (cases f)
  show ?case using Cons.IH f by (cases dir) auto
qed simp

lemma height_0_iff [simp]: "height t = 0 \<longleftrightarrow> t = Null"
  by (cases t) auto

lemma length_inorder: "length (inorder t) = mol_size t"
  by (induction t) auto

subsection \<open>Insertion keeps the tree balanced\<close>

text \<open>A subtree that has just grown is a fresh leaf or leans to one side.\<close>

fun grown :: "'d mol \<Rightarrow> nat \<Rightarrow> bool" where
  "grown Null h = False"
| "grown (Node l b d r) h = (avl (Node l b d r) \<and> height (Node l b d r) = Suc h \<and> (h = 0 \<or> b \<noteq> 0))"

lemma grown_avl: "grown t h \<Longrightarrow> avl t \<and> height t = Suc h"
  by (cases t) auto

lemma grown_left_step:
  assumes g: "grown t h" and b: "bal_ok b h (height r)" and r: "avl r"
  shows "\<exists>p s. grown_left (Node t b d r) = Some (p, s) \<and> inorder p = inorder t @ d # inorder r \<and>
           (if s then grown p (Suc (max h (height r)))
            else avl p \<and> height p = Suc (max h (height r)))"
  using b
proof (cases rule: bal_ok_cases)
  case 3
  with g obtain l1 b1 d1 r1 where t: "t = Node l1 b1 d1 r1" and n: "b1 \<noteq> 0"
    and t1: "avl l1" "avl r1" "bal_ok b1 (height l1) (height r1)"
    and ht: "max (height l1) (height r1) = Suc (height r)"
    by (cases t) auto
  show ?thesis using t1(3)
  proof (cases rule: bal_ok_cases)
    case 2
    with t1 obtain l2 b2 d2 r2 where r1: "r1 = Node l2 b2 d2 r2"
      and t2: "avl l2" "avl r2" "bal_ok b2 (height l2) (height r2)" by (cases r1) auto
    show ?thesis using t2(3)
      by (cases rule: bal_ok_cases) (use 2 3 t t1 t2 r r1 ht in \<open>simp_all\<close>)
  qed (use 3 t t1 r n ht in \<open>simp_all\<close>)
qed (use g r grown_avl [OF g] in \<open>simp_all\<close>)

lemma grown_right_step:
  assumes g: "grown t h" and b: "bal_ok b (height l) h" and l: "avl l"
  shows "\<exists>p s. grown_right (Node l b d t) = Some (p, s) \<and> inorder p = inorder l @ d # inorder t \<and>
           (if s then grown p (Suc (max (height l) h))
            else avl p \<and> height p = Suc (max (height l) h))"
  using b
proof (cases rule: bal_ok_cases)
  case 2
  with g obtain l1 b1 d1 r1 where t: "t = Node l1 b1 d1 r1" and n: "b1 \<noteq> 0"
    and t1: "avl l1" "avl r1" "bal_ok b1 (height l1) (height r1)"
    and ht: "max (height l1) (height r1) = Suc (height l)"
    by (cases t) auto
  show ?thesis using t1(3)
  proof (cases rule: bal_ok_cases)
    case 3
    with t1 obtain l2 b2 d2 r2 where l1: "l1 = Node l2 b2 d2 r2"
      and t2: "avl l2" "avl r2" "bal_ok b2 (height l2) (height r2)" by (cases l1) auto
    show ?thesis using t2(3)
      by (cases rule: bal_ok_cases) (use 2 3 t t1 t2 l l1 ht in \<open>simp_all\<close>)
  qed (use 2 t t1 l n ht in \<open>simp_all\<close>)
qed (use g l grown_avl [OF g] in \<open>simp_all\<close>)

lemma insertion_rotation_False: "insertion_rotation st t False = Some (unwind st t)"
  by (induction st t False rule: insertion_rotation.induct) auto

lemma insertion_rotation_ok:
  assumes "grown t h" and "stack_ok st h"
  shows "\<exists>t'. insertion_rotation st t True = Some t' \<and> avl t' \<and> inorder t' = inorder (unwind st t)"
  using assms
proof (induction st arbitrary: t h)
  case Nil
  then show ?case using grown_avl by auto
next
  case (Cons f st)
  obtain dir b d s where f: "f = Frame dir b d s" by (cases f)
  let ?k = "case dir of DIR_LEFT \<Rightarrow> Suc (max h (height s)) | DIR_RIGHT \<Rightarrow> Suc (max (height s) h)"
  let ?n = "case dir of DIR_LEFT \<Rightarrow> grown_left (Node t b d s) | DIR_RIGHT \<Rightarrow> grown_right (Node s b d t)"
  have "\<exists>p c. ?n = Some (p, c) \<and> inorder p = inorder (plug f t) \<and>
      (if c then grown p ?k else avl p \<and> height p = ?k)"
  proof (cases dir)
    case DIR_LEFT
    with Cons.prems f have "bal_ok b h (height s)" and "avl s" by simp_all
    from grown_left_step [OF Cons.prems(1) this] show ?thesis
      by (simp only: f DIR_LEFT dir.case plug.simps inorder.simps)
  next
    case DIR_RIGHT
    with Cons.prems f have "bal_ok b (height s) h" and "avl s" by simp_all
    from grown_right_step [OF Cons.prems(1) this] show ?thesis
      by (simp only: f DIR_RIGHT dir.case plug.simps inorder.simps)
  qed
  then obtain p c where n: "?n = Some (p, c)" and i: "inorder p = inorder (plug f t)"
    and p: "if c then grown p ?k else avl p \<and> height p = ?k" by blast
  have st: "stack_ok st ?k" using Cons.prems(2) f by (cases dir) auto
  have eq: "insertion_rotation (f # st) t True = insertion_rotation st p c"
    using n f by (cases dir) auto
  show ?case
  proof (cases c)
    case True
    with Cons.IH [of p ?k] p st i eq show ?thesis by (auto simp: inorder_unwind)
  next
    case False
    with p st i eq show ?thesis
      by (auto simp: insertion_rotation_False avl_unwind inorder_unwind)
  qed
qed

subsection \<open>Deletion keeps the tree balanced\<close>

lemma balance_left_step:
  assumes t: "avl t" and h: "h = Suc (height t)" and b: "bal_ok b h (height r)" and r: "avl r"
  shows "\<exists>p s. balance_left (Node t b d r) = Some (p, s) \<and> inorder p = inorder t @ d # inorder r \<and>
           avl p \<and> Suc (max h (height r)) = height p + (if s then 1 else 0)"
  using b
proof (cases rule: bal_ok_cases)
  case 2
  with r obtain l1 b1 d1 r1 where rr: "r = Node l1 b1 d1 r1"
    and t1: "avl l1" "avl r1" "bal_ok b1 (height l1) (height r1)"
    and ht: "max (height l1) (height r1) = h"
    by (cases r) auto
  show ?thesis using t1(3)
  proof (cases rule: bal_ok_cases)
    case 3
    with t1 obtain l2 b2 d2 r2 where l1: "l1 = Node l2 b2 d2 r2"
      and t2: "avl l2" "avl r2" "bal_ok b2 (height l2) (height r2)" by (cases l1) auto
    show ?thesis using t2(3)
      by (cases rule: bal_ok_cases) (use 2 3 t h rr t1 t2 l1 ht in \<open>simp_all\<close>)
  qed (use 2 t h rr t1 ht in \<open>simp_all\<close>)
qed (use t h r in \<open>simp_all\<close>)

lemma balance_right_step:
  assumes t: "avl t" and h: "h = Suc (height t)" and b: "bal_ok b (height l) h" and l: "avl l"
  shows "\<exists>p s. balance_right (Node l b d t) = Some (p, s) \<and> inorder p = inorder l @ d # inorder t \<and>
           avl p \<and> Suc (max (height l) h) = height p + (if s then 1 else 0)"
  using b
proof (cases rule: bal_ok_cases)
  case 3
  with l obtain l1 b1 d1 r1 where ll: "l = Node l1 b1 d1 r1"
    and t1: "avl l1" "avl r1" "bal_ok b1 (height l1) (height r1)"
    and ht: "max (height l1) (height r1) = h"
    by (cases l) auto
  show ?thesis using t1(3)
  proof (cases rule: bal_ok_cases)
    case 2
    with t1 obtain l2 b2 d2 r2 where r1: "r1 = Node l2 b2 d2 r2"
      and t2: "avl l2" "avl r2" "bal_ok b2 (height l2) (height r2)" by (cases r1) auto
    show ?thesis using t2(3)
      by (cases rule: bal_ok_cases) (use 2 3 t h ll t1 t2 r1 ht in \<open>simp_all\<close>)
  qed (use 3 t h ll t1 ht in \<open>simp_all\<close>)
qed (use t h l in \<open>simp_all\<close>)

fun stack_height :: "'d frame list \<Rightarrow> nat \<Rightarrow> nat" where
  "stack_height [] h = h"
| "stack_height (Frame dir b d s # st) h = stack_height st (Suc (max h (height s)))"

lemma height_unwind: "height (unwind st t) = stack_height st (height t)"
proof (induction st arbitrary: t)
  case (Cons f st)
  obtain dir b d s where f: "f = Frame dir b d s" by (cases f)
  show ?case using Cons.IH f by (cases dir) (auto simp: max.commute)
qed simp

lemma balance_up_False: "balance_up st t False = Some (unwind st t, False)"
  by (induction st t False rule: balance_up.induct) auto

text \<open>
  The loop with the flag set, on a stack that expects a subtree one level higher than \<open>t\<close>;
  the flag that comes out says whether the whole tree has lost a level.
\<close>

lemma balance_up_ok:
  assumes "avl t" and "stack_ok st (height t + (if s then 1 else 0))"
  shows "\<exists>t' s'. balance_up st t s = Some (t', s') \<and> avl t' \<and> inorder t' = inorder (unwind st t) \<and>
           stack_height st (height t + (if s then 1 else 0)) = height t' + (if s' then 1 else 0)"
  using assms
proof (induction st arbitrary: t s)
  case Nil
  then show ?case by simp
next
  case (Cons f st)
  obtain dir b d c where f: "f = Frame dir b d c" by (cases f)
  show ?case
  proof (cases s)
    case False
    with Cons.prems have "avl (unwind (f # st) t)"
      and "height (unwind (f # st) t) = stack_height (f # st) (height t)"
      by (simp_all only: avl_unwind height_unwind if_False add_0_right)
    moreover have "balance_up (f # st) t s = Some (unwind (f # st) t, False)"
      using False by (simp only: balance_up_False)
    ultimately show ?thesis using False
      by (intro exI [of _ "unwind (f # st) t"] exI [of _ False])
         (simp only: if_False add_0_right simp_thms)
  next
    case True
    let ?h = "Suc (height t)"
    let ?k = "Suc (max ?h (height c))"
    let ?n = "case dir of DIR_LEFT \<Rightarrow> balance_left (Node t b d c) | DIR_RIGHT \<Rightarrow> balance_right (Node c b d t)"
    have "\<exists>p e. ?n = Some (p, e) \<and> inorder p = inorder (plug f t) \<and> avl p \<and> ?k = height p + (if e then 1 else 0)"
    proof (cases dir)
      case DIR_LEFT
      with Cons.prems True f have "bal_ok b ?h (height c)" and "avl c" by simp_all
      from balance_left_step [OF Cons.prems(1) refl this] show ?thesis
        by (simp only: f DIR_LEFT dir.case plug.simps inorder.simps)
    next
      case DIR_RIGHT
      with Cons.prems True f have "bal_ok b (height c) ?h" and "avl c" by simp_all
      from balance_right_step [OF Cons.prems(1) refl this] show ?thesis
        unfolding max.commute [of "height c" ?h]
        by (simp only: f DIR_RIGHT dir.case plug.simps inorder.simps)
    qed
    then obtain p e where n: "?n = Some (p, e)" and i: "inorder p = inorder (plug f t)"
      and p: "avl p" and k: "?k = height p + (if e then 1 else 0)" by blast
    have "stack_ok st (height p + (if e then 1 else 0))"
      using Cons.prems(2) f True k [symmetric] by (cases dir) (auto simp: max.commute)
    from Cons.IH [OF p this] obtain t' s' where
      "balance_up st p e = Some (t', s')" "avl t'" "inorder t' = inorder (unwind st p)"
      "stack_height st (height p + (if e then 1 else 0)) = height t' + (if s' then 1 else 0)" by blast
    moreover have "balance_up (f # st) t True = balance_up st p e"
      using n f by (cases dir) auto
    moreover have "stack_height (f # st) ?h = stack_height st (height p + (if e then 1 else 0))"
      using f k by simp
    ultimately show ?thesis using True i by (auto simp: inorder_unwind)
  qed
qed

lemma walk_right_ok:
  assumes "t \<noteq> Null"
  shows "\<exists>st' ml mb md. walk_right t st = (st', Node ml mb md Null) \<and>
           unwind st' (Node ml mb md Null) = unwind st t"
  using assms
proof (induction t arbitrary: st)
  case (Node l b d r)
  show ?case
  proof (cases "r = Null")
    case False
    with Node.IH(2) [of "Frame DIR_RIGHT b d l # st"] show ?thesis by simp
  qed auto
qed simp

lemma delsub_ok:
  assumes "avl (Node l b d r)" and "l \<noteq> Null"
  shows "\<exists>l' d' h. delsub (Node l b d r) = Some (Node l' b d' r, h) \<and> avl l' \<and>
           inorder l = inorder l' @ [d'] \<and> height l = height l' + (if h then 1 else 0)"
proof -
  obtain st ml mb md where w: "walk_right l [] = (st, Node ml mb md Null)"
    and u: "unwind st (Node ml mb md Null) = l"
    using walk_right_ok [OF assms(2), of "[]"] by auto
  from assms(1) u have "avl (Node ml mb md Null)" and st: "stack_ok st (height (Node ml mb md Null))"
    using avl_unwind [of st "Node ml mb md Null"] by auto
  then have ml: "avl ml" and h: "height (Node ml mb md Null) = Suc (height ml)" by auto
  from balance_up_ok [OF ml, of st True] st h obtain l' s' where
    l': "balance_up st ml True = Some (l', s')" "avl l'" "inorder l' = inorder (unwind st ml)"
    and hh: "stack_height st (Suc (height ml)) = height l' + (if s' then 1 else 0)" by auto
  have "after st = []"
  proof -
    have "after st' = []" if "walk_right t st0 = (st', m)" and "after st0 = []" for t st0 st' and m :: "'a mol"
      using that by (induction t st0 rule: walk_right.induct) (auto split: if_splits)
    from this [OF w] show ?thesis by simp
  qed
  then have "inorder l = inorder l' @ [md]"
    using u l'(3) by (auto simp: inorder_unwind)
  moreover have "height l = height l' + (if s' then 1 else 0)"
    using height_unwind [of st "Node ml mb md Null"] u h hh by simp
  ultimately show ?thesis using w l' by auto
qed

lemma unlink_node_ok:
  assumes "avl (unwind st (Node l b d r))"
  shows "\<exists>t'. unlink_node st (Node l b d r) = Some t' \<and> avl t' \<and>
           inorder t' = before st @ inorder l @ inorder r @ after st"
proof -
  from assms have a: "avl (Node l b d r)" and st: "stack_ok st (height (Node l b d r))"
    by (simp_all add: avl_unwind)
  consider "r = Null" | "r \<noteq> Null" "l = Null" | "r \<noteq> Null" "l \<noteq> Null" by blast
  then show ?thesis
  proof cases
    case 1
    with a st balance_up_ok [of l st True] show ?thesis by (auto simp: inorder_unwind)
  next
    case 2
    with a st balance_up_ok [of r st True] show ?thesis by (auto simp: inorder_unwind)
  next
    case 3
    from delsub_ok [OF a 3(2)] obtain l' d' h where
      d: "delsub (Node l b d r) = Some (Node l' b d' r, h)" and l': "avl l'"
      and i: "inorder l = inorder l' @ [d']" and hl: "height l = height l' + (if h then 1 else 0)"
      by blast
    have "stack_ok (Frame DIR_LEFT b d' r # st) (height l' + (if h then 1 else 0))"
      using a st hl [symmetric] by simp
    from balance_up_ok [OF l' this] obtain t' s' where
      "balance_up (Frame DIR_LEFT b d' r # st) l' h = Some (t', s')" "avl t'"
      "inorder t' = inorder (unwind (Frame DIR_LEFT b d' r # st) l')" by blast
    with d 3 i show ?thesis by (auto simp: inorder_unwind)
  qed
qed

subsection \<open>Search trees\<close>

lemma descend_unwind: "descend c t st = (st', t') \<Longrightarrow> unwind st' t' = unwind st t"
  by (induction c t st rule: descend.induct) (auto split: if_splits)

text \<open>The order the search relies on: the comparison with the key falls along the inorder list.\<close>

definition searchable :: "('d \<Rightarrow> int) \<Rightarrow> 'd list \<Rightarrow> bool" where
  "searchable c xs \<longleftrightarrow>
     sorted_wrt (\<lambda>x y. (c x \<le> 0 \<longrightarrow> c y < 0) \<and> (0 \<le> c y \<longrightarrow> 0 < c x)) xs"

lemma descend_sides:
  assumes "searchable c (before st @ inorder t @ after st)"
    and "\<forall>x\<in>set (before st). 0 < c x" and "\<forall>x\<in>set (after st). c x < 0"
    and "descend c t st = (st', t')"
  shows "(\<forall>x\<in>set (before st'). 0 < c x) \<and> (\<forall>x\<in>set (after st'). c x < 0) \<and>
         (case t' of Null \<Rightarrow> True | Node l b d r \<Rightarrow> c d = 0)"
  using assms
proof (induction c t st rule: descend.induct)
  case (2 c l b d r st)
  have s: "searchable c (before st @ inorder l @ d # inorder r @ after st)"
    using "2.prems"(1) by simp
  have l: "0 < c x" if "0 \<le> c d" and "x \<in> set (inorder l)" for x
    using s that by (auto simp: searchable_def sorted_wrt_append)
  have r: "c x < 0" if "c d \<le> 0" and "x \<in> set (inorder r)" for x
    using s that by (auto simp: searchable_def sorted_wrt_append)
  consider "c d < 0" | "c d > 0" | "c d = 0" by linarith
  then show ?case
  proof cases
    case 1
    with "2.IH"(1) "2.prems" r s show ?thesis by auto
  next
    case 2
    with "2.IH"(2) "2.prems" l s show ?thesis by auto
  next
    case 3
    with "2.prems" show ?thesis by auto
  qed
qed auto

lemma lookup_node_descend:
  "lookup_node c t = (case snd (descend c t st) of Null \<Rightarrow> None | Node l b d r \<Rightarrow> Some d)"
  by (induction c t st rule: descend.induct) auto

lemma descend_root:
  assumes "searchable c (inorder t)" and "descend c t [] = (st', t')"
  shows "unwind st' t' = t" and "inorder t = before st' @ inorder t' @ after st'"
    and "\<forall>x\<in>set (before st'). 0 < c x" and "\<forall>x\<in>set (after st'). c x < 0"
    and "t' = Null \<or> (\<exists>l b d r. t' = Node l b d r \<and> c d = 0 \<and>
           (\<forall>x\<in>set (inorder l). 0 < c x) \<and> (\<forall>x\<in>set (inorder r). c x < 0))"
proof -
  show u: "unwind st' t' = t" using descend_unwind [OF assms(2)] by simp
  show i: "inorder t = before st' @ inorder t' @ after st'" using u inorder_unwind by metis
  have all: "(\<forall>x\<in>set (before st'). 0 < c x) \<and> (\<forall>x\<in>set (after st'). c x < 0) \<and>
         (case t' of Null \<Rightarrow> True | Node l b d r \<Rightarrow> c d = 0)"
    using descend_sides [of c "[]" t st' t'] assms by simp
  then show "\<forall>x\<in>set (before st'). 0 < c x" and "\<forall>x\<in>set (after st'). c x < 0" by auto
  have "searchable c (inorder t')"
    using assms(1) i by (simp add: searchable_def sorted_wrt_append)
  with all show "t' = Null \<or> (\<exists>l b d r. t' = Node l b d r \<and> c d = 0 \<and>
           (\<forall>x\<in>set (inorder l). 0 < c x) \<and> (\<forall>x\<in>set (inorder r). c x < 0))"
    by (cases t') (auto simp: searchable_def sorted_wrt_append)
qed

subsection \<open>The stack arrays are large enough\<close>

lemma descend_depth: "descend c t st = (st', t') \<Longrightarrow> length st' + height t' \<le> length st + height t"
  by (induction c t st rule: descend.induct) (auto split: if_splits)

fun min_nodes :: "nat \<Rightarrow> nat" where
  "min_nodes 0 = 0"
| "min_nodes (Suc 0) = 1"
| "min_nodes (Suc (Suc n)) = Suc (min_nodes n + min_nodes (Suc n))"

lemma min_nodes_step: "min_nodes n \<le> min_nodes (Suc n)"
  by (induction n rule: min_nodes.induct) auto

lemma min_nodes_mono: "m \<le> n \<Longrightarrow> min_nodes m \<le> min_nodes n"
  using lift_Suc_mono_le [of min_nodes] min_nodes_step by blast

lemma avl_min_nodes: "avl t \<Longrightarrow> min_nodes (height t) \<le> mol_size t"
proof (induction t)
  case (Node l b d r)
  then have b: "bal_ok b (height l) (height r)"
    and l: "min_nodes (height l) \<le> mol_size l" and r: "min_nodes (height r) \<le> mol_size r" by auto
  from b show ?case
  proof (cases rule: bal_ok_cases)
    case 1
    show ?thesis
    proof (cases "height l")
      case 0
      with 1 show ?thesis by simp
    next
      case (Suc n)
      with 1 l r show ?thesis using min_nodes_step [of n] by simp
    qed
  qed (use l r in simp_all)
qed simp

fun min_nodes_pair :: "nat \<Rightarrow> int \<times> int" where
  "min_nodes_pair 0 = (0, 1)"
| "min_nodes_pair (Suc n) = (case min_nodes_pair n of (a, b) \<Rightarrow> (b, a + b + 1))"

lemma min_nodes_pair_eq: "min_nodes_pair n = (int (min_nodes n), int (min_nodes (Suc n)))"
  by (induction n) auto

lemma min_nodes_50: "min_nodes 50 > 2 ^ 32"
proof -
  have "fst (min_nodes_pair 50) > 4294967296" by code_simp
  then show ?thesis by (simp add: min_nodes_pair_eq)
qed

lemma avl_height_bound:
  assumes "avl t" and "mol_size t < 2 ^ 32"
  shows "height t < 50"
proof (rule ccontr)
  assume "\<not> height t < 50"
  then have "min_nodes 50 \<le> mol_size t"
    using min_nodes_mono [of 50 "height t"] avl_min_nodes [OF assms(1)] by simp
  with min_nodes_50 assms(2) show False by linarith
qed

subsection \<open>The sweep visits every node once, children first\<close>

fun sweep_rest :: "(dir \<times> 'd \<times> 'd mol) list \<Rightarrow> 'd list" where
  "sweep_rest [] = []"
| "sweep_rest ((DIR_LEFT, d, r) # st) = postorder r @ d # sweep_rest st"
| "sweep_rest ((DIR_RIGHT, d, r) # st) = d # sweep_rest st"

lemma sweep_eq: "sweep doit t st ctx = fold doit (postorder t @ sweep_rest st) ctx"
  by (induction doit t st ctx rule: sweep.induct) auto

lemma set_postorder: "set (postorder t) = set (inorder t)"
  by (induction t) auto

subsection \<open>The interface of a keyed tree\<close>

text \<open>
  The tree a process or a node entry keeps: balanced, with well-formed keys in strictly rising
  order. Its abstract value is the map from the keys to the nodes.
\<close>

definition tree_ok :: "('k \<Rightarrow> 'k \<Rightarrow> int) \<Rightarrow> ('k \<Rightarrow> bool) \<Rightarrow> ('d \<Rightarrow> 'k) \<Rightarrow> 'd mol \<Rightarrow> bool" where
  "tree_ok cmp ok key t \<longleftrightarrow>
     avl t \<and> (\<forall>d\<in>set (inorder t). ok (key d)) \<and>
     sorted_wrt (\<lambda>x y. cmp (key x) (key y) < 0) (inorder t)"

definition tree_map :: "('d \<Rightarrow> 'k) \<Rightarrow> 'd mol \<Rightarrow> ('k \<rightharpoonup> 'd)" where
  "tree_map key t = map_of (map (\<lambda>d. (key d, d)) (inorder t))"

lemma tree_map_inorder: "inorder t = inorder u \<Longrightarrow> tree_map key t = tree_map key u"
  by (simp add: tree_map_def)

lemma map_of_keys_Some: "map_of (map (\<lambda>d. (key d, d)) xs) k = Some d \<Longrightarrow> d \<in> set xs \<and> key d = k"
  by (induction xs) (auto split: if_splits)

lemma map_of_keys_None: "map_of (map (\<lambda>d. (key d, d)) xs) k = None \<longleftrightarrow> (\<forall>d\<in>set xs. key d \<noteq> k)"
  by (induction xs) auto

locale keyed_tree = comparator cmp ok
  for cmp :: "'k \<Rightarrow> 'k \<Rightarrow> int" and ok :: "'k \<Rightarrow> bool" +
  fixes key :: "'d \<Rightarrow> 'k"
begin

lemma tree_ok_searchable:
  assumes "tree_ok cmp ok key t" and "ok k"
  shows "searchable (\<lambda>d. cmp k (key d)) (inorder t)"
proof -
  have s: "sorted_wrt (\<lambda>x y. cmp (key x) (key y) < 0) (inorder t)"
    and o: "\<And>d. d \<in> set (inorder t) \<Longrightarrow> ok (key d)"
    using assms(1) by (auto simp: tree_ok_def)
  have "(cmp k (key x) \<le> 0 \<longrightarrow> cmp k (key y) < 0) \<and> (0 \<le> cmp k (key y) \<longrightarrow> 0 < cmp k (key x))"
    if xy: "x \<in> set (inorder t)" "y \<in> set (inorder t)" "cmp (key x) (key y) < 0" for x y
  proof
    note ox = o [OF xy(1)] and oy = o [OF xy(2)]
    show "cmp k (key x) \<le> 0 \<longrightarrow> cmp k (key y) < 0"
      using cmp_trans [OF assms(2) ox oy _ xy(3)] cmp_zero [OF assms(2) ox] xy(3)
      by (cases "cmp k (key x) = 0") auto
    have "cmp (key x) k < 0" if "0 \<le> cmp k (key y)"
    proof (cases "cmp k (key y) = 0")
      case True
      with xy(3) cmp_zero [OF assms(2) oy] show ?thesis by simp
    next
      case False
      with that have "cmp (key y) k < 0" using cmp_flip [OF oy assms(2)] by simp
      with xy(3) show ?thesis by (rule cmp_trans [OF ox oy assms(2)])
    qed
    then show "0 \<le> cmp k (key y) \<longrightarrow> 0 < cmp k (key x)"
      using cmp_flip [OF ox assms(2)] by simp
  qed
  then show ?thesis unfolding searchable_def by (rule sorted_wrt_mono_rel [OF _ s])
qed

lemma off_key:
  assumes "ok k" and "\<forall>x\<in>set xs. cmp k (key x) \<noteq> 0"
  shows "map_of (map (\<lambda>d. (key d, d)) xs) k = None"
  unfolding map_of_keys_None using assms cmp_refl by fastforce

lemma found_map:
  assumes "tree_ok cmp ok key t" and "ok k" and "descend (\<lambda>d. cmp k (key d)) t [] = (st, t')"
  shows "tree_map key t k = (case t' of Null \<Rightarrow> None | Node l b d r \<Rightarrow> Some d)"
proof -
  note dr = descend_root [OF tree_ok_searchable [OF assms(1,2)] assms(3)]
  have ok: "ok (key d)" if "d \<in> set (inorder t)" for d using assms(1) that by (simp add: tree_ok_def)
  show ?thesis
  proof (cases t')
    case Null
    have "\<forall>d\<in>set (inorder t). cmp k (key d) \<noteq> 0"
      using dr(3,4) Null by (auto simp: dr(2))
    with off_key [OF assms(2)] Null show ?thesis by (simp add: tree_map_def)
  next
    case (Node l b d r)
    with dr(5) have z: "cmp k (key d) = 0" and l: "\<forall>x\<in>set (inorder l). 0 < cmp k (key x)" by auto
    have "d \<in> set (inorder t)" using dr(2) Node by simp
    with z ok assms(2) have "key d = k" using cmp_zero by blast
    moreover have "\<forall>x\<in>set (before st @ inorder l). cmp k (key x) \<noteq> 0"
      using dr(3) l by auto
    then have "map_of (map (\<lambda>d. (key d, d)) (before st @ inorder l)) k = None"
      by (rule off_key [OF assms(2)])
    ultimately show ?thesis using dr(2) Node
      by (auto simp: tree_map_def map_add_def simp del: map_of_eq_None_iff split: option.splits)
  qed
qed

lemma lookup_map:
  assumes "tree_ok cmp ok key t" and "ok k"
  shows "lookup_node (\<lambda>d. cmp k (key d)) t = tree_map key t k"
  using found_map [OF assms prod.collapse [symmetric]] lookup_node_descend [of _ t "[]"] by simp

lemma insert_ok:
  assumes t: "tree_ok cmp ok key t" and d: "ok (key d)"
    and des: "descend (\<lambda>x. cmp (key d) (key x)) t [] = (st, Null)"
  shows "\<exists>t'. insertion_rotation st (Node Null 0 d Null) True = Some t' \<and> tree_ok cmp ok key t' \<and>
           tree_map key t' = (tree_map key t)(key d \<mapsto> d) \<and>
           mset (inorder t') = add_mset d (mset (inorder t))"
proof -
  note dr = descend_root [OF tree_ok_searchable [OF t d] des]
  have ok: "ok (key x)" if "x \<in> set (before st @ after st)" for x
    using t that dr(2) by (auto simp: tree_ok_def)
  have "stack_ok st 0" using t dr(1) avl_unwind [of st Null] by (auto simp: tree_ok_def)
  then obtain t' where t': "insertion_rotation st (Node Null 0 d Null) True = Some t'" "avl t'"
      "inorder t' = before st @ d # after st"
    using insertion_rotation_ok [of "Node Null 0 d Null" 0 st] by (auto simp: inorder_unwind)
  have "\<forall>x\<in>set (before st). cmp (key x) (key d) < 0"
    using dr(3) ok d cmp_flip by fastforce
  with dr(4) t dr(2) have "sorted_wrt (\<lambda>x y. cmp (key x) (key y) < 0) (inorder t')"
    by (auto simp: tree_ok_def t'(3) sorted_wrt_append)
  with t' ok d have "tree_ok cmp ok key t'" by (auto simp: tree_ok_def)
  moreover have "\<forall>x\<in>set (before st). cmp (key d) (key x) \<noteq> 0" using dr(3) by auto
  then have "map_of (map (\<lambda>d. (key d, d)) (before st)) (key d) = None" by (rule off_key [OF d])
  then have "tree_map key t' = (tree_map key t)(key d \<mapsto> d)"
    by (auto simp: tree_map_def t'(3) dr(2) map_add_def fun_eq_iff simp del: map_of_eq_None_iff
          split: option.splits)
  moreover have "mset (inorder t') = add_mset d (mset (inorder t))" by (simp add: t'(3) dr(2))
  ultimately show ?thesis using t'(1) by blast
qed

lemma remove_ok:
  assumes t: "tree_ok cmp ok key t" and k: "ok k"
    and des: "descend (\<lambda>x. cmp k (key x)) t [] = (st, Node l b d r)"
  shows "\<exists>t'. unlink_node st (Node l b d r) = Some t' \<and> tree_ok cmp ok key t' \<and>
           tree_map key t' = (tree_map key t)(k := None) \<and>
           add_mset d (mset (inorder t')) = mset (inorder t)"
proof -
  note dr = descend_root [OF tree_ok_searchable [OF t k] des]
  have "avl (unwind st (Node l b d r))" using t dr(1) by (simp add: tree_ok_def)
  then obtain t' where t': "unlink_node st (Node l b d r) = Some t'" "avl t'"
      "inorder t' = before st @ inorder l @ inorder r @ after st"
    using unlink_node_ok [of st l b d r] by auto
  have i: "inorder t = before st @ inorder l @ d # inorder r @ after st" using dr(2) by simp
  have kd: "key d = k"
    using found_map [OF t k des] map_of_keys_Some by (fastforce simp: tree_map_def)
  have "tree_ok cmp ok key t'"
    using t t' i by (auto simp: tree_ok_def sorted_wrt_append)
  moreover have "\<forall>x\<in>set (before st @ inorder l @ inorder r @ after st). cmp k (key x) \<noteq> 0"
    using dr(3-5) by auto
  then have "map_of (map (\<lambda>d. (key d, d)) (inorder t')) k = None"
    unfolding t'(3) by (rule off_key [OF k])
  then have "tree_map key t' = (tree_map key t)(k := None)"
    unfolding tree_map_def fun_eq_iff
    using kd by (auto simp: t'(3) i map_add_def simp del: map_of_eq_None_iff split: option.splits)
  moreover have "add_mset d (mset (inorder t')) = mset (inorder t)" by (simp add: t'(3) i)
  ultimately show ?thesis using t'(1) by blast
qed

end

end
