(* ===== verification/Node_Terms.thy ===== *)
theory Node_Terms
  imports Prelude
begin

section \<open>Atoms and node containers, and their order\<close>

text \<open>
  The terms that key the trees of erl\_monitors.c: atoms, and the node containers (pids, ports
  and references), internal or external, and small integers, which key maps, with the part of the comparison \<open>erts_cmp\<close> of
  utils.c that orders them. An internal container belongs to \<open>erts_this_node\<close>, which is
  the parameter \<open>this\<close>. A node is its interned entry of the node table, so two nodes are the
  same entry when name and creation agree.
\<close>

record erl_node =
  sysname :: "byte list"
  creation :: Uint32

datatype eterm =
    Atom "byte list"
  | Pid Uint
  | ExternalPid erl_node Uint
  | Port Uint
  | ExternalPort erl_node Uint
  | Ref "Uint32 list"
  | ExternalRef erl_node "Uint32 list"
  | NilTerm
  | Small Uint

text \<open>The tags of erl\_term.h that fit the term order.\<close>

fun tag_val_def :: "eterm \<Rightarrow> int" where
  "tag_val_def NilTerm = 2"
| "tag_val_def (Pid _) = 5"
| "tag_val_def (ExternalPid _ _) = 6"
| "tag_val_def (Port _) = 7"
| "tag_val_def (ExternalPort _ _) = 8"
| "tag_val_def (Ref _) = 11"
| "tag_val_def (ExternalRef _ _) = 12"
| "tag_val_def (Atom _) = 13"
| "tag_val_def (Small _) = 16"

subsection \<open>Atoms\<close>

text \<open>
  atom\_alloc stores in every atom the ordinal of its first three bytes and seven bits of the
  fourth; cmp\_atoms compares these first and the rest of the names (from the fourth byte on)
  with cmpbytes, whose lengths may be negative here.
\<close>

definition atom_byte :: "byte list \<Rightarrow> nat \<Rightarrow> int" where
  "atom_byte name i = (if i < length name then uint (name ! i) else 0)"

definition atom_ord0 :: "byte list \<Rightarrow> int" where
  "atom_ord0 name = push_bit 23 (atom_byte name 0) + push_bit 15 (atom_byte name 1) +
     push_bit 7 (atom_byte name 2) + drop_bit 1 (atom_byte name 3)"

function cmpbytes_from :: "nat \<Rightarrow> byte list \<Rightarrow> int \<Rightarrow> byte list \<Rightarrow> int \<Rightarrow> int" where
  "cmpbytes_from i s1 l1 s2 l2 =
     (if int i < l1 \<and> int i < l2 then
        (if s1 ! i < s2 ! i then - 1
         else if s1 ! i > s2 ! i then 1
         else cmpbytes_from (Suc i) s1 l1 s2 l2)
      else if l1 < l2 then - 1 else if l1 > l2 then 1 else 0)"
  by pat_completeness auto
termination
  by (relation "measure (\<lambda>(i, s1, l1, s2, l2). nat (l1 - int i))") auto

declare cmpbytes_from.simps [simp del]

definition cmpbytes :: "byte list \<Rightarrow> int \<Rightarrow> byte list \<Rightarrow> int \<Rightarrow> int" where
  "cmpbytes s1 l1 s2 l2 = cmpbytes_from 0 s1 l1 s2 l2"

definition cmp_atoms :: "byte list \<Rightarrow> byte list \<Rightarrow> int" where
  "cmp_atoms aa bb =
     (let diff = atom_ord0 aa - atom_ord0 bb in
      if diff \<noteq> 0 then diff
      else cmpbytes (drop 3 aa) (int (length aa) - 3) (drop 3 bb) (int (length bb) - 3))"

subsection \<open>Node containers\<close>

definition cmp_nodes :: "erl_node \<Rightarrow> erl_node \<Rightarrow> int" where
  "cmp_nodes an bn =
     (if an \<noteq> bn then
        (if sysname an \<noteq> sysname bn then cmp_atoms (sysname an) (sysname bn)
         else if creation an < creation bn then - 1 else 1)
      else 0)"

definition port_common :: "erl_node \<Rightarrow> Uint \<Rightarrow> erl_node \<Rightarrow> Uint \<Rightarrow> int" where
  "port_common anode adata bnode bdata =
     (let j = cmp_nodes anode bnode in if j \<noteq> 0 then j else sint (adata - bdata))"

definition pid_common :: "erl_node \<Rightarrow> Uint \<Rightarrow> erl_node \<Rightarrow> Uint \<Rightarrow> int" where
  "pid_common anode adata bnode bdata =
     (if adata \<noteq> bdata then (if adata < bdata then - 1 else 1) else cmp_nodes anode bnode)"

fun cmp_numbers_down :: "(Uint32 \<times> Uint32) list \<Rightarrow> int" where
  "cmp_numbers_down [] = 0"
| "cmp_numbers_down ((x, y) # rest) = (if x \<noteq> y then sint (x - y) else cmp_numbers_down rest)"

definition ref_common :: "erl_node \<Rightarrow> Uint32 list \<Rightarrow> erl_node \<Rightarrow> Uint32 list \<Rightarrow> int" where
  "ref_common anode anum bnode bnum =
     (let j = cmp_nodes anode bnode; alen = length anum; blen = length bnum in
      if j \<noteq> 0 then j
      else if alen > blen \<and> list_ex (\<lambda>n. n \<noteq> 0) (drop blen anum) then 1
      else if blen > alen \<and> list_ex (\<lambda>n. n \<noteq> 0) (drop alen bnum) then - 1
      else cmp_numbers_down (rev (zip anum bnum)))"

text \<open>The difference of two small integers, as words of the machine.\<close>

definition cmp_small :: "Uint \<Rightarrow> Uint \<Rightarrow> int" where
  "cmp_small a b = sint (a - b)"

text \<open>erts\_cmp on these types; terms of different types are ordered by their tags.\<close>

fun cmp_term :: "erl_node \<Rightarrow> eterm \<Rightarrow> eterm \<Rightarrow> int" where
  "cmp_term this (Atom a) (Atom b) = (if a = b then 0 else cmp_atoms a b)"
| "cmp_term this (Port a) (Port b) = (if a = b then 0 else port_common this a this b)"
| "cmp_term this (Port a) (ExternalPort n b) = port_common this a n b"
| "cmp_term this (ExternalPort m a) (Port b) = port_common m a this b"
| "cmp_term this (ExternalPort m a) (ExternalPort n b) = port_common m a n b"
| "cmp_term this (Pid a) (Pid b) = (if a = b then 0 else pid_common this a this b)"
| "cmp_term this (Pid a) (ExternalPid n b) = pid_common this a n b"
| "cmp_term this (ExternalPid m a) (Pid b) = pid_common m a this b"
| "cmp_term this (ExternalPid m a) (ExternalPid n b) = pid_common m a n b"
| "cmp_term this (Ref a) (Ref b) = ref_common this a this b"
| "cmp_term this (Ref a) (ExternalRef n b) = ref_common this a n b"
| "cmp_term this (ExternalRef m a) (Ref b) = ref_common m a this b"
| "cmp_term this (ExternalRef m a) (ExternalRef n b) = ref_common m a n b"
| "cmp_term this (Small a) (Small b) = (if a = b then 0 else cmp_small a b)"
| "cmp_term this a b = tag_val_def b - tag_val_def a"

subsection \<open>cmp\_atoms is the order of the names\<close>

lemma cmpbytes_from_lexcmp:
  "cmpbytes_from i s1 (int (length s1)) s2 (int (length s2)) = lexcmp (drop i s1) (drop i s2)"
  if "i \<le> length s1" "i \<le> length s2"
  using that
proof (induction i s1 "int (length s1)" s2 "int (length s2)" rule: cmpbytes_from.induct)
  case (1 i s1 s2)
  show ?case
  proof (cases "i < length s1 \<and> i < length s2")
    case True
    then have "drop i s1 = s1 ! i # drop (Suc i) s1" and "drop i s2 = s2 ! i # drop (Suc i) s2"
      by (simp_all add: Cons_nth_drop_Suc)
    with True 1 show ?thesis by (subst cmpbytes_from.simps) auto
  next
    case False
    with 1(2,3) show ?thesis
      by (subst cmpbytes_from.simps) (cases "drop i s1"; cases "drop i s2"; auto)
  qed
qed

lemma cmpbytes_negative:
  "l1 \<le> 0 \<or> l2 \<le> 0 \<Longrightarrow> cmpbytes s1 l1 s2 l2 = (if l1 < l2 then - 1 else if l1 > l2 then 1 else 0)"
  unfolding cmpbytes_def by (subst cmpbytes_from.simps) auto

lemma sgn_radix:
  fixes a r m :: int
  assumes "\<bar>r\<bar> < m"
  shows "sgn (a * m + r) = (if a = 0 then sgn r else sgn a)"
proof (cases "0 < a")
  case True
  with assms have "m \<le> a * m" using mult_right_mono [of 1 a m] by simp
  with assms True show ?thesis by (simp add: sgn_if)
next
  case False
  show ?thesis
  proof (cases "a = 0")
    case False
    with \<open>\<not> 0 < a\<close> have "a \<le> - 1" by simp
    with assms have "a * m \<le> - m" using mult_right_mono [of a "- 1" m] by simp
    with assms have "a * m + r < 0" by linarith
    with \<open>\<not> 0 < a\<close> False show ?thesis by (simp add: sgn_if)
  qed simp
qed

lemma atom_byte_range: "0 \<le> atom_byte n i" "atom_byte n i \<le> 255"
  using uint_lt2p [of "n ! i"] by (auto simp: atom_byte_def)

lemma half_byte_range: "0 \<le> x \<Longrightarrow> x \<le> 255 \<Longrightarrow> 0 \<le> x div 2 \<and> x div 2 \<le> (127::int)"
  by presburger

lemma uint_pos_iff: "0 < uint x \<longleftrightarrow> uint x \<noteq> 0"
  by (simp add: order.strict_iff_order)

lemma ord0_diff_sgn:
  "sgn (atom_ord0 a - atom_ord0 b) =
     (let d = \<lambda>i. sgn (atom_byte a i - atom_byte b i) in
      if d 0 \<noteq> 0 then d 0 else if d 1 \<noteq> 0 then d 1 else if d 2 \<noteq> 0 then d 2
      else sgn (atom_byte a 3 div 2 - atom_byte b 3 div 2))"
proof -
  define d where "d i = atom_byte a i - atom_byte b i" for i
  define e where "e = atom_byte a 3 div 2 - atom_byte b 3 div 2"
  have e: "\<bar>e\<bar> < 128"
    using half_byte_range [OF atom_byte_range, of a 3] half_byte_range [OF atom_byte_range, of b 3]
    unfolding e_def by linarith
  have d: "\<bar>d i\<bar> \<le> 255" for i
    using atom_byte_range [of a i] atom_byte_range [of b i] unfolding d_def by linarith
  have 1: "\<bar>d 2 * 128 + e\<bar> < 32768" using d [of 2] e by linarith
  have 2: "\<bar>d 1 * 32768 + (d 2 * 128 + e)\<bar> < 8388608" using d [of 1] 1 by linarith
  have "atom_ord0 a - atom_ord0 b = d 0 * 8388608 + (d 1 * 32768 + (d 2 * 128 + e))"
    by (simp add: atom_ord0_def d_def e_def push_bit_eq_mult drop_bit_eq_div algebra_simps)
  then have "sgn (atom_ord0 a - atom_ord0 b) =
      (if d 0 \<noteq> 0 then sgn (d 0) else if d 1 \<noteq> 0 then sgn (d 1)
       else if d 2 \<noteq> 0 then sgn (d 2) else sgn e)"
    using sgn_radix [OF 2, of "d 0"] sgn_radix [OF 1, of "d 1"] sgn_radix [OF e, of "d 2"] by simp
  then show ?thesis by (simp add: Let_def sgn_0_0 d_def e_def)
qed

lemma lexcmp_Nil [simp]:
  "lexcmp [] ys = (if ys = [] then 0 else - 1)" "lexcmp xs [] = (if xs = [] then 0 else 1)"
  by (cases ys; simp) (cases xs; simp)

lemma sgn_lexcmp [simp]: "sgn (lexcmp a b) = lexcmp a b"
  by (induction a b rule: lexcmp.induct) auto

lemma atom_byte_Cons [simp]:
  "atom_byte (x # xs) 0 = uint x" "atom_byte (x # xs) (Suc i) = atom_byte xs i" "atom_byte [] i = 0"
  by (auto simp: atom_byte_def)

text \<open>The bytes before the fourth decide as the padded ordinals do.\<close>

lemma lexcmp_step:
  "lexcmp a b =
     (if atom_byte a 0 \<noteq> atom_byte b 0 then sgn (atom_byte a 0 - atom_byte b 0)
      else if a = [] \<or> b = [] then sgn (int (length a) - int (length b))
      else lexcmp (tl a) (tl b))"
proof (cases a; cases b)
  fix x xs y ys assume "a = x # xs" "b = y # ys"
  then show ?thesis by (auto simp: word_less_alt sgn_if word_uint_eq_iff)
next
  fix y ys assume "a = []" "b = y # ys"
  then show ?thesis using uint_ge_0 [of y] by (auto simp: sgn_if)
next
  fix x xs assume "a = x # xs" "b = []"
  then show ?thesis by (auto simp: sgn_if uint_pos_iff)
qed auto

lemma lexcmp_drop3:
  assumes "3 \<le> length a" "3 \<le> length b"
  shows "lexcmp a b =
     (let d = \<lambda>i. sgn (atom_byte a i - atom_byte b i) in
      if d 0 \<noteq> 0 then d 0 else if d 1 \<noteq> 0 then d 1 else if d 2 \<noteq> 0 then d 2
      else lexcmp (drop 3 a) (drop 3 b))"
proof -
  from assms obtain x y z xs u v w ys where "a = x # y # z # xs" "b = u # v # w # ys"
    by (auto simp: numeral_3_eq_3 Suc_le_length_iff)
  then show ?thesis
    by (auto simp: Let_def word_less_alt word_uint_eq_iff sgn_if numeral_2_eq_2 numeral_3_eq_3)
qed

lemma lexcmp_short:
  assumes "length a < 3"
  shows "lexcmp a b =
     (let d = \<lambda>i. sgn (atom_byte a i - atom_byte b i) in
      if d 0 \<noteq> 0 then d 0 else if d 1 \<noteq> 0 then d 1 else if d 2 \<noteq> 0 then d 2
      else sgn (int (length a) - int (length b)))"
proof -
  from assms consider "a = []" | x where "a = [x]" | x y where "a = [x, y]"
    by (cases a rule: remdups_adj.cases; auto simp: numeral_3_eq_3)
  then show ?thesis
  proof cases
    case 1
    then show ?thesis
      by (cases b rule: remdups_adj.cases) (auto simp: Let_def sgn_if numeral_2_eq_2 uint_pos_iff atom_byte_range leD)
  next
    case (2 x)
    then show ?thesis
      by (cases b rule: remdups_adj.cases)
         (auto simp: Let_def word_less_alt word_uint_eq_iff sgn_if numeral_2_eq_2 uint_pos_iff atom_byte_range leD)
  next
    case (3 x y)
    then show ?thesis
      by (cases b rule: remdups_adj.cases)
         (auto simp: Let_def word_less_alt word_uint_eq_iff sgn_if numeral_2_eq_2 uint_pos_iff atom_byte_range leD)
  qed
qed

lemma sgn_half: "sgn (x div 2 - y div 2) \<noteq> 0 \<Longrightarrow> sgn (x div 2 - y div 2) = sgn (x - (y::int))"
  by (auto simp: sgn_if)

lemma cmp_atoms_short:
  assumes "length a < 3 \<or> length b < 3"
  shows "sgn (cmp_atoms a b) =
     (let d = \<lambda>i. sgn (atom_byte a i - atom_byte b i) in
      if d 0 \<noteq> 0 then d 0 else if d 1 \<noteq> 0 then d 1 else if d 2 \<noteq> 0 then d 2
      else sgn (int (length a) - int (length b)))"
proof -
  let ?e = "atom_byte a 3 div 2 - atom_byte b 3 div 2"
  have "cmpbytes (drop 3 a) (int (length a) - 3) (drop 3 b) (int (length b) - 3)
      = sgn (int (length a) - int (length b))"
    using assms by (subst cmpbytes_negative) (auto simp: sgn_if)
  moreover have "sgn ?e = sgn (int (length a) - int (length b))" if "?e \<noteq> 0"
  proof -
    have z: "length n < 3 \<Longrightarrow> atom_byte n 3 = 0" for n by (simp add: atom_byte_def)
    have n: "atom_byte n 3 div 2 \<noteq> 0 \<Longrightarrow> 3 < length n \<and> 0 < atom_byte n 3 div 2" for n
    proof -
      assume d: "atom_byte n 3 div 2 \<noteq> 0"
      then have "3 < length n" by (rule contrapos_np) (simp add: atom_byte_def)
      moreover from d have "0 < atom_byte n 3 div 2"
        using half_byte_range [OF atom_byte_range, of n 3] by linarith
      ultimately show ?thesis ..
    qed
    show ?thesis
    proof (cases "length a < 3")
      case True
      with that z [of a] n [of b] atom_byte_range(1) [of b 3] show ?thesis by (simp add: sgn_if leD)
    next
      case False
      with assms have "length b < 3" by simp
      with that z [of b] n [of a] atom_byte_range(1) [of a 3] show ?thesis by (simp add: sgn_if leD)
    qed
  qed
  ultimately show ?thesis
    using ord0_diff_sgn [of a b] by (cases "?e = 0") (auto simp: cmp_atoms_def Let_def sgn_0_0)
qed

lemma cmp_atoms_lexcmp: "sgn (cmp_atoms a b) = lexcmp a b"
proof (cases "3 \<le> length a \<and> 3 \<le> length b")
  case True
  then have rest: "cmpbytes (drop 3 a) (int (length a) - 3) (drop 3 b) (int (length b) - 3)
      = lexcmp (drop 3 a) (drop 3 b)"
    using cmpbytes_from_lexcmp [of 0 "drop 3 a" "drop 3 b"] by (simp add: cmpbytes_def of_nat_diff)
  have "lexcmp (drop 3 a) (drop 3 b) = sgn (atom_byte a 3 - atom_byte b 3)"
    if "atom_byte a 3 div 2 \<noteq> atom_byte b 3 div 2"
  proof -
    have "atom_byte (drop 3 n) 0 = atom_byte n 3" for n by (auto simp: atom_byte_def)
    with that lexcmp_step [of "drop 3 a" "drop 3 b"] show ?thesis by auto
  qed
  moreover have "sgn (atom_byte a 3 div 2 - atom_byte b 3 div 2) = sgn (atom_byte a 3 - atom_byte b 3)"
    if "atom_byte a 3 div 2 \<noteq> atom_byte b 3 div 2"
    using that sgn_half [of "atom_byte a 3" "atom_byte b 3"] by (simp add: sgn_0_0)
  ultimately have tail: "lexcmp (drop 3 a) (drop 3 b) = sgn (atom_byte a 3 div 2 - atom_byte b 3 div 2)"
    if "atom_byte a 3 div 2 \<noteq> atom_byte b 3 div 2" using that by simp
  note lex = lexcmp_drop3 [of a b, OF conjunct1 [OF True] conjunct2 [OF True], unfolded Let_def]
  note ord = ord0_diff_sgn [of a b, unfolded Let_def]
  show ?thesis
  proof (cases "atom_ord0 a = atom_ord0 b")
    case True
    with ord have "atom_byte a 0 = atom_byte b 0" "atom_byte a 1 = atom_byte b 1"
      "atom_byte a 2 = atom_byte b 2" by (auto simp: sgn_0_0 split: if_splits)
    with lex rest True show ?thesis by (simp add: cmp_atoms_def)
  next
    case False
    then have "sgn (cmp_atoms a b) = sgn (atom_ord0 a - atom_ord0 b)" by (simp add: cmp_atoms_def)
    also have "\<dots> = lexcmp a b"
    proof (cases "atom_byte a 3 div 2 = atom_byte b 3 div 2")
      case True
      with False ord have "\<not> (atom_byte a 0 = atom_byte b 0 \<and> atom_byte a 1 = atom_byte b 1 \<and>
          atom_byte a 2 = atom_byte b 2)" by (auto simp: sgn_0_0 split: if_splits)
      then show ?thesis unfolding ord lex by (auto simp: sgn_0_0)
    next
      case False
      show ?thesis unfolding ord lex tail [OF False] ..
    qed
    finally show ?thesis .
  qed
next
  case False
  then consider "length a < 3" | "length b < 3" by linarith
  then show ?thesis
  proof cases
    case 1
    with lexcmp_short [OF 1, of b] cmp_atoms_short [of a b] show ?thesis by simp
  next
    case 2
    have neg: "sgn (x - y) = - sgn (y - x)" for x y :: int by (simp add: sgn_if)
    have "lexcmp a b = - lexcmp b a" by (rule lexcmp_flip)
    with lexcmp_short [OF 2, of a] cmp_atoms_short [of a b] 2 show ?thesis
      by (auto simp: Let_def neg [of "atom_byte a _" "atom_byte b _"] neg [of "int (length a)"])
  qed
qed

interpretation atoms: comparator cmp_atoms "\<lambda>_. True"
proof unfold_locales
  fix a b c :: "byte list"
  have z: "cmp_atoms x y = 0 \<longleftrightarrow> lexcmp x y = 0" for x y
    using cmp_atoms_lexcmp [of x y] by (metis sgn_0_0 sgn_0)
  have n: "cmp_atoms x y < 0 \<longleftrightarrow> lexcmp x y < 0" for x y
    using cmp_atoms_lexcmp [of x y] by (metis sgn_less sgn_lexcmp)
  have p: "0 < cmp_atoms x y \<longleftrightarrow> 0 < lexcmp x y" for x y
    using cmp_atoms_lexcmp [of x y] by (metis sgn_greater sgn_lexcmp)
  show "cmp_atoms a b = 0 \<longleftrightarrow> a = b" by (simp add: z lexcmp_zero)
  show "cmp_atoms a b < 0 \<longleftrightarrow> 0 < cmp_atoms b a" by (simp add: n p lexcmp.cmp_flip)
  show "cmp_atoms a b < 0 \<Longrightarrow> cmp_atoms b c < 0 \<Longrightarrow> cmp_atoms a c < 0"
    using lexcmp_trans by (simp add: n) blast
qed

subsection \<open>The order of node containers\<close>

interpretation nodes: comparator cmp_nodes "\<lambda>_. True"
proof unfold_locales
  fix a b c :: erl_node
  have ne: "a = b \<longleftrightarrow> sysname a = sysname b \<and> creation a = creation b" for a b :: erl_node
    by (cases a; cases b) simp
  show "cmp_nodes a b = 0 \<longleftrightarrow> a = b"
    by (auto simp: cmp_nodes_def atoms.cmp_zero)
  show "cmp_nodes a b < 0 \<longleftrightarrow> 0 < cmp_nodes b a"
    by (auto simp: cmp_nodes_def atoms.cmp_flip ne)
  show "cmp_nodes a b < 0 \<Longrightarrow> cmp_nodes b c < 0 \<Longrightarrow> cmp_nodes a c < 0"
    using atoms.cmp_trans [of "sysname a" "sysname b" "sysname c"]
      atoms.cmp_flip [of "sysname a" "sysname b"] atoms.cmp_zero [of "sysname a" "sysname c"]
    by (auto simp: cmp_nodes_def ne atoms.cmp_flip split: if_splits)
qed

text \<open>
  The containers the order is used on: an external container names another node, and the data
  word of a pid or port is the 60 bits an immediate has room for. Reference numbers are three
  words below \<open>2 ^ 31\<close>; outside that range the comparison of references is no order
  (see \<open>cmp_refs_cyclic\<close>).
\<close>

fun term_ok :: "erl_node \<Rightarrow> eterm \<Rightarrow> bool" where
  "term_ok this (Pid d) = (d < 2 ^ 60)"
| "term_ok this (ExternalPid n d) = (n \<noteq> this \<and> d < 2 ^ 60)"
| "term_ok this (Port d) = (d < 2 ^ 60)"
| "term_ok this (ExternalPort n d) = (n \<noteq> this \<and> d < 2 ^ 60)"
| "term_ok this (Ref ns) = (length ns = 3 \<and> (\<forall>n\<in>set ns. n < 2 ^ 31))"
| "term_ok this (ExternalRef m ns) = (m \<noteq> this \<and> length ns = 3 \<and> (\<forall>n\<in>set ns. n < 2 ^ 31))"
| "term_ok this (Small i) = (- (2 ^ 59) \<le> sint i \<and> sint i < 2 ^ 59)"
| "term_ok this _ = True"

lemma sint_diff_small:
  fixes x y :: "'a::len word"
  assumes "uint x < 2 ^ (LENGTH('a) - 1)" and "uint y < 2 ^ (LENGTH('a) - 1)"
  shows "sint (x - y) = uint x - uint y"
proof -
  have "sint (x - y) = signed_take_bit (LENGTH('a) - 1) (uint (x - y))"
    by (simp add: sint_uint)
  also have "\<dots> = signed_take_bit (LENGTH('a) - 1) (uint x - uint y)"
    by (simp add: uint_word_ariths take_bit_eq_mod [symmetric] signed_take_bit_take_bit)
  also have "\<dots> = uint x - uint y"
    using assms uint_ge_0 [of x] uint_ge_0 [of y] by (intro signed_take_bit_int_eq_self) linarith+
  finally show ?thesis .
qed

lemma port_data_diff:
  fixes a b :: Uint
  assumes "a < 2 ^ 60" and "b < 2 ^ 60"
  shows "sint (a - b) = uint a - uint b"
  using assms by (intro sint_diff_small) (auto simp: word_less_alt)

lemma ref_number_diff:
  fixes a b :: Uint32
  assumes "a < 2 ^ 31" and "b < 2 ^ 31"
  shows "sint (a - b) = uint a - uint b"
  using assms by (intro sint_diff_small) (auto simp: word_less_alt)

lemma small_diff:
  fixes a b :: Uint
  assumes "- (2 ^ 59) \<le> sint a" "sint a < 2 ^ 59" "- (2 ^ 59) \<le> sint b" "sint b < 2 ^ 59"
  shows "sint (a - b) = sint a - sint b"
proof -
  have "sint (a - b) = sint (word_of_int (sint a - sint b) :: Uint)" by simp
  also have "\<dots> = signed_take_bit 63 (sint a - sint b)" unfolding signed_of_int by simp
  also have "\<dots> = sint a - sint b" using assms by (intro signed_take_bit_int_eq_self) simp_all
  finally show ?thesis .
qed

text \<open>On numbers in range the loop from the last number down is the order of the reversed lists.\<close>

lemma cmp_numbers_lexcmp:
  assumes "length as = length bs" and "\<forall>n\<in>set as. n < 2 ^ 31" and "\<forall>n\<in>set bs. n < 2 ^ 31"
  shows "sgn (cmp_numbers_down (zip as bs)) = lexcmp as bs"
  using assms
proof (induction as bs rule: list_induct2)
  case (Cons x xs y ys)
  then show ?case
    by (auto simp: ref_number_diff word_less_alt word_uint_eq_iff sgn_if)
qed simp

text \<open>A term with its node made explicit: what the order of containers depends on.\<close>

datatype term_key =
  KAtom "byte list" | KPort "erl_node \<times> Uint" | KPid "Uint \<times> erl_node" | KRef "erl_node \<times> Uint32 list" | KNil | KSmall Uint

fun key_of :: "erl_node \<Rightarrow> eterm \<Rightarrow> term_key" where
  "key_of this (Atom a) = KAtom a"
| "key_of this (Pid d) = KPid (d, this)"
| "key_of this (ExternalPid n d) = KPid (d, n)"
| "key_of this (Port d) = KPort (this, d)"
| "key_of this (ExternalPort n d) = KPort (n, d)"
| "key_of this (Ref ns) = KRef (this, ns)"
| "key_of this (ExternalRef n ns) = KRef (n, ns)"
| "key_of this NilTerm = KNil"
| "key_of this (Small i) = KSmall i"

definition cmp_pid_data :: "Uint \<Rightarrow> Uint \<Rightarrow> int" where
  "cmp_pid_data a b = (if a \<noteq> b then (if a < b then - 1 else 1) else 0)"

definition cmp_port_data :: "Uint \<Rightarrow> Uint \<Rightarrow> int" where
  "cmp_port_data a b = sint (a - b)"

definition cmp_ref_numbers :: "Uint32 list \<Rightarrow> Uint32 list \<Rightarrow> int" where
  "cmp_ref_numbers a b = cmp_numbers_down (rev (zip a b))"

definition small_ok :: "Uint \<Rightarrow> bool" where
  "small_ok i \<longleftrightarrow> - (2 ^ 59) \<le> sint i \<and> sint i < 2 ^ 59"

definition ref_numbers_ok :: "Uint32 list \<Rightarrow> bool" where
  "ref_numbers_ok ns \<longleftrightarrow> length ns = 3 \<and> (\<forall>n\<in>set ns. n < 2 ^ 31)"

interpretation ports: comparator_pair cmp_nodes "\<lambda>_. True" cmp_port_data "\<lambda>d. d < 2 ^ 60"
proof unfold_locales
  fix a b c :: Uint
  assume a: "a < 2 ^ 60" and b: "b < 2 ^ 60"
  show "cmp_port_data a b = 0 \<longleftrightarrow> a = b"
    using a b by (simp add: cmp_port_data_def port_data_diff word_uint_eq_iff)
  show "cmp_port_data a b < 0 \<longleftrightarrow> 0 < cmp_port_data b a"
    using a b by (simp add: cmp_port_data_def port_data_diff)
  assume "c < 2 ^ 60" and "cmp_port_data a b < 0" and "cmp_port_data b c < 0"
  then show "cmp_port_data a c < 0"
    using a b by (simp add: cmp_port_data_def port_data_diff)
qed

interpretation smalls: comparator cmp_small small_ok
proof unfold_locales
  fix a b c :: Uint
  assume a: "small_ok a" and b: "small_ok b"
  have d: "cmp_small x y = sint x - sint y" if "small_ok x" "small_ok y" for x y
    using that by (simp add: cmp_small_def small_ok_def small_diff)
  show "cmp_small a b = 0 \<longleftrightarrow> a = b" using a b by (auto simp: d intro: signed_word_eqI)
  show "cmp_small a b < 0 \<longleftrightarrow> 0 < cmp_small b a" using a b by (simp add: d)
  assume "small_ok c" and "cmp_small a b < 0" and "cmp_small b c < 0"
  then show "cmp_small a c < 0" using a b by (simp add: d)
qed

interpretation pids: comparator_pair cmp_pid_data "\<lambda>d. d < 2 ^ 60" cmp_nodes "\<lambda>_. True"
  by unfold_locales (auto simp: cmp_pid_data_def split: if_splits)

lemma cmp_ref_numbers_lexcmp:
  "ref_numbers_ok a \<Longrightarrow> ref_numbers_ok b \<Longrightarrow> sgn (cmp_ref_numbers a b) = lexcmp (rev a) (rev b)"
  using cmp_numbers_lexcmp [of "rev a" "rev b"]
  by (simp add: cmp_ref_numbers_def ref_numbers_ok_def zip_rev)

interpretation refs: comparator_pair cmp_nodes "\<lambda>_. True" cmp_ref_numbers ref_numbers_ok
proof unfold_locales
  fix a b c :: "Uint32 list"
  assume a: "ref_numbers_ok a" and b: "ref_numbers_ok b"
  have z: "cmp_ref_numbers x y = 0 \<longleftrightarrow> lexcmp (rev x) (rev y) = 0"
    and n: "cmp_ref_numbers x y < 0 \<longleftrightarrow> lexcmp (rev x) (rev y) < 0"
    and p: "0 < cmp_ref_numbers x y \<longleftrightarrow> 0 < lexcmp (rev x) (rev y)"
    if "ref_numbers_ok x" "ref_numbers_ok y" for x y
    unfolding cmp_ref_numbers_lexcmp [OF that, symmetric] by (simp_all add: sgn_0_0)
  show "cmp_ref_numbers a b = 0 \<longleftrightarrow> a = b" using a b by (simp add: z lexcmp_zero)
  show "cmp_ref_numbers a b < 0 \<longleftrightarrow> 0 < cmp_ref_numbers b a"
    using a b by (simp add: n p lexcmp.cmp_flip [of "rev a"])
  assume c: "ref_numbers_ok c" and ab: "cmp_ref_numbers a b < 0" and bc: "cmp_ref_numbers b c < 0"
  from ab bc show "cmp_ref_numbers a c < 0"
    using lexcmp_trans [of "rev a" "rev b" "rev c"] a b c by (simp add: n)
qed

fun cmp_key :: "term_key \<Rightarrow> term_key \<Rightarrow> int" where
  "cmp_key (KAtom a) (KAtom b) = cmp_atoms a b"
| "cmp_key (KPort a) (KPort b) = lex_pair cmp_nodes cmp_port_data a b"
| "cmp_key (KPid a) (KPid b) = lex_pair cmp_pid_data cmp_nodes a b"
| "cmp_key (KRef a) (KRef b) = lex_pair cmp_nodes cmp_ref_numbers a b"
| "cmp_key (KSmall a) (KSmall b) = cmp_small a b"
| "cmp_key KNil b = (if b = KNil then 0 else 1)"
| "cmp_key a KNil = - 1"
| "cmp_key (KPid a) b = 1"
| "cmp_key a (KPid b) = - 1"
| "cmp_key (KPort a) b = 1"
| "cmp_key a (KPort b) = - 1"
| "cmp_key (KRef a) b = 1"
| "cmp_key a (KRef b) = - 1"
| "cmp_key (KSmall a) b = - 1"
| "cmp_key a (KSmall b) = 1"

fun key_ok :: "term_key \<Rightarrow> bool" where
  "key_ok (KPort p) = (snd p < 2 ^ 60)"
| "key_ok (KPid p) = (fst p < 2 ^ 60)"
| "key_ok (KRef p) = ref_numbers_ok (snd p)"
| "key_ok (KSmall i) = small_ok i"
| "key_ok _ = True"

interpretation keys: comparator cmp_key key_ok
proof unfold_locales
  fix a b c :: term_key
  assume a: "key_ok a" and b: "key_ok b"
  show "cmp_key a b = 0 \<longleftrightarrow> a = b"
    using a b by (cases a; cases b)
      (simp_all add: atoms.cmp_zero ports.lex.cmp_zero pids.lex.cmp_zero refs.lex.cmp_zero smalls.cmp_zero)
  show "cmp_key a b < 0 \<longleftrightarrow> 0 < cmp_key b a"
  proof (cases a)
    case (KAtom x)
    then show ?thesis by (cases b) (simp_all add: atoms.cmp_flip [of x])
  next
    case (KPort x)
    with a b show ?thesis by (cases b) (simp_all add: ports.lex.cmp_flip [of x])
  next
    case (KPid x)
    with a b show ?thesis by (cases b) (simp_all add: pids.lex.cmp_flip [of x])
  next
    case (KRef x)
    with a b show ?thesis by (cases b) (simp_all add: refs.lex.cmp_flip [of x])
  next
    case (KSmall x)
    with a b show ?thesis by (cases b) (simp_all add: smalls.cmp_flip [of x])
  next
    case KNil
    then show ?thesis by (cases b) simp_all
  qed
  assume c: "key_ok c" and ab: "cmp_key a b < 0" and bc: "cmp_key b c < 0"
  show "cmp_key a c < 0"
  proof (cases a)
    case (KAtom x)
    with ab bc show ?thesis
      by (cases b; cases c) (simp_all, blast intro: atoms.cmp_trans)
  next
    case (KPort x)
    with a b c ab bc show ?thesis
      by (cases b; cases c) (simp_all, blast intro: ports.lex.cmp_trans [simplified])
  next
    case (KPid x)
    with a b c ab bc show ?thesis
      by (cases b; cases c) (simp_all, blast intro: pids.lex.cmp_trans [simplified])
  next
    case (KRef x)
    with a b c ab bc show ?thesis
      by (cases b; cases c) (simp_all, blast intro: refs.lex.cmp_trans [simplified])
  next
    case (KSmall x)
    with a b c ab bc show ?thesis
      by (cases b; cases c) (simp_all, blast intro: smalls.cmp_trans)
  next
    case KNil
    with ab show ?thesis by (cases b) simp_all
  qed
qed

lemma port_common_key: "port_common m a n b = lex_pair cmp_nodes cmp_port_data (m, a) (n, b)"
  by (simp add: port_common_def lex_pair_def cmp_port_data_def Let_def)

lemma pid_common_key: "pid_common m a n b = lex_pair cmp_pid_data cmp_nodes (a, m) (b, n)"
  by (simp add: pid_common_def lex_pair_def cmp_pid_data_def)

lemma ref_common_key:
  "length a = length b \<Longrightarrow> ref_common m a n b = lex_pair cmp_nodes cmp_ref_numbers (m, a) (n, b)"
  by (simp add: ref_common_def lex_pair_def cmp_ref_numbers_def Let_def)

lemma cmp_term_key:
  assumes "term_ok this a" and "term_ok this b"
  shows "sgn (cmp_term this a b) = sgn (cmp_key (key_of this a) (key_of this b))"
  using assms
  by (cases a; cases b)
     (simp_all add: port_common_key pid_common_key ref_common_key lex_pair_def cmp_pid_data_def
       cmp_port_data_def cmp_small_def nodes.cmp_refl atoms.cmp_refl)

lemma key_of_ok: "term_ok this t \<Longrightarrow> key_ok (key_of this t)"
  by (cases t) (auto simp: ref_numbers_ok_def small_ok_def)

lemma key_of_inj: "term_ok this a \<Longrightarrow> term_ok this b \<Longrightarrow> key_of this a = key_of this b \<longleftrightarrow> a = b"
  by (cases a; cases b) auto

interpretation terms: comparator "cmp_term this" "term_ok this" for this
proof unfold_locales
  fix a b c
  have z: "cmp_term this x y = 0 \<longleftrightarrow> cmp_key (key_of this x) (key_of this y) = 0"
    and n: "cmp_term this x y < 0 \<longleftrightarrow> cmp_key (key_of this x) (key_of this y) < 0"
    and p: "0 < cmp_term this x y \<longleftrightarrow> 0 < cmp_key (key_of this x) (key_of this y)"
    if "term_ok this x" "term_ok this y" for x y
    using cmp_term_key [OF that] by (metis sgn_0_0, metis sgn_less, metis sgn_greater)
  assume a: "term_ok this a" and b: "term_ok this b"
  note ok = key_of_ok [OF a] key_of_ok [OF b]
  show "cmp_term this a b = 0 \<longleftrightarrow> a = b"
    using a b ok by (simp add: z keys.cmp_zero key_of_inj)
  show "cmp_term this a b < 0 \<longleftrightarrow> 0 < cmp_term this b a"
    using a b ok by (simp add: n p keys.cmp_flip [of "key_of this a"])
  assume c: "term_ok this c" and "cmp_term this a b < 0" and "cmp_term this b c < 0"
  with a b show "cmp_term this a c < 0"
    using keys.cmp_trans [OF ok key_of_ok [OF c]] by (simp add: n)
qed

subsection \<open>Properties\<close>



text \<open>
  C6: cmp\_atoms, which compares the stored ordinals of the first bytes before it compares the
  names from the fourth byte on, orders atoms exactly as their names are ordered byte by byte.
\<close>

theorem cmp_atoms_is_name_order: "sgn (cmp_atoms a b) = lexcmp a b"
  by (rule cmp_atoms_lexcmp)

text \<open>
  erts\_cmp is no order on references. It subtracts the 32-bit numbers and takes the sign of
  the wrapped difference, so numbers that lie more than 2^31 apart compare the wrong way round:
  there are three references of one node that the comparison puts in a cycle.
\<close>

theorem cmp_refs_cyclic:
  "\<exists>a b c. cmp_term this (Ref a) (Ref b) < 0 \<and> cmp_term this (Ref b) (Ref c) < 0 \<and>
           cmp_term this (Ref c) (Ref a) < 0 \<and> length a = 3 \<and> length b = 3 \<and> length c = 3"
  by (rule exI [of _ "[0, 0, 0]"], rule exI [of _ "[0, 0, 0x60000000]"], rule exI [of _ "[0, 0, 0xC0000000]"])
     (simp add: ref_common_def cmp_nodes_def)

end
