(* ===== verification/Monitors.thy ===== *)
theory Monitors
  imports Avl Node_Terms
begin

section \<open>Monitors and links: erl\_monitors.c\<close>

text \<open>
  The three kinds of node of erl\_monitors.h, the operations of erl\_monitors.c on their trees,
  and the two pieces of global state these touch: the size of the large nodes
  (tot\_link\_lh\_size) and the reference counts of the node table entries external containers
  point at. A fatal exit of the emulator and a NULL pointer followed are values of
  \<open>mon_error\<close>. Monitors are keyed by their reference, in the order of cmp\_mon\_ref;
  links and suspend monitors are keyed by their pid, in the order of \<open>cmp_term\<close>.
\<close>

datatype mon_error = Insertion_of_present_monitor | Null_pointer

record erts_monitor =
  mon_type :: Uint16
  mon_ref :: eterm
  mon_pid :: eterm
  mon_name :: eterm

datatype erts_link = ErtsLink (link_type: Uint16) (link_pid: eterm) (link_shared: link_shared)
     and link_shared = LinkRoot "erts_link mol" | LinkRefc Uint

record erts_suspend_monitor =
  smon_pending :: int
  smon_active :: int
  smon_pid :: eterm

record mon_globals =
  tot_link_lh_size :: Uint
  node_refc :: "erl_node \<Rightarrow> int"

definition LINK_NODE :: Uint16 where
  "LINK_NODE = 3"

subsection \<open>The order of monitor references\<close>

text \<open>
  Local references (three numbers after their count, in two words) are compared by memcmp, which
  sees the bytes of the words in memory order; they are all less than external ones, which are
  compared as terms.
\<close>

definition word_bytes :: "Uint32 \<Rightarrow> byte list" where
  "word_bytes w = map (\<lambda>i. ucast (drop_bit (8 * i) w)) [0..<4]"

definition ref_thing_bytes :: "Uint32 list \<Rightarrow> byte list" where
  "ref_thing_bytes ns = take 16 (concat (map word_bytes (of_nat (length ns) # ns)))"

fun cmp_mon_ref :: "erl_node \<Rightarrow> eterm \<Rightarrow> eterm \<Rightarrow> int" where
  "cmp_mon_ref this (Ref a) (Ref b) = lexcmp (ref_thing_bytes a) (ref_thing_bytes b)"
| "cmp_mon_ref this (Ref a) t = - 1"
| "cmp_mon_ref this t (Ref b) = 1"
| "cmp_mon_ref this t u = cmp_term this t u"

subsection \<open>Creating and destroying nodes\<close>

fun IS_CONST :: "eterm \<Rightarrow> bool" where
  "IS_CONST (Ref _) = False"
| "IS_CONST (ExternalPid _ _) = False"
| "IS_CONST (ExternalPort _ _) = False"
| "IS_CONST (ExternalRef _ _) = False"
| "IS_CONST _ = True"

text \<open>Heap words of a container: a RefThing has 3, an ExternalThing 3 and its data words.\<close>

fun NC_HEAP_SIZE :: "eterm \<Rightarrow> Uint" where
  "NC_HEAP_SIZE (Ref _) = 3"
| "NC_HEAP_SIZE (ExternalPid _ _) = 4"
| "NC_HEAP_SIZE (ExternalPort _ _) = 4"
| "NC_HEAP_SIZE (ExternalRef _ ns) = 3 + of_nat (length ns div 2 + 1)"
| "NC_HEAP_SIZE _ = 0"

definition ERTS_MONITOR_SIZE :: Uint where "ERTS_MONITOR_SIZE = 6"
definition ERTS_MONITOR_SH_SIZE :: Uint where "ERTS_MONITOR_SH_SIZE = ERTS_MONITOR_SIZE + 3"
definition ERTS_LINK_SIZE :: Uint where "ERTS_LINK_SIZE = 5"
definition ERTS_LINK_SH_SIZE :: Uint where "ERTS_LINK_SH_SIZE = ERTS_LINK_SIZE"

definition refc_add :: "int \<Rightarrow> erl_node \<Rightarrow> mon_globals \<Rightarrow> mon_globals" where
  "refc_add i n g = g\<lparr>node_refc := (node_refc g)(n := node_refc g n + i)\<rparr>"

text \<open>CP\_LINK\_VAL: a copied external container holds a reference to its node.\<close>

fun cp_link_val :: "eterm \<Rightarrow> mon_globals \<Rightarrow> mon_globals" where
  "cp_link_val (ExternalPid n _) g = refc_add 1 n g"
| "cp_link_val (ExternalPort n _) g = refc_add 1 n g"
| "cp_link_val (ExternalRef n _) g = refc_add 1 n g"
| "cp_link_val _ g = g"

text \<open>erts\_deref\_node\_entry on the node of an external container.\<close>

fun deref_node_of :: "eterm \<Rightarrow> mon_globals \<Rightarrow> mon_globals" where
  "deref_node_of (ExternalPid n _) g = refc_add (- 1) n g"
| "deref_node_of (ExternalPort n _) g = refc_add (- 1) n g"
| "deref_node_of (ExternalRef n _) g = refc_add (- 1) n g"
| "deref_node_of _ g = g"

definition monitor_words :: "eterm \<Rightarrow> eterm \<Rightarrow> Uint" where
  "monitor_words ref pid =
     ERTS_MONITOR_SIZE + NC_HEAP_SIZE ref + (if \<not> IS_CONST pid then NC_HEAP_SIZE pid else 0)"

definition create_monitor ::
  "Uint \<Rightarrow> eterm \<Rightarrow> eterm \<Rightarrow> eterm \<Rightarrow> mon_globals \<Rightarrow> erts_monitor \<times> mon_globals" where
  "create_monitor type ref pid name g =
     (let mon_size = monitor_words ref pid;
          g1 = (if mon_size \<le> ERTS_MONITOR_SH_SIZE then g
                else g\<lparr>tot_link_lh_size := tot_link_lh_size g + mon_size * 8\<rparr>)
      in (\<lparr>mon_type = ucast type, mon_ref = ref, mon_pid = pid, mon_name = name\<rparr>,
          cp_link_val pid (cp_link_val ref g1)))"

definition link_words :: "eterm \<Rightarrow> Uint" where
  "link_words pid = ERTS_LINK_SIZE + (if \<not> IS_CONST pid then NC_HEAP_SIZE pid else 0)"

definition create_link :: "Uint \<Rightarrow> eterm \<Rightarrow> mon_globals \<Rightarrow> erts_link \<times> mon_globals" where
  "create_link type pid g =
     (let lnk_size = link_words pid;
          g1 = (if lnk_size \<le> ERTS_LINK_SH_SIZE then g
                else g\<lparr>tot_link_lh_size := tot_link_lh_size g + lnk_size * 8\<rparr>)
      in (ErtsLink (ucast type) pid
            (if (ucast type :: Uint16) = LINK_NODE then LinkRefc 0 else LinkRoot Null),
          cp_link_val pid g1))"

definition create_suspend_monitor :: "eterm \<Rightarrow> erts_suspend_monitor" where
  "create_suspend_monitor pid = \<lparr>smon_pending = 0, smon_active = 0, smon_pid = pid\<rparr>"

definition erts_init_monitors :: "mon_globals \<Rightarrow> mon_globals" where
  "erts_init_monitors g = g\<lparr>tot_link_lh_size := 0\<rparr>"

definition erts_destroy_monitor :: "erts_monitor \<Rightarrow> mon_globals \<Rightarrow> mon_globals" where
  "erts_destroy_monitor mon g =
     (let mon_size = monitor_words (mon_ref mon) (mon_pid mon);
          g1 = deref_node_of (mon_pid mon) (deref_node_of (mon_ref mon) g)
      in if mon_size \<le> ERTS_MONITOR_SH_SIZE then g1
         else g1\<lparr>tot_link_lh_size := tot_link_lh_size g1 + - 1 * mon_size * 8\<rparr>)"

definition erts_destroy_link :: "erts_link \<Rightarrow> mon_globals \<Rightarrow> mon_globals" where
  "erts_destroy_link lnk g =
     (let lnk_size = link_words (link_pid lnk);
          g1 = deref_node_of (link_pid lnk) g
      in if lnk_size \<le> ERTS_LINK_SH_SIZE then g1
         else g1\<lparr>tot_link_lh_size := tot_link_lh_size g1 + - 1 * lnk_size * 8\<rparr>)"

subsection \<open>Adding\<close>

text \<open>The last lines of every adding operation: hang the new node at \<open>this\<close> and rebalance.\<close>

definition hang_node :: "'d frame list \<Rightarrow> 'd \<Rightarrow> mon_error + 'd mol" where
  "hang_node st d =
     (case insertion_rotation st (Node Null 0 d Null) True of
        None \<Rightarrow> Inl Null_pointer | Some t \<Rightarrow> Inr t)"

definition erts_add_monitor ::
  "erl_node \<Rightarrow> erts_monitor mol \<Rightarrow> Uint \<Rightarrow> eterm \<Rightarrow> eterm \<Rightarrow> eterm \<Rightarrow> mon_globals \<Rightarrow>
   mon_error + erts_monitor mol \<times> mon_globals" where
  "erts_add_monitor this root type ref pid name g =
     (case descend (\<lambda>m. cmp_mon_ref this ref (mon_ref m)) root [] of
        (st, Null) \<Rightarrow>
          (case create_monitor type ref pid name g of
             (m, g') \<Rightarrow> map_sum id (\<lambda>t. (t, g')) (hang_node st m))
      | (st, Node _ _ _ _) \<Rightarrow> Inl Insertion_of_present_monitor)"

text \<open>The int result: 0 if added, -1 if the key was present (and nothing is changed).\<close>

definition erts_add_link ::
  "erl_node \<Rightarrow> erts_link mol \<Rightarrow> Uint \<Rightarrow> eterm \<Rightarrow> mon_globals \<Rightarrow>
   mon_error + int \<times> erts_link mol \<times> mon_globals" where
  "erts_add_link this root type pid g =
     (case descend (\<lambda>l. cmp_term this pid (link_pid l)) root [] of
        (st, Null) \<Rightarrow>
          (case create_link type pid g of
             (l, g') \<Rightarrow> map_sum id (\<lambda>t. (0, t, g')) (hang_node st l))
      | (st, Node _ _ _ _) \<Rightarrow> Inr (- 1, root, g))"

definition erts_add_or_lookup_suspend_monitor ::
  "erl_node \<Rightarrow> erts_suspend_monitor mol \<Rightarrow> eterm \<Rightarrow>
   mon_error + erts_suspend_monitor \<times> erts_suspend_monitor mol" where
  "erts_add_or_lookup_suspend_monitor this root pid =
     (case descend (\<lambda>s. cmp_term this pid (smon_pid s)) root [] of
        (st, Null) \<Rightarrow>
          (let res = create_suspend_monitor pid in map_sum id (\<lambda>t. (res, t)) (hang_node st res))
      | (st, Node _ _ d _) \<Rightarrow> Inr (d, root))"

definition erts_add_or_lookup_link ::
  "erl_node \<Rightarrow> erts_link mol \<Rightarrow> Uint \<Rightarrow> eterm \<Rightarrow> mon_globals \<Rightarrow>
   mon_error + erts_link \<times> erts_link mol \<times> mon_globals" where
  "erts_add_or_lookup_link this root type pid g =
     (case descend (\<lambda>l. cmp_term this pid (link_pid l)) root [] of
        (st, Null) \<Rightarrow>
          (case create_link type pid g of
             (l, g') \<Rightarrow> map_sum id (\<lambda>t. (l, t, g')) (hang_node st l))
      | (st, Node _ _ d _) \<Rightarrow> Inr (d, root, g))"

subsection \<open>Removing\<close>

text \<open>The loops every removal consists of: the node found, if any, and the new tree.\<close>

definition take_node :: "('d \<Rightarrow> int) \<Rightarrow> 'd mol \<Rightarrow> mon_error + 'd option \<times> 'd mol" where
  "take_node c root =
     (case descend c root [] of
        (st, Null) \<Rightarrow> Inr (None, root)
      | (st, Node l b q r) \<Rightarrow>
          (case unlink_node st (Node l b q r) of
             None \<Rightarrow> Inl Null_pointer | Some t \<Rightarrow> Inr (Some q, t)))"

definition erts_remove_monitor ::
  "erl_node \<Rightarrow> erts_monitor mol \<Rightarrow> eterm \<Rightarrow> mon_error + erts_monitor option \<times> erts_monitor mol" where
  "erts_remove_monitor this root ref = take_node (\<lambda>m. cmp_mon_ref this ref (mon_ref m)) root"

definition erts_remove_link ::
  "erl_node \<Rightarrow> erts_link mol \<Rightarrow> eterm \<Rightarrow> mon_error + erts_link option \<times> erts_link mol" where
  "erts_remove_link this root pid = take_node (\<lambda>l. cmp_term this pid (link_pid l)) root"

definition erts_delete_suspend_monitor ::
  "erl_node \<Rightarrow> erts_suspend_monitor mol \<Rightarrow> eterm \<Rightarrow> mon_error + erts_suspend_monitor mol" where
  "erts_delete_suspend_monitor this root pid =
     map_sum id snd (take_node (\<lambda>s. cmp_term this pid (smon_pid s)) root)"

subsection \<open>Looking up and sweeping\<close>

definition erts_lookup_monitor :: "erl_node \<Rightarrow> erts_monitor mol \<Rightarrow> eterm \<Rightarrow> erts_monitor option" where
  "erts_lookup_monitor this root ref = lookup_node (\<lambda>m. cmp_mon_ref this ref (mon_ref m)) root"

definition erts_lookup_link :: "erl_node \<Rightarrow> erts_link mol \<Rightarrow> eterm \<Rightarrow> erts_link option" where
  "erts_lookup_link this root pid = lookup_node (\<lambda>l. cmp_term this pid (link_pid l)) root"

definition erts_lookup_suspend_monitor ::
  "erl_node \<Rightarrow> erts_suspend_monitor mol \<Rightarrow> eterm \<Rightarrow> erts_suspend_monitor option" where
  "erts_lookup_suspend_monitor this root pid = lookup_node (\<lambda>s. cmp_term this pid (smon_pid s)) root"

definition erts_sweep_monitors :: "erts_monitor mol \<Rightarrow> (erts_monitor \<Rightarrow> 'c \<Rightarrow> 'c) \<Rightarrow> 'c \<Rightarrow> 'c" where
  "erts_sweep_monitors root doit ctx = sweep doit root [] ctx"

definition erts_sweep_links :: "erts_link mol \<Rightarrow> (erts_link \<Rightarrow> 'c \<Rightarrow> 'c) \<Rightarrow> 'c \<Rightarrow> 'c" where
  "erts_sweep_links root doit ctx = sweep doit root [] ctx"

definition erts_sweep_suspend_monitors ::
  "erts_suspend_monitor mol \<Rightarrow> (erts_suspend_monitor \<Rightarrow> 'c \<Rightarrow> 'c) \<Rightarrow> 'c \<Rightarrow> 'c" where
  "erts_sweep_suspend_monitors root doit ctx = sweep doit root [] ctx"

text \<open>erts\_one\_mon\_size: what the size of one monitor adds to a total, in bytes.\<close>

definition erts_one_mon_size :: "erts_monitor \<Rightarrow> Uint \<Rightarrow> Uint" where
  "erts_one_mon_size mon pu =
     pu + ERTS_MONITOR_SIZE * 8 + (if \<not> IS_CONST (mon_pid mon) then NC_HEAP_SIZE (mon_pid mon) * 8 else 0) +
     (if \<not> IS_CONST (mon_ref mon) then NC_HEAP_SIZE (mon_ref mon) * 8 else 0)"

subsection \<open>The order of monitor references is total\<close>

lemma word_bytes_inj: "word_bytes x = word_bytes y \<Longrightarrow> x = y"
proof (rule bit_word_eqI)
  fix n
  assume eq: "word_bytes x = word_bytes y" and n: "n < LENGTH(32)"
  have "word_bytes x ! (n div 8) = word_bytes y ! (n div 8)" by (simp add: eq)
  then have "(ucast (drop_bit (8 * (n div 8)) x) :: byte) = ucast (drop_bit (8 * (n div 8)) y)"
    using less_mult_imp_div_less [of n 4 8] n by (simp add: word_bytes_def nth_upt)
  then have "bit (ucast (drop_bit (8 * (n div 8)) x) :: byte) (n mod 8) =
      bit (ucast (drop_bit (8 * (n div 8)) y) :: byte) (n mod 8)" by simp
  then show "bit x n = bit y n" by (simp add: bit_ucast_iff bit_drop_bit_eq)
qed

lemma length_word_bytes [simp]: "length (word_bytes w) = 4"
  by (simp add: word_bytes_def)

lemma ref_thing_bytes_inj:
  assumes "length a = 3" and "length b = 3" and "ref_thing_bytes a = ref_thing_bytes b"
  shows "a = b"
proof -
  obtain a1 a2 a3 where a: "a = [a1, a2, a3]" using assms(1) by (auto simp: numeral_3_eq_3 length_Suc_conv)
  obtain b1 b2 b3 where b: "b = [b1, b2, b3]" using assms(2) by (auto simp: numeral_3_eq_3 length_Suc_conv)
  from assms(3) have "word_bytes a1 @ word_bytes a2 @ word_bytes a3 =
      word_bytes b1 @ word_bytes b2 @ word_bytes b3"
    by (simp add: ref_thing_bytes_def a b)
  then show ?thesis using word_bytes_inj by (auto simp: a b)
qed

fun mon_ref_ok :: "erl_node \<Rightarrow> eterm \<Rightarrow> bool" where
  "mon_ref_ok this (Ref ns) = (length ns = 3)"
| "mon_ref_ok this (ExternalRef n ns) = term_ok this (ExternalRef n ns)"
| "mon_ref_ok this _ = False"

interpretation mon_refs: comparator "cmp_mon_ref this" "mon_ref_ok this" for this
proof unfold_locales
  fix a b c
  assume a: "mon_ref_ok this a" and b: "mon_ref_ok this b"
  show "cmp_mon_ref this a b = 0 \<longleftrightarrow> a = b"
    using a b terms.cmp_zero [of this a b]
    by (cases a; cases b) (auto simp: lexcmp_zero dest: ref_thing_bytes_inj)
  show "cmp_mon_ref this a b < 0 \<longleftrightarrow> 0 < cmp_mon_ref this b a"
    using a b terms.cmp_flip [of this a b]
    by (cases a; cases b) (auto simp: lexcmp.cmp_flip)
  assume c: "mon_ref_ok this c" and ab: "cmp_mon_ref this a b < 0" and bc: "cmp_mon_ref this b c < 0"
  show "cmp_mon_ref this a c < 0"
    using a b c ab bc terms.cmp_trans [of this a b c]
    by (cases a; cases b; cases c) (auto intro: lexcmp_trans)
qed

subsection \<open>The trees as keyed trees\<close>

interpretation monitors: keyed_tree "cmp_mon_ref this" "mon_ref_ok this" mon_ref for this
  by unfold_locales

interpretation links: keyed_tree "cmp_term this" "term_ok this" link_pid for this
  by unfold_locales

interpretation smons: keyed_tree "cmp_term this" "term_ok this" smon_pid for this
  by unfold_locales

abbreviation monitors_ok :: "erl_node \<Rightarrow> erts_monitor mol \<Rightarrow> bool" where
  "monitors_ok this \<equiv> tree_ok (cmp_mon_ref this) (mon_ref_ok this) mon_ref"

abbreviation links_ok :: "erl_node \<Rightarrow> erts_link mol \<Rightarrow> bool" where
  "links_ok this \<equiv> tree_ok (cmp_term this) (term_ok this) link_pid"

abbreviation smons_ok :: "erl_node \<Rightarrow> erts_suspend_monitor mol \<Rightarrow> bool" where
  "smons_ok this \<equiv> tree_ok (cmp_term this) (term_ok this) smon_pid"

context keyed_tree
begin

lemma hang_ok:
  assumes "tree_ok cmp ok key t" and "ok (key d)"
    and "descend (\<lambda>x. cmp (key d) (key x)) t [] = (st, Null)"
  shows "\<exists>t'. hang_node st d = Inr t' \<and> tree_ok cmp ok key t' \<and>
           tree_map key t' = (tree_map key t)(key d \<mapsto> d) \<and>
           mset (inorder t') = add_mset d (mset (inorder t))"
  using insert_ok [OF assms] by (auto simp: hang_node_def)

lemma take_ok:
  assumes "tree_ok cmp ok key t" and "ok k"
  shows "\<exists>t'. take_node (\<lambda>x. cmp k (key x)) t = Inr (tree_map key t k, t') \<and> tree_ok cmp ok key t' \<and>
           tree_map key t' = (tree_map key t)(k := None) \<and>
           mset (inorder t) = (case tree_map key t k of None \<Rightarrow> {#} | Some d \<Rightarrow> {#d#}) + mset (inorder t')"
proof (cases "descend (\<lambda>x. cmp k (key x)) t []")
  case (Pair st u)
  note f = found_map [OF assms Pair]
  show ?thesis
  proof (cases u)
    case Null
    with Pair f assms(1) show ?thesis by (auto simp: take_node_def)
  next
    case (Node l b d r)
    with Pair f remove_ok [OF assms, of st l b d r] show ?thesis by (auto simp: take_node_def)
  qed
qed

lemma absent_descend:
  assumes "tree_ok cmp ok key t" and "ok k" and "tree_map key t k = None"
  obtains st where "descend (\<lambda>x. cmp k (key x)) t [] = (st, Null)"
  using found_map [OF assms(1,2) prod.collapse [symmetric]] assms(3)
  by (cases "snd (descend (\<lambda>x. cmp k (key x)) t [])") (auto simp: prod_eq_iff)

lemma present_descend:
  assumes "tree_ok cmp ok key t" and "ok k" and "tree_map key t k = Some d"
  obtains st l b r where "descend (\<lambda>x. cmp k (key x)) t [] = (st, Node l b d r)"
  using found_map [OF assms(1,2) prod.collapse [symmetric]] assms(3)
  by (cases "snd (descend (\<lambda>x. cmp k (key x)) t [])") (auto simp: prod_eq_iff)

end

subsection \<open>Properties\<close>

lemma create_monitor_ref [simp]: "mon_ref (fst (create_monitor type ref pid name g)) = ref"
  by (simp add: create_monitor_def Let_def)

lemma create_link_pid [simp]: "link_pid (fst (create_link type pid g)) = pid"
  by (simp add: create_link_def Let_def)

text \<open>
  C1: adding a monitor to a well-formed tree. If the reference is present, the emulator exits; if
  not, the operation returns (no NULL pointer is followed), the tree is balanced and ordered again,
  and as a map it is the old one with the new monitor under its reference.
\<close>

theorem erts_add_monitor_spec:
  assumes "monitors_ok this root" and "mon_ref_ok this ref"
  shows "case tree_map mon_ref root ref of
           Some _ \<Rightarrow> erts_add_monitor this root type ref pid name g = Inl Insertion_of_present_monitor
         | None \<Rightarrow> \<exists>t. erts_add_monitor this root type ref pid name g =
                        Inr (t, snd (create_monitor type ref pid name g)) \<and>
                      monitors_ok this t \<and>
                      tree_map mon_ref t =
                        (tree_map mon_ref root)(ref \<mapsto> fst (create_monitor type ref pid name g))"
proof (cases "tree_map mon_ref root ref")
  case None
  obtain m g' where m: "create_monitor type ref pid name g = (m, g')" by fastforce
  then have r: "mon_ref m = ref" using create_monitor_ref [of type ref pid name g] by simp
  obtain st where st: "descend (\<lambda>x. cmp_mon_ref this ref (mon_ref x)) root [] = (st, Null)"
    using monitors.absent_descend [OF assms None] .
  with monitors.hang_ok [OF assms(1), of m st] assms(2) r None m show ?thesis
    by (auto simp: erts_add_monitor_def)
next
  case (Some d)
  from monitors.present_descend [OF assms Some] show ?thesis
    using Some by (fastforce simp: erts_add_monitor_def)
qed

theorem erts_add_monitor_spec_witness:
  "let this = \<lparr>sysname = [110], creation = 1\<rparr>; g = \<lparr>tot_link_lh_size = 0, node_refc = (\<lambda>_. 0)\<rparr>
   in \<exists>t g'. erts_add_monitor this Null 1 (Ref [1, 2, 3]) (Pid 5) NilTerm g = Inr (t, g') \<and>
        monitors_ok this t"
proof -
  let ?me = "\<lparr>sysname = [110], creation = 1\<rparr> :: erl_node"
  have "monitors_ok ?me Null" and "mon_ref_ok ?me (Ref [1, 2, 3])"
    by (simp_all add: tree_ok_def)
  from erts_add_monitor_spec [OF this, of 1 "Pid 5" NilTerm "\<lparr>tot_link_lh_size = 0, node_refc = (\<lambda>_. 0)\<rparr>"]
  show ?thesis by (auto simp: tree_map_def Let_def)
qed

text \<open>
  C2: removing a monitor from a well-formed tree returns the monitor with that reference, or NULL if
  there is none, and leaves a well-formed tree that holds all the other monitors.
\<close>

theorem erts_remove_monitor_spec:
  assumes "monitors_ok this root" and "mon_ref_ok this ref"
  shows "\<exists>t. erts_remove_monitor this root ref = Inr (tree_map mon_ref root ref, t) \<and>
           monitors_ok this t \<and> tree_map mon_ref t = (tree_map mon_ref root)(ref := None)"
  unfolding erts_remove_monitor_def using monitors.take_ok [OF assms] by blast

definition example_monitors :: "erts_monitor mol" where
  "example_monitors =
     Node Null 1 \<lparr>mon_type = 1, mon_ref = Ref [1, 0, 0], mon_pid = Pid 5, mon_name = NilTerm\<rparr>
       (Node Null 0 \<lparr>mon_type = 1, mon_ref = Ref [2, 0, 0], mon_pid = Pid 6, mon_name = NilTerm\<rparr> Null)"

theorem erts_remove_monitor_spec_witness:
  "\<exists>t. erts_remove_monitor \<lparr>sysname = [110], creation = 1\<rparr> example_monitors (Ref [1, 0, 0]) =
     Inr (Some \<lparr>mon_type = 1, mon_ref = Ref [1, 0, 0], mon_pid = Pid 5, mon_name = NilTerm\<rparr>, t)"
proof -
  let ?me = "\<lparr>sysname = [110], creation = 1\<rparr> :: erl_node"
  have "lexcmp (ref_thing_bytes [1, 0, 0]) (ref_thing_bytes [2, 0, 0]) < 0" by code_simp
  then have "monitors_ok ?me example_monitors" and "mon_ref_ok ?me (Ref [1, 0, 0])"
    by (simp_all add: tree_ok_def example_monitors_def)
  from erts_remove_monitor_spec [OF this] show ?thesis
    by (auto simp: tree_map_def example_monitors_def)
qed

lemma link_add_absent:
  assumes "links_ok this root" and "term_ok this pid" and "tree_map link_pid root pid = None"
  shows "\<exists>t l g'. create_link type pid g = (l, g') \<and> links_ok this t \<and>
           tree_map link_pid t = (tree_map link_pid root)(pid \<mapsto> l) \<and>
           mset (inorder t) = add_mset l (mset (inorder root)) \<and>
           erts_add_link this root type pid g = Inr (0, t, g') \<and>
           erts_add_or_lookup_link this root type pid g = Inr (l, t, g')"
proof -
  obtain l g' where l: "create_link type pid g = (l, g')" by fastforce
  then have r: "link_pid l = pid" using create_link_pid [of type pid g] by simp
  obtain st where "descend (\<lambda>x. cmp_term this pid (link_pid x)) root [] = (st, Null)"
    using links.absent_descend [OF assms] .
  with links.hang_ok [OF assms(1), of l st] assms(2) r l show ?thesis
    by (auto simp: erts_add_link_def erts_add_or_lookup_link_def)
qed

lemma link_add_present:
  assumes "links_ok this root" and "term_ok this pid" and "tree_map link_pid root pid = Some l"
  shows "erts_add_link this root type pid g = Inr (- 1, root, g) \<and>
         erts_add_or_lookup_link this root type pid g = Inr (l, root, g)"
proof -
  obtain st a b c where "descend (\<lambda>x. cmp_term this pid (link_pid x)) root [] = (st, Node a b l c)"
    using links.present_descend [OF assms] .
  then show ?thesis by (simp add: erts_add_link_def erts_add_or_lookup_link_def)
qed

text \<open>
  C3: the link tree. On a well-formed tree the four operations keep it well formed and act on the
  map from pids to links: lookup is the map's lookup; erts\_add\_link adds a fresh link and returns
  0, or returns -1 and changes nothing if the pid is there; erts\_add\_or\_lookup\_link returns the
  link that is in the tree afterwards; erts\_remove\_link takes the link out and returns it.
\<close>

theorem link_tree_refines_map:
  assumes "links_ok this root" and "term_ok this pid"
  shows "erts_lookup_link this root pid = tree_map link_pid root pid \<and>
    (\<exists>t. links_ok this t \<and> tree_map link_pid t = (tree_map link_pid root)(pid := None) \<and>
         erts_remove_link this root pid = Inr (tree_map link_pid root pid, t)) \<and>
    (case tree_map link_pid root pid of
       Some l \<Rightarrow> erts_add_link this root type pid g = Inr (- 1, root, g) \<and>
                 erts_add_or_lookup_link this root type pid g = Inr (l, root, g)
     | None \<Rightarrow> \<exists>t l g'. create_link type pid g = (l, g') \<and> links_ok this t \<and>
                 tree_map link_pid t = (tree_map link_pid root)(pid \<mapsto> l) \<and>
                 erts_add_link this root type pid g = Inr (0, t, g') \<and>
                 erts_add_or_lookup_link this root type pid g = Inr (l, t, g'))"
proof (intro conjI)
  show "erts_lookup_link this root pid = tree_map link_pid root pid"
    unfolding erts_lookup_link_def by (rule links.lookup_map [OF assms(1,2)])
  show "\<exists>t. links_ok this t \<and> tree_map link_pid t = (tree_map link_pid root)(pid := None) \<and>
         erts_remove_link this root pid = Inr (tree_map link_pid root pid, t)"
    unfolding erts_remove_link_def using links.take_ok [OF assms(1,2)] by blast
  show "case tree_map link_pid root pid of
       Some l \<Rightarrow> erts_add_link this root type pid g = Inr (- 1, root, g) \<and>
                 erts_add_or_lookup_link this root type pid g = Inr (l, root, g)
     | None \<Rightarrow> \<exists>t l g'. create_link type pid g = (l, g') \<and> links_ok this t \<and>
                 tree_map link_pid t = (tree_map link_pid root)(pid \<mapsto> l) \<and>
                 erts_add_link this root type pid g = Inr (0, t, g') \<and>
                 erts_add_or_lookup_link this root type pid g = Inr (l, t, g')"
    using link_add_absent [OF assms] link_add_present [OF assms]
    by (cases "tree_map link_pid root pid") fastforce+
qed

theorem link_tree_refines_map_witness:
  "let this = \<lparr>sysname = [110], creation = 1\<rparr>; g = \<lparr>tot_link_lh_size = 0, node_refc = (\<lambda>_. 0)\<rparr>
   in \<exists>t. links_ok this t \<and>
        erts_add_link this Null 1 (Pid 5) g = Inr (0, t, snd (create_link 1 (Pid 5) g))"
proof -
  let ?me = "\<lparr>sysname = [110], creation = 1\<rparr> :: erl_node"
  have "links_ok ?me Null" and "term_ok ?me (Pid 5)" by (simp_all add: tree_ok_def)
  from link_tree_refines_map [OF this, of 1 "\<lparr>tot_link_lh_size = 0, node_refc = (\<lambda>_. 0)\<rparr>"]
  show ?thesis by (auto simp: tree_map_def Let_def)
qed

subsection \<open>Histories of a link tree and the global counters\<close>

text \<open>
  A link tree changes by the operations of this file only, and a link taken out is destroyed by
  its taker. A state is a tree with the global counters.
\<close>

inductive link_step :: "erl_node \<Rightarrow> erts_link mol \<times> mon_globals \<Rightarrow> erts_link mol \<times> mon_globals \<Rightarrow> bool"
  for this where
  add: "term_ok this pid \<Longrightarrow> erts_add_link this t type pid g = Inr (r, t', g') \<Longrightarrow>
     link_step this (t, g) (t', g')"
| add_or_lookup: "term_ok this pid \<Longrightarrow> erts_add_or_lookup_link this t type pid g = Inr (l, t', g') \<Longrightarrow>
     link_step this (t, g) (t', g')"
| remove: "term_ok this pid \<Longrightarrow> erts_remove_link this t pid = Inr (Some l, t') \<Longrightarrow>
     link_step this (t, g) (t', erts_destroy_link l g)"
| remove_absent: "term_ok this pid \<Longrightarrow> erts_remove_link this t pid = Inr (None, t') \<Longrightarrow>
     link_step this (t, g) (t', g)"

inductive_cases link_stepE: "link_step this s s'"

fun node_of :: "eterm \<Rightarrow> erl_node option" where
  "node_of (ExternalPid n _) = Some n"
| "node_of (ExternalPort n _) = Some n"
| "node_of (ExternalRef n _) = Some n"
| "node_of _ = None"

definition large_bytes :: "erts_link \<Rightarrow> Uint" where
  "large_bytes l = (if link_words (link_pid l) \<le> ERTS_LINK_SH_SIZE then 0 else link_words (link_pid l) * 8)"

text \<open>What the links of a tree account for in the counters.\<close>

definition counters_ok :: "mon_globals \<Rightarrow> erts_link mol \<times> mon_globals \<Rightarrow> bool" where
  "counters_ok g0 s \<longleftrightarrow>
     tot_link_lh_size (snd s) = tot_link_lh_size g0 + sum_mset (image_mset large_bytes (mset (inorder (fst s)))) \<and>
     (\<forall>n. node_refc (snd s) n = node_refc g0 n +
        int (size {#l \<in># mset (inorder (fst s)). node_of (link_pid l) = Some n#}))"

lemma create_link_counters:
  assumes "create_link type pid g = (l, g')"
  shows "tot_link_lh_size g' = tot_link_lh_size g + large_bytes l"
    and "node_refc g' n = node_refc g n + (if node_of (link_pid l) = Some n then 1 else 0)"
  using assms
  by (cases pid; auto simp: create_link_def Let_def large_bytes_def refc_add_def)+

lemma destroy_link_counters:
  "tot_link_lh_size (erts_destroy_link l g) = tot_link_lh_size g - large_bytes l"
  "node_refc (erts_destroy_link l g) n = node_refc g n - (if node_of (link_pid l) = Some n then 1 else 0)"
  by (cases "link_pid l"; auto simp: erts_destroy_link_def Let_def large_bytes_def refc_add_def)+

lemma counters_ok_create:
  assumes "counters_ok g0 (t, g)" and "create_link type pid g = (l, g')"
    and "mset (inorder t') = add_mset l (mset (inorder t))"
  shows "counters_ok g0 (t', g')"
  unfolding counters_ok_def fst_conv snd_conv assms(3) create_link_counters [OF assms(2)]
  using assms(1) by (simp add: counters_ok_def)

lemma counters_ok_destroy:
  assumes "counters_ok g0 (t, g)" and "mset (inorder t) = add_mset l (mset (inorder t'))"
  shows "counters_ok g0 (t', erts_destroy_link l g)"
  using assms(1) unfolding counters_ok_def fst_conv snd_conv assms(2) destroy_link_counters
  by simp

lemma link_add_step_ok:
  assumes "links_ok this t" and "counters_ok g0 (t, g)" and "term_ok this pid"
    and "erts_add_link this t type pid g = Inr (r, t', g') \<or>
         erts_add_or_lookup_link this t type pid g = Inr (l, t', g')"
  shows "links_ok this t' \<and> counters_ok g0 (t', g')"
proof (cases "tree_map link_pid t pid")
  case None
  obtain t1 l1 g1 where c: "create_link type pid g = (l1, g1)" and ok: "links_ok this t1"
    and m: "mset (inorder t1) = add_mset l1 (mset (inorder t))"
    and e: "erts_add_link this t type pid g = Inr (0, t1, g1)"
      "erts_add_or_lookup_link this t type pid g = Inr (l1, t1, g1)"
    using link_add_absent [OF assms(1,3) None, of type g] by blast
  from assms(4) e have "t' = t1" and "g' = g1" by auto
  with ok counters_ok_create [OF assms(2) c m] show ?thesis by simp
next
  case (Some l1)
  with assms link_add_present [of this t pid l1 type g] show ?thesis by auto
qed

lemma link_take_step_ok:
  assumes "links_ok this t" and "term_ok this pid" and "erts_remove_link this t pid = Inr (x, t')"
  shows "links_ok this t'"
    and "mset (inorder t) = (case x of None \<Rightarrow> {#} | Some d \<Rightarrow> {#d#}) + mset (inorder t')"
  using links.take_ok [OF assms(1,2)] assms(3) by (auto simp: erts_remove_link_def)

lemma link_step_ok:
  assumes "link_step this s s'" and "links_ok this (fst s)" and "counters_ok g0 s"
  shows "links_ok this (fst s') \<and> counters_ok g0 s'"
  using assms(1)
proof (cases rule: link_step.cases)
  case (add pid t type g r t' g')
  with assms link_add_step_ok [of this t g0 g pid type r t' g'] show ?thesis by simp
next
  case (add_or_lookup pid t type g l t' g')
  with assms link_add_step_ok [of this t g0 g pid type _ t' g' l] show ?thesis by simp
next
  case (remove pid t l t' g)
  with assms link_take_step_ok [of this t pid "Some l" t'] counters_ok_destroy [of g0 t g l t']
  show ?thesis by simp
next
  case (remove_absent pid t t' g)
  with assms link_take_step_ok [of this t pid None t'] show ?thesis by (simp add: counters_ok_def)
qed

text \<open>
  C4: in every state a link tree can get into from the empty one, the tree is well formed, the
  global size counter has risen by exactly the bytes of the large links in the tree, and the
  reference count of every node by the number of links to that node: no operation leaks or drops a
  reference.
\<close>

theorem link_histories_accounted:
  assumes "(link_step this)\<^sup>*\<^sup>* (Null, g0) (t, g)"
  shows "links_ok this t \<and> counters_ok g0 (t, g)"
  using assms
proof (induction "(t, g)" arbitrary: t g rule: rtranclp_induct)
  case base
  show ?case by (simp add: tree_ok_def counters_ok_def)
next
  case (step s)
  then show ?case using link_step_ok [of this s "(t, g)" g0] by (cases s) auto
qed

theorem link_histories_accounted_witness:
  "let this = \<lparr>sysname = [110], creation = 1\<rparr>; other = \<lparr>sysname = [111], creation = 2\<rparr>;
       g0 = \<lparr>tot_link_lh_size = 0, node_refc = (\<lambda>_. 0)\<rparr>
   in \<exists>t g. (link_step this)\<^sup>*\<^sup>* (Null, g0) (t, g) \<and> links_ok this t \<and> counters_ok g0 (t, g) \<and>
        node_refc g other = 1"
proof -
  let ?me = "\<lparr>sysname = [110], creation = 1\<rparr> :: erl_node"
  let ?pid = "ExternalPid \<lparr>sysname = [111], creation = 2\<rparr> 7"
  let ?g = "\<lparr>tot_link_lh_size = 0, node_refc = (\<lambda>_. 0)\<rparr> :: mon_globals"
  obtain l g' where l: "create_link 1 ?pid ?g = (l, g')" by fastforce
  have "erts_add_link ?me Null 1 ?pid ?g = Inr (0, Node Null 0 l Null, g')"
    by (simp add: erts_add_link_def hang_node_def l)
  then have s: "(link_step ?me)\<^sup>*\<^sup>* (Null, ?g) (Node Null 0 l Null, g')"
    by (intro r_into_rtranclp link_step.add) simp_all
  have "node_refc g' \<lparr>sysname = [111], creation = 2\<rparr> = 1"
    using create_link_counters(2) [OF l] create_link_pid [of 1 ?pid ?g] l by simp
  with s link_histories_accounted [OF s] show ?thesis unfolding Let_def by blast
qed

text \<open>
  C7: the arrays tstack and dstack (50 and 51 entries) are large enough. In a balanced tree of
  fewer than 2^32 nodes (MAX\_MONITORS) no walk from the root pushes more than 49 links, which
  leaves the one more that a removal pushes before it calls delsub.
\<close>

definition STACK_NEED :: nat where "STACK_NEED = 50"



text \<open>
  erts\_sweep\_monitors, which keeps its own stack of links and directions, calls the given
  function exactly once on every monitor of the tree, on the monitors below a node before the node
  itself (so the function may free it); the same holds of the sweeps of links and suspend monitors.
\<close>

lemma sweeps_are_postorder:
  "erts_sweep_monitors mt f x = fold f (postorder mt) x \<and>
   erts_sweep_links lt g y = fold g (postorder lt) y \<and>
   erts_sweep_suspend_monitors smt h z = fold h (postorder smt) z \<and>
   mset (postorder mt) = mset (inorder mt)"
proof -
  have "mset (postorder t) = mset (inorder t)" for t :: "'z mol" by (induction t) auto
  then show ?thesis
    by (simp add: erts_sweep_monitors_def erts_sweep_links_def erts_sweep_suspend_monitors_def sweep_eq)
qed

end
