(* ===== verification/Hash_Table.thy ===== *)
theory Hash_Table
  imports Prelude
begin

section \<open>Hash tables: hash.c\<close>

text \<open>
  The general hash tables of hash.c, with chained buckets and a table of prime sizes. The objects
  of a table have type \<open>'o\<close>; the callbacks of a table (HashFunctions) hash and compare
  objects and templates, and allocate and free them, which changes the client's state
  \<open>'w\<close>. A chain of HashBuckets is a list of buckets, in the order of the next pointers.
  The fatal exit for a too large table and the abort of a duplicate entry are values of
  \<open>hash_error\<close>.
\<close>

datatype hash_error = Too_large_hash_table int | Abort

record 'o hash_bucket =
  hvalue :: Uint
  hobj :: 'o

record ('o, 'w) hash_functions =
  fun_hash :: "'o \<Rightarrow> Uint"
  fun_cmp :: "'o \<Rightarrow> 'o \<Rightarrow> int"
  fun_alloc :: "'o \<Rightarrow> 'w \<Rightarrow> 'o \<times> 'w"
  fun_free :: "'o \<Rightarrow> 'w \<Rightarrow> 'w"

record hash_info =
  hi_size :: nat
  hi_used :: int
  hi_objs :: nat
  hi_depth :: nat

record ('o, 'w) hash =
  h_fun :: "('o, 'w) hash_functions"
  is_allocated :: bool
  h_size :: nat
  size20percent :: nat
  size80percent :: nat
  h_ix :: nat
  h_used :: int
  h_bucket :: "'o hash_bucket list list"

definition h_size_table :: "int list" where
  "h_size_table = [2, 5, 11, 23, 47, 97, 197, 397, 797, 1201, 1597, 2411, 3203, 4813, 6421, 9643,
     12853, 19289, 25717, 51437, 102877, 205759, 411527, 823117, 1646237, 3292489, 6584983,
     13169977, 26339969, 52679969, - 1]"

subsection \<open>Information, creation and deletion\<close>

fun info_loop :: "'o hash_bucket list list \<Rightarrow> nat \<Rightarrow> nat \<Rightarrow> nat \<times> nat" where
  "info_loop [] objects max_depth = (objects, max_depth)"
| "info_loop (b # bs) objects max_depth =
     info_loop bs (objects + length b) (if length b > max_depth then length b else max_depth)"

definition hash_get_info :: "('o, 'w) hash \<Rightarrow> hash_info" where
  "hash_get_info h =
     (case info_loop (h_bucket h) 0 0 of
        (objects, max_depth) \<Rightarrow>
          \<lparr>hi_size = h_size h, hi_used = h_used h, hi_objs = objects, hi_depth = max_depth\<rparr>)"

fun size_ix :: "int list \<Rightarrow> int \<Rightarrow> nat \<Rightarrow> nat" where
  "size_ix [] wanted ix = ix"
| "size_ix (x # xs) wanted ix = (if x \<noteq> - 1 \<and> x < wanted then size_ix xs wanted (Suc ix) else ix)"

definition hash_init :: "int \<Rightarrow> ('o, 'w) hash_functions \<Rightarrow> hash_error + ('o, 'w) hash" where
  "hash_init wanted fun' =
     (let ix = size_ix h_size_table wanted 0 in
      if h_size_table ! ix = - 1 then Inl (Too_large_hash_table wanted)
      else let sz = nat (h_size_table ! ix) in
        Inr \<lparr>h_fun = fun', is_allocated = False, h_size = sz, size20percent = sz div 5,
             size80percent = (4 * sz) div 5, h_ix = ix, h_used = 0, h_bucket = replicate sz []\<rparr>)"

definition hash_new :: "int \<Rightarrow> ('o, 'w) hash_functions \<Rightarrow> hash_error + ('o, 'w) hash" where
  "hash_new wanted fun' = map_sum id (\<lambda>h. h\<lparr>is_allocated := True\<rparr>) (hash_init wanted fun')"

definition hash_foreach :: "('o, 'w) hash \<Rightarrow> ('o \<Rightarrow> 'c \<Rightarrow> 'c) \<Rightarrow> 'c \<Rightarrow> 'c" where
  "hash_foreach h f arg = fold (\<lambda>bs. fold (\<lambda>b. f (hobj b)) bs) (h_bucket h) arg"

definition hash_delete :: "('o, 'w) hash \<Rightarrow> 'w \<Rightarrow> 'w" where
  "hash_delete h w = fold (\<lambda>bs. fold (\<lambda>b. fun_free (h_fun h) (hobj b)) bs) (h_bucket h) w"

subsection \<open>Rehashing\<close>

text \<open>The body of the inner loop: move one bucket into the new vector, counting used slots.\<close>

definition rehash_entry ::
  "nat \<Rightarrow> 'o hash_bucket \<Rightarrow> 'o hash_bucket list list \<times> int \<Rightarrow> 'o hash_bucket list list \<times> int" where
  "rehash_entry n b s =
     (case s of (new_bucket, used) \<Rightarrow>
        let ix = unat (hvalue b) mod n in
        (new_bucket[ix := b # new_bucket ! ix], if new_bucket ! ix = [] then used + 1 else used))"

definition rehash_to :: "nat \<Rightarrow> ('o, 'w) hash \<Rightarrow> ('o, 'w) hash" where
  "rehash_to ix h =
     (let n = nat (h_size_table ! ix);
          (new_bucket, used) = fold (fold (rehash_entry n)) (h_bucket h) (replicate n [], 0)
      in h\<lparr>h_ix := ix, h_size := n, size20percent := n div 5,
           size80percent := (4 * n) div 5, h_used := used, h_bucket := new_bucket\<rparr>)"

definition rehash :: "('o, 'w) hash \<Rightarrow> bool \<Rightarrow> ('o, 'w) hash" where
  "rehash h grow =
     (if grow then
        (if h_size_table ! (h_ix h + 1) = - 1 then h else rehash_to (h_ix h + 1) h)
      else (if h_ix h = 0 then h else rehash_to (h_ix h - 1) h))"

subsection \<open>Looking up, inserting and removing\<close>

definition slot_of :: "('o, 'w) hash \<Rightarrow> Uint \<Rightarrow> nat" where
  "slot_of h hval = unat hval mod h_size h"

definition matches :: "('o, 'w) hash \<Rightarrow> Uint \<Rightarrow> 'o \<Rightarrow> 'o hash_bucket \<Rightarrow> bool" where
  "matches h hval tmpl b \<longleftrightarrow> hvalue b = hval \<and> fun_cmp (h_fun h) tmpl (hobj b) = 0"

text \<open>The chain walk of every operation, returning the first bucket that matches.\<close>

fun chain_find :: "('o hash_bucket \<Rightarrow> bool) \<Rightarrow> 'o hash_bucket list \<Rightarrow> 'o hash_bucket option" where
  "chain_find p [] = None"
| "chain_find p (b # bs) = (if p b then Some b else chain_find p bs)"

definition hash_get :: "('o, 'w) hash \<Rightarrow> 'o \<Rightarrow> 'o option" where
  "hash_get h tmpl =
     (let hval = fun_hash (h_fun h) tmpl in
      map_option hobj (chain_find (matches h hval tmpl) (h_bucket h ! slot_of h hval)))"

text \<open>The last lines of hash\_put and hash\_insert\_entry: link a bucket in, grow at 80\%.\<close>

definition link_bucket :: "('o, 'w) hash \<Rightarrow> 'o hash_bucket \<Rightarrow> ('o, 'w) hash" where
  "link_bucket h b =
     (let ix = slot_of h (hvalue b);
          used = (if h_bucket h ! ix = [] then h_used h + 1 else h_used h);
          h' = h\<lparr>h_used := used, h_bucket := (h_bucket h)[ix := b # h_bucket h ! ix]\<rparr>
      in if h_used h' > int (size80percent h') then rehash h' True else h')"

definition hash_put :: "('o, 'w) hash \<Rightarrow> 'o \<Rightarrow> 'w \<Rightarrow> 'o \<times> ('o, 'w) hash \<times> 'w" where
  "hash_put h tmpl w =
     (let hval = fun_hash (h_fun h) tmpl in
      case chain_find (matches h hval tmpl) (h_bucket h ! slot_of h hval) of
        Some b \<Rightarrow> (hobj b, h, w)
      | None \<Rightarrow> (case fun_alloc (h_fun h) tmpl w of
                   (ob, w') \<Rightarrow> (ob, link_bucket h \<lparr>hvalue = hval, hobj = ob\<rparr>, w')))"

definition hash_insert_entry :: "('o, 'w) hash \<Rightarrow> 'o hash_bucket \<Rightarrow> hash_error + ('o, 'w) hash" where
  "hash_insert_entry h entry =
     (let hval = hvalue entry in
      case chain_find (matches h hval (hobj entry)) (h_bucket h ! slot_of h hval) of
        Some b \<Rightarrow> Inl Abort
      | None \<Rightarrow> Inr (link_bucket h entry))"

fun insert_entries :: "'o hash_bucket list \<Rightarrow> ('o, 'w) hash \<Rightarrow> hash_error + ('o, 'w) hash" where
  "insert_entries [] dst = Inr dst"
| "insert_entries (b # bs) dst =
     (case hash_insert_entry dst b of Inl e \<Rightarrow> Inl e | Inr dst' \<Rightarrow> insert_entries bs dst')"

text \<open>The loop of erts\_hash\_merge over the slots of \<open>src\<close>; the result is (src, dst).\<close>

definition erts_hash_merge ::
  "('o, 'w) hash \<Rightarrow> ('o, 'w) hash \<Rightarrow> hash_error + ('o, 'w) hash \<times> ('o, 'w) hash" where
  "erts_hash_merge src dst =
     map_sum id (\<lambda>dst'. (src\<lparr>h_used := 0, h_bucket := replicate (h_size src) []\<rparr>, dst'))
       (insert_entries (concat (h_bucket src)) dst)"

text \<open>Unlink the first match of a chain: the bucket found and the chain that remains.\<close>

fun chain_unlink ::
  "('o hash_bucket \<Rightarrow> bool) \<Rightarrow> 'o hash_bucket list \<Rightarrow> ('o hash_bucket \<times> 'o hash_bucket list) option" where
  "chain_unlink p [] = None"
| "chain_unlink p (b # bs) =
     (if p b then Some (b, bs)
      else map_option (\<lambda>(x, rest). (x, b # rest)) (chain_unlink p bs))"

text \<open>The loop of hash\_erase and hash\_remove: unlink, count and shrink at 20\%.\<close>

definition unlink_bucket :: "('o, 'w) hash \<Rightarrow> 'o \<Rightarrow> ('o hash_bucket \<times> ('o, 'w) hash) option" where
  "unlink_bucket h tmpl =
     (let hval = fun_hash (h_fun h) tmpl; ix = slot_of h hval in
      case chain_unlink (matches h hval tmpl) (h_bucket h ! ix) of
        None \<Rightarrow> None
      | Some (b, rest) \<Rightarrow>
          let used = (if rest = [] then h_used h - 1 else h_used h);
              h' = h\<lparr>h_used := used, h_bucket := (h_bucket h)[ix := rest]\<rparr>
          in Some (b, if h_used h' < int (size20percent h') then rehash h' False else h'))"

definition hash_erase :: "('o, 'w) hash \<Rightarrow> 'o \<Rightarrow> 'w \<Rightarrow> 'o option \<times> ('o, 'w) hash \<times> 'w" where
  "hash_erase h tmpl w =
     (case unlink_bucket h tmpl of
        None \<Rightarrow> (None, h, w)
      | Some (b, h') \<Rightarrow> (Some tmpl, h', fun_free (h_fun h) (hobj b) w))"

definition hash_remove :: "('o, 'w) hash \<Rightarrow> 'o \<Rightarrow> 'o option \<times> ('o, 'w) hash" where
  "hash_remove h tmpl =
     (case unlink_bucket h tmpl of None \<Rightarrow> (None, h) | Some (b, h') \<Rightarrow> (Some (hobj b), h'))"

subsection \<open>Vectors of chains\<close>

text \<open>
  A vector of \<open>n\<close> chains in which every bucket is in the chain of its hash value, and the
  number of its chains that are not empty.
\<close>

definition vector_ok :: "nat \<Rightarrow> 'o hash_bucket list list \<Rightarrow> bool" where
  "vector_ok n bv \<longleftrightarrow> length bv = n \<and> (\<forall>i<n. \<forall>b\<in>set (bv ! i). unat (hvalue b) mod n = i)"

definition used_slots :: "'o hash_bucket list list \<Rightarrow> int" where
  "used_slots bv = int (length (filter (\<lambda>c. c \<noteq> []) bv))"

lemma vector_ok_replicate [simp]: "vector_ok n (replicate n [])"
  by (simp add: vector_ok_def)

lemma used_slots_replicate [simp]: "used_slots (replicate n []) = 0"
  by (induction n) (simp_all add: used_slots_def)

lemma concat_replicate_Nil [simp]: "concat (replicate n []) = []"
  by (induction n) simp_all

lemma vector_ok_update:
  assumes "vector_ok n bv" and "i < n" and "\<And>b. b \<in> set c \<Longrightarrow> unat (hvalue b) mod n = i"
  shows "vector_ok n (bv[i := c])"
  using assms by (auto simp: vector_ok_def nth_list_update)

lemma used_slots_update:
  assumes "i < length bv"
  shows "used_slots (bv[i := c]) =
    used_slots bv + (if c = [] then 0 else 1) - (if bv ! i = [] then 0 else 1)"
proof -
  have "used_slots bv = used_slots (take i bv @ bv ! i # drop (Suc i) bv)"
    using id_take_nth_drop [OF assms] by simp
  then show ?thesis by (simp add: used_slots_def upd_conv_take_nth_drop [OF assms])
qed

lemma vector_ok_link:
  assumes "vector_ok n bv" and "0 < n" and "i = unat (hvalue b) mod n"
  shows "vector_ok n (bv[i := b # bv ! i])"
    and "mset (concat (bv[i := b # bv ! i])) = add_mset b (mset (concat bv))"
    and "used_slots (bv[i := b # bv ! i]) = (if bv ! i = [] then used_slots bv + 1 else used_slots bv)"
proof -
  have i: "i < n" and len: "length bv = n" using assms by (auto simp: vector_ok_def)
  show "vector_ok n (bv[i := b # bv ! i])"
    using assms i by (intro vector_ok_update) (auto simp: vector_ok_def)
  show "mset (concat (bv[i := b # bv ! i])) = add_mset b (mset (concat bv))"
    using mset_concat_update [of i bv "b # bv ! i"] i len by simp
  show "used_slots (bv[i := b # bv ! i]) = (if bv ! i = [] then used_slots bv + 1 else used_slots bv)"
    using used_slots_update [of i bv "b # bv ! i"] i len by simp
qed

lemma rehash_entries:
  assumes "0 < n" and "vector_ok n bv" and "used = used_slots bv"
    and "fold (rehash_entry n) bs (bv, used) = (bv', used')"
  shows "vector_ok n bv' \<and> used' = used_slots bv' \<and> mset (concat bv') = mset bs + mset (concat bv)"
  using assms
proof (induction bs arbitrary: bv used)
  case (Cons b bs)
  let ?i = "unat (hvalue b) mod n"
  note v = vector_ok_link [OF Cons.prems(2,1) refl, of b]
  have e: "rehash_entry n b (bv, used) =
      (bv[?i := b # bv ! ?i], if bv ! ?i = [] then used + 1 else used)"
    by (simp add: rehash_entry_def Let_def)
  have "fold (rehash_entry n) bs (rehash_entry n b (bv, used)) = (bv', used')"
    using Cons.prems(4) by simp
  from Cons.IH [OF Cons.prems(1) v(1) _ this [unfolded e]] v(2,3) Cons.prems(3) show ?case by simp
qed simp

lemma fold_concat: "fold (fold f) xss s = fold f (concat xss) s"
  by (induction xss arbitrary: s) auto

subsection \<open>Chains\<close>

lemma chain_find_None: "chain_find p bs = None \<longleftrightarrow> (\<forall>b\<in>set bs. \<not> p b)"
  by (induction bs) auto

lemma chain_find_Some: "chain_find p bs = Some b \<Longrightarrow> b \<in> set bs \<and> p b"
  by (induction bs) (auto split: if_splits)

lemma chain_unlink_None: "chain_unlink p bs = None \<longleftrightarrow> (\<forall>b\<in>set bs. \<not> p b)"
  by (induction bs) auto

lemma chain_unlink_Some:
  "chain_unlink p bs = Some (b, rest) \<Longrightarrow> p b \<and> mset bs = add_mset b (mset rest)"
  by (induction bs arbitrary: rest) (auto split: if_splits)

subsection \<open>The invariant of a table and what it stores\<close>

definition size_ok :: "('o, 'w) hash \<Rightarrow> bool" where
  "size_ok h \<longleftrightarrow> h_ix h < 30 \<and> h_size h = nat (h_size_table ! h_ix h) \<and>
     size20percent h = h_size h div 5 \<and> size80percent h = (4 * h_size h) div 5"

definition hash_keys :: "('o \<Rightarrow> 'k) \<Rightarrow> ('o, 'w) hash \<Rightarrow> 'k list" where
  "hash_keys key h = map (\<lambda>b. key (hobj b)) (concat (h_bucket h))"

definition hash_ok :: "('o \<Rightarrow> 'k) \<Rightarrow> ('o, 'w) hash \<Rightarrow> bool" where
  "hash_ok key h \<longleftrightarrow> size_ok h \<and> vector_ok (h_size h) (h_bucket h) \<and>
     h_used h = used_slots (h_bucket h) \<and>
     (\<forall>b\<in>set (concat (h_bucket h)). hvalue b = fun_hash (h_fun h) (hobj b)) \<and>
     distinct (hash_keys key h)"

definition hash_map :: "('o \<Rightarrow> 'k) \<Rightarrow> ('o, 'w) hash \<Rightarrow> ('k \<rightharpoonup> 'o)" where
  "hash_map key h = map_of (map (\<lambda>b. (key (hobj b), hobj b)) (concat (h_bucket h)))"

text \<open>The sizes of the table are positive, and the sentinel is after the thirty of them.\<close>

lemma h_size_table_pos: "i < 30 \<Longrightarrow> 0 < h_size_table ! i"
proof -
  assume i: "i < 30"
  have "list_all (\<lambda>x. 0 < x) (take 30 h_size_table)" by code_simp
  then have "0 < take 30 h_size_table ! i" using i by (simp add: list_all_length h_size_table_def)
  then show ?thesis using i by simp
qed

lemma h_size_table_end: "h_size_table ! 30 = - 1" "length h_size_table = 31"
  by (simp_all add: h_size_table_def)

lemma size_ok_pos: "size_ok h \<Longrightarrow> 0 < h_size h"
  using h_size_table_pos [of "h_ix h"] by (auto simp: size_ok_def)

lemma map_of_mset_cong:
  assumes "mset xs = mset ys" and "distinct (map fst xs)"
  shows "map_of xs = map_of ys"
proof -
  have "mset (map fst xs) = mset (map fst ys)" using assms(1) by simp
  with assms(2) have "distinct (map fst ys)" using mset_eq_imp_distinct_iff by blast
  with assms mset_eq_setD [OF assms(1)] show ?thesis by (simp add: map_of_inject_set)
qed

text \<open>All that matters of the vector is the multiset of its buckets.\<close>

lemma hash_map_cong:
  assumes "mset (concat (h_bucket h')) = mset bs" and "distinct (map (\<lambda>b. key (hobj b)) bs)"
  shows "hash_map key h' = map_of (map (\<lambda>b. (key (hobj b), hobj b)) bs)"
    and "distinct (hash_keys key h')"
proof -
  have m: "mset (map f (concat (h_bucket h'))) = mset (map f bs)" for f :: "_ \<Rightarrow> 'z"
    using assms(1) by simp
  have "mset (map (\<lambda>b. key (hobj b)) (concat (h_bucket h'))) = mset (map (\<lambda>b. key (hobj b)) bs)"
    using assms(1) by simp
  then show d: "distinct (hash_keys key h')"
    using assms(2) mset_eq_imp_distinct_iff unfolding hash_keys_def by blast
  have "mset (map (\<lambda>b. (key (hobj b), hobj b)) (concat (h_bucket h'))) =
      mset (map (\<lambda>b. (key (hobj b), hobj b)) bs)" using assms(1) by simp
  then show "hash_map key h' = map_of (map (\<lambda>b. (key (hobj b), hobj b)) bs)"
    unfolding hash_map_def using d by (intro map_of_mset_cong) (simp_all add: hash_keys_def comp_def)
qed

lemma rehash_to_ok:
  assumes "i < 30"
  shows "size_ok (rehash_to i h) \<and> vector_ok (h_size (rehash_to i h)) (h_bucket (rehash_to i h)) \<and>
    h_used (rehash_to i h) = used_slots (h_bucket (rehash_to i h)) \<and>
    mset (concat (h_bucket (rehash_to i h))) = mset (concat (h_bucket h)) \<and>
    h_fun (rehash_to i h) = h_fun h"
proof -
  let ?n = "nat (h_size_table ! i)"
  have n: "0 < ?n" using h_size_table_pos [OF assms] by simp
  obtain bv used where f: "fold (rehash_entry ?n) (concat (h_bucket h)) (replicate ?n [], 0) = (bv, used)"
    by fastforce
  from rehash_entries [OF n vector_ok_replicate _ f] f assms show ?thesis
    by (simp add: rehash_to_def Let_def fold_concat size_ok_def)
qed

lemma rehash_ok:
  assumes "size_ok h" and "vector_ok (h_size h) (h_bucket h)" and "h_used h = used_slots (h_bucket h)"
  shows "size_ok (rehash h g) \<and> vector_ok (h_size (rehash h g)) (h_bucket (rehash h g)) \<and>
    h_used (rehash h g) = used_slots (h_bucket (rehash h g)) \<and>
    mset (concat (h_bucket (rehash h g))) = mset (concat (h_bucket h)) \<and>
    h_fun (rehash h g) = h_fun h"
proof -
  have "h_ix h + 1 < 30" if "h_size_table ! (h_ix h + 1) \<noteq> - 1"
    using that assms(1) h_size_table_end(1)
    by (cases "h_ix h + 1 = 30") (auto simp: size_ok_def)
  moreover have "h_ix h - 1 < 30" using assms(1) by (auto simp: size_ok_def)
  ultimately show ?thesis
    unfolding rehash_def using rehash_to_ok [of "h_ix h + 1" h] rehash_to_ok [of "h_ix h - 1" h] assms
    by auto
qed

subsection \<open>Clients of a hash table\<close>

text \<open>
  What the callbacks of a table promise: objects compare equal when they have the same key, equal
  keys have the same hash value, and an object allocated for a template has the key of the template.
\<close>

locale hash_client =
  fixes f :: "('o, 'w) hash_functions" and key :: "'o \<Rightarrow> 'k"
  assumes cmp_key: "fun_cmp f a b = 0 \<longleftrightarrow> key a = key b"
    and hash_key: "key a = key b \<Longrightarrow> fun_hash f a = fun_hash f b"
    and alloc_key: "key (fst (fun_alloc f t w)) = key t"
begin

abbreviation ok :: "('o, 'w) hash \<Rightarrow> bool" where
  "ok h \<equiv> hash_ok key h \<and> h_fun h = f"

lemma map_None: "hash_map key h k = None \<longleftrightarrow> k \<notin> set (hash_keys key h)"
  by (auto simp: hash_map_def hash_keys_def map_of_eq_None_iff image_image)

lemma map_Some:
  assumes "ok h" and "b \<in> set (concat (h_bucket h))"
  shows "hash_map key h (key (hobj b)) = Some (hobj b)"
proof -
  have "distinct (map fst (map (\<lambda>b. (key (hobj b), hobj b)) (concat (h_bucket h))))"
    using assms(1) by (simp add: hash_ok_def hash_keys_def comp_def)
  then show ?thesis unfolding hash_map_def using assms(2) by (intro map_of_is_SomeI) auto
qed

text \<open>A bucket with the key of the template is in the chain that is searched, and matches.\<close>

lemma in_chain:
  assumes "ok h" and "b \<in> set (concat (h_bucket h))" and "key (hobj b) = key t"
  shows "b \<in> set (h_bucket h ! slot_of h (fun_hash f t)) \<and> matches h (fun_hash f t) t b"
proof -
  obtain i where i: "i < length (h_bucket h)" "b \<in> set (h_bucket h ! i)"
    using assms(2) by (auto dest!: in_set_conv_nth [THEN iffD1, of _ "h_bucket h"])
  have hv: "hvalue b = fun_hash f t"
    using assms hash_key [of "hobj b" t] by (auto simp: hash_ok_def)
  have "unat (hvalue b) mod h_size h = i" using assms(1) i by (simp add: hash_ok_def vector_ok_def)
  then have "slot_of h (fun_hash f t) = i" by (simp add: slot_of_def hv)
  with i hv assms cmp_key [of t "hobj b"] show ?thesis by (simp add: matches_def)
qed

lemma slot_less: "ok h \<Longrightarrow> slot_of h v < length (h_bucket h)"
  using size_ok_pos [of h] by (auto simp: slot_of_def hash_ok_def vector_ok_def)

lemma chain_in:
  "ok h \<Longrightarrow> b \<in> set (h_bucket h ! slot_of h v) \<Longrightarrow> b \<in> set (concat (h_bucket h))"
  using slot_less [of h v] nth_mem [of "slot_of h v" "h_bucket h"] by auto

lemma no_match_absent:
  assumes "ok h" and "\<forall>b\<in>set (h_bucket h ! slot_of h (fun_hash f t)). \<not> matches h (fun_hash f t) t b"
  shows "hash_map key h (key t) = None"
proof -
  have "key t \<noteq> key (hobj b)" if "b \<in> set (concat (h_bucket h))" for b
    using in_chain [OF assms(1) that, of t] assms(2) by auto
  then show ?thesis unfolding map_None hash_keys_def by fastforce
qed

lemma find_map:
  assumes "ok h"
  shows "map_option hobj (chain_find (matches h (fun_hash f t) t) (h_bucket h ! slot_of h (fun_hash f t))) =
    hash_map key h (key t)"
proof (cases "chain_find (matches h (fun_hash f t) t) (h_bucket h ! slot_of h (fun_hash f t))")
  case None
  then show ?thesis using no_match_absent [OF assms, of t] by (simp add: chain_find_None)
next
  case (Some b)
  from chain_find_Some [OF Some] assms cmp_key [of t "hobj b"] have "key (hobj b) = key t"
    by (auto simp: matches_def)
  moreover have "b \<in> set (concat (h_bucket h))" using chain_find_Some [OF Some] chain_in [OF assms] by blast
  ultimately show ?thesis using map_Some [OF assms, of b] Some by simp
qed

lemma get_map: "ok h \<Longrightarrow> hash_get h t = hash_map key h (key t)"
  using find_map by (simp add: hash_get_def Let_def)

lemma link_ok:
  assumes "ok h" and "hvalue b = fun_hash f (hobj b)" and "hash_map key h (key (hobj b)) = None"
  shows "ok (link_bucket h b) \<and>
    hash_map key (link_bucket h b) = (hash_map key h)(key (hobj b) \<mapsto> hobj b) \<and>
    mset (concat (h_bucket (link_bucket h b))) = add_mset b (mset (concat (h_bucket h)))"
proof -
  let ?i = "slot_of h (hvalue b)"
  define h1 where "h1 = h\<lparr>h_used := if h_bucket h ! ?i = [] then h_used h + 1 else h_used h,
    h_bucket := (h_bucket h)[?i := b # h_bucket h ! ?i]\<rparr>"
  have v: "vector_ok (h_size h) (h_bucket h)" and sz: "size_ok h" and u: "h_used h = used_slots (h_bucket h)"
    using assms(1) by (auto simp: hash_ok_def)
  note l = vector_ok_link [OF v size_ok_pos [OF sz], of ?i b]
  have h1: "size_ok h1" "vector_ok (h_size h1) (h_bucket h1)" "h_used h1 = used_slots (h_bucket h1)"
    "h_fun h1 = f" "mset (concat (h_bucket h1)) = add_mset b (mset (concat (h_bucket h)))"
    using assms(1) sz l u by (auto simp: h1_def size_ok_def slot_of_def)
  define h2 where "h2 = link_bucket h b"
  have "h2 = (if h_used h1 > int (size80percent h1) then rehash h1 True else h1)"
    by (simp add: h2_def h1_def link_bucket_def Let_def)
  with rehash_ok [OF h1(1-3), of True] h1 have h2: "size_ok h2" "vector_ok (h_size h2) (h_bucket h2)"
    "h_used h2 = used_slots (h_bucket h2)" "h_fun h2 = f"
    "mset (concat (h_bucket h2)) = mset (b # concat (h_bucket h))" by auto
  have "key (hobj b) \<notin> set (hash_keys key h)" using assms(3) map_None by blast
  then have d: "distinct (map (\<lambda>b. key (hobj b)) (b # concat (h_bucket h)))"
    using assms(1) by (simp add: hash_ok_def hash_keys_def)
  have "\<forall>c\<in>set (concat (h_bucket h2)). hvalue c = fun_hash f (hobj c)"
    using mset_eq_setD [OF h2(5)] assms(1,2) by (auto simp: hash_ok_def)
  with h2 hash_map_cong [OF h2(5) d] show ?thesis
    unfolding h2_def [symmetric] by (auto simp: hash_ok_def hash_map_def)
qed

text \<open>hash\_put returns the object that is in the table afterwards, allocated if it was not there.\<close>

lemma put_ok:
  assumes "ok h"
  shows "case hash_map key h (key t) of
           Some ob \<Rightarrow> hash_put h t w = (ob, h, w)
         | None \<Rightarrow> \<exists>h'. hash_put h t w = (fst (fun_alloc f t w), h', snd (fun_alloc f t w)) \<and> ok h' \<and>
             hash_map key h' = (hash_map key h)(key t \<mapsto> fst (fun_alloc f t w)) \<and>
             mset (map hobj (concat (h_bucket h'))) =
               add_mset (fst (fun_alloc f t w)) (mset (map hobj (concat (h_bucket h))))"
proof (cases "hash_map key h (key t)")
  case None
  let ?o = "fst (fun_alloc f t w)"
  let ?b = "\<lparr>hvalue = fun_hash f t, hobj = ?o\<rparr>"
  have k: "key ?o = key t" by (rule alloc_key)
  have "chain_find (matches h (fun_hash f t) t) (h_bucket h ! slot_of h (fun_hash f t)) = None"
    using find_map [OF assms, of t] None by simp
  then have "hash_put h t w = (?o, link_bucket h ?b, snd (fun_alloc f t w))"
    using assms by (simp add: hash_put_def Let_def split: prod.splits)
  with link_ok [OF assms, of ?b] hash_key [OF k] k None show ?thesis by simp
next
  case (Some ob)
  then show ?thesis using find_map [OF assms, of t] assms
    by (auto simp: hash_put_def Let_def)
qed

lemma without_bucket:
  assumes "ok h" and "size_ok h2" and "vector_ok (h_size h2) (h_bucket h2)"
    and "h_used h2 = used_slots (h_bucket h2)" and "h_fun h2 = f"
    and m: "mset (concat (h_bucket h)) = add_mset b (mset (concat (h_bucket h2)))"
  shows "ok h2 \<and> hash_map key h2 = (hash_map key h)(key (hobj b) := None) \<and>
    hash_map key h (key (hobj b)) = Some (hobj b)"
proof -
  let ?bs = "b # concat (h_bucket h2)"
  have m': "mset ?bs = mset (concat (h_bucket h))" using m by simp
  have "mset (map (\<lambda>b. key (hobj b)) ?bs) = mset (hash_keys key h)"
    using m unfolding hash_keys_def mset_map by simp
  then have d: "distinct (map (\<lambda>b. key (hobj b)) ?bs)"
    using assms(1) mset_eq_imp_distinct_iff unfolding hash_ok_def by blast
  have hm: "hash_map key h = map_of (map (\<lambda>b. (key (hobj b), hobj b)) ?bs)"
    by (rule hash_map_cong [OF m' [symmetric] d])
  have "hash_map key h2 (key (hobj b)) = None"
    using d unfolding map_None by (simp add: hash_keys_def)
  moreover have "hash_map key h = (hash_map key h2)(key (hobj b) \<mapsto> hobj b)"
    unfolding hm by (simp add: hash_map_def)
  moreover have "\<forall>c\<in>set (concat (h_bucket h2)). hvalue c = fun_hash f (hobj c)"
    using mset_eq_setD [OF m'] assms(1) by (auto simp: hash_ok_def)
  ultimately show ?thesis using assms d by (auto simp: hash_ok_def hash_keys_def fun_eq_iff)
qed

lemma unlink_ok:
  assumes "ok h"
  shows "case hash_map key h (key t) of
           None \<Rightarrow> unlink_bucket h t = None
         | Some ob \<Rightarrow> \<exists>b h'. unlink_bucket h t = Some (b, h') \<and> hobj b = ob \<and> ok h' \<and>
             hash_map key h' = (hash_map key h)(key t := None) \<and>
             mset (concat (h_bucket h)) = add_mset b (mset (concat (h_bucket h')))"
proof (cases "chain_unlink (matches h (fun_hash f t) t) (h_bucket h ! slot_of h (fun_hash f t))")
  case None
  then have "hash_map key h (key t) = None"
    using no_match_absent [OF assms, of t] by (simp add: chain_unlink_None)
  with None assms show ?thesis by (simp add: unlink_bucket_def Let_def)
next
  case (Some p)
  obtain b rest where p: "p = (b, rest)" by (cases p)
  let ?i = "slot_of h (fun_hash f t)"
  have m: "matches h (fun_hash f t) t b" and c: "mset (h_bucket h ! ?i) = add_mset b (mset rest)"
    using chain_unlink_Some [of _ _ b rest] Some p by auto
  have k: "key (hobj b) = key t" using m assms cmp_key [of t "hobj b"] by (auto simp: matches_def)
  have cs: "b \<in> set (h_bucket h ! ?i)" "set rest \<subseteq> set (h_bucket h ! ?i)" "h_bucket h ! ?i \<noteq> []"
    using mset_eq_setD [of "h_bucket h ! ?i" "b # rest"] c by auto
  define h1 where "h1 = h\<lparr>h_used := if rest = [] then h_used h - 1 else h_used h,
    h_bucket := (h_bucket h)[?i := rest]\<rparr>"
  have v: "vector_ok (h_size h) (h_bucket h)" and sz: "size_ok h" and u: "h_used h = used_slots (h_bucket h)"
    using assms(1) by (auto simp: hash_ok_def)
  have il: "?i < length (h_bucket h)" by (rule slot_less [OF assms])
  have "vector_ok (h_size h) ((h_bucket h)[?i := rest])"
    using v il cs by (intro vector_ok_update) (auto simp: vector_ok_def)
  then have h1: "size_ok h1" "vector_ok (h_size h1) (h_bucket h1)" "h_used h1 = used_slots (h_bucket h1)"
    "h_fun h1 = f"
    using assms(1) sz u used_slots_update [OF il, of rest] cs
    by (auto simp: h1_def size_ok_def)
  have m1: "mset (concat (h_bucket h)) = add_mset b (mset (concat (h_bucket h1)))"
    using mset_concat_update [OF il, of rest] c by (simp add: h1_def)
  define h2 where "h2 = (if h_used h1 < int (size20percent h1) then rehash h1 False else h1)"
  from rehash_ok [OF h1(1-3), of False] h1 have h2: "size_ok h2" "vector_ok (h_size h2) (h_bucket h2)"
    "h_used h2 = used_slots (h_bucket h2)" "h_fun h2 = f"
    "mset (concat (h_bucket h2)) = mset (concat (h_bucket h1))" by (auto simp: h2_def)
  have un: "unlink_bucket h t = Some (b, h2)"
    using assms Some p by (simp add: unlink_bucket_def Let_def h2_def h1_def)
  show ?thesis using without_bucket [OF assms h2(1-4), of b] h2(5) m1 un k by simp
qed

text \<open>Merging: every bucket of the source is linked in, unless two objects have the same key.\<close>

lemma insert_entries_ok:
  assumes "ok h" and "\<forall>b\<in>set bs. hvalue b = fun_hash f (hobj b)"
    and "distinct (map (\<lambda>b. key (hobj b)) bs)"
    and "\<forall>b\<in>set bs. hash_map key h (key (hobj b)) = None"
  shows "\<exists>h'. insert_entries bs h = Inr h' \<and> ok h' \<and>
    hash_map key h' = hash_map key h ++ map_of (map (\<lambda>b. (key (hobj b), hobj b)) bs) \<and>
    mset (concat (h_bucket h')) = mset bs + mset (concat (h_bucket h))"
  using assms
proof (induction bs arbitrary: h)
  case (Cons b bs)
  have hv: "hvalue b = fun_hash f (hobj b)" and n: "hash_map key h (key (hobj b)) = None"
    using Cons.prems by auto
  note l = link_ok [OF Cons.prems(1) hv n]
  have "chain_find (matches h (hvalue b) (hobj b)) (h_bucket h ! slot_of h (hvalue b)) = None"
    using find_map [OF Cons.prems(1), of "hobj b"] n hv by simp
  then have e: "hash_insert_entry h b = Inr (link_bucket h b)"
    by (simp add: hash_insert_entry_def Let_def)
  have "\<forall>c\<in>set bs. key (hobj c) \<noteq> key (hobj b)"
    using Cons.prems(3) by (metis (mono_tags, lifting) distinct.simps(2) image_eqI list.set_map list.simps(9))
  then have "\<forall>c\<in>set bs. hash_map key (link_bucket h b) (key (hobj c)) = None"
    using l Cons.prems(4) by auto
  with Cons.IH [of "link_bucket h b"] conjunct1 [OF l] Cons.prems(2,3)
  obtain h' where h': "insert_entries bs (link_bucket h b) = Inr h'" "ok h'"
    "hash_map key h' = hash_map key (link_bucket h b) ++ map_of (map (\<lambda>b. (key (hobj b), hobj b)) bs)"
    "mset (concat (h_bucket h')) = mset bs + mset (concat (h_bucket (link_bucket h b)))" by auto
  have "key (hobj b) \<notin> fst ` set (map (\<lambda>b. (key (hobj b), hobj b)) bs)"
    using Cons.prems(3) by auto
  then have "(hash_map key h)(key (hobj b) \<mapsto> hobj b) ++ map_of (map (\<lambda>b. (key (hobj b), hobj b)) bs) =
      hash_map key h ++ map_of (map (\<lambda>b. (key (hobj b), hobj b)) (b # bs))"
    by (simp add: map_add_upd_left dom_map_of_conv_image_fst)
  with h'(3) l have "hash_map key h' =
      hash_map key h ++ map_of (map (\<lambda>b. (key (hobj b), hobj b)) (b # bs))" by metis
  moreover have "insert_entries (b # bs) h = Inr h'" using e h'(1) by simp
  moreover have "mset (concat (h_bucket h')) = mset (b # bs) + mset (concat (h_bucket h))"
    using h'(4) l by simp
  ultimately show ?case using h'(2) by blast
qed simp

lemma insert_entries_clash:
  assumes "ok h" and "\<forall>b\<in>set bs. hvalue b = fun_hash f (hobj b)"
    and "distinct (map (\<lambda>b. key (hobj b)) bs)"
    and "c \<in> set bs" and "hash_map key h (key (hobj c)) \<noteq> None"
  shows "insert_entries bs h = Inl Abort"
  using assms
proof (induction bs arbitrary: h)
  case (Cons b bs)
  have hv: "hvalue b = fun_hash f (hobj b)" using Cons.prems by auto
  note fm = find_map [OF Cons.prems(1), of "hobj b", folded hv]
  show ?case
  proof (cases "hash_map key h (key (hobj b))")
    case None
    note l = link_ok [OF Cons.prems(1) hv None]
    have "c \<in> set bs" using Cons.prems(4,5) None by auto
    moreover have "hash_map key (link_bucket h b) (key (hobj c)) \<noteq> None"
      using l Cons.prems(5) by auto
    ultimately have "insert_entries bs (link_bucket h b) = Inl Abort"
      using Cons.IH [of "link_bucket h b"] l Cons.prems(2,3) by auto
    with fm None show ?thesis by (simp add: hash_insert_entry_def Let_def)
  next
    case (Some ob)
    with fm show ?thesis by (auto simp: hash_insert_entry_def Let_def)
  qed
qed simp

end


subsection \<open>Initial tables\<close>

lemma size_ix_bounds:
  assumes "xs \<noteq> []" and "last xs = - 1"
  shows "ix \<le> size_ix xs wanted ix \<and> size_ix xs wanted ix < ix + length xs"
  using assms
proof (induction xs arbitrary: ix)
  case (Cons x xs)
  show ?case
  proof (cases "xs = []")
    case False
    with Cons.IH [of "Suc ix"] Cons.prems show ?thesis by auto
  qed (use Cons.prems in auto)
qed simp

lemma size_ix_at:
  assumes "xs \<noteq> []" and "last xs = - 1"
  shows "xs ! (size_ix xs wanted ix - ix) = - 1 \<or> wanted \<le> xs ! (size_ix xs wanted ix - ix)"
  using assms
proof (induction xs arbitrary: ix)
  case (Cons x xs)
  show ?case
  proof (cases "x \<noteq> - 1 \<and> x < wanted")
    case True
    with Cons.prems have "xs \<noteq> []" by auto
    with size_ix_bounds [of xs "Suc ix" wanted] Cons.IH [of "Suc ix"] Cons.prems True show ?thesis
      by (auto simp: nth_Cons' Suc_diff_le)
  qed auto
qed simp

lemma hash_init_ok:
  assumes "hash_init wanted f = Inr h"
  shows "hash_ok key h \<and> h_fun h = f \<and> hash_map key h = Map.empty \<and> wanted \<le> int (h_size h)"
proof -
  have b: "size_ix h_size_table wanted 0 < 31"
    and w: "h_size_table ! size_ix h_size_table wanted 0 = - 1 \<or>
      wanted \<le> h_size_table ! size_ix h_size_table wanted 0"
    using size_ix_bounds [of h_size_table 0 wanted] size_ix_at [of h_size_table wanted 0]
    by (auto simp: h_size_table_def)
  define ix where "ix = size_ix h_size_table wanted 0"
  have ne: "h_size_table ! ix \<noteq> - 1"
    and h: "h = \<lparr>h_fun = f, is_allocated = False, h_size = nat (h_size_table ! ix),
      size20percent = nat (h_size_table ! ix) div 5, size80percent = 4 * nat (h_size_table ! ix) div 5,
      h_ix = ix, h_used = 0, h_bucket = replicate (nat (h_size_table ! ix)) []\<rparr>"
    using assms by (auto simp: hash_init_def Let_def ix_def split: if_splits)
  have "ix < 30" using b ne h_size_table_end(1) by (cases "ix = 30") (auto simp: ix_def)
  with h w ne show ?thesis
    by (auto simp: hash_ok_def size_ok_def hash_keys_def hash_map_def ix_def)
qed

subsection \<open>Properties\<close>

text \<open>
  a table made by hash\_init for any number of objects the size table covers is empty and well
  formed and has at least that many slots; the emulator exits only if more than 52679969 are wanted.
\<close>

lemma hash_init_spec:
  "case hash_init wanted f of
     Inl e \<Rightarrow> e = Too_large_hash_table wanted \<and> wanted > 52679969
   | Inr h \<Rightarrow> hash_ok key h \<and> hash_map key h = Map.empty \<and> wanted \<le> int (h_size h)"
proof (cases "hash_init wanted f")
  case (Inl e)
  have "size_ix h_size_table wanted 0 \<noteq> 30 \<or> wanted > 52679969"
    by (auto simp: h_size_table_def split: if_splits)
  moreover have "size_ix h_size_table wanted 0 = 30"
    if "h_size_table ! size_ix h_size_table wanted 0 = - 1"
    using that size_ix_bounds [of h_size_table 0 wanted] h_size_table_pos [of "size_ix h_size_table wanted 0"]
    by (cases "size_ix h_size_table wanted 0 < 30") (auto simp: h_size_table_def)
  ultimately show ?thesis using Inl by (auto simp: hash_init_def Let_def split: if_splits)
next
  case (Inr h)
  with hash_init_ok [of wanted f h key] show ?thesis by simp
qed

text \<open>
  C8: hash\_put on a well-formed table returns the object stored under the template's key if there
  is one, and then changes nothing; otherwise it stores the object that the alloc callback returns,
  whether or not the table is rehashed, and the table is well formed again and maps that key to it.
  hash\_get reads this map.
\<close>

theorem hash_put_spec:
  assumes "hash_client f key" and "hash_ok key h" and "h_fun h = f"
  shows "hash_get h tmpl = hash_map key h (key tmpl) \<and>
    (case hash_put h tmpl w of (ob, h', w') \<Rightarrow>
       hash_ok key h' \<and> h_fun h' = f \<and> hash_map key h' = (hash_map key h)(key tmpl \<mapsto> ob) \<and>
       hash_get h' tmpl = Some ob \<and>
       (case hash_get h tmpl of
          Some ob' \<Rightarrow> ob = ob' \<and> h' = h \<and> w' = w
        | None \<Rightarrow> (ob, w') = fun_alloc f tmpl w))"
  using hash_client.put_ok [OF assms(1), of h tmpl w] hash_client.get_map [OF assms(1)] assms(2,3)
  by (cases "hash_map key h (key tmpl)") auto

text \<open>Tables of numbers, keyed by themselves, that hash to their last digit.\<close>

definition example_functions :: "(nat, nat) hash_functions" where
  "example_functions = \<lparr>fun_hash = (\<lambda>n. of_nat (n mod 10)), fun_cmp = (\<lambda>a b. if a = b then 0 else 1),
     fun_alloc = (\<lambda>n w. (n, Suc w)), fun_free = (\<lambda>n w. w - 1)\<rparr>"

interpretation example: hash_client example_functions "\<lambda>n. n"
  by unfold_locales (auto simp: example_functions_def)

definition example_table :: "(nat, nat) hash" where
  "example_table = \<lparr>h_fun = example_functions, is_allocated = False, h_size = 2, size20percent = 0,
     size80percent = 1, h_ix = 0, h_used = 1,
     h_bucket = [[], [\<lparr>hvalue = 3, hobj = 13\<rparr>, \<lparr>hvalue = 1, hobj = 1\<rparr>]]\<rparr>"

lemma example_table_ok: "hash_ok (\<lambda>n. n) example_table" "h_fun example_table = example_functions"
proof -
  have "unat (3 :: Uint) mod 2 = 1" and "unat (1 :: Uint) mod 2 = 1" by simp_all
  then show "hash_ok (\<lambda>n. n) example_table"
    by (auto simp: example_table_def hash_ok_def size_ok_def vector_ok_def used_slots_def
        hash_keys_def example_functions_def h_size_table_def less_2_cases_iff)
  show "h_fun example_table = example_functions" by (simp add: example_table_def)
qed

theorem hash_put_spec_witness:
  "let (ob, h', w') = hash_put example_table 4 7
   in ob = 4 \<and> w' = 8 \<and> hash_ok (\<lambda>n. n) h' \<and> hash_get h' 4 = Some 4 \<and> h_size h' = 5"
proof -
  have "h_size (fst (snd (hash_put example_table 4 7))) = 5" by code_simp
  moreover have "hash_get example_table 4 = None" by code_simp
  ultimately show ?thesis
    using hash_put_spec [OF example.hash_client_axioms example_table_ok, of 4 7]
    by (auto simp: example_functions_def)
qed

text \<open>
  C9: hash\_remove and hash\_erase on a well-formed table take out the object stored under the
  template's key, if there is one, and leave a well-formed table with all the others, rehashed or
  not; hash\_remove returns the object, hash\_erase the template after one call of the free
  callback on the object.
\<close>

theorem hash_remove_spec:
  assumes "hash_client f key" and "hash_ok key h" and "h_fun h = f"
  shows "(case hash_remove h tmpl of (res, h') \<Rightarrow>
       res = hash_get h tmpl \<and> hash_ok key h' \<and> h_fun h' = f \<and>
       hash_map key h' = (hash_map key h)(key tmpl := None) \<and>
       hash_erase h tmpl w =
         (case res of None \<Rightarrow> (None, h', w) | Some ob \<Rightarrow> (Some tmpl, h', fun_free f ob w)))"
proof (cases "hash_map key h (key tmpl)")
  case None
  with hash_client.unlink_ok [OF assms(1), of h tmpl] hash_client.get_map [OF assms(1)] assms(2,3)
  show ?thesis by (auto simp: hash_remove_def hash_erase_def)
next
  case (Some ob)
  with hash_client.unlink_ok [OF assms(1), of h tmpl] assms(2,3)
  obtain b h' where "unlink_bucket h tmpl = Some (b, h')" "hobj b = ob" "hash_ok key h'" "h_fun h' = f"
    "hash_map key h' = (hash_map key h)(key tmpl := None)" by auto
  with Some hash_client.get_map [OF assms(1)] assms(2,3) show ?thesis
    by (simp add: hash_remove_def hash_erase_def)
qed

theorem hash_remove_spec_witness:
  "let (res, h') = hash_remove example_table 13 in res = Some 13 \<and> hash_ok (\<lambda>n. n) h' \<and> hash_get h' 1 = Some 1"
proof -
  have g: "hash_get example_table 13 = Some 13" by code_simp
  have "hash_get (snd (hash_remove example_table 13)) 1 = Some 1" by code_simp
  with g hash_remove_spec [OF example.hash_client_axioms example_table_ok, of 13] show ?thesis
    by (auto simp: Let_def)
qed

text \<open>
  C10: erts\_hash\_merge moves all the objects of the source into the destination and leaves the
  source empty; the emulator aborts exactly if some key is in both tables.
\<close>

theorem erts_hash_merge_spec:
  assumes "hash_client f key" and "hash_ok key src" and "h_fun src = f" and "hash_ok key dst"
    and "h_fun dst = f"
  shows "if dom (hash_map key src) \<inter> dom (hash_map key dst) = {}
         then \<exists>src' dst'. erts_hash_merge src dst = Inr (src', dst') \<and> hash_ok key src' \<and> hash_ok key dst' \<and>
                hash_map key src' = Map.empty \<and> hash_map key dst' = hash_map key dst ++ hash_map key src
         else erts_hash_merge src dst = Inl Abort"
proof -
  let ?bs = "concat (h_bucket src)"
  have hv: "\<forall>b\<in>set ?bs. hvalue b = fun_hash f (hobj b)" and d: "distinct (map (\<lambda>b. key (hobj b)) ?bs)"
    using assms(2,3) by (auto simp: hash_ok_def hash_keys_def)
  have dom: "dom (hash_map key src) = (\<lambda>b. key (hobj b)) ` set ?bs"
    by (simp add: hash_map_def dom_map_of_conv_image_fst image_image)
  show ?thesis
  proof (cases "dom (hash_map key src) \<inter> dom (hash_map key dst) = {}")
    case True
    then have "\<forall>b\<in>set ?bs. hash_map key dst (key (hobj b)) = None"
      unfolding dom by (metis (mono_tags, lifting) disjoint_iff domIff image_eqI)
    from hash_client.insert_entries_ok [OF assms(1) conjI [OF assms(4,5)] hv d this]
    obtain dst' where dst': "insert_entries ?bs dst = Inr dst'" "hash_ok key dst'"
      "hash_map key dst' = hash_map key dst ++ hash_map key src"
      unfolding hash_map_def [of key src] by blast
    define src' where "src' = src\<lparr>h_used := 0, h_bucket := replicate (h_size src) []\<rparr>"
    have "hash_ok key src'" "hash_map key src' = Map.empty"
      using assms(2) by (simp_all add: src'_def hash_ok_def hash_keys_def size_ok_def hash_map_def)
    moreover have "erts_hash_merge src dst = Inr (src', dst')"
      by (simp add: erts_hash_merge_def dst' src'_def)
    ultimately show ?thesis unfolding if_P [OF True] using dst'(2,3) by blast
  next
    case False
    then obtain k where k: "k \<in> dom (hash_map key src)" "k \<in> dom (hash_map key dst)" by blast
    from k(1) obtain b where b: "b \<in> set ?bs" "k = key (hobj b)" unfolding dom by (rule imageE)
    from b(1) k(2) have "b \<in> set ?bs" "hash_map key dst (key (hobj b)) \<noteq> None"
      unfolding b(2) by (simp_all only: domIff not_False_eq_True)
    from hash_client.insert_entries_clash [OF assms(1) conjI [OF assms(4,5)] hv d this] False
    show ?thesis by (simp add: erts_hash_merge_def)
  qed
qed

theorem erts_hash_merge_spec_witness:
  "erts_hash_merge example_table example_table = Inl Abort"
proof -
  have "hash_map (\<lambda>n. n) example_table 1 = Some 1"
    using hash_client.get_map [OF example.hash_client_axioms, of example_table 1] example_table_ok
    by (simp add: example_table_def hash_get_def slot_of_def matches_def example_functions_def)
  then show ?thesis
    using erts_hash_merge_spec [OF example.hash_client_axioms example_table_ok example_table_ok]
    by (auto split: if_splits)
qed

text \<open>
  hash\_foreach and hash\_delete call the function on exactly the objects of the table, each
  once, and hash\_get\_info counts them.
\<close>

lemma hash_foreach_all:
  "hash_foreach h g x = fold g (map hobj (concat (h_bucket h))) x \<and>
   hash_delete h w = fold (fun_free (h_fun h)) (map hobj (concat (h_bucket h))) w \<and>
   hi_objs (hash_get_info h) = length (map hobj (concat (h_bucket h)))"
proof -
  have 1: "fold (\<lambda>b. f (hobj b)) bs s = fold f (map hobj bs) s" for f :: "'x \<Rightarrow> 'z \<Rightarrow> 'z" and bs s
    by (induction bs arbitrary: s) auto
  have 2: "fst (info_loop bss n m) = n + length (concat bss)" for bss :: "'x hash_bucket list list" and n m
    by (induction bss n m rule: info_loop.induct) auto
  have "hash_foreach h g x = fold (fold (\<lambda>b. g (hobj b))) (h_bucket h) x"
    by (simp add: hash_foreach_def)
  moreover have "hash_delete h w = fold (fold (\<lambda>b. fun_free (h_fun h) (hobj b))) (h_bucket h) w"
    by (simp add: hash_delete_def)
  moreover have "hi_objs (hash_get_info h) = length (concat (h_bucket h))"
    using 2 [of "h_bucket h" 0 0]
    by (cases "info_loop (h_bucket h) 0 0") (simp add: hash_get_info_def)
  ultimately show ?thesis by (simp add: fold_concat 1)
qed

end
