(* ===== verification/Index_Table.thy ===== *)
theory Index_Table
  imports Hash_Table
begin

section \<open>Index tables: index.c\<close>

text \<open>
  An index table numbers the objects of a hash table in the order they are put: a two-level
  array (seg\_table, pages of 1024) leads from the number to the object, and the field \<open>index\<close>
  of the object, -1 until it is set, back. Objects start with an IndexSlot, whose index is written
  after the object is in the table, so the indices are kept in a store: \<open>slot_addr\<close> is the
  address of the object, and \<open>slot_index\<close> of the state gives the index at an address. The
  state can be extended by the client of the table (\<open>'z\<close>). A page that is not allocated and an
  element that was never written are None, and using one is \<open>Bad_memory\<close>.
\<close>

record 'a islot =
  slot_addr :: nat
  slot_data :: 'a

record index_world =
  slot_index :: "nat \<Rightarrow> int"
  next_slot :: nat

datatype index_error = No_more_index_entries int | Too_large_hash int | Bad_memory

record ('a, 'w) index_table =
  htable :: "('a islot, 'w) hash"
  t_size :: int
  t_limit :: int
  t_entries :: int
  seg_len :: nat
  seg_table :: "nat \<Rightarrow> (nat \<Rightarrow> 'a islot option) option"

definition INDEX_PAGE_SIZE :: nat where
  "INDEX_PAGE_SIZE = 1024"

definition erts_index_init ::
  "int \<Rightarrow> int \<Rightarrow> ('a islot, 'w) hash_functions \<Rightarrow> index_error + ('a, 'w) index_table" where
  "erts_index_init sz limit f =
     (case hash_init (3 * sz div 4) f of
        Inl e \<Rightarrow> Inl (Too_large_hash (3 * sz div 4))
      | Inr h \<Rightarrow>
          Inr \<lparr>htable = h, t_size = 0, t_limit = limit, t_entries = 0,
               seg_len = nat ((limit + int INDEX_PAGE_SIZE - 1) div int INDEX_PAGE_SIZE),
               seg_table = (\<lambda>_. None)\<rparr>)"

text \<open>\<open>seg_table[ix >> INDEX_PAGE_SHIFT][ix & INDEX_PAGE_MASK]\<close>, read and written.\<close>

definition erts_index_lookup :: "('a, 'w) index_table \<Rightarrow> nat \<Rightarrow> 'a islot option" where
  "erts_index_lookup t ix =
     (if ix div INDEX_PAGE_SIZE < seg_len t
      then Option.bind (seg_table t (ix div INDEX_PAGE_SIZE)) (\<lambda>page. page (ix mod INDEX_PAGE_SIZE))
      else None)"

definition seg_write :: "('a, 'w) index_table \<Rightarrow> nat \<Rightarrow> 'a islot \<Rightarrow> index_error + ('a, 'w) index_table" where
  "seg_write t ix p =
     (if ix div INDEX_PAGE_SIZE < seg_len t
      then (case seg_table t (ix div INDEX_PAGE_SIZE) of
              None \<Rightarrow> Inl Bad_memory
            | Some page \<Rightarrow>
                Inr (t\<lparr>seg_table := (seg_table t)
                        (ix div INDEX_PAGE_SIZE := Some (page(ix mod INDEX_PAGE_SIZE := Some p)))\<rparr>))
      else Inl Bad_memory)"

text \<open>Make sure that there is a page for the next index, exit at the limit.\<close>

definition need_page :: "('a, 'w) index_table \<Rightarrow> int \<Rightarrow> index_error + ('a, 'w) index_table" where
  "need_page t ix =
     (if ix \<ge> t_size t then
        (if ix \<ge> t_limit t then Inl (No_more_index_entries (t_limit t))
         else if nat ix div INDEX_PAGE_SIZE < seg_len t
         then Inr (t\<lparr>seg_table := (seg_table t)(nat ix div INDEX_PAGE_SIZE := Some (\<lambda>_. None)),
                     t_size := t_size t + int INDEX_PAGE_SIZE\<rparr>)
         else Inl Bad_memory)
      else Inr t)"

text \<open>Give the object \<open>p\<close> the index \<open>ix\<close>.\<close>

definition set_slot ::
  "('a, 'z index_world_scheme) index_table \<Rightarrow> 'a islot \<Rightarrow> int \<Rightarrow> 'z index_world_scheme \<Rightarrow>
   index_error + ('a, 'z index_world_scheme) index_table \<times> 'z index_world_scheme" where
  "set_slot t p ix w =
     map_sum id (\<lambda>t'. (t', w\<lparr>slot_index := (slot_index w)(slot_addr p := ix)\<rparr>))
       (seg_write t (nat ix) p)"

definition index_put_entry ::
  "('a, 'z index_world_scheme) index_table \<Rightarrow> 'a islot \<Rightarrow> 'z index_world_scheme \<Rightarrow>
   index_error + 'a islot \<times> ('a, 'z index_world_scheme) index_table \<times> 'z index_world_scheme" where
  "index_put_entry t tmpl w =
     (case hash_put (htable t) tmpl w of
        (p, h, w') \<Rightarrow>
          let t1 = t\<lparr>htable := h\<rparr> in
          if slot_index w' (slot_addr p) \<ge> 0 then Inr (p, t1, w')
          else
            let ix = t_entries t1 in
            case need_page t1 ix of
              Inl e \<Rightarrow> Inl e
            | Inr t2 \<Rightarrow> map_sum id (Pair p) (set_slot (t2\<lparr>t_entries := t_entries t2 + 1\<rparr>) p ix w'))"

definition index_put ::
  "('a, 'z index_world_scheme) index_table \<Rightarrow> 'a islot \<Rightarrow> 'z index_world_scheme \<Rightarrow>
   index_error + int \<times> ('a, 'z index_world_scheme) index_table \<times> 'z index_world_scheme" where
  "index_put t tmpl w =
     map_sum id (\<lambda>(p, t', w'). (slot_index w' (slot_addr p), t', w')) (index_put_entry t tmpl w)"

definition index_get ::
  "('a, 'z index_world_scheme) index_table \<Rightarrow> 'a islot \<Rightarrow> 'z index_world_scheme \<Rightarrow> int" where
  "index_get t tmpl w =
     (case hash_get (htable t) tmpl of None \<Rightarrow> - 1 | Some p \<Rightarrow> slot_index w (slot_addr p))"

text \<open>erts\_index\_merge numbers the objects of \<open>src\<close>, which stay in its chains.\<close>

fun merge_slots ::
  "'a islot list \<Rightarrow> ('a, 'z index_world_scheme) index_table \<Rightarrow> 'z index_world_scheme \<Rightarrow>
   index_error + ('a, 'z index_world_scheme) index_table \<times> 'z index_world_scheme" where
  "merge_slots [] dst w = Inr (dst, w)"
| "merge_slots (p # ps) dst w =
     (let ix = t_entries dst in
      case need_page (dst\<lparr>t_entries := ix + 1\<rparr>) ix of
        Inl e \<Rightarrow> Inl e
      | Inr dst1 \<Rightarrow> (case set_slot dst1 p ix w of
                       Inl e \<Rightarrow> Inl e | Inr (dst2, w') \<Rightarrow> merge_slots ps dst2 w'))"

definition erts_index_merge ::
  "('a islot, 'z index_world_scheme) hash \<Rightarrow> ('a, 'z index_world_scheme) index_table \<Rightarrow>
   'z index_world_scheme \<Rightarrow> index_error + ('a, 'z index_world_scheme) index_table \<times> 'z index_world_scheme" where
  "erts_index_merge src dst w = merge_slots (map hobj (concat (h_bucket src))) dst w"

text \<open>The loop of index\_erase\_latest\_from; \<open>n\<close> counts the iterations left.\<close>

fun erase_from ::
  "nat \<Rightarrow> nat \<Rightarrow> ('a, 'w) index_table \<Rightarrow> 'w \<Rightarrow> index_error + ('a, 'w) index_table \<times> 'w" where
  "erase_from 0 ix t w = Inr (t, w)"
| "erase_from (Suc n) ix t w =
     (case erts_index_lookup t ix of
        None \<Rightarrow> Inl Bad_memory
      | Some ob \<Rightarrow> (case hash_erase (htable t) ob w of
                      (_, h, w') \<Rightarrow> erase_from n (Suc ix) (t\<lparr>htable := h\<rparr>) w'))"

definition index_erase_latest_from ::
  "('a, 'w) index_table \<Rightarrow> nat \<Rightarrow> 'w \<Rightarrow> index_error + ('a, 'w) index_table \<times> 'w" where
  "index_erase_latest_from t from_ix w =
     (if int from_ix < t_entries t
      then map_sum id (\<lambda>(t', w'). (t'\<lparr>t_entries := int from_ix\<rparr>, w'))
             (erase_from (nat (t_entries t) - from_ix) from_ix t w)
      else Inr (t, w))"

subsection \<open>The list of keys a table represents\<close>

text \<open>
  The abstract value of an index table is the list of its keys in index order, without
  repetitions.
\<close>

definition pages_ok :: "('a, 'w) index_table \<Rightarrow> bool" where
  "pages_ok t \<longleftrightarrow> 0 \<le> t_entries t \<and> t_entries t \<le> t_size t \<and> t_limit t \<le> int (INDEX_PAGE_SIZE * seg_len t) \<and>
     (\<exists>k \<le> seg_len t. t_size t = int (INDEX_PAGE_SIZE * k) \<and> (\<forall>j. seg_table t j \<noteq> None \<longleftrightarrow> j < k))"

definition entry_ok ::
  "('a islot \<Rightarrow> 'k) \<Rightarrow> ('a, 'z index_world_scheme) index_table \<Rightarrow> 'z index_world_scheme \<Rightarrow> 'k \<Rightarrow> nat \<Rightarrow> bool" where
  "entry_ok key t w k i \<longleftrightarrow>
     (\<exists>p. erts_index_lookup t i = Some p \<and> key p = k \<and> hash_map key (htable t) k = Some p \<and>
          slot_index w (slot_addr p) = int i \<and> slot_addr p < next_slot w)"

definition index_rep ::
  "('a islot \<Rightarrow> 'k) \<Rightarrow> ('a, 'z index_world_scheme) index_table \<Rightarrow> 'z index_world_scheme \<Rightarrow> 'k list \<Rightarrow> bool" where
  "index_rep key t w ks \<longleftrightarrow> hash_ok key (htable t) \<and> pages_ok t \<and> distinct ks \<and>
     t_entries t = int (length ks) \<and> dom (hash_map key (htable t)) = set ks \<and>
     (\<forall>i<length ks. entry_ok key t w (ks ! i) i)"

text \<open>The callbacks: a new object is at a fresh address with index -1.\<close>

locale index_client = hash_client f key
  for f :: "('a islot, 'z index_world_scheme) hash_functions" and key :: "'a islot \<Rightarrow> 'k" +
  assumes alloc_addr: "slot_addr (fst (fun_alloc f t w)) = next_slot w"
    and alloc_next: "next_slot (snd (fun_alloc f t w)) = Suc (next_slot w)"
    and alloc_index: "slot_index (snd (fun_alloc f t w)) = (slot_index w)(next_slot w := - 1)"
    and free_index: "slot_index (fun_free f ob w) = slot_index w"
    and free_next: "next_slot (fun_free f ob w) = next_slot w"

subsection \<open>The two-level array\<close>

lemma page_div_mod_eq: "j div INDEX_PAGE_SIZE = i div INDEX_PAGE_SIZE \<Longrightarrow>
    j mod INDEX_PAGE_SIZE = i mod INDEX_PAGE_SIZE \<Longrightarrow> j = i"
  by (metis div_mult_mod_eq)

lemma page_less: "j < INDEX_PAGE_SIZE * k \<longleftrightarrow> j div INDEX_PAGE_SIZE < k"
  by (simp add: INDEX_PAGE_SIZE_def div_less_iff_less_mult mult.commute)

lemma lookup_frame [simp]:
  "erts_index_lookup (t\<lparr>htable := h\<rparr>) i = erts_index_lookup t i"
  "erts_index_lookup (t\<lparr>t_entries := n\<rparr>) i = erts_index_lookup t i"
  by (simp_all add: erts_index_lookup_def)

lemma page_start: "INDEX_PAGE_SIZE * k div INDEX_PAGE_SIZE = k"
  by (simp add: INDEX_PAGE_SIZE_def)

lemma seg_write_ok:
  assumes "i div INDEX_PAGE_SIZE < seg_len t" and "seg_table t (i div INDEX_PAGE_SIZE) \<noteq> None"
  shows "\<exists>t'. seg_write t i p = Inr t' \<and> erts_index_lookup t' i = Some p \<and>
    (\<forall>j. j \<noteq> i \<longrightarrow> erts_index_lookup t' j = erts_index_lookup t j) \<and>
    (\<forall>j. seg_table t' j = None \<longleftrightarrow> seg_table t j = None) \<and> htable t' = htable t \<and>
    t_size t' = t_size t \<and> t_entries t' = t_entries t \<and> t_limit t' = t_limit t \<and> seg_len t' = seg_len t"
proof -
  obtain page where page: "seg_table t (i div INDEX_PAGE_SIZE) = Some page" using assms(2) by blast
  define t' where "t' = t\<lparr>seg_table := (seg_table t)
    (i div INDEX_PAGE_SIZE := Some (page(i mod INDEX_PAGE_SIZE := Some p)))\<rparr>"
  have "erts_index_lookup t' j = (if j = i then Some p else erts_index_lookup t j)" for j
    using assms(1) page page_div_mod_eq [of j i] by (auto simp: erts_index_lookup_def t'_def)
  moreover have "seg_write t i p = Inr t'" using assms(1) page by (simp add: seg_write_def t'_def)
  ultimately show ?thesis using page by (intro exI [of _ t']) (simp add: t'_def)
qed

lemma need_page_ok:
  assumes "pages_ok t" and "ix = t_entries t" and "\<not> (t_size t \<le> ix \<and> t_limit t \<le> ix)"
  shows "\<exists>t' k. need_page t ix = Inr t' \<and> htable t' = htable t \<and> t_entries t' = ix \<and>
    t_limit t' = t_limit t \<and> seg_len t' = seg_len t \<and> k \<le> seg_len t \<and>
    t_size t' = int (INDEX_PAGE_SIZE * k) \<and> nat ix < INDEX_PAGE_SIZE * k \<and>
    (\<forall>j. seg_table t' j \<noteq> None \<longleftrightarrow> j < k) \<and>
    (\<forall>j<nat ix. erts_index_lookup t' j = erts_index_lookup t j)"
proof -
  obtain k where k: "k \<le> seg_len t" "t_size t = int (INDEX_PAGE_SIZE * k)" "\<And>j. seg_table t j \<noteq> None \<longleftrightarrow> j < k"
    using assms(1) by (auto simp: pages_ok_def)
  have e: "0 \<le> ix" "ix \<le> t_size t" "t_limit t \<le> int (INDEX_PAGE_SIZE * seg_len t)"
    using assms(1,2) by (auto simp: pages_ok_def)
  show ?thesis
  proof (cases "t_size t \<le> ix")
    case False
    then have "nat ix < INDEX_PAGE_SIZE * k" using k(2) e(1) by (simp add: nat_less_iff)
    with False k assms show ?thesis by (intro exI [of _ t] exI [of _ k]) (simp add: need_page_def)
  next
    case True
    then have "ix = int (INDEX_PAGE_SIZE * k)" using e(2) k(2) by linarith
    then have ix: "nat ix = INDEX_PAGE_SIZE * k" by (simp only: nat_int)
    have "ix < t_limit t" using True assms(3) by linarith
    then have "INDEX_PAGE_SIZE * k < INDEX_PAGE_SIZE * seg_len t" using e k(2) True by linarith
    then have kl: "k < seg_len t" by simp
    define t' where "t' = t\<lparr>seg_table := (seg_table t)(k := Some (\<lambda>_. None)),
      t_size := t_size t + int INDEX_PAGE_SIZE\<rparr>"
    have "need_page t ix = Inr t'"
      using True \<open>ix < t_limit t\<close> kl by (simp add: need_page_def ix page_start t'_def)
    moreover have "erts_index_lookup t' j = erts_index_lookup t j" if "j < nat ix" for j
      using that by (simp add: erts_index_lookup_def t'_def ix page_less)
    moreover have "nat ix < INDEX_PAGE_SIZE * Suc k" unfolding ix by (simp add: INDEX_PAGE_SIZE_def)
    moreover have "\<forall>j. seg_table t' j \<noteq> None \<longleftrightarrow> j < Suc k"
      using k(3) by (auto simp: t'_def less_Suc_eq)
    ultimately show ?thesis using kl k(2) assms(2)
      by (intro exI [of _ t'] exI [of _ "Suc k"]) (simp add: t'_def)
  qed
qed

lemma add_slot_ok:
  assumes "pages_ok t" and "ix = t_entries t" and "\<not> (t_size t \<le> ix \<and> t_limit t \<le> ix)"
  shows "\<exists>t2 t'. need_page t ix = Inr t2 \<and>
    seg_write (t2\<lparr>t_entries := t_entries t2 + 1\<rparr>) (nat ix) p = Inr t' \<and> pages_ok t' \<and>
    htable t' = htable t \<and> t_entries t' = ix + 1 \<and> t_limit t' = t_limit t \<and>
    (\<forall>j<nat ix. erts_index_lookup t' j = erts_index_lookup t j) \<and> erts_index_lookup t' (nat ix) = Some p"
proof -
  obtain t2 k where t2: "need_page t ix = Inr t2" "htable t2 = htable t" "t_entries t2 = ix"
    "t_limit t2 = t_limit t" "seg_len t2 = seg_len t" "k \<le> seg_len t"
    "t_size t2 = int (INDEX_PAGE_SIZE * k)" "nat ix < INDEX_PAGE_SIZE * k"
    "\<forall>j. seg_table t2 j \<noteq> None \<longleftrightarrow> j < k"
    "\<forall>j<nat ix. erts_index_lookup t2 j = erts_index_lookup t j"
    using need_page_ok [OF assms] by blast
  let ?t3 = "t2\<lparr>t_entries := t_entries t2 + 1\<rparr>"
  have "nat ix div INDEX_PAGE_SIZE < k" using t2(8) by (simp only: page_less)
  then have "nat ix div INDEX_PAGE_SIZE < seg_len ?t3" "seg_table ?t3 (nat ix div INDEX_PAGE_SIZE) \<noteq> None"
    using t2(5,6,9) by auto
  from seg_write_ok [OF this, of p]
  obtain t' where t': "seg_write ?t3 (nat ix) p = Inr t'" "erts_index_lookup t' (nat ix) = Some p"
    "\<forall>j. j \<noteq> nat ix \<longrightarrow> erts_index_lookup t' j = erts_index_lookup ?t3 j"
    "\<forall>j. seg_table t' j = None \<longleftrightarrow> seg_table ?t3 j = None" "htable t' = htable ?t3"
    "t_size t' = t_size ?t3" "t_entries t' = t_entries ?t3" "t_limit t' = t_limit ?t3" "seg_len t' = seg_len ?t3"
    by blast
  have "0 \<le> ix" using assms(1,2) by (simp add: pages_ok_def)
  have "pages_ok t'"
    using t' t2 assms(1) \<open>0 \<le> ix\<close> unfolding pages_ok_def
    by (intro conjI exI [of _ k]) (simp_all add: nat_less_iff)
  with t2 t' show ?thesis by auto
qed

subsection \<open>Operations on the list of keys\<close>

context index_client
begin

lemma put_present:
  assumes "index_rep key t w ks" and "h_fun (htable t) = f" and "i < length ks" and "ks ! i = key tmpl"
  shows "index_put t tmpl w = Inr (int i, t, w)"
proof -
  have "entry_ok key t w (ks ! i) i" using assms(1,3) by (simp add: index_rep_def)
  then obtain p where p: "hash_map key (htable t) (key tmpl) = Some p" "slot_index w (slot_addr p) = int i"
    unfolding assms(4) entry_ok_def by blast
  with put_ok [of "htable t" tmpl w] assms(1,2) have "hash_put (htable t) tmpl w = (p, htable t, w)"
    by (simp add: index_rep_def)
  then show ?thesis by (simp add: index_put_def index_put_entry_def p)
qed

lemma put_absent:
  assumes "index_rep key t w ks" and "h_fun (htable t) = f" and "key tmpl \<notin> set ks"
  shows "if t_size t \<le> int (length ks) \<and> t_limit t \<le> int (length ks)
    then index_put t tmpl w = Inl (No_more_index_entries (t_limit t))
    else \<exists>t' w'. index_put t tmpl w = Inr (int (length ks), t', w') \<and>
           index_rep key t' w' (ks @ [key tmpl]) \<and> h_fun (htable t') = f \<and> t_limit t' = t_limit t"
proof -
  let ?p = "fst (fun_alloc f tmpl w)" and ?w = "snd (fun_alloc f tmpl w)" and ?n = "int (length ks)"
  have hk: "hash_ok key (htable t)" and n: "t_entries t = ?n" and pg: "pages_ok t"
    using assms(1) by (auto simp: index_rep_def)
  have "hash_map key (htable t) (key tmpl) = None" using assms(1,3) by (auto simp: index_rep_def)
  with put_ok [of "htable t" tmpl w] hk assms(2) obtain h where
    h: "hash_put (htable t) tmpl w = (?p, h, ?w)" "hash_ok key h" "h_fun h = f"
      "hash_map key h = (hash_map key (htable t))(key tmpl \<mapsto> ?p)" by auto
  have new: "slot_addr ?p = next_slot w" "slot_index ?w (next_slot w) = - 1"
    by (simp_all add: alloc_addr alloc_index)
  let ?t1 = "t\<lparr>htable := h\<rparr>"
  have pg1: "pages_ok ?t1" using pg by (simp add: pages_ok_def)
  show ?thesis
  proof (cases "t_size t \<le> ?n \<and> t_limit t \<le> ?n")
    case True
    then show ?thesis by (simp add: index_put_def index_put_entry_def h new n need_page_def)
  next
    case False
    from add_slot_ok [OF pg1, of ?n ?p] False n obtain t2 t' where
      t': "need_page ?t1 ?n = Inr t2" "seg_write (t2\<lparr>t_entries := t_entries t2 + 1\<rparr>) (nat ?n) ?p = Inr t'"
        "pages_ok t'" "htable t' = h" "t_entries t' = ?n + 1" "t_limit t' = t_limit t"
        "\<forall>j<length ks. erts_index_lookup t' j = erts_index_lookup t j"
        "erts_index_lookup t' (length ks) = Some ?p" by auto
    let ?w' = "?w\<lparr>slot_index := (slot_index ?w)(slot_addr ?p := ?n)\<rparr>"
    have put: "index_put t tmpl w = Inr (?n, t', ?w')"
      using t' by (simp add: index_put_def index_put_entry_def h new n set_slot_def)
    have "entry_ok key t' ?w' ((ks @ [key tmpl]) ! i) i" if i: "i < length (ks @ [key tmpl])" for i
    proof (cases "i = length ks")
      case True
      then show ?thesis using t' h new alloc_key [of tmpl w] by (simp add: entry_ok_def alloc_next)
    next
      case False
      with i have i: "i < length ks" by simp
      then have "entry_ok key t w (ks ! i) i" using assms(1) by (simp add: index_rep_def)
      then obtain q where q: "erts_index_lookup t i = Some q" "key q = ks ! i"
        "hash_map key (htable t) (ks ! i) = Some q" "slot_index w (slot_addr q) = int i"
        "slot_addr q < next_slot w" by (auto simp: entry_ok_def)
      have "ks ! i \<noteq> key tmpl" using nth_mem [OF i] assms(3) by metis
      then show ?thesis using i q t' h new
        by (simp add: entry_ok_def nth_append alloc_next alloc_index)
    qed
    moreover have "dom (hash_map key h) = set (ks @ [key tmpl])"
      using h(4) assms(1) by (auto simp: index_rep_def)
    ultimately have "index_rep key t' ?w' (ks @ [key tmpl])"
      using assms(1,3) t' h(2) by (simp add: index_rep_def)
    with put t' h(3) False show ?thesis by auto
  qed
qed

lemma get_rep:
  assumes "index_rep key t w ks" and "h_fun (htable t) = f"
  shows "index_get t tmpl w = - 1 \<and> key tmpl \<notin> set ks \<or>
    (\<exists>i<length ks. ks ! i = key tmpl \<and> index_get t tmpl w = int i)"
proof (cases "key tmpl \<in> set ks")
  case True
  then obtain i where i: "i < length ks" "ks ! i = key tmpl" by (auto simp: in_set_conv_nth)
  then have "entry_ok key t w (key tmpl) i" using assms(1) by (auto simp: index_rep_def)
  with i get_map [of "htable t" tmpl] assms show ?thesis
    by (auto simp: index_get_def entry_ok_def index_rep_def)
next
  case False
  then have "hash_map key (htable t) (key tmpl) = None" using assms(1) by (auto simp: index_rep_def)
  with False get_map [of "htable t" tmpl] assms show ?thesis
    by (simp add: index_get_def index_rep_def)
qed

lemma erase_step:
  assumes "hash_ok key h" and "h_fun h = f"
  shows "\<exists>r h' w'. hash_erase h ob w = (r, h', w') \<and> hash_ok key h' \<and> h_fun h' = f \<and>
    hash_map key h' = (hash_map key h)(key ob := None) \<and>
    slot_index w' = slot_index w \<and> next_slot w' = next_slot w"
proof (cases "hash_map key h (key ob)")
  case None
  with unlink_ok [of h ob] assms show ?thesis by (auto simp: hash_erase_def)
next
  case (Some x)
  with unlink_ok [of h ob] assms obtain b h' where "unlink_bucket h ob = Some (b, h')"
    "hash_ok key h'" "h_fun h' = f" "hash_map key h' = (hash_map key h)(key ob := None)" by auto
  with assms show ?thesis by (simp add: hash_erase_def free_index free_next)
qed

lemma erase_from_ok:
  assumes "hash_ok key (htable t)" and "h_fun (htable t) = f" and "n = length ks - ix"
    and "\<forall>i<length ks. \<exists>p. erts_index_lookup t i = Some p \<and> key p = ks ! i"
  shows "\<exists>h' w'. erase_from n ix t w = Inr (t\<lparr>htable := h'\<rparr>, w') \<and> hash_ok key h' \<and> h_fun h' = f \<and>
    hash_map key h' = hash_map key (htable t) |` (- set (drop ix ks)) \<and>
    slot_index w' = slot_index w \<and> next_slot w' = next_slot w"
  using assms
proof (induction n arbitrary: ix t w)
  case 0
  then show ?case by (intro exI [of _ "htable t"] exI [of _ w]) simp
next
  case (Suc n)
  have ix: "ix < length ks" using Suc.prems(3) by simp
  obtain p where p: "erts_index_lookup t ix = Some p" "key p = ks ! ix" using Suc.prems(4) ix by blast
  obtain r h w1 where e: "hash_erase (htable t) p w = (r, h, w1)" "hash_ok key h" "h_fun h = f"
    "hash_map key h = (hash_map key (htable t))(ks ! ix := None)"
    "slot_index w1 = slot_index w" "next_slot w1 = next_slot w"
    using erase_step [OF Suc.prems(1,2), of p w] p(2) by auto
  let ?t = "t\<lparr>htable := h\<rparr>"
  have n: "n = length ks - Suc ix" using Suc.prems(3) by linarith
  have "hash_ok key (htable ?t)" "h_fun (htable ?t) = f"
    "\<forall>i<length ks. \<exists>p. erts_index_lookup ?t i = Some p \<and> key p = ks ! i"
    using e(2,3) Suc.prems(4) by simp_all
  from Suc.IH [OF this(1,2) n this(3), of w1] obtain h' w' where ih: "erase_from n (Suc ix) ?t w1 = Inr (?t\<lparr>htable := h'\<rparr>, w')" "hash_ok key h'"
    "h_fun h' = f" "hash_map key h' = hash_map key h |` (- set (drop (Suc ix) ks))"
    "slot_index w' = slot_index w1" "next_slot w' = next_slot w1"
    by auto
  have "hash_map key h' = hash_map key (htable t) |` (- set (drop ix ks))"
    unfolding ih(4) e(4) Cons_nth_drop_Suc [OF ix, symmetric]
    by (auto simp: fun_eq_iff restrict_map_def)
  moreover have "erase_from (Suc n) ix t w = Inr (t\<lparr>htable := h'\<rparr>, w')" using e p ih(1) by simp
  moreover have "slot_index w' = slot_index w" "next_slot w' = next_slot w" using ih e by simp_all
  ultimately show ?case using ih(2,3) by blast
qed

lemma erase_rep:
  assumes "index_rep key t w ks" and "h_fun (htable t) = f"
  shows "\<exists>t' w'. index_erase_latest_from t n w = Inr (t', w') \<and> index_rep key t' w' (take n ks) \<and>
    h_fun (htable t') = f"
proof (cases "n < length ks")
  case False
  with assms show ?thesis by (auto simp: index_erase_latest_from_def index_rep_def)
next
  case True
  have e: "\<forall>i<length ks. entry_ok key t w (ks ! i) i" and d: "distinct ks" and hk: "hash_ok key (htable t)"
    and dm: "dom (hash_map key (htable t)) = set ks" and ne: "t_entries t = int (length ks)"
    using assms(1) by (auto simp: index_rep_def)
  from e have "\<forall>i<length ks. \<exists>p. erts_index_lookup t i = Some p \<and> key p = ks ! i"
    by (auto simp: entry_ok_def)
  from erase_from_ok [OF hk assms(2) refl this, of n w] obtain h' w' where
    h': "erase_from (length ks - n) n t w = Inr (t\<lparr>htable := h'\<rparr>, w')" "hash_ok key h'" "h_fun h' = f"
      "hash_map key h' = hash_map key (htable t) |` (- set (drop n ks))"
      "slot_index w' = slot_index w" "next_slot w' = next_slot w" by blast
  let ?t = "t\<lparr>htable := h', t_entries := int n\<rparr>"
  have split: "set ks = set (take n ks) \<union> set (drop n ks)" "set (take n ks) \<inter> set (drop n ks) = {}"
    using d set_append [of "take n ks" "drop n ks"] distinct_append [of "take n ks" "drop n ks"] by auto
  have "entry_ok key ?t w' (take n ks ! i) i" if i: "i < n" for i
  proof -
    have "ks ! i \<in> set (take n ks)" using i True by (auto simp: in_set_conv_nth)
    then have "ks ! i \<notin> set (drop n ks)" using split(2) by blast
    moreover have "entry_ok key t w (ks ! i) i" using e i True by simp
    ultimately show ?thesis using i h' by (auto simp: entry_ok_def)
  qed
  moreover have "dom (hash_map key h') = set (take n ks)" using h'(4) dm split by auto
  moreover have "pages_ok ?t" using assms(1) True ne by (auto simp: index_rep_def pages_ok_def)
  ultimately have "index_rep key ?t w' (take n ks)"
    using True h' d by (simp add: index_rep_def)
  with h' True ne show ?thesis
    by (auto simp: index_erase_latest_from_def)
qed

end

subsection \<open>Properties\<close>

lemma index_init_rep:
  assumes "erts_index_init sz limit f = Inr t"
  shows "index_rep key t w [] \<and> h_fun (htable t) = f \<and> t_limit t = limit"
proof -
  obtain h where h: "hash_init (3 * sz div 4) f = Inr h"
    using assms by (auto simp: erts_index_init_def split: sum.splits)
  have "limit \<le> int (INDEX_PAGE_SIZE * nat ((limit + int INDEX_PAGE_SIZE - 1) div int INDEX_PAGE_SIZE))"
  proof -
    have "limit + 1023 < 1024 * ((limit + 1023) div 1024) + 1024"
      using pos_mod_bound [of 1024 "limit + 1023"] mult_div_mod_eq [of 1024 "limit + 1023"] by linarith
    moreover have "x \<le> int (nat x)" for x by simp
    ultimately have "limit \<le> 1024 * int (nat ((limit + 1023) div 1024))" by (smt (verit))
    then show ?thesis by (simp add: INDEX_PAGE_SIZE_def add.commute)
  qed
  with hash_init_ok [OF h, of key] assms h show ?thesis
    by (auto simp: erts_index_init_def index_rep_def pages_ok_def)
qed

text \<open>
  C11: index\_put on an index table that represents a list of keys returns the position of the
  template's key and changes nothing if the key is in the list; otherwise it appends the key and
  returns the new position, or exits if the limit is reached and all pages are full; index\_get
  returns the position of a key, or -1.
\<close>

theorem index_put_spec:
  assumes "index_client f key" and "index_rep key t w ks" and "h_fun (htable t) = f"
  shows "(case index_put t tmpl w of
       Inl e \<Rightarrow> e = No_more_index_entries (t_limit t) \<and> key tmpl \<notin> set ks \<and>
          t_size t \<le> int (length ks) \<and> t_limit t \<le> int (length ks)
     | Inr (i, t', w') \<Rightarrow>
         if key tmpl \<in> set ks
         then t' = t \<and> w' = w \<and> (\<exists>n<length ks. ks ! n = key tmpl \<and> i = int n)
         else i = int (length ks) \<and> index_rep key t' w' (ks @ [key tmpl]) \<and> h_fun (htable t') = f) \<and>
    (index_get t tmpl w = - 1 \<and> key tmpl \<notin> set ks \<or>
     (\<exists>n<length ks. ks ! n = key tmpl \<and> index_get t tmpl w = int n))"
proof (intro conjI)
  show "index_get t tmpl w = - 1 \<and> key tmpl \<notin> set ks \<or>
      (\<exists>n<length ks. ks ! n = key tmpl \<and> index_get t tmpl w = int n)"
    by (rule index_client.get_rep [OF assms])
  show "case index_put t tmpl w of
       Inl e \<Rightarrow> e = No_more_index_entries (t_limit t) \<and> key tmpl \<notin> set ks \<and>
          t_size t \<le> int (length ks) \<and> t_limit t \<le> int (length ks)
     | Inr (i, t', w') \<Rightarrow>
         if key tmpl \<in> set ks
         then t' = t \<and> w' = w \<and> (\<exists>n<length ks. ks ! n = key tmpl \<and> i = int n)
         else i = int (length ks) \<and> index_rep key t' w' (ks @ [key tmpl]) \<and> h_fun (htable t') = f"
  proof (cases "key tmpl \<in> set ks")
    case True
    then obtain n where n: "n < length ks" "ks ! n = key tmpl" by (auto simp: in_set_conv_nth)
    from index_client.put_present [OF assms n] n True show ?thesis by auto
  next
    case False
    with index_client.put_absent [OF assms False] show ?thesis by (auto split: if_splits)
  qed
qed

text \<open>Index tables of numbers.\<close>

definition number_functions :: "(nat islot, index_world) hash_functions" where
  "number_functions =
     \<lparr>fun_hash = (\<lambda>p. of_nat (slot_data p)),
      fun_cmp = (\<lambda>p q. if slot_data p = slot_data q then 0 else 1),
      fun_alloc = (\<lambda>p w. (\<lparr>slot_addr = next_slot w, slot_data = slot_data p\<rparr>,
        w\<lparr>slot_index := (slot_index w)(next_slot w := - 1), next_slot := Suc (next_slot w)\<rparr>)),
      fun_free = (\<lambda>p w. w)\<rparr>"

interpretation numbers: index_client number_functions slot_data
  by unfold_locales (auto simp: number_functions_def)

definition number_world :: index_world where
  "number_world = \<lparr>slot_index = (\<lambda>_. 0), next_slot = 1\<rparr>"

definition number_tmpl :: "nat \<Rightarrow> nat islot" where
  "number_tmpl n = \<lparr>slot_addr = 0, slot_data = n\<rparr>"

lemma number_table:
  obtains t where "erts_index_init 2 1 number_functions = Inr t" "index_rep slot_data t number_world []"
    "h_fun (htable t) = number_functions" "t_limit t = 1"
proof -
  obtain t where "erts_index_init 2 1 number_functions = Inr t"
    by (simp add: erts_index_init_def hash_init_def h_size_table_def)
  with index_init_rep [OF this, of slot_data number_world] that show ?thesis by blast
qed

theorem index_put_spec_witness:
  "\<exists>t t' w'. erts_index_init 2 1 number_functions = Inr t \<and>
     index_put t (number_tmpl 7) number_world = Inr (0, t', w') \<and> index_rep slot_data t' w' [7]"
proof -
  obtain t where t: "erts_index_init 2 1 number_functions = Inr t" "index_rep slot_data t number_world []"
    "h_fun (htable t) = number_functions" "t_limit t = 1" by (rule number_table)
  from index_put_spec [OF numbers.index_client_axioms t(2,3), of "number_tmpl 7"] t(1,4) show ?thesis
    by (auto simp: number_tmpl_def split: sum.splits)
qed

text \<open>
  An index, once given, is stable: after a successful put the looked-up object at the index
  returned has the template's key and index\_get finds that index again, and every index given
  before still leads to an object with the key it was given for.
\<close>

theorem index_put_stable:
  assumes "index_client f key" and "index_rep key t w ks" and "h_fun (htable t) = f"
    and "index_put t tmpl w = Inr (i, t', w')"
  shows "map_option key (erts_index_lookup t' (nat i)) = Some (key tmpl) \<and> index_get t' tmpl w' = i \<and>
    (\<forall>n<length ks. map_option key (erts_index_lookup t' n) = map_option key (erts_index_lookup t n))"
proof (cases "key tmpl \<in> set ks")
  case True
  then obtain n where n: "n < length ks" "ks ! n = key tmpl" by (auto simp: in_set_conv_nth)
  from index_client.put_present [OF assms(1-3) n] assms(4) have "i = int n" "t' = t" "w' = w" by simp_all
  moreover have "entry_ok key t w (ks ! n) n" using assms(2) n(1) by (simp add: index_rep_def)
  ultimately show ?thesis using n index_client.get_rep [OF assms(1-3), of tmpl] assms(2)
    by (auto simp: entry_ok_def index_rep_def nth_eq_iff_index_eq)
next
  case False
  with index_client.put_absent [OF assms(1-3) False] assms(4)
  have r: "i = int (length ks)" "index_rep key t' w' (ks @ [key tmpl])" "h_fun (htable t') = f"
    by (auto split: if_splits)
  have e: "\<forall>n<Suc (length ks). entry_ok key t' w' ((ks @ [key tmpl]) ! n) n"
    using r(2) by (simp add: index_rep_def)
  then have "entry_ok key t' w' (key tmpl) (length ks)" by (metis lessI nth_append_length)
  moreover have "entry_ok key t' w' (ks ! n) n" if "n < length ks" for n
    using e [rule_format, of n] that by (simp add: nth_append)
  moreover have "\<forall>n<length ks. entry_ok key t w (ks ! n) n" using assms(2) by (simp add: index_rep_def)
  moreover have "index_get t' tmpl w' = i"
    using index_client.get_rep [OF assms(1) r(2,3), of tmpl] False r(1)
    by (auto simp: nth_append in_set_conv_nth less_Suc_eq split: if_splits)
  ultimately show ?thesis using r(1) by (fastforce simp: entry_ok_def)
qed

theorem index_put_stable_witness:
  "\<exists>t t' w'. erts_index_init 2 1 number_functions = Inr t \<and>
     index_put t (number_tmpl 7) number_world = Inr (0, t', w') \<and> index_get t' (number_tmpl 7) w' = 0"
proof -
  obtain t where t: "erts_index_init 2 1 number_functions = Inr t" "index_rep slot_data t number_world []"
    "h_fun (htable t) = number_functions" "t_limit t = 1" by (rule number_table)
  from numbers.put_absent [OF t(2,3), of "number_tmpl 7"] t(4)
  obtain t' w' where p: "index_put t (number_tmpl 7) number_world = Inr (0, t', w')" by auto
  from index_put_stable [OF numbers.index_client_axioms t(2,3) p] t(1) p show ?thesis by blast
qed

text \<open>
  C12: index\_erase\_latest\_from keeps the entries below the given index as they are and erases
  the others from the hash table: the list of keys is cut to that length, and the operation never
  reads an element that was not written.
\<close>

theorem index_erase_spec:
  assumes "index_client f key" and "index_rep key t w ks" and "h_fun (htable t) = f"
  shows "\<exists>t' w'. index_erase_latest_from t n w = Inr (t', w') \<and> index_rep key t' w' (take n ks) \<and>
    h_fun (htable t') = f"
  by (rule index_client.erase_rep [OF assms])

theorem index_erase_spec_witness:
  "\<exists>t t' w' t2 w2. erts_index_init 2 1 number_functions = Inr t \<and>
     index_put t (number_tmpl 7) number_world = Inr (0, t', w') \<and>
     index_erase_latest_from t' 0 w' = Inr (t2, w2) \<and> index_rep slot_data t2 w2 []"
proof -
  obtain t where t: "erts_index_init 2 1 number_functions = Inr t" "index_rep slot_data t number_world []"
    "h_fun (htable t) = number_functions" "t_limit t = 1" by (rule number_table)
  from numbers.put_absent [OF t(2,3), of "number_tmpl 7"] t(4)
  obtain t' w' where p: "index_put t (number_tmpl 7) number_world = Inr (0, t', w')"
    "index_rep slot_data t' w' [7]" "h_fun (htable t') = number_functions"
    by (auto simp: number_tmpl_def)
  from index_erase_spec [OF numbers.index_client_axioms p(2,3), of 0] t(1) p(1) show ?thesis by auto
qed

text \<open>
  The limit of a table is enforced only when a new page is needed: a table made for at most one
  entry gives out the index 1 to a second one.
\<close>

theorem index_limit_exceeded:
  "case erts_index_init 2 1 number_functions of
     Inl e \<Rightarrow> False
   | Inr t \<Rightarrow> t_limit t = 1 \<and>
       (case index_put t (number_tmpl 7) number_world of
          Inl e \<Rightarrow> False
        | Inr (i, t', w') \<Rightarrow> i = 0 \<and>
            (case index_put t' (number_tmpl 8) w' of
               Inl e \<Rightarrow> False | Inr (j, t2, w2) \<Rightarrow> j = 1 \<and> t_entries t2 = 2))"
  by code_simp

end
