(* ===== verification/Utf8.thy ===== *)
theory Utf8
  imports Prelude
begin

section \<open>UTF-8, UTF-16 and Latin-1: erl\_unicode.c and erl\_bits.c\<close>

unbundle bit_operations_syntax

text \<open>
  The routines that check, copy, decode and encode Unicode text. A buffer of bytes is a list; a
  pointer into it is an offset or the rest of the list. The bit-level destination and source of
  the binary syntax are lists of bits, most significant bit of a byte first; erts\_copy\_bits,
  which moves bytes to and from unaligned positions, is reading and writing these lists.
\<close>

datatype utf8_status =
  ERTS_UTF8_OK | ERTS_UTF8_INCOMPLETE | ERTS_UTF8_ERROR | ERTS_UTF8_ANALYZE_MORE | ERTS_UTF8_OK_MAX_CHARS

subsection \<open>Checking: analyze\_utf8\<close>

text \<open>The branches of the loop of analyze\_utf8: the length of the character at \<open>s\<close>, or why not.\<close>

definition analyze_char :: "byte list \<Rightarrow> utf8_status + nat" where
  "analyze_char s =
     (if s ! 0 AND 0x80 = 0 then Inr 1
      else if s ! 0 AND 0xE0 = 0xC0 then
        (if length s < 2 then Inl ERTS_UTF8_INCOMPLETE
         else if s ! 1 AND 0xC0 \<noteq> 0x80 \<or> s ! 0 < 0xC2 then Inl ERTS_UTF8_ERROR
         else Inr 2)
      else if s ! 0 AND 0xF0 = 0xE0 then
        (if length s < 3 then Inl ERTS_UTF8_INCOMPLETE
         else if s ! 1 AND 0xC0 \<noteq> 0x80 \<or> s ! 2 AND 0xC0 \<noteq> 0x80 \<or> (s ! 0 = 0xE0 \<and> s ! 1 < 0xA0)
         then Inl ERTS_UTF8_ERROR
         else if s ! 0 AND 0xF = 0xD \<and> s ! 1 AND 0x20 \<noteq> 0 then Inl ERTS_UTF8_ERROR
         else Inr 3)
      else if s ! 0 AND 0xF8 = 0xF0 then
        (if length s < 4 then Inl ERTS_UTF8_INCOMPLETE
         else if s ! 1 AND 0xC0 \<noteq> 0x80 \<or> s ! 2 AND 0xC0 \<noteq> 0x80 \<or> s ! 3 AND 0xC0 \<noteq> 0x80 \<or>
                 (s ! 0 = 0xF0 \<and> s ! 1 < 0x90)
         then Inl ERTS_UTF8_ERROR
         else if s ! 0 AND 0x7 > 0x4 \<or> (s ! 0 AND 0x7 = 0x4 \<and> s ! 1 AND 0x3F > 0xF)
         then Inl ERTS_UTF8_ERROR
         else Inr 4)
      else Inl ERTS_UTF8_ERROR)"

record analysis =
  a_err_pos :: nat
  a_num_chars :: nat
  a_left :: "int option"
  a_latin1_count :: nat
  a_is_latin1 :: bool

text \<open>A character of \<open>n\<close> bytes is passed. The latin1 counters are kept even if not asked for.\<close>

definition count_char :: "nat \<Rightarrow> byte list \<Rightarrow> analysis \<Rightarrow> analysis" where
  "count_char n s a =
     a\<lparr>a_err_pos := a_err_pos a + n, a_num_chars := a_num_chars a + 1,
       a_latin1_count := a_latin1_count a + (if n \<le> 2 then 1 else 0),
       a_is_latin1 := a_is_latin1 a \<and> n \<le> 2 \<and> (n = 2 \<longrightarrow> s ! 0 AND 0xFC = 0xC0)\<rparr>"

lemma analyze_char_len: "analyze_char s = Inr n \<Longrightarrow> 1 \<le> n \<and> n \<le> 4"
  by (auto simp: analyze_char_def split: if_splits)

text \<open>
  The loop. \<open>left\<close> is the budget of characters, None for a NULL pointer; \<open>max_chars\<close> 0
  is no maximum.
\<close>

function analyze_loop :: "nat \<Rightarrow> byte list \<Rightarrow> analysis \<Rightarrow> utf8_status \<times> analysis" where
  "analyze_loop max_chars s a =
     (if s = [] then (ERTS_UTF8_OK, a)
      else case analyze_char s of
        Inl e \<Rightarrow> (e, a)
      | Inr n \<Rightarrow>
          let a1 = count_char n s a;
              more = length s > n
          in if max_chars \<noteq> 0 \<and> more \<and> a_num_chars a1 = max_chars then (ERTS_UTF8_OK_MAX_CHARS, a1)
             else case a_left a1 of
               None \<Rightarrow> analyze_loop max_chars (drop n s) a1
             | Some l \<Rightarrow>
                 let a2 = a1\<lparr>a_left := Some (l - 1)\<rparr> in
                 if l - 1 \<le> 0 \<and> more then (ERTS_UTF8_ANALYZE_MORE, a2)
                 else analyze_loop max_chars (drop n s) a2)"
  by pat_completeness auto

termination
  by (relation "measure (\<lambda>(m, s, a). length s)") (auto dest: analyze_char_len)

declare analyze_loop.simps [simp del]

text \<open>
  The result: status, err\_pos as an offset, num\_chars, left, and num\_latin1\_chars, which is
  written only with the status OK.
\<close>

definition erts_analyze_utf8_x ::
  "byte list \<Rightarrow> int option \<Rightarrow> nat \<Rightarrow> utf8_status \<times> nat \<times> nat \<times> int option \<times> int option" where
  "erts_analyze_utf8_x source left max_chars =
     (case analyze_loop max_chars source
             \<lparr>a_err_pos = 0, a_num_chars = 0, a_left = left, a_latin1_count = 0, a_is_latin1 = True\<rparr> of
        (st, a) \<Rightarrow> (st, a_err_pos a, a_num_chars a, a_left a,
          if st = ERTS_UTF8_OK then Some (if a_is_latin1 a then int (a_latin1_count a) else - 1) else None))"

subsection \<open>Copying with leftovers: copy\_utf8\_bin\<close>

definition utf8_len :: "byte \<Rightarrow> int" where
  "utf8_len b =
     (if b AND 0x80 = 0 then 1 else if b AND 0xE0 = 0xC0 then 2 else if b AND 0xF0 = 0xE0 then 3
      else if b AND 0xF8 = 0xF0 then 4 else - 1)"

text \<open>
  The loop copies what it accepts unchanged, so the bytes copied are the bytes passed. The result
  is their number, the bytes put into the leftover buffer, whether err\_pos was set (to that
  number), and the characters counted. \<open>lo\<close> says that there is a leftover buffer.
\<close>

definition copy_char :: "bool \<Rightarrow> byte list \<Rightarrow> bool + nat" where
  "copy_char lo s =
     (if s ! 0 AND 0x80 = 0 then Inr 1
      else if s ! 0 AND 0xE0 = 0xC0 then
        (if lo \<and> length s < 2 then Inl True
         else if length s < 2 \<or> s ! 1 AND 0xC0 \<noteq> 0x80 \<or> s ! 0 < 0xC2 then Inl False
         else Inr 2)
      else if s ! 0 AND 0xF0 = 0xE0 then
        (if lo \<and> length s < 3 then Inl True
         else if length s < 3 \<or> s ! 1 AND 0xC0 \<noteq> 0x80 \<or> s ! 2 AND 0xC0 \<noteq> 0x80 \<or>
                 (s ! 0 = 0xE0 \<and> s ! 1 < 0xA0) then Inl False
         else if s ! 0 AND 0xF = 0xD \<and> s ! 1 AND 0x20 \<noteq> 0 then Inl False
         else Inr 3)
      else if s ! 0 AND 0xF8 = 0xF0 then
        (if lo \<and> length s < 4 then Inl True
         else if length s < 4 \<or> s ! 1 AND 0xC0 \<noteq> 0x80 \<or> s ! 2 AND 0xC0 \<noteq> 0x80 \<or>
                 s ! 3 AND 0xC0 \<noteq> 0x80 \<or> (s ! 0 = 0xF0 \<and> s ! 1 < 0x90) then Inl False
         else if s ! 0 AND 0x7 > 0x4 \<or> (s ! 0 AND 0x7 = 0x4 \<and> s ! 1 AND 0x3F > 0xF) then Inl False
         else Inr 4)
      else Inl False)"

lemma copy_char_len: "copy_char lo s = Inr n \<Longrightarrow> 1 \<le> n \<and> n \<le> 4"
  by (auto simp: copy_char_def split: if_splits)

function copy_loop :: "bool \<Rightarrow> byte list \<Rightarrow> nat \<Rightarrow> nat \<Rightarrow> nat \<times> byte list \<times> bool \<times> nat" where
  "copy_loop lo s copied chars =
     (if s = [] then (copied, [], False, chars)
      else case copy_char lo s of
        Inl True \<Rightarrow> (copied, s, False, chars)
      | Inl False \<Rightarrow> (copied, [], True, chars)
      | Inr n \<Rightarrow> copy_loop lo (drop n s) (copied + n) (Suc chars))"
  by pat_completeness auto

termination
  by (relation "measure (\<lambda>(lo, s, c, k). length s)") (auto dest: copy_char_len)

declare copy_loop.simps [simp del]

text \<open>
  The whole function with a leftover buffer \<open>leftover\<close> (its first num\_leftovers bytes): the
  bytes written to the target, the leftovers, err\_pos, and the characters counted.
\<close>

definition copy_utf8_bin ::
  "byte list \<Rightarrow> byte list \<Rightarrow> nat \<Rightarrow> byte list \<times> byte list \<times> nat option \<times> nat" where
  "copy_utf8_bin source leftover chars =
     (if leftover = []
      then (case copy_loop True source 0 chars of
              (n, lo, err, ch) \<Rightarrow> (take n source, lo, if err then Some n else None, ch))
      else
        let from_source = nat (utf8_len (leftover ! 0) - int (length leftover)) in
        if length source < from_source then ([], leftover @ source, None, chars)
        else
          let ch0 = leftover @ take from_source source in
          case copy_loop False ch0 0 chars of
            (c, _, err, ch) \<Rightarrow>
              if err then ([], leftover, Some 0, ch)
              else case copy_loop True (drop from_source source) 0 ch of
                (n, lo, err', ch') \<Rightarrow>
                  (take c ch0 @ take n (drop from_source source), lo,
                   if err' then Some (from_source + n) else None, ch'))"

text \<open>Whether the leftovers of the last binary are the start of a character: 0 or -1.\<close>

definition check_leftovers :: "byte list \<Rightarrow> int" where
  "check_leftovers s =
     (if s ! 0 AND 0xE0 = 0xC0 then 0
      else if s ! 0 AND 0xF0 = 0xE0 then
        (if length s < 2 \<or> (length s < 3 \<and> s ! 1 AND 0xC0 = 0x80) then 0 else - 1)
      else if s ! 0 AND 0xF8 = 0xF0 then
        (if length s < 2 \<or> (length s < 3 \<and> s ! 1 AND 0xC0 = 0x80) \<or>
            (length s < 4 \<and> s ! 1 AND 0xC0 = 0x80 \<and> s ! 2 AND 0xC0 = 0x80) then 0 else - 1)
      else - 1)"

subsection \<open>Decoding and encoding\<close>

text \<open>The code point of the character that starts at a byte; None for any other byte.\<close>

definition unipoint_at :: "byte list \<Rightarrow> Uint option" where
  "unipoint_at s =
     (if s ! 0 AND 0x80 = 0 then Some (ucast (s ! 0))
      else if s ! 0 AND 0xE0 = 0xC0 then
        Some (push_bit 6 (ucast (s ! 0 AND 0x1F)) OR ucast (s ! 1 AND 0x3F))
      else if s ! 0 AND 0xF0 = 0xE0 then
        Some (push_bit 12 (ucast (s ! 0 AND 0xF)) OR push_bit 6 (ucast (s ! 1 AND 0x3F)) OR
              ucast (s ! 2 AND 0x3F))
      else if s ! 0 AND 0xF8 = 0xF0 then
        Some (push_bit 18 (ucast (s ! 0 AND 0x7)) OR push_bit 12 (ucast (s ! 1 AND 0x3F)) OR
              push_bit 6 (ucast (s ! 2 AND 0x3F)) OR ucast (s ! 3 AND 0x3F))
      else None)"

text \<open>
  do\_utf8\_to\_list scans backwards from the end, and conses up to \<open>num\<close> characters in front
  of \<open>ret\<close>; \<open>i\<close> bytes are before the position. The second result is the offset of
  \<open>source\<close> when the loop ends, -1 if it ran out of the buffer.
\<close>

fun utf8_list_loop :: "byte list \<Rightarrow> nat \<Rightarrow> nat \<Rightarrow> Uint list \<Rightarrow> Uint list \<times> int" where
  "utf8_list_loop bytes 0 num ret = (ret, - 1)"
| "utf8_list_loop bytes (Suc i) num ret =
     (case unipoint_at (drop i bytes) of
        None \<Rightarrow> utf8_list_loop bytes i num ret
      | Some u \<Rightarrow> if num - 1 = 0 then (u # ret, int i) else utf8_list_loop bytes i (num - 1) (u # ret))"

text \<open>The result: the list, num\_built and num\_eaten.\<close>

definition do_utf8_to_list :: "nat \<Rightarrow> byte list \<Rightarrow> nat \<Rightarrow> Uint list \<Rightarrow> Uint list \<times> nat \<times> int" where
  "do_utf8_to_list num bytes left tail =
     (let num' = (if left < num then (if left > 0 then left else 1) else num) in
      case utf8_list_loop bytes (length bytes) num' tail of
        (ret, src) \<Rightarrow> (ret, num', int (length bytes) - src))"

text \<open>The bytes do\_build\_utf8 writes for an integer of the list, None for err.\<close>

definition build_utf8_char :: "bool \<Rightarrow> Uint \<Rightarrow> byte list option" where
  "build_utf8_char latin1 x =
     (if latin1 \<and> x > 255 then None
      else if x < 0x80 then Some [ucast x]
      else if x < 0x800 then Some [ucast (drop_bit 6 x) OR 0xC0, ucast (x AND 0x3F) OR 0x80]
      else if x < 0x10000 then
        (if x \<ge> 0xD800 \<and> x \<le> 0xDFFF then None
         else Some [ucast (drop_bit 12 x) OR 0xE0, (ucast (drop_bit 6 x) AND 0x3F) OR 0x80,
                    ucast (x AND 0x3F) OR 0x80])
      else if x < 0x110000 then
        Some [ucast (drop_bit 18 x) OR 0xF0, (ucast (drop_bit 12 x) AND 0x3F) OR 0x80,
              (ucast (drop_bit 6 x) AND 0x3F) OR 0x80, ucast (x AND 0x3F) OR 0x80]
      else None)"

subsection \<open>Latin-1\<close>

text \<open>A Latin-1 character as UTF-8, as latin1\_to\_utf8 of atom.c and do\_build\_utf8 write it.\<close>

definition latin1_char :: "byte \<Rightarrow> byte list" where
  "latin1_char chr =
     (if chr AND 0x80 = 0 then [chr] else [0xC0 OR drop_bit 6 chr, 0x80 OR (chr AND 0x3F)])"

text \<open>latin1\_to\_utf8: the text is left as it is when it has no byte above 127.\<close>

definition latin1_to_utf8 :: "byte list \<Rightarrow> byte list" where
  "latin1_to_utf8 src =
     (if list_all (\<lambda>b. b AND 0x80 = 0) src then src
      else let pre = takeWhile (\<lambda>b. b AND 0x80 = 0) src in
        pre @ concat (map latin1_char (drop (length pre) src)))"

fun erts_utf8_to_latin1 :: "byte list \<Rightarrow> byte list" where
  "erts_utf8_to_latin1 [] = []"
| "erts_utf8_to_latin1 [b] = [b]"
| "erts_utf8_to_latin1 (b # c # rest) =
     (if b AND 0x80 = 0 then b # erts_utf8_to_latin1 (c # rest)
      else (push_bit 6 b OR (c AND 0x3F)) # erts_utf8_to_latin1 rest)"

subsection \<open>UTF-16 file names\<close>

datatype utf16_error = Internal_unicode_error

text \<open>erts\_copy\_utf8\_to\_utf16\_little: \<open>num_chars\<close> characters to two bytes each.\<close>

fun erts_copy_utf8_to_utf16_little :: "byte list \<Rightarrow> nat \<Rightarrow> utf16_error + byte list" where
  "erts_copy_utf8_to_utf16_little bytes 0 = Inr []"
| "erts_copy_utf8_to_utf16_little bytes (Suc n) =
     (case unipoint_at bytes of
        None \<Rightarrow> Inl Internal_unicode_error
      | Some u \<Rightarrow> map_sum id (\<lambda>t. ucast (u AND 0xFF) # ucast (drop_bit 8 u AND 0xFF) # t)
          (erts_copy_utf8_to_utf16_little (drop (nat (utf8_len (bytes ! 0))) bytes) n))"

subsection \<open>The binary syntax\<close>

definition byte_bits :: "byte \<Rightarrow> bool list" where
  "byte_bits b = map (\<lambda>i. bit b (7 - i)) [0..<8]"

definition bits_byte :: "bool list \<Rightarrow> byte" where
  "bits_byte bs = foldl (\<lambda>w b. push_bit 1 w OR (if b then 1 else 0)) 0 (take 8 bs)"

text \<open>
  erts\_bs\_put\_utf8: \<open>val\<close> is the small integer, \<open>bin\<close> the bits written so far
  (erts\_bin\_offset of them); None is the result 0.
\<close>

definition erts_bs_put_utf8 :: "int \<Rightarrow> bool list \<Rightarrow> bool list option" where
  "erts_bs_put_utf8 val bin =
     (if val < 0 then None
      else map_option (\<lambda>dst. bin @ concat (map byte_bits dst))
        (if val < 0x80 then Some [word_of_int val]
         else if val < 0x800 then
           Some [word_of_int (0xC0 OR drop_bit 6 val), word_of_int (0x80 OR (val AND 0x3F))]
         else if val < 0x10000 then
           (if 0xD800 \<le> val \<and> val \<le> 0xDFFF then None
            else Some [word_of_int (0xE0 OR drop_bit 12 val),
                       word_of_int (0x80 OR (drop_bit 6 val AND 0x3F)),
                       word_of_int (0x80 OR (val AND 0x3F))])
         else if val < 0x110000 then
           Some [word_of_int (0xF0 OR drop_bit 18 val),
                 word_of_int (0x80 OR (drop_bit 12 val AND 0x3F)),
                 word_of_int (0x80 OR (drop_bit 6 val AND 0x3F)),
                 word_of_int (0x80 OR (val AND 0x3F))]
         else None))"

definition trailing_bytes_for_utf8 :: "byte \<Rightarrow> nat" where
  "trailing_bytes_for_utf8 b =
     (if b < 0x80 then 0 else if b < 0xC2 then 9 else if b < 0xE0 then 1 else if b < 0xF0 then 2
      else if b < 0xF8 then 3 else 9)"

record match_buffer =
  mb_bits :: "bool list"
  mb_offset :: nat

definition mb_byte :: "match_buffer \<Rightarrow> nat \<Rightarrow> byte" where
  "mb_byte mb i = bits_byte (drop (mb_offset mb + 8 * i) (mb_bits mb))"

text \<open>erts\_bs\_get\_utf8: None is THE\_NON\_VALUE, with the offset unchanged.\<close>

definition erts_bs_get_utf8 :: "match_buffer \<Rightarrow> (Uint \<times> match_buffer) option" where
  "erts_bs_get_utf8 mb =
     (let remaining_bits = length (mb_bits mb) - mb_offset mb;
          a = mb_byte mb 1; b = mb_byte mb 2; c = mb_byte mb 3;
          result = ucast (mb_byte mb 0) :: Uint;
          step = (\<lambda>r n. Some (r, mb\<lparr>mb_offset := mb_offset mb + n\<rparr>))
      in if remaining_bits < 8 then None
         else let k = trailing_bytes_for_utf8 (mb_byte mb 0) in
           if k = 0 then step result 8
           else if k = 1 then
             (if remaining_bits < 16 \<or> a AND 0xC0 \<noteq> 0x80 then None
              else step (push_bit 6 result + ucast a - 0x3080) 16)
           else if k = 2 then
             (if remaining_bits < 24 \<or> a AND 0xC0 \<noteq> 0x80 \<or> b AND 0xC0 \<noteq> 0x80 \<or>
                 (result = 0xE0 \<and> a < 0xA0) then None
              else let r = push_bit 6 (push_bit 6 result + ucast a) + ucast b - 0xE2080 in
                if 0xD800 \<le> r \<and> r \<le> 0xDFFF then None else step r 24)
           else if k = 3 then
             (if remaining_bits < 32 \<or> a AND 0xC0 \<noteq> 0x80 \<or> b AND 0xC0 \<noteq> 0x80 \<or>
                 c AND 0xC0 \<noteq> 0x80 \<or> (result = 0xF0 \<and> a < 0x90) then None
              else let r = push_bit 6 (push_bit 6 (push_bit 6 result + ucast a) + ucast b) +
                           ucast c - 0x3C82080 in
                if r > 0x10FFFF then None else step r 32)
           else None)"

text \<open>UTF-16, in either byte order.\<close>

definition word16_bytes :: "bool \<Rightarrow> Uint16 \<Rightarrow> byte list" where
  "word16_bytes little w =
     (if little then [ucast w, ucast (drop_bit 8 w)] else [ucast (drop_bit 8 w), ucast w])"

definition erts_bs_put_utf16 :: "Uint \<Rightarrow> bool \<Rightarrow> bool list \<Rightarrow> bool list option" where
  "erts_bs_put_utf16 val little bin =
     (if val > 0x10FFFF \<or> (0xD800 \<le> val \<and> val \<le> 0xDFFF) then None
      else Some (bin @ concat (map byte_bits
        (if val < 0x10000 then word16_bytes little (ucast val)
         else let v = val - 0x10000 in
           word16_bytes little (ucast (0xD800 OR drop_bit 10 v)) @
           word16_bytes little (ucast (0xDC00 OR (v AND 0x3FF)))))))"

definition mb_word16 :: "match_buffer \<Rightarrow> bool \<Rightarrow> nat \<Rightarrow> Uint16" where
  "mb_word16 mb little i =
     (if little then ucast (mb_byte mb i) OR push_bit 8 (ucast (mb_byte mb (i + 1)))
      else push_bit 8 (ucast (mb_byte mb i)) OR ucast (mb_byte mb (i + 1)))"

definition erts_bs_get_utf16 :: "match_buffer \<Rightarrow> bool \<Rightarrow> (Uint \<times> match_buffer) option" where
  "erts_bs_get_utf16 mb little =
     (let num_bits = length (mb_bits mb) - mb_offset mb;
          w1 = mb_word16 mb little 0; w2 = mb_word16 mb little 2
      in if num_bits < 16 then None
         else if w1 < 0xD800 \<or> w1 > 0xDFFF then Some (ucast w1, mb\<lparr>mb_offset := mb_offset mb + 16\<rparr>)
         else if w1 > 0xDBFF then None
         else if num_bits < 32 then None
         else if \<not> (0xDC00 \<le> w2 \<and> w2 \<le> 0xDFFF) then None
         else Some ((push_bit 10 (ucast (w1 AND 0x3FF)) OR ucast (w2 AND 0x3FF)) + 0x10000,
                    mb\<lparr>mb_offset := mb_offset mb + 32\<rparr>))"

subsection \<open>Bytes by value\<close>

definition byte_classes :: "byte \<Rightarrow> bool" where
  "byte_classes b \<longleftrightarrow>
     ((b AND 0x80 = 0) = (uint b < 128)) \<and>
     ((b AND 0xE0 = 0xC0) = (192 \<le> uint b \<and> uint b < 224)) \<and>
     ((b AND 0xF0 = 0xE0) = (224 \<le> uint b \<and> uint b < 240)) \<and>
     ((b AND 0xF8 = 0xF0) = (240 \<le> uint b \<and> uint b < 248)) \<and>
     ((b AND 0xC0 = 0x80) = (128 \<le> uint b \<and> uint b < 192)) \<and>
     ((b AND 0xFC = 0xC0) = (192 \<le> uint b \<and> uint b < 196)) \<and>
     ((b AND 0xFE = 0xC2) = (194 \<le> uint b \<and> uint b < 196)) \<and>
     ((b AND 0xF = 0xD) = (uint b mod 16 = 13)) \<and>
     ((b AND 0x20 = 0) = (uint b div 32 mod 2 = 0)) \<and>
     (uint (b AND 0x7) = uint b mod 8) \<and> (uint (b AND 0xF) = uint b mod 16) \<and>
     (uint (b AND 0x1F) = uint b mod 32) \<and> (uint (b AND 0x3F) = uint b mod 64)"

lemma byte_classes: "byte_classes b"
  by (rule byte_all) code_simp

lemma byte_and [simp]:
  fixes b :: byte
  shows "b AND 0x80 = 0 \<longleftrightarrow> uint b < 128"
    and "b AND 0xE0 = 0xC0 \<longleftrightarrow> 192 \<le> uint b \<and> uint b < 224"
    and "b AND 0xF0 = 0xE0 \<longleftrightarrow> 224 \<le> uint b \<and> uint b < 240"
    and "b AND 0xF8 = 0xF0 \<longleftrightarrow> 240 \<le> uint b \<and> uint b < 248"
    and "b AND 0xC0 = 0x80 \<longleftrightarrow> 128 \<le> uint b \<and> uint b < 192"
    and "b AND 0xFC = 0xC0 \<longleftrightarrow> 192 \<le> uint b \<and> uint b < 196"
    and "b AND 0xFE = 0xC2 \<longleftrightarrow> 194 \<le> uint b \<and> uint b < 196"
    and "b AND 0xF = 0xD \<longleftrightarrow> uint b mod 16 = 13"
    and "b AND 0x20 = 0 \<longleftrightarrow> uint b div 32 mod 2 = 0"
    and "uint (b AND 0x7) = uint b mod 8" and "uint (b AND 0xF) = uint b mod 16"
    and "uint (b AND 0x1F) = uint b mod 32" and "uint (b AND 0x3F) = uint b mod 64"
  using byte_classes [of b] by (simp_all only: byte_classes_def)

definition byte_ors :: "byte \<Rightarrow> bool" where
  "byte_ors b \<longleftrightarrow>
     (uint b < 32 \<longrightarrow> b OR 0xC0 = word_of_int (192 + uint b) \<and> 0xC0 OR b = word_of_int (192 + uint b)) \<and>
     (uint b < 16 \<longrightarrow> b OR 0xE0 = word_of_int (224 + uint b) \<and> 0xE0 OR b = word_of_int (224 + uint b)) \<and>
     (uint b < 8 \<longrightarrow> b OR 0xF0 = word_of_int (240 + uint b) \<and> 0xF0 OR b = word_of_int (240 + uint b)) \<and>
     (uint b < 64 \<longrightarrow> b OR 0x80 = word_of_int (128 + uint b) \<and> 0x80 OR b = word_of_int (128 + uint b))"

lemma byte_ors: "byte_ors b"
  by (rule byte_all) code_simp

lemma byte_or:
  fixes b :: byte
  shows "uint b < 32 \<Longrightarrow> b OR 0xC0 = word_of_int (192 + uint b)"
    and "uint b < 32 \<Longrightarrow> 0xC0 OR b = word_of_int (192 + uint b)"
    and "uint b < 16 \<Longrightarrow> b OR 0xE0 = word_of_int (224 + uint b)"
    and "uint b < 16 \<Longrightarrow> 0xE0 OR b = word_of_int (224 + uint b)"
    and "uint b < 8 \<Longrightarrow> b OR 0xF0 = word_of_int (240 + uint b)"
    and "uint b < 8 \<Longrightarrow> 0xF0 OR b = word_of_int (240 + uint b)"
    and "uint b < 64 \<Longrightarrow> b OR 0x80 = word_of_int (128 + uint b)"
    and "uint b < 64 \<Longrightarrow> 0x80 OR b = word_of_int (128 + uint b)"
  using byte_ors [of b] by (simp_all only: byte_ors_def)

lemma byte_less_numeral [simp]:
  fixes b :: byte
  shows "b < 0xC2 \<longleftrightarrow> uint b < 194" "b < 0xA0 \<longleftrightarrow> uint b < 160" "b < 0x90 \<longleftrightarrow> uint b < 144"
    "b < 0x80 \<longleftrightarrow> uint b < 128" "b < 0xE0 \<longleftrightarrow> uint b < 224" "b < 0xF0 \<longleftrightarrow> uint b < 240" "b < 0xF8 \<longleftrightarrow> uint b < 248"
    "0x4 < b \<longleftrightarrow> 4 < uint b" "0xF < b \<longleftrightarrow> 15 < uint b"
    "b AND 0x7 = 0x4 \<longleftrightarrow> uint b mod 8 = 4"
  by (simp_all add: word_less_def word_uint_eq_iff)

lemma byte_eq_numeral:
  fixes b :: byte
  shows "b = 0xE0 \<longleftrightarrow> uint b = 224" "b = 0xF0 \<longleftrightarrow> uint b = 240"
  by (simp_all add: word_uint_eq_iff)

subsection \<open>The specification: the encoding of a code point\<close>

definition valid_cp :: "int \<Rightarrow> bool" where
  "valid_cp c \<longleftrightarrow> 0 \<le> c \<and> c < 0x110000 \<and> \<not> (0xD800 \<le> c \<and> c \<le> 0xDFFF)"

definition utf8_values :: "int \<Rightarrow> int list" where
  "utf8_values c =
     (if c < 0x80 then [c]
      else if c < 0x800 then [192 + c div 64, 128 + c mod 64]
      else if c < 0x10000 then [224 + c div 4096, 128 + c div 64 mod 64, 128 + c mod 64]
      else [240 + c div 262144, 128 + c div 4096 mod 64, 128 + c div 64 mod 64, 128 + c mod 64])"

definition utf8_enc :: "int \<Rightarrow> byte list" where
  "utf8_enc c = map word_of_int (utf8_values c)"

definition utf8_text :: "int list \<Rightarrow> byte list" where
  "utf8_text cs = concat (map utf8_enc cs)"

text \<open>The decoding of the first character of \<open>s\<close>, by the values of its bytes.\<close>

definition utf8_dec :: "byte list \<Rightarrow> (int \<times> nat) option" where
  "utf8_dec s =
     (let x = (\<lambda>i. uint (s ! i)); cont = (\<lambda>i. i < length s \<and> 128 \<le> uint (s ! i) \<and> uint (s ! i) < 192);
          c2 = (x 0 - 192) * 64 + (x 1 - 128);
          c3 = (x 0 - 224) * 4096 + (x 1 - 128) * 64 + (x 2 - 128);
          c4 = (x 0 - 240) * 262144 + (x 1 - 128) * 4096 + (x 2 - 128) * 64 + (x 3 - 128)
      in if x 0 < 128 then Some (x 0, 1)
         else if 192 \<le> x 0 \<and> x 0 < 224 \<and> cont 1 \<and> 0x80 \<le> c2 then Some (c2, 2)
         else if 224 \<le> x 0 \<and> x 0 < 240 \<and> cont 1 \<and> cont 2 \<and> 0x800 \<le> c3 \<and> \<not> (0xD800 \<le> c3 \<and> c3 \<le> 0xDFFF)
         then Some (c3, 3)
         else if 240 \<le> x 0 \<and> x 0 < 248 \<and> cont 1 \<and> cont 2 \<and> cont 3 \<and> 0x10000 \<le> c4 \<and> c4 < 0x110000
         then Some (c4, 4)
         else None)"

lemma div_mod_64: "0 \<le> y \<Longrightarrow> y < 64 \<Longrightarrow> (q * 64 + y) div 64 = q \<and> (q * 64 + y) mod 64 = (y :: int)"
  by simp

lemma div_4096: "c div 4096 = c div 64 div (64 :: int)" "c div 262144 = c div 64 div 64 div (64 :: int)"
  by (simp_all add: zdiv_zmult2_eq [symmetric])

lemma take_nths: "n \<le> length s \<Longrightarrow> take n s = map (\<lambda>i. s ! i) [0..<n]"
  by (rule nth_equalityI) auto

lemma upt_small: "[0..<1] = [0]" "[0..<2] = [0, 1]" "[0..<3] = [0, 1, 2]" "[0..<4] = [0, 1, 2, 3 :: nat]"
  by (simp_all add: upt_rec)

lemma dec_2_values:
  assumes "192 \<le> x" "x < 224" "128 \<le> y" "y < 192" "0x80 \<le> c" and c: "c = (x - 192) * 64 + (y - 128)"
  shows "utf8_values c = [x, y] \<and> valid_cp c"
proof -
  have "c div 64 = x - 192" "c mod 64 = y - 128" using div_mod_64 [of "y - 128" "x - 192"] assms by auto
  moreover have "c < 0x800" unfolding c using assms(1-4) by (simp add: algebra_simps)
  ultimately show ?thesis using assms(5) by (simp add: utf8_values_def valid_cp_def)
qed

lemma dec_3_values:
  assumes "224 \<le> x" "x < 240" "128 \<le> y" "y < 192" "128 \<le> z" "z < 192" "0x800 \<le> c"
    "\<not> (0xD800 \<le> c \<and> c \<le> 0xDFFF)" and c: "c = (x - 224) * 4096 + (y - 128) * 64 + (z - 128)"
  shows "utf8_values c = [x, y, z] \<and> valid_cp c"
proof -
  have c': "c = ((x - 224) * 64 + (y - 128)) * 64 + (z - 128)" unfolding c by (simp add: algebra_simps)
  have 1: "c div 64 = (x - 224) * 64 + (y - 128)" "c mod 64 = z - 128"
    unfolding c' using div_mod_64 [of "z - 128" "(x - 224) * 64 + (y - 128)"] assms(5,6) by simp_all
  have "c div 64 div 64 = x - 224" "c div 64 mod 64 = y - 128"
    unfolding 1 using div_mod_64 [of "y - 128" "x - 224"] assms(3,4) by simp_all
  moreover have "c < 0x10000" unfolding c using assms(1-6) by (simp add: algebra_simps)
  ultimately show ?thesis using assms(7,8) 1 by (simp add: utf8_values_def valid_cp_def div_4096)
qed

lemma dec_4_values:
  assumes "240 \<le> x" "x < 248" "128 \<le> y" "y < 192" "128 \<le> z" "z < 192" "128 \<le> w" "w < 192" "0x10000 \<le> c"
    "c < 0x110000" and c: "c = (x - 240) * 262144 + (y - 128) * 4096 + (z - 128) * 64 + (w - 128)"
  shows "utf8_values c = [x, y, z, w] \<and> valid_cp c"
proof -
  have c': "c = (((x - 240) * 64 + (y - 128)) * 64 + (z - 128)) * 64 + (w - 128)"
    unfolding c by (simp add: algebra_simps)
  have 1: "c div 64 = ((x - 240) * 64 + (y - 128)) * 64 + (z - 128)" "c mod 64 = w - 128"
    unfolding c' using div_mod_64 [of "w - 128" "((x - 240) * 64 + (y - 128)) * 64 + (z - 128)"] assms(7,8)
    by simp_all
  have 2: "c div 64 div 64 = (x - 240) * 64 + (y - 128)" "c div 64 mod 64 = z - 128"
    unfolding 1 using div_mod_64 [of "z - 128" "(x - 240) * 64 + (y - 128)"] assms(5,6) by simp_all
  have 3: "c div 64 div 64 div 64 = x - 240" "c div 64 div 64 mod 64 = y - 128"
    unfolding 2 using div_mod_64 [of "y - 128" "x - 240"] assms(3,4) by simp_all
  have "utf8_values c = [240 + c div 64 div 64 div 64, 128 + c div 64 div 64 mod 64, 128 + c div 64 mod 64,
      128 + c mod 64]"
    using assms(9) by (simp add: utf8_values_def div_4096)
  then have "utf8_values c = [x, y, z, w]" unfolding 3 1(2) 2(2) by simp
  moreover have "valid_cp c" using assms(9,10) by (simp add: valid_cp_def)
  ultimately show ?thesis by blast
qed

lemma if_some_cases:
  assumes "(if A then Some p else if B then Some q else if C then Some r else if D then Some t else None) = Some z"
  shows "A \<and> z = p \<or> \<not> A \<and> B \<and> z = q \<or> C \<and> z = r \<or> D \<and> z = t"
  using assms by (auto split: if_splits)

lemma dec_sound:
  assumes "utf8_dec s = Some (c, n)" and "s \<noteq> []"
  shows "valid_cp c \<and> n \<le> length s \<and> take n s = utf8_enc c \<and> n = length (utf8_enc c)"
proof -
  have "valid_cp c \<and> n \<le> length s \<and> utf8_values c = map uint (take n s)"
  proof (cases "uint (s ! 0) < 128")
    case True
    with assms have "c = uint (s ! 0)" "n = 1" by (auto simp: utf8_dec_def)
    with True assms(2) show ?thesis
      by (cases s) (simp_all add: utf8_values_def valid_cp_def)
  next
    case False
    let ?x = "\<lambda>i. uint (s ! i)"
    from if_some_cases [OF assms(1) [unfolded utf8_dec_def Let_def]] False
show ?thesis
    proof (elim disjE conjE, goal_cases)
      case 2
      then have "n = 2" "2 \<le> length s" by simp_all
      with dec_2_values [of "?x 0" "?x 1" c] 2 show ?case by (simp add: take_nths upt_small)
    next
      case 3
      then have "n = 3" "3 \<le> length s" by simp_all
      with dec_3_values [of "?x 0" "?x 1" "?x 2" c] 3 show ?case by (simp add: take_nths upt_small)
    next
      case 4
      then have "n = 4" "4 \<le> length s" by simp_all
      with dec_4_values [of "?x 0" "?x 1" "?x 2" "?x 3" c] 4 show ?case by (simp add: take_nths upt_small)
    qed simp
  qed
  then show ?thesis by (auto simp: utf8_enc_def comp_def)
qed

text \<open>The four ranges of code points and the bytes of each.\<close>

lemma cp_cases:
  assumes "valid_cp c"
  obtains (one) "0 \<le> c" "c < 0x80" "utf8_values c = [c]"
  | (two) p q where "utf8_values c = [192 + p, 128 + q]" "c = p * 64 + q" "2 \<le> p" "p < 32" "0 \<le> q" "q < 64"
  | (three) p q r where "utf8_values c = [224 + p, 128 + q, 128 + r]" "c = p * 4096 + q * 64 + r"
      "0x800 \<le> c" "0 \<le> p" "p < 16" "0 \<le> q" "q < 64" "0 \<le> r" "r < 64"
  | (four) p q r t where "utf8_values c = [240 + p, 128 + q, 128 + r, 128 + t]"
      "c = p * 262144 + q * 4096 + r * 64 + t" "0x10000 \<le> c"
      "0 \<le> p" "p < 8" "0 \<le> q" "q < 64" "0 \<le> r" "r < 64" "0 \<le> t" "t < 64"
proof -
  have c: "0 \<le> c" "c < 0x110000" using assms by (auto simp: valid_cp_def)
  define q0 where "q0 = c div 64"
  define r0 where "r0 = c mod 64"
  define q1 where "q1 = q0 div 64"
  define r1 where "r1 = q0 mod 64"
  define q2 where "q2 = q1 div 64"
  define r2 where "r2 = q1 mod 64"
  have e: "c = q0 * 64 + r0" "q0 = q1 * 64 + r1" "q1 = q2 * 64 + r2"
    by (simp_all add: q0_def r0_def q1_def r1_def q2_def r2_def)
  have b: "0 \<le> r0" "r0 < 64" "0 \<le> r1" "r1 < 64" "0 \<le> r2" "r2 < 64" "0 \<le> q0" "0 \<le> q1" "0 \<le> q2"
    using c by (simp_all add: q0_def r0_def q1_def r1_def q2_def r2_def pos_imp_zdiv_nonneg_iff)
  have v: "utf8_values c = (if c < 0x80 then [c] else if c < 0x800 then [192 + q0, 128 + r0]
      else if c < 0x10000 then [224 + q1, 128 + r1, 128 + r0]
      else [240 + q2, 128 + r2, 128 + r1, 128 + r0])"
    by (simp add: utf8_values_def q0_def r0_def q1_def r1_def q2_def r2_def div_4096)
  consider "c < 0x80" | "0x80 \<le> c" "c < 0x800" | "0x800 \<le> c" "c < 0x10000" | "0x10000 \<le> c" by linarith
  then show ?thesis
  proof cases
    case 1
    with c v show ?thesis by (intro one) simp_all
  next
    case 2
    with e(1) b(1,2) have "2 \<le> q0" "q0 < 32" by linarith+
    with 2 v e b show ?thesis by (intro two [of q0 r0]) simp_all
  next
    case 3
    with e b have "q1 < 16" by linarith
    moreover have "c = q1 * 4096 + r1 * 64 + r0" unfolding e(1) e(2) by (simp add: algebra_simps)
    ultimately show ?thesis using 3 v b by (intro three [of q1 r1 r0]) simp_all
  next
    case 4
    with e b c have "q2 < 8" by linarith
    moreover have "c = q2 * 262144 + r2 * 4096 + r1 * 64 + r0"
      unfolding e(1) e(2) e(3) by (simp add: algebra_simps)
    ultimately show ?thesis using 4 v b by (intro four [of q2 r2 r1 r0]) simp_all
  qed
qed

lemma utf8_values_bytes:
  assumes "valid_cp c"
  shows "\<forall>v\<in>set (utf8_values c). 0 \<le> v \<and> v < 256" and "1 \<le> length (utf8_values c)"
  using assms by (cases rule: cp_cases; simp)+

lemma uint_utf8_enc:
  assumes "valid_cp c"
  shows "map uint (utf8_enc c) = utf8_values c"
  using utf8_values_bytes(1) [OF assms] by (auto simp: utf8_enc_def uint_word_of_int_small intro!: map_idI)

lemma length_utf8_enc [simp]: "length (utf8_enc c) = length (utf8_values c)"
  by (simp add: utf8_enc_def)

lemma dec_complete:
  assumes "valid_cp c"
  shows "utf8_dec (utf8_enc c @ r) = Some (c, length (utf8_enc c))"
  using assms
proof (cases rule: cp_cases)
  case one
  with uint_utf8_enc [OF assms] obtain a where "utf8_enc c = [a]" "uint a = c" by (auto simp: map_eq_Cons_conv)
  with one show ?thesis by (simp add: utf8_dec_def)
next
  case (two p q)
  with uint_utf8_enc [OF assms] obtain a b where "utf8_enc c = [a, b]" "uint a = 192 + p" "uint b = 128 + q"
    by (auto simp: map_eq_Cons_conv)
  with two show ?thesis by (simp add: utf8_dec_def)
next
  case (three p q r')
  with uint_utf8_enc [OF assms] obtain a b d where
    "utf8_enc c = [a, b, d]" "uint a = 224 + p" "uint b = 128 + q" "uint d = 128 + r'"
    by (auto simp: map_eq_Cons_conv)
  moreover have "p * 4096 + (q * 64 + r') = c" using three(2) by simp
  ultimately show ?thesis using three(1,3-) assms by (simp add: utf8_dec_def Let_def valid_cp_def)
next
  case (four p q r' t)
  with uint_utf8_enc [OF assms] obtain a b d e where
    "utf8_enc c = [a, b, d, e]" "uint a = 240 + p" "uint b = 128 + q" "uint d = 128 + r'" "uint e = 128 + t"
    by (auto simp: map_eq_Cons_conv)
  moreover have "p * 262144 + (q * 4096 + (r' * 64 + t)) = c" using four(2) by simp
  ultimately show ?thesis using four(1,3-) assms by (simp add: utf8_dec_def Let_def valid_cp_def)
qed

subsection \<open>Checking accepts exactly the encodings\<close>

lemma cp_3_low:  fixes p q r :: int
  assumes "0 \<le> p" "0 \<le> q" "q < 64" "0 \<le> r" "r < 64"
  shows "0x800 \<le> p * 4096 + q * 64 + r \<longleftrightarrow> \<not> (p = 0 \<and> q < 32)"
proof (cases "1 \<le> p")
  case False then have "p = 0" using assms(1) by linarith
  then show ?thesis using assms by (cases "q < 32") simp_all
qed (use assms in simp)
lemma cp_3_surrogate:  fixes p q r :: int
  assumes "0 \<le> p" "0 \<le> q" "q < 64" "0 \<le> r" "r < 64"
  shows "0xD800 \<le> p * 4096 + q * 64 + r \<and> p * 4096 + q * 64 + r \<le> 0xDFFF \<longleftrightarrow> p = 13 \<and> 32 \<le> q"
proof -
  consider "p \<le> 12" | "p = 13" | "14 \<le> p" by linarith
  then show ?thesis
  proof cases
    case 2 then show ?thesis using assms by (cases "32 \<le> q") simp_all
  qed (use assms in \<open>(simp, linarith)+\<close>)
qed
lemma cp_4_low:  fixes p q r t :: int
  assumes "0 \<le> p" "0 \<le> q" "q < 64" "0 \<le> r" "r < 64" "0 \<le> t" "t < 64"
  shows "0x10000 \<le> p * 262144 + q * 4096 + r * 64 + t \<longleftrightarrow> \<not> (p = 0 \<and> q < 16)"
proof (cases "1 \<le> p")
  case False then have "p = 0" using assms(1) by linarith
  then show ?thesis using assms by (cases "q < 16") simp_all
qed (use assms in simp)
lemma cp_4_high:  fixes p q r t :: int
  assumes "0 \<le> p" "0 \<le> q" "q < 64" "0 \<le> r" "r < 64" "0 \<le> t" "t < 64"
  shows "p * 262144 + q * 4096 + r * 64 + t < 0x110000 \<longleftrightarrow> \<not> (4 < p \<or> p = 4 \<and> 15 < q)"
proof -
  consider "p \<le> 3" | "p = 4" | "5 \<le> p" by linarith
  then show ?thesis
  proof cases
    case 2 then show ?thesis using assms by (cases "15 < q") simp_all
  qed (use assms in \<open>(simp, linarith?)+\<close>)
qed

lemma byte_residues:
  fixes x :: int
  shows "224 \<le> x \<Longrightarrow> x < 240 \<Longrightarrow> x mod 16 = 13 \<longleftrightarrow> x - 224 = 13"
    and "240 \<le> x \<Longrightarrow> x < 248 \<Longrightarrow> x mod 8 = x - 240"
    and "128 \<le> x \<Longrightarrow> x < 192 \<Longrightarrow> x div 32 mod 2 = 0 \<longleftrightarrow> \<not> 32 \<le> x - 128"
    and "128 \<le> x \<Longrightarrow> x < 192 \<Longrightarrow> x mod 64 = x - 128"
    and "192 \<le> x \<Longrightarrow> x < 224 \<Longrightarrow> x mod 32 = x - 192"
    and "224 \<le> x \<Longrightarrow> x < 240 \<Longrightarrow> x mod 16 = x - 224"
  by presburger+

definition lead_dec :: "byte list \<Rightarrow> bool" where
  "lead_dec s \<longleftrightarrow> (\<forall>n. analyze_char s = Inr n \<longleftrightarrow> (\<exists>c. utf8_dec s = Some (c, n)))"

lemma analyze_char_3:
  assumes "224 \<le> uint (s ! 0)" "uint (s ! 0) < 240" "2 < length s"
    "128 \<le> uint (s ! 1)" "uint (s ! 1) < 192" "128 \<le> uint (s ! 2)" "uint (s ! 2) < 192"
  shows "lead_dec s"
proof -
  define p where "p = uint (s ! 0) - 224"
  define q where "q = uint (s ! 1) - 128"
  define r where "r = uint (s ! 2) - 128"
  have b: "0 \<le> p" "0 \<le> q" "q < 64" "0 \<le> r" "r < 64" using assms by (simp_all add: p_def q_def r_def)
  have "analyze_char s = (if p = 0 \<and> q < 32 then Inl ERTS_UTF8_ERROR
      else if p = 13 \<and> 32 \<le> q then Inl ERTS_UTF8_ERROR else Inr 3)"
    using assms byte_residues(1) [of "uint (s ! 0)"] byte_residues(3) [of "uint (s ! 1)"]
    by (simp add: analyze_char_def p_def q_def byte_eq_numeral [of "s ! 0"])
  moreover have "utf8_dec s = (if \<not> (p = 0 \<and> q < 32) \<and> \<not> (p = 13 \<and> 32 \<le> q)
      then Some (p * 4096 + q * 64 + r, 3) else None)"
    using assms unfolding utf8_dec_def Let_def p_def [symmetric] q_def [symmetric] r_def [symmetric]
      cp_3_low [OF b] cp_3_surrogate [OF b] by simp
  ultimately show ?thesis by (simp add: lead_dec_def)
qed

lemma analyze_char_4:
  assumes "240 \<le> uint (s ! 0)" "uint (s ! 0) < 248" "3 < length s"
    "128 \<le> uint (s ! 1)" "uint (s ! 1) < 192" "128 \<le> uint (s ! 2)" "uint (s ! 2) < 192"
    "128 \<le> uint (s ! 3)" "uint (s ! 3) < 192"
  shows "lead_dec s"
proof -
  define p where "p = uint (s ! 0) - 240"
  define q where "q = uint (s ! 1) - 128"
  define r where "r = uint (s ! 2) - 128"
  define t where "t = uint (s ! 3) - 128"
  have b: "0 \<le> p" "0 \<le> q" "q < 64" "0 \<le> r" "r < 64" "0 \<le> t" "t < 64"
    using assms by (simp_all add: p_def q_def r_def t_def)
  have "analyze_char s = (if p = 0 \<and> q < 16 then Inl ERTS_UTF8_ERROR
      else if 4 < p \<or> p = 4 \<and> 15 < q then Inl ERTS_UTF8_ERROR else Inr 4)"
    using assms byte_residues(2) [of "uint (s ! 0)"] byte_residues(4) [of "uint (s ! 1)"]
    by (simp add: analyze_char_def p_def q_def byte_eq_numeral [of "s ! 0"])
  moreover have "utf8_dec s = (if \<not> (p = 0 \<and> q < 16) \<and> \<not> (4 < p \<or> p = 4 \<and> 15 < q)
      then Some (p * 262144 + q * 4096 + r * 64 + t, 4) else None)"
    using assms unfolding utf8_dec_def Let_def p_def [symmetric] q_def [symmetric] r_def [symmetric]
      t_def [symmetric] cp_4_low [OF b] cp_4_high [OF b] by simp
  ultimately show ?thesis by (simp add: lead_dec_def)
qed

lemma analyze_char_dec: "lead_dec s"
proof -
  consider "uint (s ! 0) < 128" | "128 \<le> uint (s ! 0)" "uint (s ! 0) < 192" | "192 \<le> uint (s ! 0)" "uint (s ! 0) < 224"
    | "224 \<le> uint (s ! 0)" "uint (s ! 0) < 240" | "240 \<le> uint (s ! 0)" "uint (s ! 0) < 248" | "248 \<le> uint (s ! 0)"
    by linarith
  then show ?thesis
  proof cases
    case 4
    show ?thesis
    proof (cases "2 < length s \<and> 128 \<le> uint (s ! 1) \<and> uint (s ! 1) < 192 \<and> 128 \<le> uint (s ! 2) \<and> uint (s ! 2) < 192")
      case True
      with analyze_char_3 [of s] 4 show ?thesis by blast
    next
      case False
      then have "utf8_dec s = None" using 4 by (auto simp: utf8_dec_def)
      moreover have "analyze_char s \<noteq> Inr n" for n using 4 False by (auto simp: analyze_char_def)
      ultimately show ?thesis by (simp add: lead_dec_def)
    qed
  next
    case 5
    show ?thesis
    proof (cases "3 < length s \<and> 128 \<le> uint (s ! 1) \<and> uint (s ! 1) < 192 \<and> 128 \<le> uint (s ! 2) \<and>
        uint (s ! 2) < 192 \<and> 128 \<le> uint (s ! 3) \<and> uint (s ! 3) < 192")
      case True
      with analyze_char_4 [of s] 5 show ?thesis by blast
    next
      case False
      then have "utf8_dec s = None" using 5 by (auto simp: utf8_dec_def)
      moreover have "analyze_char s \<noteq> Inr n" for n using 5 False by (auto simp: analyze_char_def)
      ultimately show ?thesis by (simp add: lead_dec_def)
    qed
  qed (auto simp: lead_dec_def analyze_char_def utf8_dec_def Let_def)
qed

lemma analyze_char_Inr: "analyze_char s = Inr n \<longleftrightarrow> (\<exists>c. utf8_dec s = Some (c, n))"
  using analyze_char_dec by (simp add: lead_dec_def)

text \<open>A character of the text: the bytes of a valid code point.\<close>

lemma analyze_char_enc:
  assumes "analyze_char s = Inr n" and "s \<noteq> []"
  obtains c where "valid_cp c" "s = utf8_enc c @ drop n s" "n = length (utf8_enc c)" "n \<le> length s"
proof -
  from assms(1) obtain c where "utf8_dec s = Some (c, n)" by (auto simp: analyze_char_Inr)
  with dec_sound [OF this assms(2)] show ?thesis by (metis append_take_drop_id that)
qed

lemma analyze_char_text: "valid_cp c \<Longrightarrow> analyze_char (utf8_enc c @ r) = Inr (length (utf8_enc c))"
  using dec_complete [of c r] analyze_char_Inr by blast

subsection \<open>Decoding\<close>

lemma uint_ucast_byte [simp]: "uint (ucast (b :: byte) :: Uint) = uint b"
  by (simp add: unsigned_ucast_eq take_bit_int_eq_self order.strict_trans1 [OF uint_byte_bounds(2)])

lemma enc_bytes:
  assumes "valid_cp c"
  obtains (one) a where "0 \<le> c" "c < 0x80" "utf8_enc c = [a]" "uint a = c"
  | (two) a b p q where "utf8_enc c = [a, b]" "uint a = 192 + p" "uint b = 128 + q" "c = p * 64 + q"
      "2 \<le> p" "p < 32" "0 \<le> q" "q < 64"
  | (three) a b d p q r where "utf8_enc c = [a, b, d]" "uint a = 224 + p" "uint b = 128 + q" "uint d = 128 + r"
      "c = p * 4096 + q * 64 + r" "0x800 \<le> c" "0 \<le> p" "p < 16" "0 \<le> q" "q < 64" "0 \<le> r" "r < 64"
  | (four) a b d e p q r t where "utf8_enc c = [a, b, d, e]" "uint a = 240 + p" "uint b = 128 + q"
      "uint d = 128 + r" "uint e = 128 + t" "c = p * 262144 + q * 4096 + r * 64 + t" "0x10000 \<le> c"
      "0 \<le> p" "p < 8" "0 \<le> q" "q < 64" "0 \<le> r" "r < 64" "0 \<le> t" "t < 64"
  using assms
proof (cases rule: cp_cases)
  case 1: one
  with uint_utf8_enc [OF assms] one show ?thesis by (auto simp: map_eq_Cons_conv)
next
  case 2: (two p q)
  with uint_utf8_enc [OF assms] two [of _ _ p q] show ?thesis by (auto simp: map_eq_Cons_conv)
next
  case 3: (three p q r)
  with uint_utf8_enc [OF assms] three [of _ _ _ p q r] show ?thesis by (auto simp: map_eq_Cons_conv)
next
  case 4: (four p q r t)
  with uint_utf8_enc [OF assms] four [of _ _ _ _ p q r t] show ?thesis by (auto simp: map_eq_Cons_conv)
qed

lemma low_bits [simp]:
  fixes p :: int
  shows "0 \<le> p \<Longrightarrow> p < 32 \<Longrightarrow> (192 + p) mod 32 = p" "0 \<le> p \<Longrightarrow> p < 16 \<Longrightarrow> (224 + p) mod 16 = p"
    "0 \<le> p \<Longrightarrow> p < 8 \<Longrightarrow> (240 + p) mod 8 = p" "0 \<le> p \<Longrightarrow> p < 64 \<Longrightarrow> (128 + p) mod 64 = p"
  using mod_mult_self4 [of 32 6 p] mod_mult_self4 [of 16 14 p] mod_mult_self4 [of 8 30 p] mod_mult_self4 [of 64 2 p]
  by simp_all

lemma ucast_value: "uint (b :: byte) = k \<Longrightarrow> ucast b = (word_of_int k :: Uint)"
  by (auto simp: ucast_eq)

lemma push_or_value:
  assumes "0 \<le> a" "a < 2 ^ 32" "0 \<le> b" "b < 2 ^ k" "k \<le> 32"
  shows "push_bit k (word_of_int a :: Uint) OR word_of_int b = word_of_int (a * 2 ^ k + b)"
proof -
  have "(2 :: int) ^ k \<le> 2 ^ 32" using assms(5) by (intro power_increasing) simp_all
  with assms have "uint (word_of_int b :: Uint) = b" "uint (word_of_int a :: Uint) = a"
    by (simp_all add: uint_word_of_int_small)
  with push_or [of "word_of_int b" k "word_of_int a"] assms show ?thesis by simp
qed

lemma unipoint_enc:
  assumes "valid_cp c"
  shows "unipoint_at (utf8_enc c @ r) = Some (word_of_int c)"
  using assms
proof (cases rule: enc_bytes)
  case (one a)
  then show ?thesis by (simp add: unipoint_at_def ucast_value)
next
  case (two a b p q)
  have u: "ucast (a AND 0x1F) = (word_of_int p :: Uint)" "ucast (b AND 0x3F) = (word_of_int q :: Uint)"
    using two by (auto intro!: ucast_value)
  have "push_bit 6 (word_of_int p :: Uint) OR word_of_int q = word_of_int c"
    using push_or_value [of p q 6] two by simp
  with two show ?thesis by (simp add: unipoint_at_def u del: push_bit_of_int)
next
  case (three a b d p q r')
  have u: "ucast (a AND 0xF) = (word_of_int p :: Uint)" "ucast (b AND 0x3F) = (word_of_int q :: Uint)"
    "ucast (d AND 0x3F) = (word_of_int r' :: Uint)"
    using three by (auto intro!: ucast_value)
  have "q * 64 + r' < 4096" using three by linarith
  then have "push_bit 12 (word_of_int p :: Uint) OR (push_bit 6 (word_of_int q) OR word_of_int r') = word_of_int c"
    using push_or_value [of q r' 6] push_or_value [of p "q * 64 + r'" 12] three by (simp add: add.assoc)
  with three show ?thesis by (simp add: unipoint_at_def u)
next
  case (four a b d e p q r' t)
  have u: "ucast (a AND 0x7) = (word_of_int p :: Uint)" "ucast (b AND 0x3F) = (word_of_int q :: Uint)"
    "ucast (d AND 0x3F) = (word_of_int r' :: Uint)" "ucast (e AND 0x3F) = (word_of_int t :: Uint)"
    using four by (auto intro!: ucast_value)
  have "r' * 64 + t < 4096" "q * 4096 + (r' * 64 + t) < 262144" using four by linarith+
  then have "push_bit 18 (word_of_int p :: Uint) OR (push_bit 12 (word_of_int q) OR
      (push_bit 6 (word_of_int r') OR word_of_int t)) = word_of_int c"
    using push_or_value [of r' t 6] push_or_value [of q "r' * 64 + t" 12]
      push_or_value [of p "q * 4096 + (r' * 64 + t)" 18] four by (simp add: add.assoc)
  with four show ?thesis by (simp add: unipoint_at_def u)
qed

lemma enc_flags:
  assumes "valid_cp c"
  shows "length (utf8_enc c) \<le> 2 \<longleftrightarrow> c < 0x800"
    and "length (utf8_enc c) \<le> 2 \<and> (length (utf8_enc c) = 2 \<longrightarrow> (utf8_enc c @ r) ! 0 AND 0xFC = 0xC0) \<longleftrightarrow> c < 256"
    and "utf8_enc c \<noteq> []"
proof -
  show l: "length (utf8_enc c) \<le> 2 \<longleftrightarrow> c < 0x800" by (simp add: utf8_values_def)
  show "utf8_enc c \<noteq> []" by (simp add: utf8_enc_def utf8_values_def)
  show "length (utf8_enc c) \<le> 2 \<and> (length (utf8_enc c) = 2 \<longrightarrow> (utf8_enc c @ r) ! 0 AND 0xFC = 0xC0) \<longleftrightarrow> c < 256"
    using assms
  proof (cases rule: enc_bytes)
    case (two a b p q)
    then have "c < 256 \<longleftrightarrow> p < 4" by linarith
    with two show ?thesis by simp
  qed (use l in simp_all)
qed

subsection \<open>The loops\<close>

lemma utf8_text_simps [simp]:
  "utf8_text [] = []" "utf8_text (c # cs) = utf8_enc c @ utf8_text cs"
  "utf8_text (cs @ ds) = utf8_text cs @ utf8_text ds"
  by (simp_all add: utf8_text_def)

definition analysis_ok :: "nat \<Rightarrow> byte list \<Rightarrow> analysis \<Rightarrow> utf8_status \<times> analysis \<Rightarrow> int list \<Rightarrow> bool" where
  "analysis_ok m s a res cs \<longleftrightarrow>
     (case res of (st, a') \<Rightarrow>
        list_all valid_cp cs \<and> take (length (utf8_text cs)) s = utf8_text cs \<and>
        length (utf8_text cs) \<le> length s \<and>
        a_num_chars a' = a_num_chars a + length cs \<and> a_err_pos a' = a_err_pos a + length (utf8_text cs) \<and>
        a_is_latin1 a' = (a_is_latin1 a \<and> list_all (\<lambda>c. c < 256) cs) \<and>
        a_latin1_count a' = a_latin1_count a + length (filter (\<lambda>c. c < 0x800) cs) \<and>
        (st = ERTS_UTF8_OK \<longleftrightarrow> length (utf8_text cs) = length s) \<and>
        (st = ERTS_UTF8_ERROR \<or> st = ERTS_UTF8_INCOMPLETE \<longrightarrow>
           utf8_dec (drop (length (utf8_text cs)) s) = None) \<and>
        (st = ERTS_UTF8_OK_MAX_CHARS \<longrightarrow> m \<noteq> 0 \<and> a_num_chars a' = m) \<and>
        (st = ERTS_UTF8_ANALYZE_MORE \<longrightarrow> (\<exists>l. a_left a' = Some l \<and> l \<le> 0)))"

lemma analysis_ok_stop:
  "s \<noteq> [] \<Longrightarrow> st \<noteq> ERTS_UTF8_OK \<Longrightarrow>
   (st = ERTS_UTF8_ERROR \<or> st = ERTS_UTF8_INCOMPLETE \<Longrightarrow> utf8_dec s = None) \<Longrightarrow>
   (st = ERTS_UTF8_OK_MAX_CHARS \<Longrightarrow> m \<noteq> 0 \<and> a_num_chars a = m) \<Longrightarrow>
   (st = ERTS_UTF8_ANALYZE_MORE \<Longrightarrow> \<exists>l. a_left a = Some l \<and> l \<le> 0) \<Longrightarrow> analysis_ok m s a (st, a) []"
  by (simp add: analysis_ok_def)

lemma analysis_ok_Cons:
  assumes "analysis_ok m r a1 res cs" and "valid_cp c"
    and "a_err_pos a1 = a_err_pos a + length (utf8_enc c)" and "a_num_chars a1 = a_num_chars a + 1"
    and "a_latin1_count a1 = a_latin1_count a + (if c < 0x800 then 1 else 0)"
    and "a_is_latin1 a1 = (a_is_latin1 a \<and> c < 256)"
  shows "analysis_ok m (utf8_enc c @ r) a res (c # cs)"
  using assms by (cases res) (auto simp: analysis_ok_def)

lemma analyze_char_status:
  "analyze_char s = Inl e \<Longrightarrow> e = ERTS_UTF8_ERROR \<or> e = ERTS_UTF8_INCOMPLETE"
  by (auto simp: analyze_char_def split: if_splits)

lemma analyze_loop_ok: "\<exists>cs. analysis_ok m s a (analyze_loop m s a) cs"
proof (induction m s a rule: analyze_loop.induct)
  case (1 m s a)
  show ?case
  proof (cases "s = []")
    case True
    then show ?thesis
      by (intro exI [of _ "[]"]) (simp add: analyze_loop.simps [of m "[]"] analysis_ok_def)
  next
    case False
    show ?thesis
    proof (cases "analyze_char s")
      case (Inl e)
      have "utf8_dec s = None"
        using Inl analyze_char_Inr [of s] by (metis Inl_Inr_False not_Some_eq surj_pair)
      with Inl False analyze_char_status [OF Inl] show ?thesis
        by (intro exI [of _ "[]"]) (auto simp: analyze_loop.simps [of m s] intro!: analysis_ok_stop)
    next
      case (Inr n)
      obtain c where c: "valid_cp c" "s = utf8_enc c @ drop n s" "n = length (utf8_enc c)"
        using analyze_char_enc [OF Inr False] by metis
      note fl = enc_flags [OF c(1)]
      define a1 where "a1 = count_char n s a"
      have lat: "n \<le> 2 \<and> (n = 2 \<longrightarrow> s ! 0 AND 0xFC = 0xC0) \<longleftrightarrow> c < 256"
        using fl(2) [of "drop n s"] c(2,3) by metis
      have n2: "n \<le> 2 \<longleftrightarrow> c < 0x800" using fl(1) c(3) by simp
      have F: "a_err_pos a1 = a_err_pos a + length (utf8_enc c)" "a_num_chars a1 = a_num_chars a + 1"
        "a_latin1_count a1 = a_latin1_count a + (if c < 0x800 then 1 else 0)"
        "a_is_latin1 a1 = (a_is_latin1 a \<and> c < 256)"
        unfolding a1_def count_char_def lat [symmetric] c(3) [symmetric] n2 by simp_all
      note step = analysis_ok_Cons [OF _ c(1), of m "drop n s" _ _ _ a, folded c(2)]
      have more: "length s > n \<longleftrightarrow> drop n s \<noteq> []" by auto
      define a2 where "a2 l = a1\<lparr>a_left := Some (l - 1)\<rparr>" for l
      have step1: "analysis_ok m (drop n s) a1 res cs \<Longrightarrow> analysis_ok m s a res (c # cs)" for res cs
        by (rule step [OF _ F])
      have step2: "analysis_ok m (drop n s) (a2 l) res cs \<Longrightarrow> analysis_ok m s a res (c # cs)" for res cs l
        by (erule step) (use F in \<open>simp_all add: a2_def\<close>)
      have loop: "analyze_loop m s a =
          (if m \<noteq> 0 \<and> drop n s \<noteq> [] \<and> a_num_chars a1 = m then (ERTS_UTF8_OK_MAX_CHARS, a1)
           else case a_left a1 of None \<Rightarrow> analyze_loop m (drop n s) a1
             | Some l \<Rightarrow> if l - 1 \<le> 0 \<and> drop n s \<noteq> [] then (ERTS_UTF8_ANALYZE_MORE, a2 l)
                 else analyze_loop m (drop n s) (a2 l))"
        using False Inr by (simp add: analyze_loop.simps [of m s] a1_def a2_def Let_def not_le split: option.split)
      note IH = 1 [OF False Inr a1_def more [symmetric], folded more]
      show ?thesis
      proof (cases "m \<noteq> 0 \<and> drop n s \<noteq> [] \<and> a_num_chars a1 = m")
        case True
        then have "analysis_ok m (drop n s) a1 (analyze_loop m s a) []"
          using loop by (auto intro!: analysis_ok_stop)
        then show ?thesis using step1 by blast
      next
        case nomax: False
        show ?thesis
        proof (cases "a_left a1")
          case None
          have "\<exists>cs. analysis_ok m (drop n s) a1 (analyze_loop m (drop n s) a1) cs"
            using IH(1) nomax None by (auto simp: more)
          moreover have "analyze_loop m s a = analyze_loop m (drop n s) a1"
            unfolding loop using nomax None by auto
          ultimately show ?thesis using step1 by metis
        next
          case (Some l)
          show ?thesis
          proof (cases "l - 1 \<le> 0 \<and> drop n s \<noteq> []")
            case True
            then have "analysis_ok m (drop n s) (a2 l) (analyze_loop m s a) []"
              using loop nomax Some by (auto intro!: analysis_ok_stop simp: a2_def)
            then show ?thesis using step2 by blast
          next
            case False
            have "\<exists>cs. analysis_ok m (drop n s) (a2 l) (analyze_loop m (drop n s) (a2 l)) cs"
              using IH(2) nomax Some False by (auto simp: more a2_def)
            moreover have "analyze_loop m s a = analyze_loop m (drop n s) (a2 l)"
              unfolding loop using nomax Some False by auto
            ultimately show ?thesis using step2 by metis
          qed
        qed
      qed
    qed
  qed
qed

lemma valid_text_starts: "utf8_text (c # cs) = utf8_enc c @ utf8_text cs \<and> utf8_enc c \<noteq> []"
  by (simp add: utf8_enc_def utf8_values_def)

lemma utf8_text_Nil_iff [simp]: "utf8_text cs = [] \<longleftrightarrow> cs = []"
  using valid_text_starts by (cases cs) simp_all

lemma analyze_loop_text:
  assumes "list_all valid_cp cs" and "a_left a = None"
  shows "analyze_loop 0 (utf8_text cs) a =
    (ERTS_UTF8_OK, a\<lparr>a_err_pos := a_err_pos a + length (utf8_text cs), a_num_chars := a_num_chars a + length cs,
       a_latin1_count := a_latin1_count a + length (filter (\<lambda>c. c < 0x800) cs),
       a_is_latin1 := a_is_latin1 a \<and> list_all (\<lambda>c. c < 256) cs\<rparr>)"
  using assms
proof (induction cs arbitrary: a)
  case Nil
  then show ?case by (simp add: analyze_loop.simps [of 0 "[]"])
next
  case (Cons c cs)
  have v: "valid_cp c" "list_all valid_cp cs" using Cons.prems(1) by simp_all
  note fl = enc_flags [OF v(1)]
  have "analyze_loop 0 (utf8_text (c # cs)) a =
      analyze_loop 0 (utf8_text cs) (count_char (length (utf8_enc c)) (utf8_text (c # cs)) a)"
    using fl(3) Cons.prems(2)
    by (subst analyze_loop.simps) (simp add: analyze_char_text [OF v(1)] count_char_def)
  moreover have "count_char (length (utf8_enc c)) (utf8_text (c # cs)) a =
      a\<lparr>a_err_pos := a_err_pos a + length (utf8_enc c), a_num_chars := a_num_chars a + 1,
        a_latin1_count := a_latin1_count a + (if c < 0x800 then 1 else 0),
        a_is_latin1 := a_is_latin1 a \<and> c < 256\<rparr>"
    unfolding count_char_def utf8_text_simps fl(2) unfolding fl(1) by simp
  ultimately show ?case using Cons.IH [OF v(2)] Cons.prems(2) by simp
qed

text \<open>Scanning backwards: continuation bytes are skipped, a lead byte is decoded.\<close>

lemma utf8_list_skip:
  assumes "i \<le> length bytes" and "\<forall>k. j \<le> k \<and> k < i \<longrightarrow> 128 \<le> uint (bytes ! k) \<and> uint (bytes ! k) < 192"
    and "j \<le> i"
  shows "utf8_list_loop bytes i num ret = utf8_list_loop bytes j num ret"
  using assms
proof (induction i)
  case (Suc i)
  show ?case
  proof (cases "j = Suc i")
    case False
    with Suc.prems have "128 \<le> uint (bytes ! i)" "uint (bytes ! i) < 192" by auto
    then have "unipoint_at (drop i bytes) = None" using Suc.prems(1) by (simp add: unipoint_at_def)
    with Suc False show ?thesis by simp
  qed simp
qed simp

lemma enc_conts:
  assumes "valid_cp c" and "1 \<le> k" and "k < length (utf8_enc c)"
  shows "128 \<le> uint (utf8_enc c ! k) \<and> uint (utf8_enc c ! k) < 192"
  using assms(1)
proof (cases rule: enc_bytes)
  case (one a)
  with assms show ?thesis by (simp del: length_utf8_enc)
next
  case (two a b p q)
  then have "k = 1" using assms by (simp del: length_utf8_enc)
  with two show ?thesis by simp
next
  case (three a b d p q r)
  then have "k = 1 \<or> k = 2" using assms by (auto simp del: length_utf8_enc)
  with three show ?thesis by auto
next
  case (four a b d e p q r t)
  then have "k = 1 \<or> k = 2 \<or> k = 3" using assms by (auto simp del: length_utf8_enc)
  with four show ?thesis by auto
qed

lemma utf8_list_loop_text:
  assumes "list_all valid_cp cs" and "1 \<le> n" and "n \<le> length cs"
  shows "utf8_list_loop (utf8_text cs @ rest) (length (utf8_text cs)) n ret =
    (map word_of_int (drop (length cs - n) cs) @ ret, int (length (utf8_text (take (length cs - n) cs))))"
  using assms
proof (induction cs arbitrary: n rest ret rule: rev_induct)
  case (snoc c cs)
  have v: "valid_cp c" "list_all valid_cp cs" using snoc.prems(1) by simp_all
  let ?b = "utf8_text (cs @ [c]) @ rest"
  have ne: "utf8_enc c \<noteq> []" "utf8_values c \<noteq> []" by (simp_all add: utf8_enc_def utf8_values_def)
  define l where "l = length (utf8_text cs)"
  have len: "length (utf8_text (cs @ [c])) = l + length (utf8_enc c)" by (simp add: l_def)
  have "128 \<le> uint (?b ! k) \<and> uint (?b ! k) < 192" if "Suc l \<le> k" "k < l + length (utf8_enc c)" for k
  proof -
    have "1 \<le> k - l" "k - l < length (utf8_enc c)" using that by linarith+
    with enc_conts [OF v(1) this] that show ?thesis by (simp add: nth_append l_def)
  qed
  then have "utf8_list_loop ?b (length (utf8_text (cs @ [c]))) n ret = utf8_list_loop ?b (Suc l) n ret"
    using ne len by (intro utf8_list_skip) (simp_all add: Suc_le_eq l_def)
  also have "\<dots> = (if n - 1 = 0 then (word_of_int c # ret, int l)
      else utf8_list_loop ?b l (n - 1) (word_of_int c # ret))"
    using unipoint_enc [OF v(1), of rest] by (simp add: l_def)
  also have "\<dots> = (map word_of_int (drop (length (cs @ [c]) - n) (cs @ [c])) @ ret,
      int (length (utf8_text (take (length (cs @ [c]) - n) (cs @ [c])))))"
  proof (cases "n = 1")
    case False
    have "utf8_list_loop (utf8_text cs @ utf8_enc c @ rest) l (n - 1) (word_of_int c # ret) =
      (map word_of_int (drop (length cs - (n - 1)) cs) @ word_of_int c # ret,
        int (length (utf8_text (take (length cs - (n - 1)) cs))))"
      unfolding l_def using snoc.IH [OF v(2), of "n - 1" "utf8_enc c @ rest"] snoc.prems False by simp
    moreover have "length (cs @ [c]) - n = length cs - (n - 1)" using snoc.prems False by simp
    ultimately show ?thesis using False snoc.prems by simp
  qed (simp add: l_def)
  finally show ?case .
qed simp

subsection \<open>Copying\<close>

lemma copy_char_analyze:
  "copy_char lo s = (case analyze_char s of Inr n \<Rightarrow> Inr n
     | Inl e \<Rightarrow> Inl (lo \<and> e = ERTS_UTF8_INCOMPLETE))"
  unfolding copy_char_def analyze_char_def
  by (cases "s ! 0 AND 0x80 = 0"; cases "s ! 0 AND 0xE0 = 0xC0"; cases "s ! 0 AND 0xF0 = 0xE0";
      cases "s ! 0 AND 0xF8 = 0xF0") (simp_all del: byte_and byte_less_numeral)

lemma copy_loop_text:
  assumes "list_all valid_cp cs"
  shows "copy_loop lo (utf8_text cs @ r) n ch = copy_loop lo r (n + length (utf8_text cs)) (ch + length cs)"
  using assms
proof (induction cs arbitrary: n ch)
  case (Cons c cs)
  then have "valid_cp c" by simp
  from enc_flags(3) [OF this] Cons show ?case
    by (subst copy_loop.simps) (simp add: copy_char_analyze analyze_char_text add.assoc)
qed simp

lemma part_incomplete:
  assumes "valid_cp c" and "utf8_enc c = part @ rest" and "part \<noteq> []" and "rest \<noteq> []"
  shows "analyze_char part = Inl ERTS_UTF8_INCOMPLETE \<and> utf8_len (part ! 0) = int (length (utf8_enc c))"
proof -
  have h: "part ! 0 = utf8_enc c ! 0" using assms(2,3) by (simp add: nth_append)
  have l: "length part < length (utf8_enc c)" using assms(2,4) by simp
  show ?thesis using assms(1)
  proof (cases rule: enc_bytes)
    case (one a)
    with l assms(3) show ?thesis by (simp del: length_utf8_enc)
  next
    case (two a b p q)
    with l h show ?thesis by (simp add: analyze_char_def utf8_len_def del: length_utf8_enc)
  next
    case (three a b d p q r)
    with l h show ?thesis by (simp add: analyze_char_def utf8_len_def del: length_utf8_enc)
  next
    case (four a b d e p q r t)
    with l h show ?thesis by (simp add: analyze_char_def utf8_len_def del: length_utf8_enc)
  qed
qed

lemma copy_loop_split:
  assumes "list_all valid_cp cs" and "utf8_text cs = a @ b"
  shows "\<exists>ds part. list_all valid_cp ds \<and> a = utf8_text ds @ part \<and>
    (part = [] \<and> (\<exists>es. cs = ds @ es \<and> b = utf8_text es) \<or>
     (\<exists>c es rest. cs = ds @ c # es \<and> utf8_enc c = part @ rest \<and> part \<noteq> [] \<and> rest \<noteq> [] \<and>
        b = rest @ utf8_text es))"
  using assms
proof (induction cs arbitrary: a)
  case Nil
  then show ?case by (intro exI [of _ "[]"]) simp
next
  case (Cons c cs)
  have v: "valid_cp c" "list_all valid_cp cs" using Cons.prems(1) by simp_all
  have e: "utf8_enc c @ utf8_text cs = a @ b" using Cons.prems(2) by simp
  show ?case
  proof (cases "length (utf8_enc c) \<le> length a")
    case True
    define a' where "a' = drop (length (utf8_enc c)) a"
    have "take (length (utf8_enc c)) (a @ b) = utf8_enc c" unfolding e [symmetric] by simp
    with True have "take (length (utf8_enc c)) a = utf8_enc c" by (simp del: length_utf8_enc)
    then have a': "a = utf8_enc c @ a'" unfolding a'_def by (metis append_take_drop_id)
    with e have a'': "utf8_text cs = a' @ b" by simp
    from Cons.IH [OF v(2) a''] obtain ds part where "list_all valid_cp ds" "a' = utf8_text ds @ part"
      "part = [] \<and> (\<exists>es. cs = ds @ es \<and> b = utf8_text es) \<or>
       (\<exists>c es rest. cs = ds @ c # es \<and> utf8_enc c = part @ rest \<and> part \<noteq> [] \<and> rest \<noteq> [] \<and>
        b = rest @ utf8_text es)" by blast
    with v(1) a' show ?thesis by (intro exI [of _ "c # ds"] exI [of _ part]) auto
  next
    case False
    from e obtain rest where "utf8_enc c = a @ rest \<and> rest @ utf8_text cs = b \<or>
        utf8_enc c @ rest = a \<and> utf8_text cs = rest @ b"
      unfolding append_eq_append_conv2 by blast
    with False have r: "utf8_enc c = a @ rest" "rest \<noteq> []" "b = rest @ utf8_text cs"
      by (auto simp del: length_utf8_enc)
    show ?thesis
    proof (cases "a = []")
      case True
      with r e show ?thesis by (intro exI [of _ "[]"]) (auto intro!: exI [of _ "c # cs"])
    next
      case False
      with r show ?thesis by (intro exI [of _ "[]"] exI [of _ a]) auto
    qed
  qed
qed

lemma copy_char_part:
  assumes "valid_cp c" and "utf8_enc c = part @ rest" and "part \<noteq> []" and "rest \<noteq> []"
  shows "copy_loop True part n ch = (n, part, False, ch)"
  using part_incomplete [OF assms] assms(3)
  by (subst copy_loop.simps) (simp add: copy_char_analyze)

lemma copy_loop_Nil [simp]: "copy_loop lo [] n ch = (n, [], False, ch)"
  by (simp add: copy_loop.simps)

subsection \<open>Bits of binaries\<close>

lemma length_byte_bits [simp]: "length (byte_bits b) = 8"
  by (simp add: byte_bits_def)

lemma bits_byte_bits: "bits_byte (byte_bits b) = b"
  by (rule byte_all) code_simp

lemma bits_byte_append [simp]: "bits_byte (byte_bits b @ r) = b"
proof -
  have "bits_byte (byte_bits b @ r) = bits_byte (byte_bits b)" by (simp add: bits_byte_def)
  then show ?thesis by (simp add: bits_byte_bits)
qed

definition bytes_bits :: "byte list \<Rightarrow> bool list" where
  "bytes_bits bs = concat (map byte_bits bs)"

lemma bytes_bits_simps [simp]:
  "bytes_bits [] = []" "bytes_bits (b # bs) = byte_bits b @ bytes_bits bs"
  "bytes_bits (bs @ cs) = bytes_bits bs @ bytes_bits cs"
  by (simp_all add: bytes_bits_def)

lemma length_bytes_bits [simp]: "length (bytes_bits bs) = 8 * length bs"
  by (induction bs) simp_all

lemma drop_bytes_bits: "i \<le> length bs \<Longrightarrow> drop (8 * i) (bytes_bits bs @ r) = bytes_bits (drop i bs) @ r"
proof (induction i arbitrary: bs)
  case (Suc i)
  then obtain b cs where "bs = b # cs" by (cases bs) auto
  with Suc show ?case by simp
qed simp

lemma mb_byte_bits:
  assumes "i < length bs"
  shows "mb_byte \<lparr>mb_bits = pre @ bytes_bits bs @ r, mb_offset = length pre\<rparr> i = bs ! i"
proof -
  have "mb_byte \<lparr>mb_bits = pre @ bytes_bits bs @ r, mb_offset = length pre\<rparr> i =
      bits_byte (drop (8 * i) (bytes_bits bs @ r))" by (simp add: mb_byte_def)
  also have "drop (8 * i) (bytes_bits bs @ r) = bytes_bits (drop i bs) @ r"
    using assms by (intro drop_bytes_bits) simp
  also have "bytes_bits (drop i bs) = byte_bits (bs ! i) @ bytes_bits (drop (Suc i) bs)"
    using assms by (simp flip: Cons_nth_drop_Suc)
  finally show ?thesis by simp
qed

text \<open>The whole bytes that are left in a match buffer.\<close>

definition mb_bytes :: "match_buffer \<Rightarrow> byte list" where
  "mb_bytes mb = map (mb_byte mb) [0..<(length (mb_bits mb) - mb_offset mb) div 8]"

lemma and_63: "(v :: int) AND 0x3F = v mod 64"
proof -
  have "v AND mask 6 = take_bit 6 v" by (simp add: take_bit_eq_mask)
  then show ?thesis by (simp add: mask_eq_exp_minus_1 take_bit_eq_mod)
qed

lemma word_of_int_lead:
  fixes v :: int
  shows "0 \<le> v \<Longrightarrow> v < 32 \<Longrightarrow> word_of_int (0xC0 OR v) = (word_of_int (192 + v) :: byte)"
    and "0 \<le> v \<Longrightarrow> v < 16 \<Longrightarrow> word_of_int (0xE0 OR v) = (word_of_int (224 + v) :: byte)"
    and "0 \<le> v \<Longrightarrow> v < 8 \<Longrightarrow> word_of_int (0xF0 OR v) = (word_of_int (240 + v) :: byte)"
    and "0 \<le> v \<Longrightarrow> v < 64 \<Longrightarrow> word_of_int (0x80 OR v) = (word_of_int (128 + v) :: byte)"
  using byte_or(2) [of "word_of_int v"] byte_or(4) [of "word_of_int v"] byte_or(6) [of "word_of_int v"]
    byte_or(8) [of "word_of_int v"]
  by (simp_all add: uint_word_of_int_small of_int_or_eq)

lemma put_utf8_enc:
  "erts_bs_put_utf8 val bin = (if valid_cp val then Some (bin @ bytes_bits (utf8_enc val)) else None)"
proof (cases "valid_cp val")
  case True
  then have v: "0 \<le> val" "val < 0x110000" "\<not> (0xD800 \<le> val \<and> val \<le> 0xDFFF)" by (auto simp: valid_cp_def)
  have m: "0 \<le> z mod 64" "z mod 64 < 64" for z :: int by simp_all
  have d: "0 \<le> val div 64" "0 \<le> val div 4096" "0 \<le> val div 262144"
    using v(1) by (simp_all add: pos_imp_zdiv_nonneg_iff)
  have "val < 0x800 \<Longrightarrow> val div 64 < 32" "val < 0x10000 \<Longrightarrow> val div 4096 < 16" "val div 262144 < 8"
    using v(2) by linarith+
  with v d m show ?thesis
    by (simp add: erts_bs_put_utf8_def utf8_enc_def utf8_values_def bytes_bits_def and_63 drop_bit_eq_div
        word_of_int_lead True)
next
  case False
  then show ?thesis by (auto simp: erts_bs_put_utf8_def valid_cp_def)
qed

lemma trailing_values:
  "trailing_bytes_for_utf8 b =
     (if uint b < 128 then 0 else if uint b < 194 then 9 else if uint b < 224 then 1
      else if uint b < 240 then 2 else if uint b < 248 then 3 else 9)"
  by (simp add: trailing_bytes_for_utf8_def)

lemma ucast_byte_eq: "ucast (b :: byte) = (word_of_int (uint b) :: Uint)"
  by (simp only: ucast_eq)

lemma ucast_byte_eq_numeral: "(ucast (b :: byte) = (0xE0 :: Uint)) = (uint b = 224)"
    "(ucast (b :: byte) = (0xF0 :: Uint)) = (uint b = 240)"
  by (simp_all add: word_uint_eq_iff)

lemma code_value:
  fixes x y z w :: byte
  shows "push_bit 6 (ucast x :: Uint) + ucast y - 0x3080 = word_of_int ((uint x - 192) * 64 + (uint y - 128))"
    and "push_bit 6 (push_bit 6 (ucast x :: Uint) + ucast y) + ucast z - 0xE2080 =
      word_of_int ((uint x - 224) * 4096 + (uint y - 128) * 64 + (uint z - 128))"
    and "push_bit 6 (push_bit 6 (push_bit 6 (ucast x :: Uint) + ucast y) + ucast z) + ucast w - 0x3C82080 =
      word_of_int ((uint x - 240) * 262144 + (uint y - 128) * 4096 + (uint z - 128) * 64 + (uint w - 128))"
proof -
  have 1: "(uint x - 192) * 64 + (uint y - 128) = uint x * 64 + uint y - 0x3080"
    "(uint x - 224) * 4096 + (uint y - 128) * 64 + (uint z - 128) = (uint x * 64 + uint y) * 64 + uint z - 0xE2080"
    "(uint x - 240) * 262144 + (uint y - 128) * 4096 + (uint z - 128) * 64 + (uint w - 128) =
      ((uint x * 64 + uint y) * 64 + uint z) * 64 + uint w - 0x3C82080" by simp_all
  show "push_bit 6 (ucast x :: Uint) + ucast y - 0x3080 = word_of_int ((uint x - 192) * 64 + (uint y - 128))"
    unfolding 1 ucast_byte_eq push_bit_eq_mult by simp
  show "push_bit 6 (push_bit 6 (ucast x :: Uint) + ucast y) + ucast z - 0xE2080 =
      word_of_int ((uint x - 224) * 4096 + (uint y - 128) * 64 + (uint z - 128))"
    unfolding 1 ucast_byte_eq push_bit_eq_mult by simp
  show "push_bit 6 (push_bit 6 (push_bit 6 (ucast x :: Uint) + ucast y) + ucast z) + ucast w - 0x3C82080 =
      word_of_int ((uint x - 240) * 262144 + (uint y - 128) * 4096 + (uint z - 128) * 64 + (uint w - 128))"
    unfolding 1 ucast_byte_eq push_bit_eq_mult by simp
qed

lemma word_of_int_range:
  assumes "0 \<le> c" "c < 2 ^ 32"
  shows "(0xD800 :: Uint) \<le> word_of_int c \<longleftrightarrow> 0xD800 \<le> c" "word_of_int c \<le> (0xDFFF :: Uint) \<longleftrightarrow> c \<le> 0xDFFF"
    "(0x10FFFF :: Uint) < word_of_int c \<longleftrightarrow> 0x10FFFF < c"
  using assms by (simp_all add: word_le_def word_less_def uint_word_of_int_small)

lemma mb_bytes_nth: "i < length (mb_bytes mb) \<Longrightarrow> mb_bytes mb ! i = mb_byte mb i"
  by (simp add: mb_bytes_def)

lemma mb_bytes_length:
  "length (mb_bits mb) - mb_offset mb < 8 * n \<longleftrightarrow> length (mb_bytes mb) < n"
  by (simp add: mb_bytes_def div_less_iff_less_mult mult.commute)

text \<open>erts\_bs\_get\_utf8 decodes the first character of the whole bytes that are left.\<close>

lemma get_utf8_dec:
  "erts_bs_get_utf8 mb =
     (if mb_bytes mb = [] then None
      else map_option (\<lambda>(c, n). (word_of_int c, mb\<lparr>mb_offset := mb_offset mb + 8 * n\<rparr>))
        (utf8_dec (mb_bytes mb)))"
proof (cases "mb_bytes mb = []")
  case True
  then show ?thesis using mb_bytes_length [of mb 1] by (simp add: erts_bs_get_utf8_def Let_def)
next
  case False
  let ?s = "mb_bytes mb"
  note len = mb_bytes_length [of mb 1] mb_bytes_length [of mb 2] mb_bytes_length [of mb 3] mb_bytes_length [of mb 4]
  define x where "x = ?s ! 0"
  have x: "mb_byte mb 0 = x" using False by (simp add: x_def mb_bytes_nth)
  have y: "1 < length ?s \<Longrightarrow> mb_byte mb 1 = ?s ! 1" "2 < length ?s \<Longrightarrow> mb_byte mb 2 = ?s ! 2"
    "3 < length ?s \<Longrightarrow> mb_byte mb 3 = ?s ! 3" by (simp_all add: mb_bytes_nth)
  consider "uint x < 128" | "128 \<le> uint x" "uint x < 192" | "192 \<le> uint x" "uint x < 224"
    | "224 \<le> uint x" "uint x < 240" | "240 \<le> uint x" "uint x < 248" | "248 \<le> uint x" by linarith
  then show ?thesis
  proof cases
    case 1
    then show ?thesis using False len
      by (simp add: erts_bs_get_utf8_def Let_def trailing_values x utf8_dec_def x_def [symmetric])
  next
    case 2
    then show ?thesis using False len
      by (simp add: erts_bs_get_utf8_def Let_def trailing_values x utf8_dec_def x_def [symmetric])
  next
    case 3
    show ?thesis
    proof (cases "1 < length ?s \<and> 128 \<le> uint (?s ! 1) \<and> uint (?s ! 1) < 192")
      case True
      define c where "c = (uint x - 192) * 64 + (uint (?s ! 1) - 128)"
      have c: "0x80 \<le> c \<longleftrightarrow> \<not> uint x < 194" unfolding c_def using 3 True by arith
      have d: "utf8_dec ?s = (if uint x < 194 then None else Some (c, 2))"
        using True 3 unfolding utf8_dec_def Let_def x_def [symmetric] c_def [symmetric] c by simp
      have "push_bit 6 (ucast x :: Uint) + ucast (?s ! 1) - 0x3080 = word_of_int c"
        unfolding c_def by (rule code_value)
      then have "erts_bs_get_utf8 mb = (if uint x < 194 then None
          else Some (word_of_int c, mb\<lparr>mb_offset := mb_offset mb + 16\<rparr>))"
        using True 3 False len y by (simp add: erts_bs_get_utf8_def Let_def trailing_values x)
      with d False show ?thesis by simp
    next
      case bad: False
      then have "utf8_dec ?s = None" using 3 by (auto simp: utf8_dec_def x_def [symmetric])
      moreover have "erts_bs_get_utf8 mb = None"
        using bad 3 False len y by (auto simp: erts_bs_get_utf8_def Let_def trailing_values x)
      ultimately show ?thesis by simp
    qed
  next
    case 4
    show ?thesis
    proof (cases "2 < length ?s \<and> 128 \<le> uint (?s ! 1) \<and> uint (?s ! 1) < 192 \<and> 128 \<le> uint (?s ! 2) \<and> uint (?s ! 2) < 192")
      case True
      define c where "c = (uint x - 224) * 4096 + (uint (?s ! 1) - 128) * 64 + (uint (?s ! 2) - 128)"
      define P where "P \<longleftrightarrow> uint x = 224 \<and> uint (?s ! 1) < 160"
      have P: "0x800 \<le> c \<longleftrightarrow> \<not> P" unfolding c_def P_def using 4 True
        by (subst cp_3_low) auto
      have cb: "0 \<le> c" "c < 2 ^ 32" unfolding c_def using 4 True by auto
      have d: "utf8_dec ?s = (if P \<or> 0xD800 \<le> c \<and> c \<le> 0xDFFF then None else Some (c, 3))"
        using True 4 unfolding utf8_dec_def Let_def x_def [symmetric] c_def [symmetric] P by simp
      have v: "push_bit 6 (push_bit 6 (ucast x :: Uint) + ucast (?s ! 1)) + ucast (?s ! 2) - 0xE2080 = word_of_int c"
        unfolding c_def by (rule code_value)
      have q: "(ucast x :: Uint) = 0xE0 \<and> ?s ! 1 < 0xA0 \<longleftrightarrow> P"
        by (simp only: P_def ucast_byte_eq_numeral byte_less_numeral)
      have "erts_bs_get_utf8 mb = (if P \<or> 0xD800 \<le> c \<and> c \<le> 0xDFFF then None
          else Some (word_of_int c, mb\<lparr>mb_offset := mb_offset mb + 24\<rparr>))"
        using True 4 False len y q [unfolded One_nat_def] word_of_int_range(1,2) [OF cb]
        by (simp add: erts_bs_get_utf8_def Let_def trailing_values x v [unfolded One_nat_def] del: byte_less_numeral)
      with d False show ?thesis by simp
    next
      case bad: False
      then have "utf8_dec ?s = None" using 4 by (auto simp: utf8_dec_def x_def [symmetric])
      moreover have "erts_bs_get_utf8 mb = None"
        using bad 4 False len y by (auto simp: erts_bs_get_utf8_def Let_def trailing_values x)
      ultimately show ?thesis by simp
    qed
  next
    case 5
    show ?thesis
    proof (cases "3 < length ?s \<and> 128 \<le> uint (?s ! 1) \<and> uint (?s ! 1) < 192 \<and> 128 \<le> uint (?s ! 2) \<and>
        uint (?s ! 2) < 192 \<and> 128 \<le> uint (?s ! 3) \<and> uint (?s ! 3) < 192")
      case True
      define c where "c = (uint x - 240) * 262144 + (uint (?s ! 1) - 128) * 4096 + (uint (?s ! 2) - 128) * 64 +
        (uint (?s ! 3) - 128)"
      define P where "P \<longleftrightarrow> uint x = 240 \<and> uint (?s ! 1) < 144"
      have P: "0x10000 \<le> c \<longleftrightarrow> \<not> P" unfolding c_def P_def using 5 True
        by (subst cp_4_low) auto
      have cb: "0 \<le> c" "c < 2 ^ 32" unfolding c_def using 5 True by auto
      have d: "utf8_dec ?s = (if P \<or> \<not> c < 0x110000 then None else Some (c, 4))"
        using True 5 unfolding utf8_dec_def Let_def x_def [symmetric] c_def [symmetric] P by simp
      have v: "push_bit 6 (push_bit 6 (push_bit 6 (ucast x :: Uint) + ucast (?s ! 1)) + ucast (?s ! 2)) +
          ucast (?s ! 3) - 0x3C82080 = word_of_int c"
        unfolding c_def by (rule code_value)
      have q: "(ucast x :: Uint) = 0xF0 \<and> ?s ! 1 < 0x90 \<longleftrightarrow> P"
        by (simp only: P_def ucast_byte_eq_numeral byte_less_numeral)
      have "erts_bs_get_utf8 mb = (if P \<or> \<not> c < 0x110000 then None
          else Some (word_of_int c, mb\<lparr>mb_offset := mb_offset mb + 32\<rparr>))"
        using True 5 False len y q word_of_int_range(3) [OF cb]
        by (simp add: erts_bs_get_utf8_def Let_def trailing_values x v [unfolded One_nat_def] del: byte_less_numeral)
      with d False show ?thesis by simp
    next
      case bad: False
      then have "utf8_dec ?s = None" using 5 by (auto simp: utf8_dec_def x_def [symmetric])
      moreover have "erts_bs_get_utf8 mb = None"
        using bad 5 False len y by (auto simp: erts_bs_get_utf8_def Let_def trailing_values x)
      ultimately show ?thesis by simp
    qed
  next
    case 6
    then show ?thesis using False len
      by (simp add: erts_bs_get_utf8_def Let_def trailing_values x utf8_dec_def x_def [symmetric])
  qed
qed

subsection \<open>Latin-1, UTF-16 and the binary syntax\<close>

lemma mb_bytes_at:
  assumes "bs \<noteq> []"
  shows "\<exists>more. mb_bytes \<lparr>mb_bits = pre @ bytes_bits bs @ r, mb_offset = length pre\<rparr> = bs @ more"
proof -
  let ?mb = "\<lparr>mb_bits = pre @ bytes_bits bs @ r, mb_offset = length pre\<rparr>"
  let ?n = "length bs + length r div 8"
  have "mb_bytes ?mb = map (mb_byte ?mb) ([0..<length bs] @ [length bs..<?n])"
    by (simp add: mb_bytes_def upt_add_eq_append [symmetric])
  moreover have "map (mb_byte ?mb) [0..<length bs] = bs"
    by (rule nth_equalityI) (simp_all add: mb_byte_bits)
  ultimately show ?thesis by simp
qed

lemma latin1_char_enc: "latin1_char b = utf8_enc (uint b)"
  by (rule byte_all) code_simp

lemma latin1_decode: "128 \<le> uint b \<Longrightarrow> \<exists>x y. latin1_char b = [x, y] \<and> x AND 0x80 \<noteq> 0 \<and> push_bit 6 x OR (y AND 0x3F) = b"
proof -
  have "uint b < 128 \<or> (case latin1_char b of [x, y] \<Rightarrow> x AND 0x80 \<noteq> 0 \<and> push_bit 6 x OR (y AND 0x3F) = b | _ \<Rightarrow> False)"
    by (rule byte_all) code_simp
  then show "128 \<le> uint b \<Longrightarrow> ?thesis" by (auto split: list.splits)
qed

lemma latin1_to_utf8_concat: "latin1_to_utf8 s = concat (map latin1_char s)"
proof -
  have a: "concat (map latin1_char t) = t" if "list_all (\<lambda>b. b AND 0x80 = 0) t" for t
    using that by (induction t) (auto simp: latin1_char_def)
  let ?p = "takeWhile (\<lambda>b. b AND 0x80 = 0) s"
  have "list_all (\<lambda>b. b AND 0x80 = 0) ?p" by (auto simp: list_all_iff dest: set_takeWhileD)
  moreover have "s = ?p @ drop (length ?p) s" by (metis takeWhile_dropWhile_id dropWhile_eq_drop)
  then have "concat (map latin1_char s) = concat (map latin1_char ?p) @ concat (map latin1_char (drop (length ?p) s))"
    by (metis concat_append map_append)
  ultimately have "concat (map latin1_char s) = ?p @ concat (map latin1_char (drop (length ?p) s))"
    by (simp only: a)
  with a [of s] show ?thesis unfolding latin1_to_utf8_def Let_def by presburger
qed

lemma latin1_utf8_text: "latin1_to_utf8 s = utf8_text (map uint s)"
  by (simp add: latin1_to_utf8_concat utf8_text_def comp_def flip: latin1_char_enc)

lemma word16_get_put:
  assumes "i + 1 < length bs" "[bs ! i, bs ! (i + 1)] = word16_bytes little w"
  shows "mb_word16 \<lparr>mb_bits = pre @ bytes_bits bs @ r, mb_offset = length pre\<rparr> little i = w"
proof -
  let ?mb = "\<lparr>mb_bits = pre @ bytes_bits bs @ r, mb_offset = length pre\<rparr>"
  have "mb_byte ?mb i = bs ! i" "mb_byte ?mb (i + 1) = bs ! (i + 1)"
    using mb_byte_bits [of i bs] mb_byte_bits [of "i + 1" bs] assms(1) by simp_all
  moreover have "(ucast (ucast w :: byte) :: Uint16) OR push_bit 8 (ucast (ucast (drop_bit 8 w) :: byte)) = w"
    "push_bit 8 (ucast (ucast (drop_bit 8 w) :: byte)) OR (ucast (ucast w :: byte) :: Uint16) = w"
    by (rule bit_word_eqI; auto simp: bit_simps)+
  ultimately show ?thesis using assms(2) by (auto simp: mb_word16_def word16_bytes_def)
qed


lemma and_3FF: "uint (w AND 0x3FF) = uint (w :: Uint16) mod 1024" "uint (v AND 0x3FF) = uint (v :: Uint) mod 1024"
proof -
  have "(0x3FF :: Uint16) = mask 10" "(0x3FF :: Uint) = mask 10" by (simp_all add: mask_eq_exp_minus_1)
  then show "uint (w AND 0x3FF) = uint w mod 1024" "uint (v AND 0x3FF) = uint v mod 1024"
    using uint_and_mask [of w 10] uint_and_mask [of v 10] by (simp_all only:) simp_all
qed

lemma uint_ucast_small: "0 \<le> p \<Longrightarrow> p < 2 ^ 16 \<Longrightarrow> uint (ucast (word_of_int p :: Uint) :: Uint16) = p"
  by (simp add: unsigned_ucast_eq uint_word_of_int_small take_bit_int_eq_self)

lemma surrogates:
  fixes v :: Uint
  assumes "uint v < 0x100000"
  defines "w1 \<equiv> ucast (0xD800 OR drop_bit 10 v) :: Uint16" and "w2 \<equiv> ucast (0xDC00 OR (v AND 0x3FF)) :: Uint16"
  shows "uint w1 = 0xD800 + uint v div 1024" and "uint w2 = 0xDC00 + uint v mod 1024"
    and "push_bit 10 (ucast (w1 AND 0x3FF)) OR ucast (w2 AND 0x3FF) = v"
proof -
  have v0: "0 \<le> uint v" by simp
  have d: "uint (drop_bit 10 v) = uint v div 1024" using uint_drop [of 10 v] by simp
  have b: "uint v div 1024 < 1024" using assms(1) by linarith
  have p: "0xD800 = push_bit 10 (54 :: Uint)" "0xDC00 = push_bit 10 (55 :: Uint)" by code_simp+
  have "0xD800 OR drop_bit 10 v = word_of_int (0xD800 + uint v div 1024)"
    unfolding p using push_or [of "drop_bit 10 v" 10 54] d b by simp
  then show 1: "uint w1 = 0xD800 + uint v div 1024"
    unfolding w1_def using b v0 by (intro trans [OF arg_cong [where f = "\<lambda>w. uint (ucast w :: Uint16)"] uint_ucast_small])
       (simp_all add: pos_imp_zdiv_nonneg_iff)
  have "0xDC00 OR (v AND 0x3FF) = word_of_int (0xDC00 + uint v mod 1024)"
    unfolding p using push_or [of "v AND 0x3FF" 10 55] and_3FF(2) [of v] by simp
  moreover have "uint v mod 1024 < 1024" "0 \<le> uint v mod 1024" by simp_all
  ultimately show 2: "uint w2 = 0xDC00 + uint v mod 1024"
    unfolding w2_def by (intro trans [OF arg_cong [where f = "\<lambda>w. uint (ucast w :: Uint16)"] uint_ucast_small]) simp_all
  have "uint (w1 AND 0x3FF) = uint v div 1024" "uint (w2 AND 0x3FF) = uint v mod 1024"
    using mod_mult_self4 [of 1024 54 "uint v div 1024"] mod_mult_self4 [of 1024 55 "uint v mod 1024"] b v0
    by (simp_all add: and_3FF 1 2 pos_imp_zdiv_nonneg_iff)
  then have "(ucast (w1 AND 0x3FF) :: Uint) = word_of_int (uint v div 1024)"
    "(ucast (w2 AND 0x3FF) :: Uint) = word_of_int (uint v mod 1024)" by (simp_all add: ucast_eq)
  then show "push_bit 10 (ucast (w1 AND 0x3FF)) OR ucast (w2 AND 0x3FF) = v"
    using push_or_value [of "uint v div 1024" "uint v mod 1024" 10] b v0
    by (simp add: pos_imp_zdiv_nonneg_iff)
qed

lemma put_get_utf16_small:
  fixes val :: Uint
  assumes ok: "\<not> (val > 0x10FFFF \<or> (0xD800 \<le> val \<and> val \<le> 0xDFFF))" and small: "val < 0x10000"
  shows "\<exists>out. erts_bs_put_utf16 val little bin = Some out \<and>
    erts_bs_get_utf16 \<lparr>mb_bits = out @ rest, mb_offset = length bin\<rparr> little =
      Some (val, \<lparr>mb_bits = out @ rest, mb_offset = length out\<rparr>)"
proof -
  let ?mb = "\<lambda>bs. \<lparr>mb_bits = bin @ bytes_bits bs @ rest, mb_offset = length bin\<rparr>"
  define w where "w = (ucast val :: Uint16)"
  have u: "uint w = uint val" using small
    by (simp add: w_def unsigned_ucast_eq take_bit_int_eq_self word_less_def)
  have v: "ucast w = val" using u by (simp add: ucast_eq)
  have g: "mb_word16 (?mb (word16_bytes little w)) little 0 = w"
    by (rule word16_get_put) (simp_all add: word16_bytes_def)
  have s: "w < 0xD800 \<or> w > 0xDFFF" using ok u by (auto simp: word_less_def word_le_def)
  have "length (word16_bytes little w) = 2" by (simp add: word16_bytes_def)
  with g s ok v small show ?thesis
    by (simp add: erts_bs_put_utf16_def erts_bs_get_utf16_def bytes_bits_def [symmetric] w_def [symmetric])
qed

lemma put_get_utf16_big:
  fixes val :: Uint
  assumes ok: "\<not> (val > 0x10FFFF \<or> (0xD800 \<le> val \<and> val \<le> 0xDFFF))" and big: "\<not> val < 0x10000"
  shows "\<exists>out. erts_bs_put_utf16 val little bin = Some out \<and>
    erts_bs_get_utf16 \<lparr>mb_bits = out @ rest, mb_offset = length bin\<rparr> little =
      Some (val, \<lparr>mb_bits = out @ rest, mb_offset = length out\<rparr>)"
proof -
  let ?mb = "\<lambda>bs. \<lparr>mb_bits = bin @ bytes_bits bs @ rest, mb_offset = length bin\<rparr>"
  define v where "v = val - 0x10000"
  have v: "uint v = uint val - 0x10000" "uint v < 0x100000" 
  proof -
    have "uint (0x10000 :: Uint) \<le> uint val" using big by (simp add: word_less_def)
    then have "uint (val - 0x10000) = uint val - uint (0x10000 :: Uint)" by (simp only: uint_sub_if' if_True)
    then show "uint v = uint val - 0x10000" by (simp add: v_def)
    with ok show "uint v < 0x100000" by (simp add: word_less_def)
  qed
  define w1 w2 where "w1 = (ucast (0xD800 OR drop_bit 10 v) :: Uint16)" and "w2 = (ucast (0xDC00 OR (v AND 0x3FF)) :: Uint16)"
  note s = surrogates [OF v(2), folded w1_def w2_def]
  let ?bs = "word16_bytes little w1 @ word16_bytes little w2"
  have g: "mb_word16 (?mb ?bs) little 0 = w1" "mb_word16 (?mb ?bs) little 2 = w2"
    by (rule word16_get_put; simp add: word16_bytes_def)+
  have "uint v div 1024 < 1024" "0 \<le> uint v div 1024" "uint v mod 1024 < 1024" "0 \<le> uint v mod 1024"
    using v(2) by (simp_all add: pos_imp_zdiv_nonneg_iff)
  then have r: "\<not> w1 < 0xD800" "\<not> w1 > 0xDBFF" "0xDC00 \<le> w2" "w2 \<le> 0xDFFF" "\<not> w1 > 0xDFFF"
    using s(1,2) by (simp_all add: word_less_def word_le_def)
  have l: "length ?bs = 4" by (simp add: word16_bytes_def)
  have "erts_bs_put_utf16 val little bin = Some (bin @ bytes_bits ?bs)"
    using ok big by (simp add: erts_bs_put_utf16_def bytes_bits_def Let_def v_def w1_def w2_def)
  moreover have "erts_bs_get_utf16 (?mb ?bs) little = Some (v + 0x10000, (?mb ?bs)\<lparr>mb_offset := length bin + 32\<rparr>)"
    using g r l s(3) by (simp add: erts_bs_get_utf16_def Let_def del: bytes_bits_simps)
  ultimately show ?thesis using l by (simp add: v_def del: bytes_bits_simps)
qed

lemma word_and_63: "(word_of_int v :: byte) AND 0x3F = word_of_int (v mod 64)"
  by (simp add: of_int_and_eq flip: and_63)

lemma byte_marks:
  fixes p :: int
  assumes "0 \<le> p"
  shows "p < 32 \<Longrightarrow> (word_of_int p :: byte) OR 0xC0 = word_of_int (192 + p)"
    and "p < 16 \<Longrightarrow> (word_of_int p :: byte) OR 0xE0 = word_of_int (224 + p)"
    and "p < 8 \<Longrightarrow> (word_of_int p :: byte) OR 0xF0 = word_of_int (240 + p)"
    and "p < 64 \<Longrightarrow> (word_of_int p :: byte) OR 0x80 = word_of_int (128 + p)"
  using byte_or(1,3,5,7) [of "word_of_int p"] assms by (simp_all add: uint_word_of_int_small)

lemma ucast_parts:
  fixes x :: Uint
  shows "uint (drop_bit 6 x) = uint x div 64" "uint (drop_bit 12 x) = uint x div 4096"
    "uint (drop_bit 18 x) = uint x div 262144" "uint (x AND 0x3F) = uint x mod 64"
    "ucast x = (word_of_int (uint x) :: byte)"
proof -
  show "uint (drop_bit 6 x) = uint x div 64" "uint (drop_bit 12 x) = uint x div 4096" "uint (drop_bit 18 x) = uint x div 262144"
    using uint_drop [of 6 x] uint_drop [of 12 x] uint_drop [of 18 x] by simp_all
  show "ucast x = (word_of_int (uint x) :: byte)" by (simp only: ucast_eq)
  have "(0x3F :: Uint) = mask 6" by (simp add: mask_eq_exp_minus_1)
  then show "uint (x AND 0x3F) = uint x mod 64" using uint_and_mask [of x 6] by (simp only:) simp
qed

lemma build_utf8_char_enc:
  "build_utf8_char latin1 x =
     (if valid_cp (uint x) \<and> (latin1 \<longrightarrow> uint x < 256) then Some (utf8_enc (uint x)) else None)"
proof -
  define v where "v = uint x"
  have v0: "0 \<le> v" by (simp add: v_def)
  have m: "0 \<le> z mod 64" "z mod 64 < 64" for z :: int by simp_all
  have d: "0 \<le> v div 64" "0 \<le> v div 4096" "0 \<le> v div 262144"
    using v0 by (simp_all add: pos_imp_zdiv_nonneg_iff)
  have b: "v < 0x800 \<Longrightarrow> v div 64 < 32" "v < 0x10000 \<Longrightarrow> v div 4096 < 16" "v < 0x110000 \<Longrightarrow> v div 262144 < 8" 
    by linarith+
  have "255 < v \<longleftrightarrow> \<not> v < 256" by linarith
  then show ?thesis
    unfolding build_utf8_char_def word_less_def word_le_def ucast_parts v_def [symmetric] word_and_63
      valid_cp_def utf8_enc_def utf8_values_def
    using v0 m d b by (simp add: byte_marks)
qed

lemma utf8_len_enc:
  assumes "valid_cp c"
  shows "utf8_len ((utf8_enc c @ r) ! 0) = int (length (utf8_enc c))"
  using assms
proof (cases rule: enc_bytes)
  case (one a)
  then show ?thesis by (simp add: utf8_len_def del: length_utf8_enc)
next
  case (two a b p q)
  then show ?thesis by (simp add: utf8_len_def del: length_utf8_enc)
next
  case (three a b d p q r)
  then show ?thesis by (simp add: utf8_len_def del: length_utf8_enc)
next
  case (four a b d e p q r t)
  then show ?thesis by (simp add: utf8_len_def del: length_utf8_enc)
qed

lemma low_two_bytes:
  fixes u :: Uint
  assumes "u = word_of_int c" "valid_cp c"
  shows "(ucast (u AND 0xFF) :: byte) = word_of_int c" "(ucast (drop_bit 8 u AND 0xFF) :: byte) = word_of_int (c div 256)"
proof -
  have u: "uint u = c" using assms by (simp add: valid_cp_def uint_word_of_int_small)
  have m: "(0xFF :: Uint) = mask 8" by (simp add: mask_eq_exp_minus_1)
  have w: "(word_of_int (v mod 256) :: byte) = word_of_int v" for v
    by (simp add: word_uint_eq_iff uint_word_of_int)
  have "uint (u AND 0xFF) = c mod 256" "uint (drop_bit 8 u AND 0xFF) = c div 256 mod 256"
    unfolding m uint_and_mask uint_drop u by simp_all
  then show "(ucast (u AND 0xFF) :: byte) = word_of_int c" "(ucast (drop_bit 8 u AND 0xFF) :: byte) = word_of_int (c div 256)"
    by (simp_all only: ucast_eq w)
qed

text \<open>
  The two bytes of each character are the low 16 bits of its code point: above 0xFFFF there is
  no surrogate pair, and what is written is the name of another character.
\<close>

lemma utf16_little_truncates:
  assumes "list_all valid_cp cs"
  shows "erts_copy_utf8_to_utf16_little (utf8_text cs @ r) (length cs) =
    Inr (concat (map (\<lambda>c. [word_of_int c, word_of_int (c div 256)]) cs))"
  using assms
proof (induction cs)
  case (Cons c cs)
  have c: "valid_cp c" using Cons.prems by simp
  show ?case
    using Cons unipoint_enc [OF c, of "utf8_text cs @ r"] utf8_len_enc [OF c, of "utf8_text cs @ r"]
      low_two_bytes [OF refl c] by (simp del: length_utf8_enc)
qed simp

lemma utf16_little_confuses:
  "erts_copy_utf8_to_utf16_little (utf8_text [0x10041]) 1 = erts_copy_utf8_to_utf16_little (utf8_text [0x41]) 1"
  using utf16_little_truncates [of "[0x10041]" "[]"] utf16_little_truncates [of "[0x41]" "[]"]
  by (simp add: valid_cp_def)

subsection \<open>Properties\<close>



text \<open>
  C14: the encoding of any list of valid code points is accepted, with the right number of characters,
  and do\_utf8\_to\_list, which scans it from the end, gives the code points back; with a smaller
  \<open>num\<close> it gives the last \<open>num\<close> of them and eats exactly their bytes.
\<close>

theorem utf8_text_round_trip:
  assumes "list_all valid_cp cs" and "1 \<le> num" and "num \<le> length cs" and "num \<le> left"
  shows "erts_analyze_utf8_x (utf8_text cs) None 0 =
           (ERTS_UTF8_OK, length (utf8_text cs), length cs, None,
            Some (if list_all (\<lambda>c. c < 256) cs then int (length cs) else - 1)) \<and>
         do_utf8_to_list num (utf8_text cs) left tail =
           (map word_of_int (drop (length cs - num) cs) @ tail, num,
            int (length (utf8_text (drop (length cs - num) cs))))"
proof
  have "filter (\<lambda>c. c < 0x800) cs = cs" if "list_all (\<lambda>c. c < 256) cs"
    using that by (induction cs) auto
  with analyze_loop_text [OF assms(1)] show "erts_analyze_utf8_x (utf8_text cs) None 0 =
           (ERTS_UTF8_OK, length (utf8_text cs), length cs, None,
            Some (if list_all (\<lambda>c. c < 256) cs then int (length cs) else - 1))"
    by (simp add: erts_analyze_utf8_x_def)
  let ?k = "length cs - num"
  have "utf8_text cs = utf8_text (take ?k cs) @ utf8_text (drop ?k cs)"
    by (simp flip: utf8_text_simps(3))
  then have "length (utf8_text cs) = length (utf8_text (take ?k cs)) + length (utf8_text (drop ?k cs))"
    by simp
  with utf8_list_loop_text [OF assms(1-3), of "[]" tail] assms(4)
  show "do_utf8_to_list num (utf8_text cs) left tail =
           (map word_of_int (drop ?k cs) @ tail, num, int (length (utf8_text (drop ?k cs))))"
    by (simp add: do_utf8_to_list_def)
qed

theorem utf8_text_round_trip_witness:
  "fst (do_utf8_to_list 2 (utf8_text [0x61, 0xE5, 0x20AC]) 10 []) = [0xE5, 0x20AC]"
  using utf8_text_round_trip [of "[0x61, 0xE5, 0x20AC]" 2 10 "[]"] by (simp add: valid_cp_def)

text \<open>
  A valid text split into two binaries anywhere, also inside a character, is copied as if it
  were whole: copy\_utf8\_bin keeps the bytes of a character cut in two as leftovers and completes
  it from the next binary, and nothing is lost or counted twice.
\<close>

theorem copy_utf8_chunks:
  assumes "list_all valid_cp cs" and "utf8_text cs = a @ b"
  shows "case copy_utf8_bin a [] 0 of (out1, lo1, err1, ch1) \<Rightarrow>
    case copy_utf8_bin b lo1 ch1 of (out2, lo2, err2, ch2) \<Rightarrow>
      err1 = None \<and> err2 = None \<and> lo2 = [] \<and> out1 @ out2 = utf8_text cs \<and> ch2 = length cs"
proof -
  from copy_loop_split [OF assms] obtain ds part where d: "list_all valid_cp ds" "a = utf8_text ds @ part"
    "part = [] \<and> (\<exists>es. cs = ds @ es \<and> b = utf8_text es) \<or>
     (\<exists>c es rest. cs = ds @ c # es \<and> utf8_enc c = part @ rest \<and> part \<noteq> [] \<and> rest \<noteq> [] \<and>
        b = rest @ utf8_text es)" by blast
  show ?thesis using d(3)
  proof (elim disjE conjE exE)
    fix es assume p: "part = []" "cs = ds @ es" "b = utf8_text es"
    have "list_all valid_cp es" using assms(1) p by simp
    with copy_loop_text [OF d(1), of True "[]"] copy_loop_text [of es True "[]"] d p show ?thesis
      by (simp add: copy_utf8_bin_def)
  next
    fix c es rest
    assume p: "cs = ds @ c # es" "utf8_enc c = part @ rest" "part \<noteq> []" "rest \<noteq> []" "b = rest @ utf8_text es"
    have v: "valid_cp c" "list_all valid_cp es" using assms(1) p(1) by simp_all
    have 1: "copy_utf8_bin a [] 0 = (utf8_text ds, part, None, length ds)"
      using copy_loop_text [OF d(1), of True part] copy_char_part [OF v(1) p(2-4)] d(2)
      by (simp add: copy_utf8_bin_def)
    have n: "nat (utf8_len (part ! 0) - int (length part)) = length rest"
      using part_incomplete [OF v(1) p(2-4)] p(2) by (simp del: length_utf8_enc)
    have "copy_loop False (part @ rest) 0 (length ds) = (length (part @ rest), [], False, Suc (length ds))"
      using copy_loop_text [of "[c]" False "[]" 0 "length ds"] v(1) p(2) by (simp del: length_utf8_enc)
    moreover have "copy_loop True (utf8_text es) 0 (Suc (length ds)) =
        (length (utf8_text es), [], False, length cs)"
      using copy_loop_text [OF v(2), of True "[]"] p(1) by simp
    ultimately have "copy_utf8_bin b part (length ds) = (part @ rest @ utf8_text es, [], None, length cs)"
      using p(3,5) n by (simp add: copy_utf8_bin_def Let_def)
    with 1 p show ?thesis by simp
  qed
qed

theorem copy_utf8_chunks_witness:
  "copy_utf8_bin [0xAC] (fst (snd (copy_utf8_bin [0x61, 0xE2, 0x82] [] 0))) 1 = ([0xE2, 0x82, 0xAC], [], None, 2)"
proof -
  have t: "utf8_text [0x61, 0x20AC] = [0x61, 0xE2, 0x82] @ [0xAC]" by code_simp
  have "copy_utf8_bin [0x61, 0xE2, 0x82] [] 0 = ([0x61], [0xE2, 0x82], None, 1)" by code_simp
  with copy_utf8_chunks [OF _ t, unfolded t] show ?thesis by (auto simp: valid_cp_def split: prod.splits)
qed


text \<open>
  The same of erts\_bs\_put\_utf16 and erts\_bs\_get\_utf16, in both byte orders, with a surrogate
  pair for the code points above 0xFFFF.
\<close>

theorem put_get_utf16:
  "case erts_bs_put_utf16 val little bin of
     None \<Rightarrow> \<not> valid_cp (uint val)
   | Some out \<Rightarrow> valid_cp (uint val) \<and>
       erts_bs_get_utf16 \<lparr>mb_bits = out @ rest, mb_offset = length bin\<rparr> little =
         Some (val, \<lparr>mb_bits = out @ rest, mb_offset = length out\<rparr>)"
proof (cases "valid_cp (uint val)")
  case False
  then show ?thesis by (auto simp: erts_bs_put_utf16_def valid_cp_def word_less_def word_le_def)
next
  case True
  then have "\<not> (val > 0x10FFFF \<or> (0xD800 \<le> val \<and> val \<le> 0xDFFF))"
    by (auto simp: valid_cp_def word_less_def word_le_def)
  from put_get_utf16_small [OF this, of little bin rest] put_get_utf16_big [OF this, of little bin rest] True
  show ?thesis by (cases "val < 0x10000") auto
qed

text \<open>
  latin1\_to\_utf8 gives the UTF-8 encoding of the characters of a Latin-1 text, and
  erts\_utf8\_to\_latin1 gives the text back.
\<close>

lemma latin1_round_trip:
  "latin1_to_utf8 s = utf8_text (map uint s) \<and> erts_utf8_to_latin1 (latin1_to_utf8 s) = s"
proof
  show "latin1_to_utf8 s = utf8_text (map uint s)"
    by (rule latin1_utf8_text)
  show "erts_utf8_to_latin1 (latin1_to_utf8 s) = s"
    unfolding latin1_to_utf8_concat
  proof (induction s)
    case (Cons b s)
    show ?case
    proof (cases "uint b < 128")
      case True
      then have "latin1_char b = [b]" by (simp add: latin1_char_def)
      with Cons True show ?thesis by (cases "concat (map latin1_char s)") auto
    next
      case False
      then show ?thesis using latin1_decode [of b] Cons by auto
    qed
  qed simp
qed

end
