(* ===== verification/Atom_Table.thy ===== *)
theory Atom_Table
  imports Index_Table Node_Terms Utf8
begin

section \<open>The atom table: atom.c\<close>

unbundle bit_operations_syntax

text \<open>
  The table of atoms is an index table of names in UTF-8. The name of an atom or of a template is
  the memory from its name pointer on (\<open>a_name\<close>), of which the first \<open>a_len\<close> bytes are
  the name; reading beyond the end of this list is reading memory the caller does not own. The
  state of the callbacks adds to that of the index tables the text segments names are copied to.
  The locks are not modelled: each function is one step.
\<close>

record atom_data =
  a_name :: "byte list"
  a_len :: int
  latin1_chars :: int
  ord0 :: int

record atom_world = index_world +
  text_segments :: nat
  atom_text_pos :: int
  reserved_atom_space :: nat
  atom_space :: int

datatype atom_encoding = ERTS_ATOM_ENC_7BIT_ASCII | ERTS_ATOM_ENC_LATIN1 | ERTS_ATOM_ENC_UTF8

datatype atom_error = Name_overread | Buffer_overflow | Atom_index_error index_error

type_synonym atom_table = "(atom_data, atom_world) index_table"

definition MAX_ATOM_CHARACTERS :: int where "MAX_ATOM_CHARACTERS = 255"
definition MAX_ATOM_SZ_FROM_LATIN1 :: int where "MAX_ATOM_SZ_FROM_LATIN1 = 2 * MAX_ATOM_CHARACTERS"
definition MAX_ATOM_SZ_LIMIT :: int where "MAX_ATOM_SZ_LIMIT = 4 * MAX_ATOM_CHARACTERS"
definition ATOM_TEXT_SIZE :: int where "ATOM_TEXT_SIZE = 32768"
definition ATOM_SIZE :: int where "ATOM_SIZE = 3000"

text \<open>The size of an AtomText: a pointer and the text.\<close>

definition sizeof_AtomText :: nat where
  "sizeof_AtomText = 8 + nat ATOM_TEXT_SIZE"

text \<open>The conversion to the 16 bits of the field len.\<close>

definition sint16 :: "int \<Rightarrow> int" where
  "sint16 x = sint (word_of_int x :: Uint16)"

subsection \<open>The callbacks\<close>

definition more_atom_space :: "atom_world \<Rightarrow> atom_world" where
  "more_atom_space w = w\<lparr>text_segments := Suc (text_segments w), atom_text_pos := 0,
     reserved_atom_space := reserved_atom_space w + sizeof_AtomText\<rparr>"

definition atom_text_alloc :: "int \<Rightarrow> atom_world \<Rightarrow> atom_world" where
  "atom_text_alloc bytes w =
     (let w1 = (if atom_text_pos w + bytes \<ge> ATOM_TEXT_SIZE then more_atom_space w else w)
      in w1\<lparr>atom_text_pos := atom_text_pos w1 + bytes, atom_space := atom_space w1 + bytes\<rparr>)"

text \<open>One step of hashpjw.\<close>

definition hashpjw_step :: "Uint \<Rightarrow> byte \<Rightarrow> Uint" where
  "hashpjw_step h v =
     (let h1 = push_bit 4 h + ucast v; g = h1 AND 0xf0000000
      in if g \<noteq> 0 then (h1 XOR drop_bit 24 g) XOR g else h1)"

text \<open>
  The loop of atom\_hash over the memory from \<open>p\<close> on. It ends when \<open>len\<close> is 0, also if it
  is below that: None means that it reads beyond the memory the caller owns.
\<close>

fun atom_hash_loop :: "byte list \<Rightarrow> int \<Rightarrow> Uint \<Rightarrow> Uint option" where
  "atom_hash_loop p len h =
     (if len = 0 then Some h
      else case p of
        [] \<Rightarrow> None
      | v # q \<Rightarrow>
          if v AND 0xFE = 0xC2 then
            (case q of
               [] \<Rightarrow> None
             | c # r \<Rightarrow>
                 if c AND 0xC0 = 0x80
                 then atom_hash_loop r (len - 2) (hashpjw_step h (push_bit 6 v OR (c AND 0x3F)))
                 else atom_hash_loop q (len - 1) (hashpjw_step h v))
          else atom_hash_loop q (len - 1) (hashpjw_step h v))"

declare atom_hash_loop.simps [simp del]

definition atom_hash :: "atom_data \<Rightarrow> Uint option" where
  "atom_hash obj = atom_hash_loop (a_name obj) (a_len obj) 0"

definition name_of :: "atom_data \<Rightarrow> byte list" where
  "name_of a = take (nat (a_len a)) (a_name a)"

definition atom_cmp :: "atom_data \<Rightarrow> atom_data \<Rightarrow> int" where
  "atom_cmp tmpl obj = (if a_len tmpl = a_len obj \<and> name_of tmpl = name_of obj then 0 else 1)"

definition atom_alloc ::
  "atom_data islot \<Rightarrow> atom_world \<Rightarrow> atom_data islot \<times> atom_world" where
  "atom_alloc tmpl w =
     (let t = slot_data tmpl;
          w1 = atom_text_alloc (a_len t) w
      in (\<lparr>slot_addr = next_slot w1,
           slot_data = \<lparr>a_name = name_of t, a_len = a_len t, latin1_chars = latin1_chars t,
                        ord0 = atom_ord0 (name_of t)\<rparr>\<rparr>,
          w1\<lparr>slot_index := (slot_index w1)(next_slot w1 := - 1), next_slot := Suc (next_slot w1)\<rparr>))"

definition atom_free :: "atom_data islot \<Rightarrow> atom_world \<Rightarrow> atom_world" where
  "atom_free obj w = w"

text \<open>
  The table uses the hash of a name only where atom\_hash does not read too far; it is then the
  hash of the name followed by a zero byte.
\<close>

definition name_hash :: "atom_data \<Rightarrow> Uint" where
  "name_hash a = (case atom_hash_loop (name_of a @ [0]) (a_len a) 0 of Some h \<Rightarrow> h | None \<Rightarrow> 0)"

definition atom_functions :: "(atom_data islot, atom_world) hash_functions" where
  "atom_functions =
     \<lparr>fun_hash = (\<lambda>p. name_hash (slot_data p)),
      fun_cmp = (\<lambda>p q. atom_cmp (slot_data p) (slot_data q)),
      fun_alloc = atom_alloc, fun_free = atom_free\<rparr>"

definition atom_template :: "byte list \<Rightarrow> int \<Rightarrow> int \<Rightarrow> atom_data islot" where
  "atom_template name len latin1 =
     \<lparr>slot_addr = 0, slot_data = \<lparr>a_name = name, a_len = sint16 len, latin1_chars = sint16 latin1, ord0 = 0\<rparr>\<rparr>"

subsection \<open>Looking up and creating atoms\<close>

text \<open>latin1\_to\_utf8 with the buffer \<open>utf8_copy\<close>: the text and its length.\<close>

definition latin1_text :: "byte list \<Rightarrow> int \<Rightarrow> atom_error + byte list \<times> int" where
  "latin1_text src len =
     (let s = take (nat len) src in
      if list_all (\<lambda>b. b AND 0x80 = 0) s then Inr (src, len)
      else let u = latin1_to_utf8 s in
        if int (length u) \<le> MAX_ATOM_SZ_FROM_LATIN1 then Inr (u, int (length u)) else Inl Buffer_overflow)"

text \<open>index\_get and index\_put on the atom table: both hash the template first.\<close>

definition atom_index_get :: "atom_table \<Rightarrow> atom_data islot \<Rightarrow> atom_world \<Rightarrow> atom_error + int" where
  "atom_index_get t tmpl w =
     (if atom_hash (slot_data tmpl) = None then Inl Name_overread else Inr (index_get t tmpl w))"

definition atom_index_put ::
  "atom_table \<Rightarrow> atom_data islot \<Rightarrow> atom_world \<Rightarrow> atom_error + int option \<times> atom_table \<times> atom_world" where
  "atom_index_put t tmpl w =
     (if atom_hash (slot_data tmpl) = None then Inl Name_overread
      else map_sum Atom_index_error (\<lambda>(i, r). (Some i, r)) (index_put t tmpl w))"

text \<open>The switch at the head of erts\_atom\_put: text, tlen and no\_latin1\_chars, None to fail.\<close>

definition atom_text ::
  "byte list \<Rightarrow> int \<Rightarrow> atom_encoding \<Rightarrow> bool \<Rightarrow> atom_error + (byte list \<times> int \<times> int) option" where
  "atom_text name len enc trunc =
     (if len < 0 \<and> \<not> trunc then Inr None
      else let tlen = (if len < 0 then 0 else len);
               cut = (if tlen > MAX_ATOM_CHARACTERS then MAX_ATOM_CHARACTERS else tlen) in
        case enc of
          ERTS_ATOM_ENC_7BIT_ASCII \<Rightarrow>
            if tlen > MAX_ATOM_CHARACTERS \<and> \<not> trunc then Inr None else Inr (Some (name, cut, cut))
        | ERTS_ATOM_ENC_LATIN1 \<Rightarrow>
            if tlen > MAX_ATOM_CHARACTERS \<and> \<not> trunc then Inr None
            else map_sum id (\<lambda>(text, n). Some (text, n, cut)) (latin1_text name cut)
        | ERTS_ATOM_ENC_UTF8 \<Rightarrow>
            if tlen > MAX_ATOM_SZ_LIMIT \<and> \<not> trunc then Inr None else Inr (Some (name, tlen, 0)))"

text \<open>The switch over erts\_analyze\_utf8\_x: tlen and no\_latin1\_chars.\<close>

definition verify_utf8 :: "byte list \<Rightarrow> int \<Rightarrow> bool \<Rightarrow> (int \<times> int) option" where
  "verify_utf8 text tlen trunc =
     (case erts_analyze_utf8_x (take (nat tlen) text) None (nat MAX_ATOM_CHARACTERS) of
        (ERTS_UTF8_OK, _, _, _, latin1) \<Rightarrow> Some (tlen, case latin1 of Some n \<Rightarrow> n | None \<Rightarrow> 0)
      | (ERTS_UTF8_OK_MAX_CHARS, pos, _, _, _) \<Rightarrow> if trunc then Some (int pos, 0) else None
      | _ \<Rightarrow> None)"

text \<open>
  The result Some is the index that make\_atom tags, None is THE\_NON\_VALUE. After a truncation
  no\_latin1\_chars is not set; the model has 0 there.
\<close>

definition erts_atom_put ::
  "atom_table \<Rightarrow> byte list \<Rightarrow> int \<Rightarrow> atom_encoding \<Rightarrow> bool \<Rightarrow> atom_world \<Rightarrow>
   atom_error + int option \<times> atom_table \<times> atom_world" where
  "erts_atom_put t name len enc trunc w =
     (case atom_text name len enc trunc of
        Inl e \<Rightarrow> Inl e
      | Inr None \<Rightarrow> Inr (None, t, w)
      | Inr (Some (text, tlen, no_latin1_chars)) \<Rightarrow>
          (case atom_index_get t (atom_template text tlen 0) w of
             Inl e \<Rightarrow> Inl e
           | Inr aix \<Rightarrow>
               if aix \<ge> 0 then Inr (Some aix, t, w)
               else if enc = ERTS_ATOM_ENC_UTF8 then
                 (case verify_utf8 text tlen trunc of
                    None \<Rightarrow> Inr (None, t, w)
                  | Some (tlen', latin1) \<Rightarrow> atom_index_put t (atom_template text tlen' latin1) w)
               else atom_index_put t (atom_template text tlen no_latin1_chars) w))"

definition am_atom_put ::
  "atom_table \<Rightarrow> byte list \<Rightarrow> int \<Rightarrow> atom_world \<Rightarrow> atom_error + int option \<times> atom_table \<times> atom_world" where
  "am_atom_put t name len w = erts_atom_put t name len ERTS_ATOM_ENC_7BIT_ASCII True w"

definition erts_atom_get ::
  "atom_table \<Rightarrow> byte list \<Rightarrow> int \<Rightarrow> atom_encoding \<Rightarrow> atom_world \<Rightarrow> atom_error + int option" where
  "erts_atom_get t name len enc w =
     (case (if enc = ERTS_ATOM_ENC_LATIN1 then latin1_text name len else Inr (name, len)) of
        Inl e \<Rightarrow> Inl e
      | Inr (text, n) \<Rightarrow>
          map_sum id (\<lambda>i. if i < 0 then None else Some i) (atom_index_get t (atom_template text n 0) w))"

definition atom_table_size :: "atom_table \<Rightarrow> int" where
  "atom_table_size t = t_entries t"

definition erts_atom_get_text_space_sizes :: "atom_world \<Rightarrow> nat \<times> int" where
  "erts_atom_get_text_space_sizes w = (reserved_atom_space w, atom_space w)"

definition atom_tab :: "atom_table \<Rightarrow> nat \<Rightarrow> atom_data option" where
  "atom_tab t i = map_option slot_data (erts_index_lookup t i)"

text \<open>The name of an atom of the table against a text; the term is the index of an atom.\<close>

definition erts_is_atom_utf8_bytes :: "atom_table \<Rightarrow> byte list \<Rightarrow> nat \<Rightarrow> bool" where
  "erts_is_atom_utf8_bytes t text i =
     (case atom_tab t i of None \<Rightarrow> False | Some a \<Rightarrow> int (length text) = a_len a \<and> name_of a = text)"

text \<open>The ordinary atoms, whose names are static strings: the text space is given back.\<close>

fun put_ordinary_atoms ::
  "byte list list \<Rightarrow> atom_table \<Rightarrow> atom_world \<Rightarrow> atom_error + atom_table \<times> atom_world" where
  "put_ordinary_atoms [] t w = Inr (t, w)"
| "put_ordinary_atoms (name # names) t w =
     (case atom_index_put t (atom_template name (int (length name)) (int (length name))) w of
        Inl e \<Rightarrow> Inl e
      | Inr (_, t', w') \<Rightarrow>
          put_ordinary_atoms names t'
            (w'\<lparr>atom_text_pos := atom_text_pos w' - int (length name),
                atom_space := atom_space w' - int (length name)\<rparr>))"

definition init_atom_world :: atom_world where
  "init_atom_world = \<lparr>slot_index = (\<lambda>_. 0), next_slot = 1, text_segments = 0, atom_text_pos = 0,
     reserved_atom_space = 0, atom_space = 0\<rparr>"

definition init_atom_table :: "byte list list \<Rightarrow> int \<Rightarrow> atom_error + atom_table \<times> atom_world" where
  "init_atom_table erl_atom_names erts_atom_table_size =
     (case erts_index_init ATOM_SIZE erts_atom_table_size atom_functions of
        Inl e \<Rightarrow> Inl (Atom_index_error e)
      | Inr t \<Rightarrow> put_ordinary_atoms erl_atom_names t (more_atom_space init_atom_world))"

subsection \<open>binary\_to\_atom: erl\_unicode.c\<close>

datatype atom_result = Atom_term int | Badarg | System_limit

datatype scan_result = Scan_done | Scan_bad | Scan_too_long

text \<open>The loop over UTF-8 text, which allows the Latin-1 characters only.\<close>

fun scan_atom_text :: "byte list \<Rightarrow> nat \<Rightarrow> scan_result" where
  "scan_atom_text [] num_chars = Scan_done"
| "scan_atom_text (p # ps) num_chars =
     (if int (Suc num_chars) > MAX_ATOM_CHARACTERS then Scan_too_long
      else if p AND 0x80 = 0 then scan_atom_text ps (Suc num_chars)
      else case ps of
        [] \<Rightarrow> Scan_bad
      | c # cs \<Rightarrow>
          if p AND 0xFE = 0xC2 \<and> c AND 0xC0 = 0x80 then scan_atom_text cs (Suc num_chars) else Scan_bad)"

definition put_or_get ::
  "atom_table \<Rightarrow> byte list \<Rightarrow> byte list \<Rightarrow> atom_encoding \<Rightarrow> bool \<Rightarrow> atom_world \<Rightarrow>
   atom_error + atom_result \<times> atom_table \<times> atom_world" where
  "put_or_get t bytes beyond enc must_exist w =
     (if must_exist
      then map_sum id (\<lambda>r. (case r of None \<Rightarrow> Badarg | Some i \<Rightarrow> Atom_term i, t, w))
             (erts_atom_get t (bytes @ beyond) (int (length bytes)) enc w)
      else map_sum id (\<lambda>(r, tw). (case r of None \<Rightarrow> Badarg | Some i \<Rightarrow> Atom_term i, tw))
             (erts_atom_put t (bytes @ beyond) (int (length bytes)) enc False w))"

text \<open>
  The encoding is Some ERTS\_ATOM\_ENC\_LATIN1 for latin1, Some ERTS\_ATOM\_ENC\_UTF8 for utf8 and
  unicode, None for other terms; \<open>beyond\<close> is the memory behind the binary.
\<close>

definition binary_to_atom ::
  "atom_table \<Rightarrow> byte list \<Rightarrow> byte list \<Rightarrow> atom_encoding option \<Rightarrow> bool \<Rightarrow> atom_world \<Rightarrow>
   atom_error + atom_result \<times> atom_table \<times> atom_world" where
  "binary_to_atom t bytes beyond enc must_exist w =
     (case enc of
        Some ERTS_ATOM_ENC_LATIN1 \<Rightarrow>
          if int (length bytes) > MAX_ATOM_CHARACTERS then Inr (System_limit, t, w)
          else put_or_get t bytes beyond ERTS_ATOM_ENC_LATIN1 must_exist w
      | Some ERTS_ATOM_ENC_UTF8 \<Rightarrow>
          (case scan_atom_text bytes 0 of
             Scan_too_long \<Rightarrow> Inr (System_limit, t, w)
           | Scan_bad \<Rightarrow> Inr (Badarg, t, w)
           | Scan_done \<Rightarrow> put_or_get t bytes beyond ERTS_ATOM_ENC_UTF8 must_exist w)
      | _ \<Rightarrow> Inr (Badarg, t, w))"

subsection \<open>The hash value of a name\<close>

text \<open>What one character adds: a Latin-1 character counts as one byte, others as their encoding.\<close>

definition char_hash :: "int \<Rightarrow> Uint \<Rightarrow> Uint" where
  "char_hash c h = (if c < 256 then hashpjw_step h (word_of_int c) else fold (\<lambda>b h. hashpjw_step h b) (utf8_enc c) h)"

lemma hash_other:
  "n \<noteq> 0 \<Longrightarrow> v AND 0xFE \<noteq> 0xC2 \<Longrightarrow> atom_hash_loop (v # q) n h = atom_hash_loop q (n - 1) (hashpjw_step h v)"
  by (subst atom_hash_loop.simps) (simp del: byte_and)

lemma hash_clutch:
  "n \<noteq> 0 \<Longrightarrow> v AND 0xFE = 0xC2 \<Longrightarrow> c AND 0xC0 = 0x80 \<Longrightarrow>
   atom_hash_loop (v # c # q) n h = atom_hash_loop q (n - 2) (hashpjw_step h (push_bit 6 v OR (c AND 0x3F)))"
  by (subst atom_hash_loop.simps) simp

lemma hash_stop [simp]: "atom_hash_loop p 0 h = Some h"
  by (subst atom_hash_loop.simps) simp

lemma hash_enc:
  assumes "valid_cp c" and "0 \<le> n"
  shows "atom_hash_loop (utf8_enc c @ r) (int (length (utf8_enc c)) + n) h = atom_hash_loop r n (char_hash c h)"
  using assms(1)
proof (cases rule: enc_bytes)
  case (one a)
  then have "a = word_of_int c" by (metis word_of_int_uint)
  with one assms(2) show ?thesis by (simp add: hash_other char_hash_def del: length_utf8_enc)
next
  case (two a b p q)
  show ?thesis
  proof (cases "c < 256")
    case True
    then have p: "p < 4" using two by linarith
    have c: "0 \<le> c" using two by linarith
    with True have u: "uint (word_of_int c :: byte) = c" by (simp add: uint_word_of_int_small)
    have "latin1_char (word_of_int c) = [a, b]" using latin1_char_enc [of "word_of_int c"] u two by simp
    moreover have "128 \<le> uint (word_of_int c :: byte)" using two u by linarith
    ultimately have "push_bit 6 a OR (b AND 0x3F) = word_of_int c"
      using latin1_decode [of "word_of_int c"] by auto
    with two p True assms(2) show ?thesis by (simp add: hash_clutch char_hash_def del: length_utf8_enc)
  next
    case False
    then have "4 \<le> p" using two by linarith
    with two False assms(2) show ?thesis by (simp add: hash_other char_hash_def del: length_utf8_enc)
  qed
next
  case (three a b d p q r')
  with assms(2) show ?thesis by (simp add: hash_other char_hash_def del: length_utf8_enc)
next
  case (four a b d e p q r' t)
  with assms(2) show ?thesis by (simp add: hash_other char_hash_def del: length_utf8_enc)
qed

lemma hash_text:
  assumes "list_all valid_cp cs" and "0 \<le> n"
  shows "atom_hash_loop (utf8_text cs @ r) (int (length (utf8_text cs)) + n) h = atom_hash_loop r n (fold char_hash cs h)"
  using assms
proof (induction cs arbitrary: h)
  case (Cons c cs)
  then have "valid_cp c" "0 \<le> int (length (utf8_text cs)) + n" by simp_all
  from hash_enc [OF this, of "utf8_text cs @ r" h] Cons show ?case
    by (simp add: add.assoc del: length_utf8_enc)
qed simp

subsection \<open>Verification of UTF-8 names\<close>

lemma text_prefix:
  assumes "list_all valid_cp cs" and "list_all valid_cp ds" and "utf8_text cs @ r = utf8_text ds"
  shows "cs = take (length cs) ds \<and> r = utf8_text (drop (length cs) ds)"
  using assms
proof (induction cs arbitrary: ds)
  case (Cons c cs)
  have c: "valid_cp c" using Cons.prems(1) by simp
  have "utf8_enc c \<noteq> []" using valid_text_starts by blast
  with Cons.prems(3) obtain d ds' where ds: "ds = d # ds'" by (cases ds) auto
  have d: "valid_cp d" using Cons.prems(2) ds by simp
  have e: "utf8_enc c @ (utf8_text cs @ r) = utf8_enc d @ utf8_text ds'" using Cons.prems(3) ds by simp
  have "Some (c, length (utf8_enc c)) = Some (d, length (utf8_enc d))"
    using dec_complete [OF c, of "utf8_text cs @ r"] dec_complete [OF d, of "utf8_text ds'"] unfolding e by metis
  then have "c = d" by simp
  with e Cons ds show ?case by auto
qed simp

lemma utf8_text_inj:
  "list_all valid_cp cs \<Longrightarrow> list_all valid_cp ds \<Longrightarrow> utf8_text cs = utf8_text ds \<Longrightarrow> cs = ds"
  using text_prefix [of cs ds "[]"] text_prefix [of ds cs "[]"] by (metis append_Nil2 append_take_drop_id utf8_text_Nil_iff)

lemma analyze_loop_max:
  "m \<noteq> 0 \<Longrightarrow> a_num_chars a < m \<Longrightarrow> a_left a = None \<Longrightarrow>
   a_num_chars (snd (analyze_loop m s a)) \<le> m \<and> fst (analyze_loop m s a) \<noteq> ERTS_UTF8_ANALYZE_MORE"
proof (induction m s a rule: analyze_loop.induct)
  case (1 m s a)
  show ?case
  proof (cases "s = []")
    case True
    then show ?thesis using 1 by (simp add: analyze_loop.simps)
  next
    case ne: False
    show ?thesis
    proof (cases "analyze_char s")
      case (Inl e)
      then show ?thesis using ne 1 analyze_char_status [OF Inl] by (auto simp: analyze_loop.simps [of m s])
    next
      case (Inr n)
      let ?a = "count_char n s a"
      have a: "a_num_chars ?a = Suc (a_num_chars a)" "a_left ?a = None"
        using "1.prems" by (simp_all add: count_char_def)
      show ?thesis
      proof (cases "length s > n \<and> a_num_chars ?a = m")
        case True
        then show ?thesis using ne Inr "1.prems" by (simp add: analyze_loop.simps [of m s])
      next
        case False
        have l: "analyze_loop m s a = analyze_loop m (drop n s) ?a"
          using ne Inr False a "1.prems" by (subst analyze_loop.simps) (auto simp: Let_def)
        show ?thesis
        proof (cases "length s > n")
          case True
          with False a "1.prems" have "a_num_chars ?a < m" by simp
          with "1.IH"(1) [OF ne Inr refl refl _ a(2)] False a(2) "1.prems"(1) l show ?thesis by auto
        next
          case last: False
          with l a "1.prems" show ?thesis by (simp add: analyze_loop.simps)
        qed
      qed
    qed
  qed
qed

lemma analyze_loop_left: "a_left a = None \<Longrightarrow> a_left (snd (analyze_loop m s a)) = None"
proof (induction m s a rule: analyze_loop.induct)
  case (1 m s a)
  have c: "a_left (count_char n s a) = None" for n using "1.prems" by (simp add: count_char_def)
  show ?case
  proof (cases "s = [] \<or> (\<exists>e. analyze_char s = Inl e)")
    case True
    then show ?thesis using "1.prems" by (subst analyze_loop.simps) (auto split: sum.split)
  next
    case False
    then obtain n where "s \<noteq> []" "analyze_char s = Inr n" by (cases "analyze_char s") auto
    with "1.IH"(1) [OF this refl refl _ c c] c show ?thesis by (subst analyze_loop.simps) (simp add: Let_def)
  qed
qed

lemma analyze_255:
  obtains cs st latin1 where
    "erts_analyze_utf8_x s None (nat MAX_ATOM_CHARACTERS) = (st, length (utf8_text cs), length cs, None, latin1)"
    "list_all valid_cp cs" "length cs \<le> 255" "s = utf8_text cs @ drop (length (utf8_text cs)) s"
    "st = ERTS_UTF8_OK \<longleftrightarrow> s = utf8_text cs" "st = ERTS_UTF8_OK \<Longrightarrow> latin1 \<noteq> None"
    "st = ERTS_UTF8_OK_MAX_CHARS \<Longrightarrow> length cs = 255" "st \<noteq> ERTS_UTF8_ANALYZE_MORE"
    "st = ERTS_UTF8_ERROR \<or> st = ERTS_UTF8_INCOMPLETE \<Longrightarrow> utf8_dec (drop (length (utf8_text cs)) s) = None"
proof -
  let ?a = "\<lparr>a_err_pos = 0, a_num_chars = 0, a_left = None, a_latin1_count = 0, a_is_latin1 = True\<rparr>"
  obtain st a where l: "analyze_loop 255 s ?a = (st, a)" by fastforce
  obtain cs where ok: "analysis_ok 255 s ?a (st, a) cs" using analyze_loop_ok [of 255 s ?a] l by metis
  have m: "a_num_chars a \<le> 255" "st \<noteq> ERTS_UTF8_ANALYZE_MORE" using analyze_loop_max [where m = 255 and a = ?a and s = s] l by simp_all
  have n: "a_left a = None" using analyze_loop_left [where m = 255 and a = ?a and s = s] l by simp
  from ok have v: "list_all valid_cp cs" "take (length (utf8_text cs)) s = utf8_text cs"
    "length (utf8_text cs) \<le> length s" "a_num_chars a = length cs" "a_err_pos a = length (utf8_text cs)"
    "st = ERTS_UTF8_OK \<longleftrightarrow> length (utf8_text cs) = length s"
    "st = ERTS_UTF8_ERROR \<or> st = ERTS_UTF8_INCOMPLETE \<Longrightarrow> utf8_dec (drop (length (utf8_text cs)) s) = None"
    "st = ERTS_UTF8_OK_MAX_CHARS \<Longrightarrow> a_num_chars a = 255"
    by (auto simp: analysis_ok_def)
  have s: "s = utf8_text cs @ drop (length (utf8_text cs)) s" using append_take_drop_id v(2) by metis
  have w: "length (utf8_text cs) = length s \<longleftrightarrow> s = utf8_text cs" using v(2) by fastforce
  show ?thesis
  proof (rule that [of st cs "if st = ERTS_UTF8_OK then Some (if a_is_latin1 a then int (a_latin1_count a) else - 1) else None"])
    show "erts_analyze_utf8_x s None (nat MAX_ATOM_CHARACTERS) = (st, length (utf8_text cs), length cs, None,
        if st = ERTS_UTF8_OK then Some (if a_is_latin1 a then int (a_latin1_count a) else - 1) else None)"
      using l v n by (simp add: erts_analyze_utf8_x_def MAX_ATOM_CHARACTERS_def)
  qed (use v m s w in auto)
qed

lemma verify_valid:
  assumes "list_all valid_cp ds" and "t = utf8_text ds"
  shows "\<exists>latin1. verify_utf8 (t @ beyond) (int (length t)) trunc =
    (if length ds \<le> 255 then Some (int (length t), latin1)
     else if trunc then Some (int (length (utf8_text (take 255 ds))), 0) else None)"
proof (rule analyze_255 [of t])
  fix cs st latin1
  assume a: "erts_analyze_utf8_x t None (nat MAX_ATOM_CHARACTERS) = (st, length (utf8_text cs), length cs, None, latin1)"
    and c: "list_all valid_cp cs" "length cs \<le> 255" "t = utf8_text cs @ drop (length (utf8_text cs)) t"
    and st: "st = ERTS_UTF8_OK \<longleftrightarrow> t = utf8_text cs" "st = ERTS_UTF8_OK \<Longrightarrow> latin1 \<noteq> None"
    "st = ERTS_UTF8_OK_MAX_CHARS \<Longrightarrow> length cs = 255" "st \<noteq> ERTS_UTF8_ANALYZE_MORE"
    "st = ERTS_UTF8_ERROR \<or> st = ERTS_UTF8_INCOMPLETE \<Longrightarrow> utf8_dec (drop (length (utf8_text cs)) t) = None"
  have p: "cs = take (length cs) ds" "drop (length (utf8_text cs)) t = utf8_text (drop (length cs) ds)"
    using text_prefix [OF c(1) assms(1), of "drop (length (utf8_text cs)) t"] c(3) assms(2) by simp_all
  show ?thesis
  proof (cases "length cs < length ds")
    case False
    then have "cs = ds" using p(1) by simp
    then show ?thesis using a c(2) st(1) assms(2) by (auto simp: verify_utf8_def)
  next
    case True
    then obtain d ds' where d: "drop (length cs) ds = d # ds'" by (metis Cons_nth_drop_Suc)
    then have "valid_cp d" using assms(1) in_set_dropD [of d "length cs" ds] by (simp add: list_all_iff)
    then have "utf8_dec (drop (length (utf8_text cs)) t) \<noteq> None"
      using dec_complete [of d "utf8_text ds'"] p(2) d by simp
    moreover have "cs \<noteq> ds" using True by auto
    then have "t \<noteq> utf8_text cs" using utf8_text_inj [OF c(1) assms(1)] assms(2) by auto
    ultimately have "st = ERTS_UTF8_OK_MAX_CHARS" using st(1,4,5) by (cases st) auto
    moreover from this have "length cs = 255" "cs = take 255 ds" using st(3) p(1) by auto
    ultimately show ?thesis using a True by (simp add: verify_utf8_def)
  qed
qed

lemma verify_invalid:
  assumes "\<And>ds. list_all valid_cp ds \<Longrightarrow> length ds \<le> 255 \<Longrightarrow> t \<noteq> utf8_text ds"
  shows "verify_utf8 (t @ beyond) (int (length t)) False = None"
proof (rule analyze_255 [of t])
  fix cs st latin1
  assume a: "erts_analyze_utf8_x t None (nat MAX_ATOM_CHARACTERS) = (st, length (utf8_text cs), length cs, None, latin1)"
    and "list_all valid_cp cs" "length cs \<le> 255" "st = ERTS_UTF8_OK \<longleftrightarrow> t = utf8_text cs"
  with assms have "st \<noteq> ERTS_UTF8_OK" by blast
  with a show ?thesis by (auto simp: verify_utf8_def split: utf8_status.split)
qed

subsection \<open>The table as a list of names\<close>

text \<open>Some texts of at most 255 characters are the names of atoms.\<close>

definition atom_name :: "byte list \<Rightarrow> bool" where
  "atom_name n \<longleftrightarrow> (\<exists>cs. list_all valid_cp cs \<and> length cs \<le> 255 \<and> n = utf8_text cs)"

definition atom_key :: "atom_data islot \<Rightarrow> int \<times> byte list" where
  "atom_key p = (a_len (slot_data p), name_of (slot_data p))"

definition name_key :: "byte list \<Rightarrow> int \<times> byte list" where
  "name_key n = (int (length n), n)"

definition text_ok :: "atom_world \<Rightarrow> bool" where
  "text_ok w \<longleftrightarrow> 0 \<le> atom_text_pos w \<and> atom_text_pos w < ATOM_TEXT_SIZE \<and>
     reserved_atom_space w = text_segments w * sizeof_AtomText"

definition atoms_ok :: "atom_table \<Rightarrow> atom_world \<Rightarrow> byte list list \<Rightarrow> bool" where
  "atoms_ok t w names \<longleftrightarrow> index_rep atom_key t w (map name_key names) \<and> h_fun (htable t) = atom_functions \<and>
     list_all atom_name names \<and> text_ok w"

interpretation atoms: index_client atom_functions atom_key
proof unfold_locales
  fix a b t :: "atom_data islot" and w :: atom_world
  show "fun_cmp atom_functions a b = 0 \<longleftrightarrow> atom_key a = atom_key b"
    by (auto simp: atom_functions_def atom_cmp_def atom_key_def)
  show "atom_key a = atom_key b \<Longrightarrow> fun_hash atom_functions a = fun_hash atom_functions b"
    by (simp add: atom_functions_def name_hash_def atom_key_def)
  show "atom_key (fst (fun_alloc atom_functions t w)) = atom_key t"
    by (simp add: atom_functions_def atom_alloc_def atom_key_def name_of_def Let_def)
  show "slot_addr (fst (fun_alloc atom_functions t w)) = next_slot w"
    "next_slot (snd (fun_alloc atom_functions t w)) = Suc (next_slot w)"
    "slot_index (snd (fun_alloc atom_functions t w)) = (slot_index w)(next_slot w := - 1)"
    "slot_index (fun_free atom_functions a w) = slot_index w"
    "next_slot (fun_free atom_functions a w) = next_slot w"
    by (simp_all add: atom_functions_def atom_alloc_def atom_text_alloc_def more_atom_space_def atom_free_def Let_def)
qed

lemma length_utf8_text: "length (utf8_text cs) \<le> 4 * length cs"
proof (induction cs)
  case (Cons c cs)
  have "length (utf8_values c) \<le> 4" by (simp add: utf8_values_def)
  with Cons show ?case by simp
qed simp

lemma sint16_small: "0 \<le> x \<Longrightarrow> x < 32768 \<Longrightarrow> sint16 x = x"
  by (simp add: sint16_def sint_sbintrunc' signed_take_bit_int_eq_self)

lemma name_key_inj: "inj name_key"
  by (rule injI) (simp add: name_key_def)

text \<open>The template of a valid text: hashing it stays within the name.\<close>

lemma template_valid:
  assumes "list_all valid_cp cs" and "t = utf8_text cs" and "length t < 32768"
  shows "atom_hash (slot_data (atom_template (t @ beyond) (int (length t)) l)) \<noteq> None"
    and "atom_key (atom_template (t @ beyond) (int (length t)) l) = name_key t"
  using assms hash_text [OF assms(1), of 0 beyond 0]
  by (simp_all add: atom_template_def atom_hash_def atom_key_def name_key_def name_of_def sint16_small)

lemma map_sum_Inr: "map_sum f g x = Inr y \<longleftrightarrow> (\<exists>z. x = Inr z \<and> y = g z)"
  by (cases x) auto

text \<open>What the callback does to the text space.\<close>

lemma put_world:
  assumes "index_put t tmpl w = Inr (i, t', w')" and "h_fun (htable t) = atom_functions"
    and "text_ok w" and "0 \<le> a_len (slot_data tmpl)" and "a_len (slot_data tmpl) \<le> MAX_ATOM_SZ_LIMIT"
  shows "text_ok w'"
proof -
  have a: "text_ok (snd (atom_alloc tmpl w))"
    using assms(3-5) by (auto simp: atom_alloc_def Let_def text_ok_def atom_text_alloc_def more_atom_space_def
        ATOM_TEXT_SIZE_def MAX_ATOM_SZ_LIMIT_def MAX_ATOM_CHARACTERS_def)
  obtain p h w1 where h: "hash_put (htable t) tmpl w = (p, h, w1)" by (metis prod_cases3)
  have w1: "text_ok w1" using h a assms(2,3)
    by (auto simp: hash_put_def Let_def atom_functions_def split: option.splits prod.splits)
  have "text_ok (w1\<lparr>slot_index := f\<rparr>)" for f using w1 by (simp add: text_ok_def)
  then show ?thesis using assms(1) h w1
    by (auto simp: index_put_def index_put_entry_def Let_def set_slot_def map_sum_Inr split: if_splits sum.splits)
qed

subsection \<open>Lookup and insertion of a valid name\<close>

text \<open>All pages are in use and the limit forbids another.\<close>

definition table_full :: "atom_table \<Rightarrow> byte list list \<Rightarrow> bool" where
  "table_full t names \<longleftrightarrow> t_size t \<le> int (length names) \<and> t_limit t \<le> int (length names)"

definition put_result ::
  "atom_table \<Rightarrow> atom_world \<Rightarrow> byte list list \<Rightarrow> byte list \<Rightarrow>
   atom_error + int option \<times> atom_table \<times> atom_world \<Rightarrow> bool" where
  "put_result t w names n r \<longleftrightarrow>
     (if n \<in> set names then \<exists>i<length names. names ! i = n \<and> r = Inr (Some (int i), t, w)
      else if table_full t names then r = Inl (Atom_index_error (No_more_index_entries (t_limit t)))
      else \<exists>t' w'. r = Inr (Some (int (length names)), t', w') \<and> atoms_ok t' w' (names @ [n]) \<and>
             t_limit t' = t_limit t)"

definition get_result :: "byte list list \<Rightarrow> byte list \<Rightarrow> int \<Rightarrow> bool" where
  "get_result names n i \<longleftrightarrow> (if n \<in> set names then \<exists>k<length names. names ! k = n \<and> i = int k else i = - 1)"

lemma index_get_names:
  assumes "atoms_ok t w names" and "atom_key tmpl = name_key n"
  shows "get_result names n (index_get t tmpl w)"
proof -
  have "index_rep atom_key t w (map name_key names)" "h_fun (htable t) = atom_functions"
    using assms(1) by (simp_all add: atoms_ok_def)
  from atoms.get_rep [OF this, of tmpl] assms(2) show ?thesis
    by (auto simp: get_result_def inj_image_mem_iff [OF name_key_inj] inj_eq [OF name_key_inj])
qed

lemma index_put_names:
  assumes ok: "atoms_ok t w names" and key: "atom_key tmpl = name_key n" and n: "atom_name n"
  shows "put_result t w names n (map_sum Atom_index_error (\<lambda>(i, r). (Some i, r)) (index_put t tmpl w))"
proof -
  have r: "index_rep atom_key t w (map name_key names)" and f: "h_fun (htable t) = atom_functions"
    and nm: "list_all atom_name names" and tx: "text_ok w" using ok by (simp_all add: atoms_ok_def)
  show ?thesis
  proof (cases "n \<in> set names")
    case True
    then obtain i where i: "i < length names" "names ! i = n" by (auto simp: in_set_conv_nth)
    with atoms.put_present [OF r f, of i tmpl] key have "index_put t tmpl w = Inr (int i, t, w)" by simp
    with True i show ?thesis by (auto simp: put_result_def)
  next
    case False
    then have "atom_key tmpl \<notin> set (map name_key names)"
      by (simp add: key inj_image_mem_iff [OF name_key_inj])
    from atoms.put_absent [OF r f this]
    have a: "if table_full t names then index_put t tmpl w = Inl (No_more_index_entries (t_limit t))
        else \<exists>t' w'. index_put t tmpl w = Inr (int (length names), t', w') \<and>
           index_rep atom_key t' w' (map name_key names @ [name_key n]) \<and> h_fun (htable t') = atom_functions \<and>
           t_limit t' = t_limit t"
      by (auto simp: key table_full_def)
    show ?thesis
    proof (cases "table_full t names")
      case True
      with a False show ?thesis by (simp add: put_result_def)
    next
      case nf: False
      with a obtain t' w' where p: "index_put t tmpl w = Inr (int (length names), t', w')"
        "index_rep atom_key t' w' (map name_key names @ [name_key n])" "h_fun (htable t') = atom_functions"
        "t_limit t' = t_limit t" by auto
      have l: "a_len (slot_data tmpl) = int (length n)" using key by (simp add: atom_key_def name_key_def)
      obtain cs where "length cs \<le> 255" "n = utf8_text cs" using n by (auto simp: atom_name_def)
      with length_utf8_text [of cs] have "length n \<le> 1020" by simp
      with l have "text_ok w'"
        by (intro put_world [OF p(1) f tx]) (simp_all add: MAX_ATOM_SZ_LIMIT_def MAX_ATOM_CHARACTERS_def)
      with p nm n have "atoms_ok t' w' (names @ [n])" by (simp add: atoms_ok_def)
      with p False nf show ?thesis by (simp add: put_result_def)
    qed
  qed
qed

lemma put_names:
  assumes "atoms_ok t w names" and "list_all valid_cp cs" and "length cs \<le> 255" and "n = utf8_text cs"
  shows "put_result t w names n (atom_index_put t (atom_template (n @ beyond) (int (length n)) l) w)"
    and "\<exists>i. atom_index_get t (atom_template (n @ beyond) (int (length n)) l) w = Inr i \<and> get_result names n i"
proof -
  have "length n < 32768" using length_utf8_text [of cs] assms(3,4) by simp
  note v = template_valid [OF assms(2,4) this, of beyond l]
  have "atom_name n" using assms by (auto simp: atom_name_def)
  from index_put_names [OF assms(1) v(2) this] v(1)
  show "put_result t w names n (atom_index_put t (atom_template (n @ beyond) (int (length n)) l) w)"
    by (auto simp: atom_index_put_def)
  from index_get_names [OF assms(1) v(2)] v(1)
  show "\<exists>i. atom_index_get t (atom_template (n @ beyond) (int (length n)) l) w = Inr i \<and> get_result names n i"
    by (auto simp: atom_index_get_def)
qed

lemma put_result_found: "get_result names n i \<Longrightarrow> 0 \<le> i \<Longrightarrow> put_result t w names n (Inr (Some i, t, w))"
  by (auto simp: get_result_def put_result_def split: if_splits)

lemma get_result_absent: "get_result names n i \<Longrightarrow> \<not> 0 \<le> i \<Longrightarrow> n \<notin> set names"
  by (auto simp: get_result_def)

text \<open>The code points a text stands for in an encoding.\<close>

definition denotes :: "atom_encoding \<Rightarrow> byte list \<Rightarrow> int list \<Rightarrow> bool" where
  "denotes enc text cs \<longleftrightarrow>
     (case enc of
        ERTS_ATOM_ENC_7BIT_ASCII \<Rightarrow> cs = map uint text \<and> list_all (\<lambda>c. c < 128) cs
      | ERTS_ATOM_ENC_LATIN1 \<Rightarrow> cs = map uint text
      | ERTS_ATOM_ENC_UTF8 \<Rightarrow> list_all valid_cp cs \<and> text = utf8_text cs)"

lemma valid_latin1: "list_all valid_cp (map uint (s :: byte list))"
proof -
  have "valid_cp (uint b)" for b :: byte using uint_byte_bounds [of b] by (simp add: valid_cp_def)
  then show ?thesis by (simp add: list_all_iff)
qed

lemma denotes_valid: "denotes enc text cs \<Longrightarrow> list_all valid_cp cs"
  using valid_latin1 by (auto simp: denotes_def split: atom_encoding.splits)

lemma length_latin1: "length (utf8_text (map uint (s :: byte list))) \<le> 2 * length s"
proof (induction s)
  case (Cons b s)
  have "length (utf8_values (uint b)) \<le> 2" using uint_byte_bounds [of b] by (simp add: utf8_values_def)
  with Cons show ?case by simp
qed simp

lemma ascii_text: "list_all (\<lambda>b. b AND 0x80 = 0) s \<Longrightarrow> utf8_text (map uint s) = s"
  using latin1_utf8_text [of s] by (simp add: latin1_to_utf8_def)

lemma latin1_text_ok:
  assumes "k \<le> length text" and "k \<le> 255"
  shows "\<exists>beyond. latin1_text (text @ rest) (int k) =
    Inr (utf8_text (map uint (take k text)) @ beyond, int (length (utf8_text (map uint (take k text)))))"
proof (cases "list_all (\<lambda>b. b AND 0x80 = 0) (take k text)")
  case True
  with assms ascii_text [OF True] show ?thesis
    by (intro exI [of _ "drop k text @ rest"]) (simp add: latin1_text_def Let_def del: byte_and)
next
  case False
  with assms length_latin1 [of "take k text"] show ?thesis
    by (simp add: latin1_text_def Let_def latin1_utf8_text MAX_ATOM_SZ_FROM_LATIN1_def MAX_ATOM_CHARACTERS_def
        del: byte_and)
qed

lemma atom_text_narrow:
  assumes "denotes enc text cs" and "enc \<noteq> ERTS_ATOM_ENC_UTF8" and "trunc \<or> length cs \<le> 255"
  shows "\<exists>beyond l. atom_text (text @ rest) (int (length text)) enc trunc =
    Inr (Some (utf8_text (take 255 cs) @ beyond, int (length (utf8_text (take 255 cs))), l))"
proof -
  let ?k = "min 255 (length text)"
  have cs: "cs = map uint text" using assms by (auto simp: denotes_def split: atom_encoding.splits)
  have k: "take 255 cs = map uint (take ?k text)" by (simp add: cs take_map min_def)
  have cut: "(if int (length text) > MAX_ATOM_CHARACTERS then MAX_ATOM_CHARACTERS else int (length text)) = int ?k"
    by (simp add: MAX_ATOM_CHARACTERS_def)
  have z: "(if int (length text) < 0 then 0 else int (length text)) = int (length text)" by simp
  have ok: "\<not> (int (length text) > MAX_ATOM_CHARACTERS \<and> \<not> trunc)"
    using assms(3) by (auto simp: cs MAX_ATOM_CHARACTERS_def)
  show ?thesis
  proof (cases enc)
    case ERTS_ATOM_ENC_7BIT_ASCII
    then have "list_all (\<lambda>b. b AND 0x80 = 0) (take ?k text)"
      using assms(1) by (auto simp: denotes_def list_all_iff dest: in_set_takeD)
    then have t: "utf8_text (take 255 cs) = take ?k text" using ascii_text unfolding k by blast
    show ?thesis using ERTS_ATOM_ENC_7BIT_ASCII ok
      unfolding atom_text_def Let_def t z cut by (intro exI [of _ "drop ?k text @ rest"] exI [of _ "int ?k"]) (auto simp: MAX_ATOM_CHARACTERS_def min_def)
  next
    case ERTS_ATOM_ENC_LATIN1
    obtain beyond where "latin1_text (text @ rest) (int ?k) =
        Inr (utf8_text (take 255 cs) @ beyond, int (length (utf8_text (take 255 cs))))"
      using latin1_text_ok [of ?k "text" rest] unfolding k by auto
    then show ?thesis using ERTS_ATOM_ENC_LATIN1 ok unfolding atom_text_def Let_def z cut by auto
  qed (use assms(2) in simp)
qed

subsection \<open>The ordinary atoms\<close>

lemma put_world_absent:
  assumes "index_rep atom_key t w ks" and "h_fun (htable t) = atom_functions" and "atom_key tmpl \<notin> set ks"
    and "index_put t tmpl w = Inr (i, t', w')"
  shows "\<exists>f. w' = (snd (atom_alloc tmpl w))\<lparr>slot_index := f\<rparr>"
proof -
  have "hash_ok atom_key (htable t)" "hash_map atom_key (htable t) (atom_key tmpl) = None"
    using assms(1,3) by (auto simp: index_rep_def)
  with atoms.put_ok [of "htable t" tmpl w] assms(2) obtain h where
    h: "hash_put (htable t) tmpl w = (fst (atom_alloc tmpl w), h, snd (atom_alloc tmpl w))"
    by (auto simp: atom_functions_def)
  have "slot_index (snd (atom_alloc tmpl w)) (slot_addr (fst (atom_alloc tmpl w))) = - 1"
    by (simp add: atom_alloc_def Let_def)
  with assms(4) h show ?thesis
    by (auto simp: index_put_def index_put_entry_def Let_def set_slot_def map_sum_Inr split: sum.splits)
qed

lemma atoms_ok_text: "atoms_ok t w names \<Longrightarrow> text_ok (w\<lparr>atom_text_pos := p, atom_space := s\<rparr>) \<Longrightarrow>
    atoms_ok t (w\<lparr>atom_text_pos := p, atom_space := s\<rparr>) names"
  by (simp add: atoms_ok_def index_rep_def entry_ok_def)

definition ordinary_name :: "byte list \<Rightarrow> bool" where
  "ordinary_name n \<longleftrightarrow> length n \<le> 255 \<and> list_all (\<lambda>b. b AND 0x80 = 0) n"

lemma put_ordinary_ok:
  assumes "atoms_ok t w names" and "distinct (names @ new)" and "list_all ordinary_name new"
    and "int (length (names @ new)) \<le> t_limit t"
  shows "\<exists>t' w'. put_ordinary_atoms new t w = Inr (t', w') \<and> atoms_ok t' w' (names @ new) \<and> t_limit t' = t_limit t"
  using assms
proof (induction new arbitrary: t w names)
  case (Cons n new)
  let ?p = "atom_template n (int (length n)) (int (length n))"
  have o: "length n \<le> 255" "list_all (\<lambda>b. b AND 0x80 = 0) n" using Cons.prems(3) by (simp_all add: ordinary_name_def)
  note v = valid_latin1 [of n]
  have n: "n = utf8_text (map uint n)" using ascii_text [OF o(2)] by simp
  have new: "n \<notin> set names" "\<not> table_full t names" using Cons.prems(2,4) by (auto simp: table_full_def)
  from put_names(1) [OF Cons.prems(1) v _ n, of "[]" "int (length n)"] o(1) new obtain t1 w1 where
    p: "atom_index_put t ?p w = Inr (Some (int (length names)), t1, w1)" "atoms_ok t1 w1 (names @ [n])"
      "t_limit t1 = t_limit t" by (auto simp: put_result_def)
  from p(1) have "index_put t ?p w = Inr (int (length names), t1, w1)"
    by (auto simp: atom_index_put_def map_sum_Inr split: if_splits)
  moreover have "atom_key ?p = name_key n" using template_valid(2) [OF v n, of "[]"] o(1) by simp
  moreover have "index_rep atom_key t w (map name_key names)" "h_fun (htable t) = atom_functions" "text_ok w"
    using Cons.prems(1) by (simp_all add: atoms_ok_def)
  ultimately obtain f where "w1 = (snd (atom_alloc ?p w))\<lparr>slot_index := f\<rparr>"
    using put_world_absent [of t w "map name_key names" ?p] new(1)
    by (auto simp: inj_image_mem_iff [OF name_key_inj])
  moreover have "a_len (slot_data ?p) = int (length n)" using o(1) by (simp add: atom_template_def sint16_small)
  ultimately have w1: "text_ok (w1\<lparr>atom_text_pos := atom_text_pos w1 - int (length n),
      atom_space := atom_space w1 - int (length n)\<rparr>)"
    using \<open>text_ok w\<close> by (auto simp: atom_alloc_def Let_def text_ok_def atom_text_alloc_def more_atom_space_def
        ATOM_TEXT_SIZE_def)
  have "put_ordinary_atoms (n # new) t w = put_ordinary_atoms new t1
      (w1\<lparr>atom_text_pos := atom_text_pos w1 - int (length n), atom_space := atom_space w1 - int (length n)\<rparr>)"
    by (simp add: p(1))
  with Cons.IH [OF atoms_ok_text [OF p(2) w1]] Cons.prems p(3) show ?case by simp
qed simp

text \<open>Initialisation with distinct 7-bit names gives a table of just these names.\<close>

lemma init_atom_table_ok:
  assumes "distinct names" and "list_all ordinary_name names" and "int (length names) \<le> limit"
  shows "\<exists>t w. init_atom_table names limit = Inr (t, w) \<and> atoms_ok t w names \<and> t_limit t = limit"
proof -
  obtain t where t: "erts_index_init ATOM_SIZE limit atom_functions = Inr t"
    by (simp add: erts_index_init_def hash_init_def h_size_table_def ATOM_SIZE_def)
  let ?w = "more_atom_space init_atom_world"
  have ok: "atoms_ok t ?w []" and lim: "t_limit t = limit"
    using index_init_rep [OF t, of atom_key ?w]
    by (simp_all add: atoms_ok_def text_ok_def more_atom_space_def init_atom_world_def ATOM_TEXT_SIZE_def)
  from put_ordinary_ok [OF ok, of names] assms lim show ?thesis by (auto simp: init_atom_table_def t)
qed

lemma example_atoms:
  obtains t w where "init_atom_table [[0x6F, 0x6B]] 1024 = Inr (t, w)" "atoms_ok t w [[0x6F, 0x6B]]" "t_limit t = 1024"
  using init_atom_table_ok [of "[[0x6F, 0x6B]]" 1024] by (auto simp: ordinary_name_def)

lemma latin1_lead:
  "b AND 0x80 \<noteq> 0 \<Longrightarrow> \<exists>x y. latin1_char b = [x, y] \<and> x AND 0xFE = 0xC2 \<and> y AND 0xC0 = 0x80 \<and> x AND 0x80 \<noteq> 0"
proof -
  have "b AND 0x80 = 0 \<or> (case latin1_char b of [x, y] \<Rightarrow> x AND 0xFE = 0xC2 \<and> y AND 0xC0 = 0x80 \<and> x AND 0x80 \<noteq> 0 | _ \<Rightarrow> False)"
    by (rule byte_all) code_simp
  then show "b AND 0x80 \<noteq> 0 \<Longrightarrow> ?thesis" by (auto split: list.splits simp del: byte_and)
qed

lemma latin1_pair:
  assumes "p AND 0xFE = 0xC2" and "c AND 0xC0 = 0x80"
  shows "latin1_char (word_of_int ((uint p - 192) * 64 + (uint c - 128))) = [p, c]"
proof -
  let ?k = "(uint p - 192) * 64 + (uint c - 128)"
  have p: "uint p = 194 \<or> uint p = 195" and c: "128 \<le> uint c" "uint c < 192" using assms by auto
  then have k: "128 \<le> ?k" "?k < 256" by auto
  have "uint (word_of_int ?k :: byte) = ?k" by (rule uint_word_of_int_small) (use k in simp_all)
  then have "latin1_char (word_of_int ?k) = utf8_enc ?k" by (simp only: latin1_char_enc)
  moreover have "?k div 64 = uint p - 192" "?k mod 64 = uint c - 128"
    using div_mod_64 [of "uint c - 128" "uint p - 192"] c by simp_all
  ultimately show ?thesis using k by (simp add: utf8_enc_def utf8_values_def)
qed

lemma scan_done:
  "scan_atom_text bytes n = Scan_done \<Longrightarrow> n \<le> 255 \<Longrightarrow> \<exists>s. bytes = latin1_to_utf8 s \<and> n + length s \<le> 255"
proof (induction bytes n rule: scan_atom_text.induct)
  case (1 n)
  then show ?case by (intro exI [of _ "[]"]) (simp add: latin1_to_utf8_def)
next
  case (2 p ps n)
  have n: "Suc n \<le> 255" using "2.prems"(1) by (auto simp: MAX_ATOM_CHARACTERS_def split: if_splits)
  show ?case
  proof (cases "p AND 0x80 = 0")
    case True
    from "2.IH"(1) [OF _ True] "2.prems"(1) n obtain s where "ps = latin1_to_utf8 s" "Suc n + length s \<le> 255"
      by (auto simp: MAX_ATOM_CHARACTERS_def True simp del: byte_and)
    moreover have "latin1_char p = [p]" using True by (simp add: latin1_char_def del: byte_and)
    ultimately show ?thesis by (intro exI [of _ "p # s"]) (simp add: latin1_to_utf8_concat)
  next
    case False
    with "2.prems"(1) n obtain c cs where c: "ps = c # cs" "p AND 0xFE = 0xC2" "c AND 0xC0 = 0x80"
      "scan_atom_text cs (Suc n) = Scan_done"
      by (auto simp: MAX_ATOM_CHARACTERS_def simp del: byte_and split: list.splits if_splits)
    from "2.IH"(2) [OF _ False c(1)] c n obtain s where s: "cs = latin1_to_utf8 s" "Suc n + length s \<le> 255"
      by (auto simp: MAX_ATOM_CHARACTERS_def simp del: byte_and)
    have "latin1_char (word_of_int ((uint p - 192) * 64 + (uint c - 128))) = [p, c]"
      by (rule latin1_pair [OF c(2,3)])
    with s c show ?thesis
      by (intro exI [of _ "word_of_int ((uint p - 192) * 64 + (uint c - 128)) # s"]) (simp add: latin1_to_utf8_concat)
  qed
qed

lemma scan_encoded:
  "n \<le> 255 \<Longrightarrow> scan_atom_text (concat (map latin1_char s)) n = (if n + length s \<le> 255 then Scan_done else Scan_too_long)"
proof (induction s arbitrary: n)
  case (Cons b s)
  show ?case
  proof (cases "b AND 0x80 = 0")
    case True
    then have "latin1_char b = [b]" by (simp add: latin1_char_def del: byte_and)
    with True Cons show ?thesis by (cases "n = 255") (simp_all add: MAX_ATOM_CHARACTERS_def del: byte_and)
  next
    case False
    then obtain x y where xy: "latin1_char b = [x, y]" "x AND 0xFE = 0xC2" "y AND 0xC0 = 0x80" "x AND 0x80 \<noteq> 0"
      using latin1_lead [of b] by (auto simp del: byte_and)
    with Cons show ?thesis by (cases "n = 255") (simp_all add: MAX_ATOM_CHARACTERS_def del: byte_and)
  qed
qed simp

text \<open>A name that does not end in a Latin-1 lead byte is hashed within its length.\<close>

lemma hash_within:
  assumes "text \<noteq> [] \<Longrightarrow> last text AND 0xFE \<noteq> 0xC2"
  shows "atom_hash_loop (text @ beyond) (int (length text)) h \<noteq> None"
  using assms
proof (induction "text" arbitrary: h rule: length_induct)
  case (1 s)
  show ?case
  proof (cases s)
    case (Cons v q)
    have q: "q \<noteq> [] \<Longrightarrow> last q AND 0xFE \<noteq> 0xC2" using "1.prems" Cons by simp
    show ?thesis
    proof (cases "v AND 0xFE = 0xC2 \<and> hd q AND 0xC0 = 0x80")
      case True
      then obtain c r where r: "q = c # r" using "1.prems" Cons by (cases q) auto
      have "atom_hash_loop (r @ beyond) (int (length r)) h' \<noteq> None" for h'
        using "1.IH" q Cons r by (auto split: if_splits)
      then show ?thesis using True Cons r by (simp add: hash_clutch del: byte_and)
    next
      case False
      have "atom_hash_loop (q @ beyond) (int (length q)) h' \<noteq> None" for h'
        using "1.IH" q Cons by auto
      moreover have "q \<noteq> []" if "v AND 0xFE = 0xC2" using that "1.prems" Cons by auto
      ultimately show ?thesis using False Cons
        by (cases q; subst atom_hash_loop.simps) (auto simp del: byte_and split: list.split)
    qed
  qed simp
qed

text \<open>Past its end, the loop never stops.\<close>

lemma hash_negative: "n < 0 \<Longrightarrow> atom_hash_loop p n h = None"
proof (induction p arbitrary: n h rule: length_induct)
  case (1 p)
  then show ?case by (subst atom_hash_loop.simps) (auto simp del: byte_and split: list.split)
qed

lemma put_text:
  assumes ok: "atoms_ok t w names" and d: "denotes enc text cs" and tr: "trunc \<or> length cs \<le> 255"
    and l: "length text < 32768"
  shows "put_result t w names (utf8_text (take 255 cs))
    (erts_atom_put t (text @ beyond) (int (length text)) enc trunc w)"
proof (cases "enc = ERTS_ATOM_ENC_UTF8")
  case False
  have v: "list_all valid_cp (take 255 cs)" using denotes_valid [OF d] by (auto simp: list_all_iff dest: in_set_takeD)
  from atom_text_narrow [OF d False tr, of beyond] obtain b' k where
    tx: "atom_text (text @ beyond) (int (length text)) enc trunc =
      Inr (Some (utf8_text (take 255 cs) @ b', int (length (utf8_text (take 255 cs))), k))" by blast
  note p = put_names [OF ok v _ refl, of b']
  from p(2) [of 0] obtain i where "atom_index_get t (atom_template (utf8_text (take 255 cs) @ b')
      (int (length (utf8_text (take 255 cs)))) 0) w = Inr i" "get_result names (utf8_text (take 255 cs)) i" by auto
  with False p(1) [of k] put_result_found show ?thesis by (auto simp: erts_atom_put_def tx)
next
  case True
  then have v: "list_all valid_cp cs" "text = utf8_text cs" using d by (auto simp: denotes_def)
  have tx: "atom_text (text @ beyond) (int (length text)) enc trunc = Inr (Some (text @ beyond, int (length text), 0))"
    using True tr length_utf8_text [of cs] v(2)
    by (auto simp: atom_text_def MAX_ATOM_SZ_LIMIT_def MAX_ATOM_CHARACTERS_def)
  note h = template_valid [OF v l, of beyond 0]
  have g: "get_result names text (index_get t (atom_template (text @ beyond) (int (length text)) 0) w)"
    by (rule index_get_names [OF ok h(2)])
  obtain k where k: "verify_utf8 (text @ beyond) (int (length text)) trunc =
    (if length cs \<le> 255 then Some (int (length text), k)
     else if trunc then Some (int (length (utf8_text (take 255 cs))), 0) else None)"
    using verify_valid [OF v] by blast
  show ?thesis
  proof (cases "length cs \<le> 255")
    case short: True
    have s: "utf8_text (take 255 cs) = text" using short v(2) by simp
    have "verify_utf8 (text @ beyond) (int (length text)) trunc = Some (int (length text), k)" using k short by simp
    with put_names(1) [OF ok v(1) short v(2), of beyond k] put_result_found [OF g, of t w] h(1) True show ?thesis
      unfolding erts_atom_put_def tx atom_index_get_def s by auto
  next
    case long: False
    with tr have trunc by simp
    have "text \<notin> set names"
    proof
      assume "text \<in> set names"
      then have "atom_name text" using ok by (simp add: atoms_ok_def list_all_iff)
      then obtain ds where "list_all valid_cp ds" "length ds \<le> 255" "utf8_text cs = utf8_text ds"
        using v(2) by (auto simp: atom_name_def)
      with utf8_text_inj [OF v(1)] long show False by auto
    qed
    then have neg: "\<not> 0 \<le> index_get t (atom_template (text @ beyond) (int (length text)) 0) w"
      using g by (auto simp: get_result_def)
    have "verify_utf8 (text @ beyond) (int (length text)) trunc = Some (int (length (utf8_text (take 255 cs))), 0)"
      using k long \<open>trunc\<close> by simp
    then have e: "erts_atom_put t (text @ beyond) (int (length text)) enc trunc w =
        atom_index_put t (atom_template (text @ beyond) (int (length (utf8_text (take 255 cs)))) 0) w"
      unfolding erts_atom_put_def tx atom_index_get_def using h(1) neg True by auto
    have "text = utf8_text (take 255 cs) @ utf8_text (drop 255 cs)" using v(2) by (simp flip: utf8_text_simps(3))
    then have b: "text @ beyond = utf8_text (take 255 cs) @ (utf8_text (drop 255 cs) @ beyond)" by simp
    have "list_all valid_cp (take 255 cs)" using v(1) by (auto simp: list_all_iff dest: in_set_takeD)
    from put_names(1) [OF ok this _ refl, of "utf8_text (drop 255 cs) @ beyond" 0, folded b] show ?thesis
      unfolding e by simp
  qed
qed

lemma get_text:
  assumes ok: "atoms_ok t w names" and d: "denotes enc text cs" and l: "length cs \<le> 255"
  shows "\<exists>r. erts_atom_get t (text @ beyond) (int (length text)) enc w = Inr r \<and>
    (case r of None \<Rightarrow> utf8_text cs \<notin> set names
     | Some i \<Rightarrow> 0 \<le> i \<and> nat i < length names \<and> names ! nat i = utf8_text cs)"
proof -
  have tx: "\<exists>b. (if enc = ERTS_ATOM_ENC_LATIN1 then latin1_text (text @ beyond) (int (length text))
      else Inr (text @ beyond, int (length text))) = Inr (utf8_text cs @ b, int (length (utf8_text cs)))"
  proof (cases enc)
    case ERTS_ATOM_ENC_7BIT_ASCII
    then have c: "cs = map uint text" "list_all (\<lambda>b. b AND 0x80 = 0) text"
      using d by (auto simp: denotes_def list_all_iff)
    then have "utf8_text cs = text" using ascii_text by blast
    then show ?thesis using ERTS_ATOM_ENC_7BIT_ASCII by simp
  next
    case ERTS_ATOM_ENC_LATIN1
    then have c: "cs = map uint text" using d by (simp add: denotes_def)
    have "length text \<le> 255" using l c by simp
    with latin1_text_ok [of "length text" "text" beyond] c ERTS_ATOM_ENC_LATIN1 show ?thesis by simp
  next
    case ERTS_ATOM_ENC_UTF8
    then show ?thesis using d by (simp add: denotes_def)
  qed
  then obtain b where b: "(if enc = ERTS_ATOM_ENC_LATIN1 then latin1_text (text @ beyond) (int (length text))
      else Inr (text @ beyond, int (length text))) = Inr (utf8_text cs @ b, int (length (utf8_text cs)))" by blast
  from put_names(2) [OF ok denotes_valid [OF d] l refl, of b 0] obtain i where
    "atom_index_get t (atom_template (utf8_text cs @ b) (int (length (utf8_text cs))) 0) w = Inr i"
    "get_result names (utf8_text cs) i" by blast
  then show ?thesis unfolding erts_atom_get_def b
    by (auto simp: get_result_def split: if_splits)
qed

lemma binary_text:
  assumes ok: "atoms_ok t w names"
    and bytes: "enc = ERTS_ATOM_ENC_LATIN1 \<and> bytes = s \<or> enc = ERTS_ATOM_ENC_UTF8 \<and> bytes = latin1_to_utf8 s"
  shows "case binary_to_atom t bytes beyond (Some enc) must_exist w of
      Inl e \<Rightarrow> \<not> must_exist \<and> table_full t names \<and> latin1_to_utf8 s \<notin> set names \<and>
        e = Atom_index_error (No_more_index_entries (t_limit t))
    | Inr (r, t', w') \<Rightarrow>
        if 255 < length s then r = System_limit \<and> t' = t \<and> w' = w
        else if latin1_to_utf8 s \<in> set names
        then t' = t \<and> w' = w \<and> (\<exists>i<length names. names ! i = latin1_to_utf8 s \<and> r = Atom_term (int i))
        else if must_exist then r = Badarg \<and> t' = t \<and> w' = w
        else r = Atom_term (int (length names)) \<and> atoms_ok t' w' (names @ [latin1_to_utf8 s])"
proof -
  let ?r = "binary_to_atom t bytes beyond (Some enc) must_exist w"
  have d: "denotes enc bytes (map uint s)" using bytes latin1_utf8_text valid_latin1 by (auto simp: denotes_def)
  have l: "length bytes < 32768" if "length s \<le> 255" using that bytes length_latin1 [of s] by (auto simp: latin1_utf8_text)
  have r: "?r = (if 255 < length s then Inr (System_limit, t, w) else put_or_get t bytes beyond enc must_exist w)"
    using bytes scan_encoded [of 0 s] by (auto simp: binary_to_atom_def MAX_ATOM_CHARACTERS_def latin1_to_utf8_concat)
  show "case ?r of
      Inl e \<Rightarrow> \<not> must_exist \<and> table_full t names \<and> latin1_to_utf8 s \<notin> set names \<and>
        e = Atom_index_error (No_more_index_entries (t_limit t))
    | Inr (r, t', w') \<Rightarrow>
        if 255 < length s then r = System_limit \<and> t' = t \<and> w' = w
        else if latin1_to_utf8 s \<in> set names
        then t' = t \<and> w' = w \<and> (\<exists>i<length names. names ! i = latin1_to_utf8 s \<and> r = Atom_term (int i))
        else if must_exist then r = Badarg \<and> t' = t \<and> w' = w
        else r = Atom_term (int (length names)) \<and> atoms_ok t' w' (names @ [latin1_to_utf8 s])"
  proof (cases "255 < length s")
    case False
    then have c: "length (map uint s) \<le> 255" by simp
    show ?thesis
    proof (cases must_exist)
      case True
      from get_text [OF ok d c, where beyond = beyond] obtain res where
        g: "erts_atom_get t (bytes @ beyond) (int (length bytes)) enc w = Inr res"
          "case res of None \<Rightarrow> latin1_to_utf8 s \<notin> set names
           | Some i \<Rightarrow> 0 \<le> i \<and> nat i < length names \<and> names ! nat i = latin1_to_utf8 s"
        unfolding latin1_utf8_text by blast
      have "?r = Inr (case res of None \<Rightarrow> Badarg | Some i \<Rightarrow> Atom_term i, t, w)"
        using r False True g(1) by (simp add: put_or_get_def)
      with g(2) False True show ?thesis
        using nth_mem [of "nat (the res)" names] by (cases res) (auto intro: exI [of _ "nat (the res)"])
    next
      case me: False
      then have e: "?r = map_sum id (\<lambda>(r, tw). (case r of None \<Rightarrow> Badarg | Some i \<Rightarrow> Atom_term i, tw))
          (erts_atom_put t (bytes @ beyond) (int (length bytes)) enc False w)"
        using r False by (simp add: put_or_get_def)
      have "put_result t w names (latin1_to_utf8 s) (erts_atom_put t (bytes @ beyond) (int (length bytes)) enc False w)"
        using put_text [OF ok d _ l, of False beyond] False by (simp add: latin1_utf8_text)
      then show ?thesis unfolding e put_result_def using me False by (auto split: if_splits)
    qed
  qed (simp add: r)
qed

lemma binary_refused:
  assumes "\<And>s. text \<noteq> latin1_to_utf8 s"
  shows "binary_to_atom t text beyond (Some ERTS_ATOM_ENC_UTF8) must_exist w \<in> {Inr (Badarg, t, w), Inr (System_limit, t, w)}"
proof -
  have "scan_atom_text text 0 \<noteq> Scan_done" using scan_done [of "text" 0] assms by auto
  then show ?thesis by (cases "scan_atom_text text 0") (auto simp: binary_to_atom_def)
qed

lemma is_atom_bytes:
  assumes "atoms_ok t w names" and "i < length names"
  shows "erts_is_atom_utf8_bytes t text i \<longleftrightarrow> names ! i = text"
proof -
  have "entry_ok atom_key t w (name_key (names ! i)) i" using assms by (auto simp: atoms_ok_def index_rep_def)
  then obtain p where "erts_index_lookup t i = Some p" "atom_key p = name_key (names ! i)" by (auto simp: entry_ok_def)
  then show ?thesis by (auto simp: erts_is_atom_utf8_bytes_def atom_tab_def atom_key_def name_key_def)
qed

subsection \<open>Properties\<close>

text \<open>
  The hash value of an atom whose name is Latin-1 text is the hashpjw value of that text, as
  it was before names were kept in UTF-8, whatever the memory behind the name holds.
\<close>

theorem atom_hash_latin1:
  "atom_hash \<lparr>a_name = latin1_to_utf8 s @ beyond, a_len = int (length (latin1_to_utf8 s)), latin1_chars = l, ord0 = d\<rparr> =
     Some (fold (\<lambda>b h. hashpjw_step h b) s 0)"
proof -
  have "fold char_hash (map uint s) h = fold (\<lambda>b h. hashpjw_step h b) s h" for h
  proof (induction s arbitrary: h)
    case (Cons b s)
    have "char_hash (uint b) h = hashpjw_step h b" using uint_byte_bounds [of b] by (simp add: char_hash_def)
    with Cons show ?case by simp
  qed simp
  with hash_text [OF valid_latin1 [of s], of 0 beyond 0] show ?thesis by (simp add: atom_hash_def latin1_utf8_text)
qed

text \<open>
  C16: erts\_atom\_put of a text in any of the three encodings gives the atom whose name is the
  UTF-8 encoding of its characters (of the first 255, if truncation is asked for): the index it
  already has, with nothing changed, or the next index, with the name appended to the names of the
  table; or the exit of the full table. Nothing is read beyond the name, and text space does not run over.
\<close>

theorem erts_atom_put_spec:
  assumes ok: "atoms_ok t w names" and d: "denotes enc text cs" and tr: "trunc \<or> length cs \<le> 255"
    and l: "length text < 32768"
  shows "put_result t w names (utf8_text (take 255 cs))
    (erts_atom_put t (text @ beyond) (int (length text)) enc trunc w)"
  by (rule put_text [OF assms])

theorem erts_atom_put_spec_witness:
  "\<exists>t w t' w'. init_atom_table [[0x6F, 0x6B]] 1024 = Inr (t, w) \<and>
     erts_atom_put t [0xE5] 1 ERTS_ATOM_ENC_LATIN1 False w = Inr (Some 1, t', w') \<and>
     atoms_ok t' w' [[0x6F, 0x6B], [0xC3, 0xA5]]"
proof -
  obtain t w where t: "init_atom_table [[0x6F, 0x6B]] 1024 = Inr (t, w)" "atoms_ok t w [[0x6F, 0x6B]]" "t_limit t = 1024"
    by (rule example_atoms)
  have n: "utf8_text [0xE5] = [0xC3, 0xA5]" by code_simp
  have "denotes ERTS_ATOM_ENC_LATIN1 [0xE5] [0xE5]" by (simp add: denotes_def)
  from erts_atom_put_spec [OF t(2) this, of False "[]"] t n show ?thesis
    by (auto simp: put_result_def table_full_def simp del: utf8_text_simps)
qed



text \<open>
  The arguments erts\_atom\_get does not check: a long Latin-1 text is converted into a buffer for
  255 characters, and a UTF-8 text of 32768 bytes or more has a negative length in the template.
\<close>

lemma atom_get_overflow:
  assumes "s \<noteq> []" and "list_all (\<lambda>b. b AND 0x80 \<noteq> 0) s" and "255 < length s"
  shows "erts_atom_get t (s @ beyond) (int (length s)) ERTS_ATOM_ENC_LATIN1 w = Inl Buffer_overflow"
proof -
  have "length (latin1_to_utf8 s) = 2 * length s"
    using assms(2) unfolding latin1_to_utf8_concat by (induction s) (auto simp: latin1_char_def simp del: byte_and)
  moreover have "\<not> list_all (\<lambda>b. b AND 0x80 = 0) s" using assms(1,2) by (cases s) auto
  ultimately show ?thesis using assms(3)
    by (simp add: erts_atom_get_def latin1_text_def Let_def MAX_ATOM_SZ_FROM_LATIN1_def MAX_ATOM_CHARACTERS_def
        del: byte_and)
qed

lemma sint16_negative: "32768 \<le> x \<Longrightarrow> x < 65536 \<Longrightarrow> sint16 x < 0"
proof -
  assume x: "32768 \<le> x" "x < 65536"
  have "(x - 32768 + 65536) mod 65536 = x - 32768" using x by (simp only: mod_add_self2 mod_pos_pos_trivial)
  moreover have "x - 32768 + 65536 = x + 32768" by simp
  ultimately have "(x + 32768) mod 65536 = x - 32768" by simp
  then have "signed_take_bit 15 x = x - 65536"
    by (simp add: signed_take_bit_eq_take_bit_shift take_bit_eq_mod)
  with x show ?thesis by (simp add: sint16_def sint_sbintrunc')
qed

lemma atom_get_negative:
  assumes "32768 \<le> len" and "len < 65536"
  shows "erts_atom_get t mem len ERTS_ATOM_ENC_UTF8 w = Inl Name_overread"
  using hash_negative [OF sint16_negative [OF assms]]
  by (simp add: erts_atom_get_def atom_index_get_def atom_template_def atom_hash_def)

text \<open>
  C19: a text that is given as UTF-8 and ends in the lead byte of a Latin-1 character is hashed
  before it is verified: if a continuation byte happens to follow in memory, the loop of atom\_hash
  steps over the end of the name and runs on through everything behind it.
\<close>

theorem atom_put_overread:
  assumes "list_all valid_cp cs" and "v AND 0xFE = 0xC2" and "c AND 0xC0 = 0x80"
    and "length (utf8_text cs) < 1020"
  shows "erts_atom_put t (utf8_text cs @ [v, c] @ beyond) (int (length (utf8_text cs)) + 1) ERTS_ATOM_ENC_UTF8 trunc w =
    Inl Name_overread"
proof -
  let ?n = "length (utf8_text cs)"
  have "atom_hash_loop (utf8_text cs @ [v, c] @ beyond) (int ?n + 1) 0 = None"
    using hash_text [OF assms(1), of 1 "[v, c] @ beyond" 0] assms(2,3)
    by (simp add: hash_clutch hash_negative del: byte_and)
  then have "atom_hash (slot_data (atom_template (utf8_text cs @ [v, c] @ beyond) (int ?n + 1) 0)) = None"
    using assms(4) by (simp add: atom_hash_def atom_template_def sint16_small)
  then show ?thesis using assms(4)
    by (simp add: erts_atom_put_def atom_text_def atom_index_get_def MAX_ATOM_SZ_LIMIT_def MAX_ATOM_CHARACTERS_def)
qed

theorem atom_put_overread_witness:
  "\<forall>t beyond w. erts_atom_put t ([0x61, 0xC3, 0x80] @ beyond) 2 ERTS_ATOM_ENC_UTF8 False w = Inl Name_overread"
proof -
  have "utf8_text [0x61] = [0x61]" by code_simp
  with atom_put_overread [where cs = "[0x61]" and v = "0xC3" and c = "0x80" and trunc = False] show ?thesis
    by (simp add: valid_cp_def del: utf8_text_simps)
qed

text \<open>
  erts\_atom\_get finds an atom exactly if the UTF-8 encoding of the text's characters is one of the
  names, whichever encoding the text is given in, and gives the index erts\_atom\_put gives.
\<close>

theorem erts_atom_get_spec:
  assumes ok: "atoms_ok t w names" and d: "denotes enc text cs" and l: "length cs \<le> 255"
  shows "\<exists>r. erts_atom_get t (text @ beyond) (int (length text)) enc w = Inr r \<and>
    (case r of None \<Rightarrow> utf8_text cs \<notin> set names
     | Some i \<Rightarrow> 0 \<le> i \<and> nat i < length names \<and> names ! nat i = utf8_text cs)"
  by (rule get_text [OF assms])

theorem erts_atom_get_spec_witness:
  "\<exists>t w. init_atom_table [[0x6F, 0x6B]] 1024 = Inr (t, w) \<and>
     erts_atom_get t [0x6F, 0x6B] 2 ERTS_ATOM_ENC_LATIN1 w = Inr (Some 0)"
proof -
  obtain t w where t: "init_atom_table [[0x6F, 0x6B]] 1024 = Inr (t, w)" "atoms_ok t w [[0x6F, 0x6B]]"
    by (rule example_atoms)
  have n: "utf8_text [0x6F, 0x6B] = [0x6F, 0x6B]" by code_simp
  have "denotes ERTS_ATOM_ENC_LATIN1 [0x6F, 0x6B] [0x6F, 0x6B]" by (simp add: denotes_def)
  from erts_atom_get_spec [OF t(2) this, where beyond = "[]"] t(1) n show ?thesis
    by (auto simp del: utf8_text_simps split: option.splits)
qed

text \<open>
  C18: binary\_to\_atom and binary\_to\_existing\_atom treat a Latin-1 text the same way as latin1 and
  as utf8: more than 255 characters are a system\_limit, otherwise the atom with that name is found, or
  made if it need not exist; as utf8, every binary that is not the encoding of a Latin-1 text is refused.
\<close>

theorem binary_to_atom_spec:
  assumes ok: "atoms_ok t w names"
    and bytes: "enc = ERTS_ATOM_ENC_LATIN1 \<and> bytes = s \<or> enc = ERTS_ATOM_ENC_UTF8 \<and> bytes = latin1_to_utf8 s"
  shows "(case binary_to_atom t bytes beyond (Some enc) must_exist w of
      Inl e \<Rightarrow> \<not> must_exist \<and> table_full t names \<and> latin1_to_utf8 s \<notin> set names \<and>
        e = Atom_index_error (No_more_index_entries (t_limit t))
    | Inr (r, t', w') \<Rightarrow>
        if 255 < length s then r = System_limit \<and> t' = t \<and> w' = w
        else if latin1_to_utf8 s \<in> set names
        then t' = t \<and> w' = w \<and> (\<exists>i<length names. names ! i = latin1_to_utf8 s \<and> r = Atom_term (int i))
        else if must_exist then r = Badarg \<and> t' = t \<and> w' = w
        else r = Atom_term (int (length names)) \<and> atoms_ok t' w' (names @ [latin1_to_utf8 s])) \<and>
    ((\<forall>s. other \<noteq> latin1_to_utf8 s) \<longrightarrow>
       binary_to_atom t other beyond (Some ERTS_ATOM_ENC_UTF8) must_exist w \<in> {Inr (Badarg, t, w), Inr (System_limit, t, w)})"
  using binary_text [OF assms] binary_refused by blast

theorem binary_to_atom_spec_witness:
  "\<exists>t w t' w'. init_atom_table [[0x6F, 0x6B]] 1024 = Inr (t, w) \<and>
     binary_to_atom t [0xE5] [] (Some ERTS_ATOM_ENC_LATIN1) False w = Inr (Atom_term 1, t', w') \<and>
     atoms_ok t' w' [[0x6F, 0x6B], [0xC3, 0xA5]] \<and>
     binary_to_atom t [0xC3] [0x80] (Some ERTS_ATOM_ENC_UTF8) False w \<in> {Inr (Badarg, t, w), Inr (System_limit, t, w)}"
proof -
  obtain t w where t: "init_atom_table [[0x6F, 0x6B]] 1024 = Inr (t, w)" "atoms_ok t w [[0x6F, 0x6B]]" "t_limit t = 1024"
    by (rule example_atoms)
  have n: "latin1_to_utf8 [0xE5] = [0xC3, 0xA5]" by code_simp
  have "scan_atom_text (latin1_to_utf8 s) 0 \<noteq> Scan_bad" for s
    using scan_encoded [of 0 s] by (simp add: latin1_to_utf8_concat)
  moreover have "scan_atom_text [0xC3] 0 = Scan_bad" by code_simp
  ultimately have "[0xC3] \<noteq> latin1_to_utf8 s" for s by metis
  with binary_to_atom_spec [OF t(2), where enc = ERTS_ATOM_ENC_LATIN1 and bytes = "[0xE5]" and s = "[0xE5]" and
      must_exist = False and other = "[0xC3]" and beyond = "[0x80]"]
  have "binary_to_atom t [0xC3] [0x80] (Some ERTS_ATOM_ENC_UTF8) False w \<in> {Inr (Badarg, t, w), Inr (System_limit, t, w)}"
    by auto
  moreover have "\<exists>t' w'. binary_to_atom t [0xE5] [] (Some ERTS_ATOM_ENC_LATIN1) False w = Inr (Atom_term 1, t', w') \<and>
      atoms_ok t' w' [[0x6F, 0x6B], [0xC3, 0xA5]]"
    using binary_to_atom_spec [OF t(2), where enc = ERTS_ATOM_ENC_LATIN1 and bytes = "[0xE5]" and s = "[0xE5]" and
      must_exist = False and other = "[]" and beyond = "[]", THEN conjunct1] t(3) n
    by (auto simp: table_full_def split: sum.splits prod.splits)
  ultimately show ?thesis using t(1) by blast
qed

end
