(* ===== verification/Time_Wheel.thy ===== *)
theory Time_Wheel
  imports Prelude
begin

section \<open>The timing wheel: time.c\<close>

text \<open>
  Timers are kept in a wheel of TIW\_SIZE slots. An ErlTimer is known by its address; its fields are
  in a store, and the doubly linked list of a slot is the list of the addresses of its timers, from
  the head. The resolution of the clock is constant, one tick of one millisecond (TIW\_ITIME), as in
  the Unix build. \<open>do_time\<close> is the time delivered by the clock and not yet processed, a signed 32-bit
  number. Each operation holds the lock and is one step; the callbacks of a timer are called after
  it, and are returned as the list of calls.
\<close>

record ('f, 'a) erl_timer =
  t_slot :: nat
  t_count :: nat
  t_active :: bool
  t_timeout :: 'f
  t_cancel :: "'f option"
  t_arg :: 'a

record ('f, 'a) wheel =
  timers :: "nat \<Rightarrow> ('f, 'a) erl_timer"
  tiw :: "nat \<Rightarrow> nat list"
  tiw_pos :: nat
  tiw_nto :: nat
  tiw_min :: nat
  tiw_min_ptr :: "nat option"
  do_time :: int

datatype time_error = Internal_time_management_error

definition TIW_SIZE :: nat where "TIW_SIZE = 65536"

definition ERTS_SHORT_TIME_T_MAX :: int where "ERTS_SHORT_TIME_T_MAX = 2 ^ 31 - 1"

text \<open>The conversion to erts\_short\_time\_t.\<close>

definition short_time :: "int \<Rightarrow> int" where
  "short_time x = sint (word_of_int x :: Uint32)"

subsection \<open>The clock\<close>

definition erts_do_time_add :: "int \<Rightarrow> ('f, 'a) wheel \<Rightarrow> ('f, 'a) wheel" where
  "erts_do_time_add elapsed s = s\<lparr>do_time := short_time (do_time s + elapsed)\<rparr>"

definition erts_do_time_read_and_reset :: "('f, 'a) wheel \<Rightarrow> time_error + int \<times> ('f, 'a) wheel" where
  "erts_do_time_read_and_reset s =
     (if do_time s < 0 then Inl Internal_time_management_error else Inr (do_time s, s\<lparr>do_time := 0\<rparr>))"

subsection \<open>The next timeout\<close>

text \<open>
  The inner loop of next\_time\_internal over the timers of one slot, \<open>tm\<close> ticks away: the first
  timer whose count is 0 (Inl), or the number of timers seen, the least time so far and its timer.
\<close>

fun scan_chain ::
  "('f, 'a) wheel \<Rightarrow> nat \<Rightarrow> nat list \<Rightarrow> nat \<times> nat \<times> nat option \<Rightarrow> nat + nat \<times> nat \<times> nat option" where
  "scan_chain s tm [] acc = Inr acc"
| "scan_chain s tm (p # ps) (nto, mn, ptr) =
     (if t_count (timers s p) = 0 then Inl p
      else if tm + t_count (timers s p) * TIW_SIZE < mn
      then scan_chain s tm ps (nto + 1, tm + t_count (timers s p) * TIW_SIZE, Some p)
      else scan_chain s tm ps (nto + 1, mn, ptr))"

text \<open>
  The outer loop, with \<open>n\<close> slots left: a timer with count 0 and its time, or the least time with
  its timer.
\<close>

fun scan_wheel ::
  "('f, 'a) wheel \<Rightarrow> nat \<Rightarrow> nat \<Rightarrow> nat \<Rightarrow> nat \<times> nat \<times> nat option \<Rightarrow> nat \<times> nat + nat \<times> nat option" where
  "scan_wheel s n i tm acc =
     (if n = 0 then Inr (snd acc)
      else case scan_chain s tm (tiw s i) acc of
        Inl p \<Rightarrow> Inl (p, tm)
      | Inr acc' \<Rightarrow>
          if fst acc' = tiw_nto s then Inr (snd acc')
          else scan_wheel s (n - 1) ((i + 1) mod TIW_SIZE) (tm + 1) acc')"

declare scan_wheel.simps [simp del]

text \<open>
  The result and the wheel with the timer found noted as the next one. The comparison and the
  difference of the first branch are on 32-bit unsigned numbers.
\<close>

definition next_time_internal :: "('f, 'a) wheel \<Rightarrow> int \<times> ('f, 'a) wheel" where
  "next_time_internal s =
     (let dt = do_time s in
      if tiw_nto s = 0 then (- 1, s)
      else if tiw_min_ptr s \<noteq> None then
        let mn = of_nat (tiw_min s) :: Uint32 in
        (if mn \<ge> word_of_int dt then (sint (mn - word_of_int dt), s) else (0, s))
      else case scan_wheel s TIW_SIZE (tiw_pos s) 0 (0, 2 ^ 32 - 1, None) of
        Inl (p, tm) \<Rightarrow>
          (if int tm \<ge> dt then int tm - dt else 0, s\<lparr>tiw_min_ptr := Some p, tiw_min := tm\<rparr>)
      | Inr (mn, ptr) \<Rightarrow>
          let s' = (case ptr of None \<Rightarrow> s | Some p \<Rightarrow> s\<lparr>tiw_min_ptr := Some p, tiw_min := mn\<rparr>);
              d = uint (word_of_int dt :: Uint32)
          in (if int mn \<le> d then 0
              else if int mn - d > ERTS_SHORT_TIME_T_MAX then ERTS_SHORT_TIME_T_MAX
              else int mn - d, s'))"

definition erts_next_time :: "('f, 'a) wheel \<Rightarrow> int \<times> ('f, 'a) wheel" where
  "erts_next_time s = next_time_internal s"

subsection \<open>Removing and inserting timers\<close>

definition remove_timer :: "nat \<Rightarrow> ('f, 'a) wheel \<Rightarrow> ('f, 'a) wheel" where
  "remove_timer p s =
     s\<lparr>tiw := (tiw s)(t_slot (timers s p) := remove1 p (tiw s (t_slot (timers s p)))),
       timers := (timers s)(p := (timers s p)\<lparr>t_active := False\<rparr>),
       tiw_nto := tiw_nto s - 1\<rparr>"

definition clear_min :: "nat \<Rightarrow> ('f, 'a) wheel \<Rightarrow> ('f, 'a) wheel" where
  "clear_min p s = (if tiw_min_ptr s = Some p then s\<lparr>tiw_min_ptr := None, tiw_min := 0\<rparr> else s)"

definition insert_timer :: "nat \<Rightarrow> nat \<Rightarrow> ('f, 'a) wheel \<Rightarrow> ('f, 'a) wheel" where
  "insert_timer p t s =
     (let ticks = (t + nat (do_time s)) mod 2 ^ 64;
          tm = (ticks + tiw_pos s) mod TIW_SIZE;
          s1 = s\<lparr>timers := (timers s)(p := (timers s p)\<lparr>t_slot := tm, t_count := ticks div TIW_SIZE\<rparr>),
                 tiw := (tiw s)(tm := p # tiw s tm)\<rparr>;
          s2 = (if tiw_nto s1 = 0 \<or> (tiw_min_ptr s1 \<noteq> None \<and> ticks < tiw_min s1)
                then s1\<lparr>tiw_min := ticks, tiw_min_ptr := Some p\<rparr> else s1);
          s3 = (if tiw_min_ptr s2 = Some p \<and> ticks > tiw_min s2
                then s2\<lparr>tiw_min := 0, tiw_min_ptr := None\<rparr> else s2)
      in s3\<lparr>tiw_nto := tiw_nto s3 + 1\<rparr>)"

text \<open>erts\_deliver\_time first adds the time that has passed, \<open>elapsed\<close>, to do\_time.\<close>

definition erts_set_timer ::
  "nat \<Rightarrow> 'f \<Rightarrow> 'f option \<Rightarrow> 'a \<Rightarrow> nat \<Rightarrow> int \<Rightarrow> ('f, 'a) wheel \<Rightarrow> ('f, 'a) wheel" where
  "erts_set_timer p timeout cancel arg t elapsed s =
     (let s0 = erts_do_time_add elapsed s in
      if t_active (timers s0 p) then s0
      else insert_timer p t (s0\<lparr>timers := (timers s0)(p := (timers s0 p)
             \<lparr>t_timeout := timeout, t_cancel := cancel, t_arg := arg, t_active := True\<rparr>)\<rparr>))"

text \<open>The second result is the call of the cancel callback.\<close>

definition erts_cancel_timer :: "nat \<Rightarrow> ('f, 'a) wheel \<Rightarrow> ('f, 'a) wheel \<times> ('f \<times> 'a) option" where
  "erts_cancel_timer p s =
     (if \<not> t_active (timers s p) then (s, None)
      else let s1 = remove_timer p (clear_min p s);
               s2 = s1\<lparr>timers := (timers s1)(p := (timers s1 p)\<lparr>t_slot := 0, t_count := 0\<rparr>)\<rparr>
        in (s2, map_option (\<lambda>f. (f, t_arg (timers s2 p))) (t_cancel (timers s2 p))))"

definition erts_time_left :: "nat \<Rightarrow> ('f, 'a) wheel \<Rightarrow> int" where
  "erts_time_left p s =
     (let x = timers s p;
          left = (if t_slot x < tiw_pos s then (t_count x + 1) * TIW_SIZE + t_slot x - tiw_pos s
                  else t_count x * TIW_SIZE + t_slot x - tiw_pos s)
      in if \<not> t_active x then 0 else if int left < do_time s then 0 else int left - do_time s)"

subsection \<open>Advancing the wheel\<close>

text \<open>The inner loop of bump\_timer\_internal; the queue of timeouts is appended to.\<close>

fun bump_chain :: "nat \<Rightarrow> nat list \<Rightarrow> ('f, 'a) wheel \<Rightarrow> nat list \<Rightarrow> ('f, 'a) wheel \<times> nat list" where
  "bump_chain cnt [] s timeouts = (s, timeouts)"
| "bump_chain cnt (p # ps) s timeouts =
     (if t_count (timers s p) < cnt
      then bump_chain cnt ps (remove_timer p (clear_min p s)) (timeouts @ [p])
      else bump_chain cnt ps
        (s\<lparr>timers := (timers s)(p := (timers s p)\<lparr>t_count := t_count (timers s p) - cnt\<rparr>)\<rparr>) timeouts)"

text \<open>The outer loop, with \<open>dtime\<close> slots left.\<close>

fun bump_loop ::
  "nat \<Rightarrow> nat \<Rightarrow> nat \<Rightarrow> ('f, 'a) wheel \<Rightarrow> nat list \<Rightarrow> ('f, 'a) wheel \<times> nat list" where
  "bump_loop dtime cnt keep_pos s timeouts =
     (if dtime = 0 then (s, timeouts)
      else let cnt' = (if tiw_pos s = keep_pos then cnt - 1 else cnt) in
        case bump_chain cnt' (tiw s (tiw_pos s)) s timeouts of
          (s1, timeouts') \<Rightarrow>
            bump_loop (dtime - 1) cnt' keep_pos (s1\<lparr>tiw_pos := (tiw_pos s1 + 1) mod TIW_SIZE\<rparr>) timeouts')"

declare bump_loop.simps [simp del]

text \<open>The fields reset just before the timeout callback.\<close>

definition reset_slot :: "nat \<Rightarrow> ('f, 'a) wheel \<Rightarrow> ('f, 'a) wheel" where
  "reset_slot p s = s\<lparr>timers := (timers s)(p := (timers s p)\<lparr>t_slot := 0\<rparr>)\<rparr>"

text \<open>The second result is the queue of timeouts, whose callbacks are called in this order.\<close>

definition bump_timer_internal :: "nat \<Rightarrow> ('f, 'a) wheel \<Rightarrow> ('f, 'a) wheel \<times> nat list" where
  "bump_timer_internal dt s =
     (if tiw_nto s = 0 then (s, [])
      else let cnt = dt div TIW_SIZE + 1;
               keep_pos = (tiw_pos s + dt) mod TIW_SIZE;
               dtime = (if dt > TIW_SIZE then TIW_SIZE else dt)
        in case bump_loop dtime cnt keep_pos s [] of
             (s1, timeouts) \<Rightarrow>
               let s2 = s1\<lparr>tiw_pos := keep_pos\<rparr>;
                   s3 = (if tiw_min_ptr s2 \<noteq> None then s2\<lparr>tiw_min := tiw_min s2 - dt\<rparr> else s2)
               in (fold reset_slot timeouts s3, timeouts))"

definition timeout_calls :: "('f, 'a) wheel \<Rightarrow> nat list \<Rightarrow> ('f \<times> 'a) list" where
  "timeout_calls s ps = map (\<lambda>p. (t_timeout (timers s p), t_arg (timers s p))) ps"

definition erts_bump_timer :: "nat \<Rightarrow> ('f, 'a) wheel \<Rightarrow> ('f, 'a) wheel \<times> nat list" where
  "erts_bump_timer dt s = bump_timer_internal dt s"

text \<open>How the schedulers advance the wheel: with the time taken from the clock.\<close>

definition schedule_bump :: "('f, 'a) wheel \<Rightarrow> time_error + ('f, 'a) wheel \<times> nat list" where
  "schedule_bump s =
     (case erts_do_time_read_and_reset s of
        Inl e \<Rightarrow> Inl e
      | Inr (dt, s') \<Rightarrow> Inr (if dt \<noteq> 0 then erts_bump_timer (nat dt) s' else (s', [])))"

definition erts_init_time :: "(nat \<Rightarrow> ('f, 'a) erl_timer) \<Rightarrow> ('f, 'a) wheel" where
  "erts_init_time memory =
     \<lparr>timers = memory, tiw = (\<lambda>_. []), tiw_pos = 0, tiw_nto = 0, tiw_min = 0, tiw_min_ptr = None,
      do_time = 0\<rparr>"

definition erts_timer_wheel_memory_size :: nat where
  "erts_timer_wheel_memory_size = TIW_SIZE * 8"

subsection \<open>The invariant and the abstract value\<close>

text \<open>The ticks left until a timer of the wheel times out.\<close>

definition slot_offset :: "nat \<Rightarrow> nat \<Rightarrow> nat" where
  "slot_offset pos j = (j + TIW_SIZE - pos) mod TIW_SIZE"

definition ticks_left :: "('f, 'a) wheel \<Rightarrow> nat \<Rightarrow> nat" where
  "ticks_left s p = t_count (timers s p) * TIW_SIZE + slot_offset (tiw_pos s) (t_slot (timers s p))"

text \<open>The abstract value of the wheel: the ticks left of the active timers.\<close>

definition pending :: "('f, 'a) wheel \<Rightarrow> nat \<rightharpoonup> nat" where
  "pending s p = (if t_active (timers s p) then Some (ticks_left s p) else None)"

definition chains_ok :: "('f, 'a) wheel \<Rightarrow> bool" where
  "chains_ok s \<longleftrightarrow> tiw_pos s < TIW_SIZE \<and> (\<forall>j. distinct (tiw s j)) \<and>
     (\<forall>p j. p \<in> set (tiw s j) \<longleftrightarrow> j < TIW_SIZE \<and> t_slot (timers s p) = j \<and> t_active (timers s p)) \<and>
     (\<forall>p. t_active (timers s p) \<longrightarrow> t_slot (timers s p) < TIW_SIZE) \<and>
     finite {p. t_active (timers s p)} \<and> tiw_nto s = card {p. t_active (timers s p)}"

definition min_ok :: "('f, 'a) wheel \<Rightarrow> bool" where
  "min_ok s \<longleftrightarrow> (\<forall>p. tiw_min_ptr s = Some p \<longrightarrow> t_active (timers s p) \<and> tiw_min s = ticks_left s p \<and>
     (\<forall>x. t_active (timers s x) \<longrightarrow> tiw_min s \<le> ticks_left s x))"

definition wheel_ok :: "('f, 'a) wheel \<Rightarrow> bool" where
  "wheel_ok s \<longleftrightarrow> chains_ok s \<and> min_ok s \<and> 0 \<le> do_time s \<and> do_time s < 2 ^ 31"

subsection \<open>One slot\<close>

lemma remove_timer_sel [simp]:
  "tiw_pos (remove_timer p s) = tiw_pos s" "tiw_min (remove_timer p s) = tiw_min s"
  "tiw_min_ptr (remove_timer p s) = tiw_min_ptr s" "do_time (remove_timer p s) = do_time s"
  "tiw_nto (remove_timer p s) = tiw_nto s - 1"
  by (simp_all add: remove_timer_def)

lemma clear_min_sel [simp]:
  "tiw_pos (clear_min p s) = tiw_pos s" "timers (clear_min p s) = timers s" "tiw (clear_min p s) = tiw s"
  "tiw_nto (clear_min p s) = tiw_nto s" "do_time (clear_min p s) = do_time s"
  "tiw_min_ptr (clear_min p s) = (if tiw_min_ptr s = Some p then None else tiw_min_ptr s)"
  by (simp_all add: clear_min_def)

text \<open>What the inner loop does to the chain it walks; the timers it walks are in slot \<open>j\<close>.\<close>

definition expired :: "('f, 'a) wheel \<Rightarrow> nat \<Rightarrow> nat \<Rightarrow> bool" where
  "expired s cnt p \<longleftrightarrow> t_count (timers s p) < cnt"

definition after_bump :: "('f, 'a) wheel \<Rightarrow> nat \<Rightarrow> nat \<Rightarrow> ('f, 'a) erl_timer" where
  "after_bump s cnt p =
     (if expired s cnt p then (timers s p)\<lparr>t_active := False\<rparr>
      else (timers s p)\<lparr>t_count := t_count (timers s p) - cnt\<rparr>)"

lemma bump_chain_ok:
  assumes "distinct ps" and "\<And>p. p \<in> set ps \<Longrightarrow> t_slot (timers s p) = j" and "distinct (tiw s j)"
    and "bump_chain cnt ps s q = (s', q')"
  shows "q' = q @ filter (expired s cnt) ps \<and>
    timers s' = (\<lambda>p. if p \<in> set ps then after_bump s cnt p else timers s p) \<and>
    tiw s' = (tiw s)(j := filter (\<lambda>p. \<not> (p \<in> set ps \<and> expired s cnt p)) (tiw s j)) \<and>
    tiw_nto s' = tiw_nto s - length (filter (expired s cnt) ps) \<and>
    tiw_pos s' = tiw_pos s \<and> do_time s' = do_time s \<and>
    (if \<exists>p\<in>set ps. expired s cnt p \<and> tiw_min_ptr s = Some p then tiw_min_ptr s' = None
     else tiw_min_ptr s' = tiw_min_ptr s \<and> tiw_min s' = tiw_min s)"
  using assms
proof (induction ps arbitrary: s q)
  case Nil
  then show ?case by auto
next
  case (Cons p ps)
  have p: "p \<notin> set ps" "distinct ps" "t_slot (timers s p) = j" using Cons.prems by simp_all
  show ?case
  proof (cases "expired s cnt p")
    case True
    let ?s = "remove_timer p (clear_min p s)"
    have t: "timers ?s = (timers s)(p := (timers s p)\<lparr>t_active := False\<rparr>)"
      "tiw ?s = (tiw s)(j := filter (\<lambda>x. x \<noteq> p) (tiw s j))"
      using p(3) Cons.prems(3) by (simp_all add: remove_timer_def distinct_remove1_removeAll removeAll_filter_not_eq neq_commute)
    have e: "expired ?s cnt x = expired s cnt x" "after_bump ?s cnt x = after_bump s cnt x" if "x \<in> set ps" for x
      using that p(1) t(1) by (auto simp: expired_def after_bump_def)
    have b: "bump_chain cnt ps ?s (q @ [p]) = (s', q')" using Cons.prems(4) True by (simp add: expired_def)
    have "\<And>x. x \<in> set ps \<Longrightarrow> t_slot (timers ?s x) = j" using Cons.prems(2) p t(1) by auto
    moreover have "distinct (tiw ?s j)" using Cons.prems(3) t(2) by simp
    ultimately have ih: "q' = (q @ [p]) @ filter (expired ?s cnt) ps"
      "timers s' = (\<lambda>x. if x \<in> set ps then after_bump ?s cnt x else timers ?s x)"
      "tiw s' = (tiw ?s)(j := filter (\<lambda>x. \<not> (x \<in> set ps \<and> expired ?s cnt x)) (tiw ?s j))"
      "tiw_nto s' = tiw_nto ?s - length (filter (expired ?s cnt) ps)"
      "tiw_pos s' = tiw_pos ?s" "do_time s' = do_time ?s"
      "if \<exists>x\<in>set ps. expired ?s cnt x \<and> tiw_min_ptr ?s = Some x then tiw_min_ptr s' = None
       else tiw_min_ptr s' = tiw_min_ptr ?s \<and> tiw_min s' = tiw_min ?s"
      using Cons.IH [OF p(2) _ _ b] by auto
    have f: "filter (expired ?s cnt) ps = filter (expired s cnt) ps" using e by (intro filter_cong) auto
    have "timers s' = (\<lambda>x. if x \<in> set (p # ps) then after_bump s cnt x else timers s x)"
      using ih(2) e t(1) True by (auto simp: after_bump_def)
    moreover have "tiw s' = (tiw s)(j := filter (\<lambda>x. \<not> (x \<in> set (p # ps) \<and> expired s cnt x)) (tiw s j))"
      unfolding ih(3) t(2) using e True by (auto intro!: filter_cong simp: fun_eq_iff)
    moreover have "if \<exists>x\<in>set (p # ps). expired s cnt x \<and> tiw_min_ptr s = Some x then tiw_min_ptr s' = None
       else tiw_min_ptr s' = tiw_min_ptr s \<and> tiw_min s' = tiw_min s"
      using ih(7) e True p(1) by (auto simp: clear_min_def split: if_splits)
    ultimately show ?thesis using ih f True by simp
  next
    case False
    let ?s = "s\<lparr>timers := (timers s)(p := (timers s p)\<lparr>t_count := t_count (timers s p) - cnt\<rparr>)\<rparr>"
    have e: "expired ?s cnt x = expired s cnt x" "after_bump ?s cnt x = after_bump s cnt x" if "x \<in> set ps" for x
      using that p(1) by (auto simp: expired_def after_bump_def)
    have b: "bump_chain cnt ps ?s q = (s', q')" using Cons.prems(4) False by (simp add: expired_def)
    have "\<And>x. x \<in> set ps \<Longrightarrow> t_slot (timers ?s x) = j" using Cons.prems(2) p by auto
    moreover have "distinct (tiw ?s j)" using Cons.prems(3) by simp
    ultimately have ih: "q' = q @ filter (expired ?s cnt) ps"
      "timers s' = (\<lambda>x. if x \<in> set ps then after_bump ?s cnt x else timers ?s x)"
      "tiw s' = (tiw ?s)(j := filter (\<lambda>x. \<not> (x \<in> set ps \<and> expired ?s cnt x)) (tiw ?s j))"
      "tiw_nto s' = tiw_nto ?s - length (filter (expired ?s cnt) ps)"
      "tiw_pos s' = tiw_pos ?s" "do_time s' = do_time ?s"
      "if \<exists>x\<in>set ps. expired ?s cnt x \<and> tiw_min_ptr ?s = Some x then tiw_min_ptr s' = None
       else tiw_min_ptr s' = tiw_min_ptr ?s \<and> tiw_min s' = tiw_min ?s"
      using Cons.IH [OF p(2) _ _ b] by auto
    have f: "filter (expired ?s cnt) ps = filter (expired s cnt) ps" using e by (intro filter_cong) auto
    have "timers s' = (\<lambda>x. if x \<in> set (p # ps) then after_bump s cnt x else timers s x)"
      using ih(2) e False p(1) by (auto simp: after_bump_def)
    moreover have "tiw s' = (tiw s)(j := filter (\<lambda>x. \<not> (x \<in> set (p # ps) \<and> expired s cnt x)) (tiw s j))"
      unfolding ih(3) using e False by (auto intro!: filter_cong simp: fun_eq_iff)
    moreover have "if \<exists>x\<in>set (p # ps). expired s cnt x \<and> tiw_min_ptr s = Some x then tiw_min_ptr s' = None
       else tiw_min_ptr s' = tiw_min_ptr s \<and> tiw_min s' = tiw_min s"
      using ih(7) e False by (auto split: if_splits)
    ultimately show ?thesis using ih f False by simp
  qed
qed

subsection \<open>The walk over the slots\<close>

text \<open>The link structure alone.\<close>

definition chains_linked :: "('f, 'a) wheel \<Rightarrow> bool" where
  "chains_linked s \<longleftrightarrow> tiw_pos s < TIW_SIZE \<and> (\<forall>j. distinct (tiw s j)) \<and>
     (\<forall>p j. p \<in> set (tiw s j) \<longleftrightarrow> j < TIW_SIZE \<and> t_slot (timers s p) = j \<and> t_active (timers s p))"

lemma TIW_SIZE_pos [simp]: "0 < TIW_SIZE" "TIW_SIZE \<noteq> 0"
  by (simp_all add: TIW_SIZE_def)

lemma slot_offset_if:
  assumes "pos < TIW_SIZE" and "j < TIW_SIZE"
  shows "slot_offset pos j = (if pos \<le> j then j - pos else j + TIW_SIZE - pos)"
proof (cases "pos \<le> j")
  case True
  then have "j + TIW_SIZE - pos = (j - pos) + TIW_SIZE" using assms by simp
  then have "slot_offset pos j = (j - pos) mod TIW_SIZE" unfolding slot_offset_def by (simp only: mod_add_self2)
  then show ?thesis using True assms by simp
next
  case False
  then show ?thesis using assms by (simp add: slot_offset_def)
qed

lemma slot_offset_less [simp]: "slot_offset pos j < TIW_SIZE"
  by (simp add: slot_offset_def)

lemma mod_Suc_size: "pos < TIW_SIZE \<Longrightarrow> (pos + 1) mod TIW_SIZE = (if pos = TIW_SIZE - 1 then 0 else pos + 1)"
  by (cases "pos = TIW_SIZE - 1") auto

lemma slot_offset_next:
  assumes "pos < TIW_SIZE" and "j < TIW_SIZE"
  shows "slot_offset ((pos + 1) mod TIW_SIZE) j = (if slot_offset pos j = 0 then TIW_SIZE - 1 else slot_offset pos j - 1)"
proof -
  define m where "m = (pos + 1) mod TIW_SIZE"
  have m: "m < TIW_SIZE" "m = (if pos = TIW_SIZE - 1 then 0 else pos + 1)"
    unfolding m_def by simp (rule mod_Suc_size [OF assms(1)])
  show ?thesis
    unfolding m_def [symmetric] slot_offset_if [OF m(1) assms(2)] slot_offset_if [OF assms]
    using assms by (auto simp: m(2))
qed

lemma slot_offset_0: "pos < TIW_SIZE \<Longrightarrow> j < TIW_SIZE \<Longrightarrow> slot_offset pos j = 0 \<longleftrightarrow> j = pos"
  by (auto simp: slot_offset_if)

lemma slot_at_offset: "pos < TIW_SIZE \<Longrightarrow> o' < TIW_SIZE \<Longrightarrow> slot_offset pos ((pos + o') mod TIW_SIZE) = o'"
proof -
  assume a: "pos < TIW_SIZE" "o' < TIW_SIZE"
  have "(pos + o') mod TIW_SIZE = (if pos + o' < TIW_SIZE then pos + o' else pos + o' - TIW_SIZE)"
    using a by (auto simp: mod_if)
  then show ?thesis using a by (auto simp: slot_offset_if)
qed

text \<open>What the loop takes off the counts at an offset: one less from the slot \<open>keep_pos\<close> on.\<close>

definition count_at :: "nat \<Rightarrow> nat \<Rightarrow> nat \<Rightarrow> nat" where
  "count_at cnt keep_off off = cnt - (if keep_off \<le> off then 1 else 0)"

definition offset_of :: "('f, 'a) wheel \<Rightarrow> nat \<Rightarrow> nat" where
  "offset_of s p = slot_offset (tiw_pos s) (t_slot (timers s p))"

definition walked :: "('f, 'a) wheel \<Rightarrow> nat \<Rightarrow> nat \<Rightarrow> bool" where
  "walked s n p \<longleftrightarrow> t_active (timers s p) \<and> t_slot (timers s p) < TIW_SIZE \<and> offset_of s p < n"

definition goes_off :: "('f, 'a) wheel \<Rightarrow> nat \<Rightarrow> nat \<Rightarrow> nat \<Rightarrow> nat \<Rightarrow> bool" where
  "goes_off s n cnt ko p \<longleftrightarrow> walked s n p \<and> expired s (count_at cnt ko (offset_of s p)) p"

definition fired_list :: "('f, 'a) wheel \<Rightarrow> nat \<Rightarrow> nat \<Rightarrow> nat \<Rightarrow> nat list" where
  "fired_list s n cnt ko =
     concat (map (\<lambda>off. filter (expired s (count_at cnt ko off)) (tiw s ((tiw_pos s + off) mod TIW_SIZE))) [0..<n])"

definition bumped ::
  "('f, 'a) wheel \<Rightarrow> nat \<Rightarrow> nat \<Rightarrow> nat \<Rightarrow> nat list \<Rightarrow> ('f, 'a) wheel \<Rightarrow> nat list \<Rightarrow> bool" where
  "bumped s n cnt ko q s' q' \<longleftrightarrow> q' = q @ fired_list s n cnt ko \<and>
    timers s' = (\<lambda>p. if walked s n p then after_bump s (count_at cnt ko (offset_of s p)) p else timers s p) \<and>
    tiw s' = (\<lambda>j. filter (\<lambda>p. \<not> goes_off s n cnt ko p) (tiw s j)) \<and>
    tiw_nto s' = tiw_nto s - length (fired_list s n cnt ko) \<and>
    tiw_pos s' = (tiw_pos s + n) mod TIW_SIZE \<and> do_time s' = do_time s \<and>
    (if \<exists>p. goes_off s n cnt ko p \<and> tiw_min_ptr s = Some p then tiw_min_ptr s' = None
     else tiw_min_ptr s' = tiw_min_ptr s \<and> tiw_min s' = tiw_min s)"

text \<open>The state after one slot: linked, with every other timer one slot nearer.\<close>

definition slot_done :: "('f, 'a) wheel \<Rightarrow> nat \<Rightarrow> ('f, 'a) wheel \<Rightarrow> bool" where
  "slot_done s cnt s2 \<longleftrightarrow>
    timers s2 = (\<lambda>p. if p \<in> set (tiw s (tiw_pos s)) then after_bump s cnt p else timers s p) \<and>
    tiw s2 = (\<lambda>j. filter (\<lambda>p. \<not> (p \<in> set (tiw s (tiw_pos s)) \<and> expired s cnt p)) (tiw s j)) \<and>
    tiw_pos s2 = (tiw_pos s + 1) mod TIW_SIZE"

lemma after_bump_slot [simp]: "t_slot (after_bump s cnt p) = t_slot (timers s p)"
  by (simp add: after_bump_def)

lemma slot_done_facts:
  assumes "chains_linked s" and "slot_done s (count_at cnt ko 0) s2" and "ko < TIW_SIZE" and "Suc n \<le> TIW_SIZE"
  defines "ko2 \<equiv> if ko = 0 then TIW_SIZE - 1 else ko - 1" and "c1 \<equiv> count_at cnt ko 0"
  shows "walked s (Suc n) p \<longleftrightarrow> p \<in> set (tiw s (tiw_pos s)) \<or> walked s2 n p"
    and "walked s2 n p \<Longrightarrow> p \<notin> set (tiw s (tiw_pos s)) \<and> timers s2 p = timers s p \<and>
      count_at c1 ko2 (offset_of s2 p) = count_at cnt ko (offset_of s p)"
    and "p \<in> set (tiw s (tiw_pos s)) \<Longrightarrow> offset_of s p = 0"
    and "fired_list s (Suc n) cnt ko = filter (expired s c1) (tiw s (tiw_pos s)) @ fired_list s2 n c1 ko2"
    and "chains_linked s2"
proof -
  let ?j = "tiw_pos s" and ?S = TIW_SIZE
  have link: "?j < ?S" "\<And>j. distinct (tiw s j)"
    "\<And>p j. p \<in> set (tiw s j) \<longleftrightarrow> j < ?S \<and> t_slot (timers s p) = j \<and> t_active (timers s p)"
    using assms(1) by (auto simp: chains_linked_def)
  have d: "timers s2 = (\<lambda>p. if p \<in> set (tiw s ?j) then after_bump s c1 p else timers s p)"
    "tiw s2 = (\<lambda>j. filter (\<lambda>p. \<not> (p \<in> set (tiw s ?j) \<and> expired s c1 p)) (tiw s j))"
    "tiw_pos s2 = (?j + 1) mod ?S" using assms(2) by (auto simp: slot_done_def c1_def)
  have slot: "t_slot (timers s2 p) = t_slot (timers s p)" for p by (simp add: d(1))
  have off: "offset_of s2 p = (if offset_of s p = 0 then ?S - 1 else offset_of s p - 1)"
    if "t_slot (timers s p) < ?S" for p
    using slot_offset_next [OF link(1) that] by (simp add: offset_of_def slot d(3))
  have chain: "p \<in> set (tiw s ?j) \<longleftrightarrow> t_active (timers s p) \<and> t_slot (timers s p) < ?S \<and> offset_of s p = 0" for p
    using link slot_offset_0 [OF link(1)] by (auto simp: offset_of_def)
  have w2: "walked s2 n p \<longleftrightarrow> p \<notin> set (tiw s ?j) \<and> t_active (timers s p) \<and> t_slot (timers s p) < ?S \<and>
      offset_of s p < Suc n" for p
  proof (cases "p \<in> set (tiw s ?j)")
    case True
    then have "offset_of s2 p = ?S - 1" using off [of p] chain [of p] by simp
    then have "\<not> offset_of s2 p < n" using assms(4) by simp
    with True show ?thesis by (simp add: walked_def)
  next
    case False
    then have w: "walked s2 n p \<longleftrightarrow> t_active (timers s p) \<and> t_slot (timers s p) < ?S \<and> offset_of s2 p < n"
      unfolding walked_def slot by (simp add: d(1))
    show ?thesis
    proof (cases "t_active (timers s p) \<and> t_slot (timers s p) < ?S")
      case True
      then have "offset_of s p \<noteq> 0" using chain [of p] False by simp
      then have "offset_of s2 p = offset_of s p - 1" using off [of p] True by simp
      then have "offset_of s2 p < n \<longleftrightarrow> offset_of s p < Suc n" using \<open>offset_of s p \<noteq> 0\<close> by linarith
      with w False show ?thesis by simp
    qed (use w in auto)
  qed
  show "walked s (Suc n) p \<longleftrightarrow> p \<in> set (tiw s ?j) \<or> walked s2 n p"
    using chain [of p] w2 [of p] by (auto simp: walked_def)
  show "p \<in> set (tiw s ?j) \<Longrightarrow> offset_of s p = 0" using chain [of p] by simp
  show "walked s2 n p \<Longrightarrow> p \<notin> set (tiw s ?j) \<and> timers s2 p = timers s p \<and>
      count_at c1 ko2 (offset_of s2 p) = count_at cnt ko (offset_of s p)"
  proof -
    assume w: "walked s2 n p"
    then have p: "p \<notin> set (tiw s ?j)" "t_slot (timers s p) < ?S" "t_active (timers s p)" "offset_of s p < Suc n"
      using w2 by auto
    then have o0: "offset_of s p \<noteq> 0" using chain [of p] by simp
    have "count_at c1 ko2 (offset_of s2 p) = count_at cnt ko (offset_of s p)"
      unfolding off [OF p(2)] using o0 p(4) assms(4) by (auto simp: count_at_def c1_def ko2_def)
    with p show ?thesis by (simp add: d(1))
  qed
  show "chains_linked s2"
    unfolding chains_linked_def
  proof (intro conjI allI)
    show "tiw_pos s2 < ?S" by (simp add: d(3))
    show "distinct (tiw s2 j)" for j using link(2) by (simp add: d(2))
    show "p \<in> set (tiw s2 j) \<longleftrightarrow> j < ?S \<and> t_slot (timers s2 p) = j \<and> t_active (timers s2 p)" for p j
      using link(3) [of p j] link(3) [of p ?j] link(1) by (auto simp: d(1,2) after_bump_def)
  qed
  have "filter (expired s2 (count_at c1 ko2 off)) (tiw s2 ((tiw_pos s2 + off) mod ?S)) =
      filter (expired s (count_at cnt ko (Suc off))) (tiw s ((?j + Suc off) mod ?S))" if o1: "off < n" for off
  proof -
    let ?k = "(?j + Suc off) mod ?S"
    have k: "(tiw_pos s2 + off) mod ?S = ?k" by (simp add: d(3) mod_add_left_eq)
    have "slot_offset ?j ?k = Suc off" by (rule slot_at_offset [OF link(1)]) (use o1 assms(4) in simp)
    then have ne: "?k \<noteq> ?j" using slot_offset_0 [OF link(1), of ?k] by auto
    have nc: "x \<notin> set (tiw s ?j)" if "x \<in> set (tiw s ?k)" for x using that ne link(3) by auto
    have "count_at c1 ko2 off = count_at cnt ko (Suc off)" using o1 assms(4) by (auto simp: count_at_def c1_def ko2_def)
    moreover have "tiw s2 ?k = tiw s ?k" unfolding d(2) using nc by (auto intro!: filter_True)
    ultimately show ?thesis unfolding k using nc by (auto intro!: filter_cong simp: expired_def d(1))
  qed
  then have m: "map (\<lambda>off. filter (expired s2 (count_at c1 ko2 off)) (tiw s2 ((tiw_pos s2 + off) mod ?S))) [0..<n] =
      map (\<lambda>off. filter (expired s (count_at cnt ko (Suc off))) (tiw s ((?j + Suc off) mod ?S))) [0..<n]" by simp
  have "[0..<Suc n] = 0 # map Suc [0..<n]" by (simp add: map_Suc_upt upt_conv_Cons del: upt_Suc)
  then have "fired_list s (Suc n) cnt ko = filter (expired s (count_at cnt ko 0)) (tiw s ((?j + 0) mod ?S)) @
      concat (map (\<lambda>off. filter (expired s (count_at cnt ko (Suc off))) (tiw s ((?j + Suc off) mod ?S))) [0..<n])"
    unfolding fired_list_def by (simp add: comp_def del: upt_Suc)
  also have "concat (map (\<lambda>off. filter (expired s (count_at cnt ko (Suc off))) (tiw s ((?j + Suc off) mod ?S))) [0..<n]) =
      fired_list s2 n c1 ko2" unfolding fired_list_def m ..
  finally show "fired_list s (Suc n) cnt ko = filter (expired s c1) (tiw s ?j) @ fired_list s2 n c1 ko2"
    using link(1) by (simp add: c1_def)
qed

lemma slot_done_goes_off:
  assumes "chains_linked s" and "slot_done s (count_at cnt ko 0) s2" and "ko < TIW_SIZE" and "Suc n \<le> TIW_SIZE"
  shows "goes_off s (Suc n) cnt ko p \<longleftrightarrow> p \<in> set (tiw s (tiw_pos s)) \<and> expired s (count_at cnt ko 0) p \<or>
    goes_off s2 n (count_at cnt ko 0) (if ko = 0 then TIW_SIZE - 1 else ko - 1) p"
proof -
  note f = slot_done_facts [OF assms]
  show ?thesis
  proof (cases "p \<in> set (tiw s (tiw_pos s))")
    case True
    then have "\<not> walked s2 n p" using f(2) by blast
    with True f(1) [of p] f(3) [OF True] show ?thesis by (simp add: goes_off_def)
  next
    case False
    with f(1) [of p] f(2) [of p] show ?thesis by (auto simp: goes_off_def expired_def)
  qed
qed

lemma bump_loop_ok:
  assumes "chains_linked s" and "keep_pos < TIW_SIZE" and "n \<le> TIW_SIZE"
    and "bump_loop n cnt keep_pos s q = (s', q')" and "ko = slot_offset (tiw_pos s) keep_pos"
  shows "bumped s n cnt ko q s' q'"
  using assms
proof (induction n arbitrary: cnt s q ko)
  case 0
  then show ?case
    by (auto simp: bump_loop.simps [of 0] bumped_def fired_list_def walked_def goes_off_def chains_linked_def)
next
  case (Suc n)
  let ?j = "tiw_pos s" and ?S = TIW_SIZE
  define c1 where "c1 = count_at cnt ko 0"
  define ko2 where "ko2 = (if ko = 0 then ?S - 1 else ko - 1)"
  have link: "?j < ?S" "\<And>j. distinct (tiw s j)"
    "\<And>p j. p \<in> set (tiw s j) \<longleftrightarrow> j < ?S \<and> t_slot (timers s p) = j \<and> t_active (timers s p)"
    using Suc.prems(1) by (auto simp: chains_linked_def)
  have ko: "ko < ?S" using Suc.prems(5) by simp
  have "(if ?j = keep_pos then cnt - 1 else cnt) = c1"
    using slot_offset_0 [OF link(1) Suc.prems(2)] Suc.prems(5) by (auto simp: c1_def count_at_def)
  with Suc.prems(4) obtain s1 q1 where c: "bump_chain c1 (tiw s ?j) s q = (s1, q1)"
    "bump_loop n c1 keep_pos (s1\<lparr>tiw_pos := (tiw_pos s1 + 1) mod ?S\<rparr>) q1 = (s', q')"
    by (auto simp: bump_loop.simps [of "Suc n"] Let_def split: prod.splits)
  let ?s2 = "s1\<lparr>tiw_pos := (tiw_pos s1 + 1) mod ?S\<rparr>"
  have "\<And>p. p \<in> set (tiw s ?j) \<Longrightarrow> t_slot (timers s p) = ?j" using link(3) by blast
  from bump_chain_ok [OF link(2) this link(2) c(1)]
  have b: "q1 = q @ filter (expired s c1) (tiw s ?j)"
    "timers s1 = (\<lambda>p. if p \<in> set (tiw s ?j) then after_bump s c1 p else timers s p)"
    "tiw s1 = (tiw s)(?j := filter (\<lambda>p. \<not> (p \<in> set (tiw s ?j) \<and> expired s c1 p)) (tiw s ?j))"
    "tiw_nto s1 = tiw_nto s - length (filter (expired s c1) (tiw s ?j))" "tiw_pos s1 = ?j" "do_time s1 = do_time s"
    "if \<exists>p\<in>set (tiw s ?j). expired s c1 p \<and> tiw_min_ptr s = Some p then tiw_min_ptr s1 = None
     else tiw_min_ptr s1 = tiw_min_ptr s \<and> tiw_min s1 = tiw_min s" by blast+
  have t1: "tiw s1 j = filter (\<lambda>p. \<not> (p \<in> set (tiw s ?j) \<and> expired s c1 p)) (tiw s j)" for j
  proof (cases "j = ?j")
    case False
    have "p \<notin> set (tiw s ?j)" if "p \<in> set (tiw s j)" for p
      using link(3) [of p j] link(3) [of p ?j] that False by simp
    then have "filter (\<lambda>p. \<not> (p \<in> set (tiw s ?j) \<and> expired s c1 p)) (tiw s j) = tiw s j" by (intro filter_True) auto
    with False show ?thesis by (simp add: b(3))
  qed (simp add: b(3))
  have sd: "slot_done s c1 ?s2" using b(2,5) t1 by (auto simp: slot_done_def)
  note sd' = sd [unfolded c1_def]
  note f = slot_done_facts [OF Suc.prems(1) sd' ko Suc.prems(3), folded c1_def ko2_def]
  note g = slot_done_goes_off [OF Suc.prems(1) sd' ko Suc.prems(3), folded c1_def ko2_def]
  have k2: "ko2 = slot_offset (tiw_pos ?s2) keep_pos"
    using slot_offset_next [OF link(1) Suc.prems(2)] Suc.prems(5) by (simp add: ko2_def b(5))
  have n: "n \<le> ?S" using Suc.prems(3) by simp
  have ih: "bumped ?s2 n c1 ko2 q1 s' q'" by (rule Suc.IH [OF f(5) Suc.prems(2) n c(2) k2])
  then have i: "q' = q1 @ fired_list ?s2 n c1 ko2"
    "timers s' = (\<lambda>p. if walked ?s2 n p then after_bump ?s2 (count_at c1 ko2 (offset_of ?s2 p)) p else timers ?s2 p)"
    "tiw s' = (\<lambda>j. filter (\<lambda>p. \<not> goes_off ?s2 n c1 ko2 p) (tiw ?s2 j))"
    "tiw_nto s' = tiw_nto ?s2 - length (fired_list ?s2 n c1 ko2)"
    "tiw_pos s' = (tiw_pos ?s2 + n) mod ?S" "do_time s' = do_time ?s2"
    "if \<exists>p. goes_off ?s2 n c1 ko2 p \<and> tiw_min_ptr ?s2 = Some p then tiw_min_ptr s' = None
     else tiw_min_ptr s' = tiw_min_ptr ?s2 \<and> tiw_min s' = tiw_min ?s2"
    by (auto simp: bumped_def)
  have "timers s' p = (if walked s (Suc n) p then after_bump s (count_at cnt ko (offset_of s p)) p else timers s p)" for p
  proof (cases "walked ?s2 n p")
    case True
    have t: "timers ?s2 p = timers s p" "count_at c1 ko2 (offset_of ?s2 p) = count_at cnt ko (offset_of s p)"
      using f(2) [OF True] by blast+
    then have "after_bump ?s2 x p = after_bump s x p" for x by (simp only: after_bump_def expired_def)
    with True f(1) [of p] t(2) show ?thesis unfolding i(2) by (simp only: if_True simp_thms)
  next
    case False
    with f(1) [of p] f(3) [of p] show ?thesis unfolding i(2) by (simp add: b(2) c1_def)
  qed
  moreover have "tiw s' j = filter (\<lambda>p. \<not> goes_off s (Suc n) cnt ko p) (tiw s j)" for j
    unfolding i(3) g by (simp add: t1)
  moreover have "if \<exists>p. goes_off s (Suc n) cnt ko p \<and> tiw_min_ptr s = Some p then tiw_min_ptr s' = None
     else tiw_min_ptr s' = tiw_min_ptr s \<and> tiw_min s' = tiw_min s"
    using i(7) b(7) unfolding g by (auto split: if_splits)
  moreover have "tiw_pos s' = (?j + Suc n) mod ?S" using i(5) by (simp add: b(5) mod_add_left_eq)
  ultimately show ?case using i(1,4,6) b(1,4,6) f(4) unfolding bumped_def by auto
qed

subsection \<open>Advancing by a time\<close>

lemma slot_offset_advance:
  assumes "pos < TIW_SIZE" and "j < TIW_SIZE" and "r < TIW_SIZE"
  shows "slot_offset ((pos + r) mod TIW_SIZE) j =
    (if r \<le> slot_offset pos j then slot_offset pos j - r else slot_offset pos j + TIW_SIZE - r)"
proof -
  define m where "m = (pos + r) mod TIW_SIZE"
  have m: "m < TIW_SIZE" "m = (if pos + r < TIW_SIZE then pos + r else pos + r - TIW_SIZE)"
    using assms by (auto simp: m_def mod_if)
  show ?thesis
    unfolding m_def [symmetric] slot_offset_if [OF m(1) assms(2)] slot_offset_if [OF assms(1,2)]
    using assms by (auto simp: m(2))
qed

lemma ticks_arith:
  assumes "off < TIW_SIZE" and "dt = q * TIW_SIZE + r" and "r < TIW_SIZE"
  shows "c < count_at (q + 1) r off \<longleftrightarrow> c * TIW_SIZE + off < dt"
    and "\<not> c * TIW_SIZE + off < dt \<Longrightarrow> (c - count_at (q + 1) r off) * TIW_SIZE +
      (if r \<le> off then off - r else off + TIW_SIZE - r) = c * TIW_SIZE + off - dt"
proof -
  have lt: "a * TIW_SIZE + off < b * TIW_SIZE + r \<longleftrightarrow> a < b \<or> a = b \<and> off < r" for a b
  proof (cases a b rule: linorder_cases)
    case less
    then have "Suc a * TIW_SIZE \<le> b * TIW_SIZE" by (intro mult_le_mono1) simp
    with less assms show ?thesis by simp
  next
    case greater
    then have "Suc b * TIW_SIZE \<le> a * TIW_SIZE" by (intro mult_le_mono1) simp
    with greater assms show ?thesis by simp
  qed simp
  show "c < count_at (q + 1) r off \<longleftrightarrow> c * TIW_SIZE + off < dt"
    unfolding assms(2) lt by (auto simp: count_at_def)
  assume "\<not> c * TIW_SIZE + off < dt"
  then have "q < c \<or> q = c \<and> r \<le> off" unfolding assms(2) lt by auto
  then obtain d where d: "c = q + d" "d = 0 \<Longrightarrow> r \<le> off" by (metis less_imp_add_positive add_0_right less_irrefl)
  show "(c - count_at (q + 1) r off) * TIW_SIZE +
      (if r \<le> off then off - r else off + TIW_SIZE - r) = c * TIW_SIZE + off - dt"
  proof (cases "r \<le> off")
    case True
    then show ?thesis unfolding d(1) assms(2) by (simp add: count_at_def add_mult_distrib)
  next
    case False
    with d(2) obtain e where "d = Suc e" by (cases d) auto
    with False show ?thesis using assms(1,3) unfolding d(1) assms(2) by (simp add: count_at_def add_mult_distrib)
  qed
qed

lemma reset_fold:
  "timers (fold reset_slot ps s) p = (if p \<in> set ps then (timers s p)\<lparr>t_slot := 0\<rparr> else timers s p)"
  "tiw (fold reset_slot ps s) = tiw s" "tiw_pos (fold reset_slot ps s) = tiw_pos s"
  "tiw_nto (fold reset_slot ps s) = tiw_nto s" "tiw_min (fold reset_slot ps s) = tiw_min s"
  "tiw_min_ptr (fold reset_slot ps s) = tiw_min_ptr s" "do_time (fold reset_slot ps s) = do_time s"
  by (induction ps arbitrary: s) (auto simp: reset_slot_def)

lemma fired_list_set:
  assumes "chains_linked s" and "n \<le> TIW_SIZE"
  shows "set (fired_list s n cnt ko) = {p. goes_off s n cnt ko p}" and "distinct (fired_list s n cnt ko)"
proof -
  let ?f = "\<lambda>off. filter (expired s (count_at cnt ko off)) (tiw s ((tiw_pos s + off) mod TIW_SIZE))"
  have pos: "tiw_pos s < TIW_SIZE" and dis: "\<And>j. distinct (tiw s j)"
    and mem: "\<And>p j. p \<in> set (tiw s j) \<longleftrightarrow> j < TIW_SIZE \<and> t_slot (timers s p) = j \<and> t_active (timers s p)"
    using assms(1) by (auto simp: chains_linked_def)
  have at: "p \<in> set (tiw s ((tiw_pos s + off) mod TIW_SIZE)) \<longleftrightarrow>
      t_active (timers s p) \<and> t_slot (timers s p) < TIW_SIZE \<and> offset_of s p = off" if "off < TIW_SIZE" for p off
  proof
    assume "p \<in> set (tiw s ((tiw_pos s + off) mod TIW_SIZE))"
    with mem have "t_slot (timers s p) = (tiw_pos s + off) mod TIW_SIZE" "t_active (timers s p)" by auto
    with slot_at_offset [OF pos that] show "t_active (timers s p) \<and> t_slot (timers s p) < TIW_SIZE \<and> offset_of s p = off"
      by (simp add: offset_of_def)
  next
    assume a: "t_active (timers s p) \<and> t_slot (timers s p) < TIW_SIZE \<and> offset_of s p = off"
    then have "off = (if tiw_pos s \<le> t_slot (timers s p) then t_slot (timers s p) - tiw_pos s
        else t_slot (timers s p) + TIW_SIZE - tiw_pos s)"
      using slot_offset_if [OF pos, of "t_slot (timers s p)"] by (auto simp: offset_of_def)
    then have "(tiw_pos s + off) mod TIW_SIZE = t_slot (timers s p)" using a pos by (auto split: if_splits)
    with a mem show "p \<in> set (tiw s ((tiw_pos s + off) mod TIW_SIZE))" by simp
  qed
  have "p \<in> set (fired_list s n cnt ko) \<longleftrightarrow> (\<exists>off<n. p \<in> set (?f off))" for p by (auto simp: fired_list_def)
  also have "\<dots> p \<longleftrightarrow> goes_off s n cnt ko p" for p
    using at assms(2) by (auto simp: goes_off_def walked_def)
  finally show "set (fired_list s n cnt ko) = {p. goes_off s n cnt ko p}" by auto
  have "distinct (concat (map ?f [0..<k]))" if "k \<le> TIW_SIZE" for k
    using that
  proof (induction k)
    case (Suc k)
    have "offset_of s p < k" if "p \<in> set (concat (map ?f [0..<k]))" for p
      using that at Suc.prems by auto
    moreover have "offset_of s p = k" if "p \<in> set (?f k)" for p
      using that at [of k p] Suc.prems by simp
    ultimately have "set (concat (map ?f [0..<k])) \<inter> set (?f k) = {}" by fastforce
    with Suc dis show ?case by simp
  qed simp
  with assms(2) show "distinct (fired_list s n cnt ko)" by (simp add: fired_list_def)
qed

lemma chains_ok_linked: "chains_ok s \<Longrightarrow> chains_linked s"
  by (auto simp: chains_ok_def chains_linked_def)

lemma bump_ok:
  assumes ok: "chains_ok s" and mn: "min_ok s" and b: "bump_timer_internal dt s = (s', fired)"
  shows "chains_ok s' \<and> min_ok s' \<and> do_time s' = do_time s \<and> distinct fired \<and>
    set fired = {p. t_active (timers s p) \<and> ticks_left s p < dt} \<and>
    fired = concat (map (\<lambda>k. filter (\<lambda>p. ticks_left s p < dt) (tiw s ((tiw_pos s + k) mod TIW_SIZE))) [0..<min dt TIW_SIZE]) \<and>
    (\<forall>p. t_active (timers s' p) \<longleftrightarrow> t_active (timers s p) \<and> \<not> ticks_left s p < dt) \<and>
    (\<forall>p. t_active (timers s' p) \<longrightarrow> ticks_left s' p = ticks_left s p - dt)"
proof (cases "tiw_nto s = 0")
  case True
  then have na: "\<not> t_active (timers s p)" for p using ok by (auto simp: chains_ok_def)
  then have "tiw s j = []" for j using ok by (metis chains_ok_def set_empty all_not_in_conv)
  with True b na ok mn show ?thesis by (auto simp: bump_timer_internal_def)
next
  case False
  let ?S = TIW_SIZE
  define q r where "q = dt div ?S" and "r = dt mod ?S"
  have dt: "dt = q * ?S + r" "r < ?S" by (simp_all add: q_def r_def)
  let ?keep = "(tiw_pos s + dt) mod ?S" and ?n = "min dt ?S"
  have pos: "tiw_pos s < ?S" using ok by (simp add: chains_ok_def)
  have keep: "?keep = (tiw_pos s + r) mod ?S" by (simp add: r_def mod_add_right_eq)
  have ko: "r = slot_offset (tiw_pos s) ?keep" unfolding keep using slot_at_offset [OF pos dt(2)] by simp
  obtain s1 where l: "bump_loop ?n (q + 1) ?keep s [] = (s1, fired)"
    and s': "s' = fold reset_slot fired (if tiw_min_ptr s1 \<noteq> None
      then s1\<lparr>tiw_pos := ?keep, tiw_min := tiw_min s1 - dt\<rparr> else s1\<lparr>tiw_pos := ?keep\<rparr>)"
    using b False by (auto simp: bump_timer_internal_def Let_def min_def q_def split: prod.splits if_splits)
  have lk: "chains_linked s" by (rule chains_ok_linked [OF ok])
  have "bumped s ?n (q + 1) r [] s1 fired"
    by (rule bump_loop_ok [OF lk _ _ l ko]) simp_all
  then have i: "fired = fired_list s ?n (q + 1) r"
    "timers s1 = (\<lambda>p. if walked s ?n p then after_bump s (count_at (q + 1) r (offset_of s p)) p else timers s p)"
    "tiw s1 = (\<lambda>j. filter (\<lambda>p. \<not> goes_off s ?n (q + 1) r p) (tiw s j))"
    "tiw_nto s1 = tiw_nto s - length fired" "do_time s1 = do_time s"
    "if \<exists>p. goes_off s ?n (q + 1) r p \<and> tiw_min_ptr s = Some p then tiw_min_ptr s1 = None
     else tiw_min_ptr s1 = tiw_min_ptr s \<and> tiw_min s1 = tiw_min s" by (auto simp: bumped_def)
  have act: "t_slot (timers s p) < ?S" if "t_active (timers s p)" for p using that ok by (simp add: chains_ok_def)
  have tl: "ticks_left s p = t_count (timers s p) * ?S + offset_of s p" for p by (simp add: ticks_left_def offset_of_def)
  have off: "offset_of s p < ?S" for p by (simp add: offset_of_def)
  have ex: "expired s (count_at (q + 1) r (offset_of s p)) p \<longleftrightarrow> ticks_left s p < dt" for p
    unfolding expired_def tl by (rule ticks_arith(1) [OF off dt])
  have small: "\<not> expired s (count_at (q + 1) r (offset_of s p)) p \<and> count_at (q + 1) r (offset_of s p) = 0"
    if "\<not> offset_of s p < ?n" for p
  proof -
    have "dt < ?S" "dt \<le> offset_of s p" using that off [of p] by auto
    then have "q = 0" "r = dt" by (simp_all add: q_def r_def)
    with \<open>dt \<le> offset_of s p\<close> have "count_at (q + 1) r (offset_of s p) = 0" by (simp add: count_at_def)
    then show ?thesis by (simp add: expired_def)
  qed
  have go: "goes_off s ?n (q + 1) r p \<longleftrightarrow> t_active (timers s p) \<and> ticks_left s p < dt" for p
    using ex [of p] small [of p] act [of p] by (auto simp: goes_off_def walked_def)
  have fs: "set fired = {p. t_active (timers s p) \<and> ticks_left s p < dt}" "distinct fired"
    using fired_list_set [OF lk, of ?n "q + 1" r] by (simp_all only: i(1) go min.cobounded2 simp_thms)
  have t1: "timers s1 p = after_bump s (count_at (q + 1) r (offset_of s p)) p" if "t_active (timers s p)" for p
    using small [of p] act [OF that] that by (auto simp: i(2) walked_def after_bump_def)
  have s1': "timers s' p = (if p \<in> set fired then (timers s1 p)\<lparr>t_slot := 0\<rparr> else timers s1 p)" "tiw s' = tiw s1"
    "tiw_pos s' = ?keep" "tiw_nto s' = tiw_nto s1" "tiw_min_ptr s' = tiw_min_ptr s1" "do_time s' = do_time s"
    "tiw_min_ptr s1 \<noteq> None \<Longrightarrow> tiw_min s' = tiw_min s1 - dt" for p
    by (simp_all add: s' reset_fold i(5))
  have na: "timers s' p = timers s p" if "\<not> t_active (timers s p)" for p
    using that fs(1) by (simp add: s1'(1) i(2) walked_def)
  have off': "timers s' p = (timers s p)\<lparr>t_active := False, t_slot := 0\<rparr>" if "p \<in> set fired" for p
    using that t1 [of p] ex [of p] fs(1) by (simp add: s1'(1) after_bump_def)
  have on: "timers s' p = (timers s p)\<lparr>t_count := t_count (timers s p) - count_at (q + 1) r (offset_of s p)\<rparr>"
    if "t_active (timers s p)" "p \<notin> set fired" for p
    using that t1 [of p] ex [of p] fs(1) by (simp add: s1'(1) after_bump_def)
  have act': "t_active (timers s' p) \<longleftrightarrow> t_active (timers s p) \<and> p \<notin> set fired" for p
    using na [of p] off' [of p] on [of p] by (cases "t_active (timers s p)"; cases "p \<in> set fired") auto
  have slot': "t_slot (timers s' p) = t_slot (timers s p)" if "t_active (timers s' p)" for p
    using that act' [of p] on [of p] by simp
  have mem: "p \<in> set (tiw s j) \<longleftrightarrow> j < ?S \<and> t_slot (timers s p) = j \<and> t_active (timers s p)" for p j
    using ok by (simp add: chains_ok_def)
  have left: "ticks_left s' p = ticks_left s p - dt" if "t_active (timers s' p)" for p
  proof -
    have p: "t_active (timers s p)" "p \<notin> set fired" using that act' by auto
    then have nx: "\<not> t_count (timers s p) * ?S + offset_of s p < dt" using fs(1) tl by simp
    have "slot_offset ?keep (t_slot (timers s p)) =
        (if r \<le> offset_of s p then offset_of s p - r else offset_of s p + ?S - r)"
      unfolding keep offset_of_def by (rule slot_offset_advance [OF pos act [OF p(1)] dt(2)])
    with ticks_arith(2) [OF off dt nx] show ?thesis
      by (simp add: ticks_left_def s1'(3) on [OF p] offset_of_def)
  qed
  have A: "{p. t_active (timers s' p)} = {p. t_active (timers s p)} - set fired" using act' by auto
  have "chains_ok s'"
    unfolding chains_ok_def
  proof (intro conjI allI)
    show "tiw_pos s' < ?S" by (simp add: s1'(3))
    show "distinct (tiw s' j)" for j using ok by (simp add: s1'(2) i(3) chains_ok_def)
    have "p \<in> set (tiw s' j) \<longleftrightarrow> p \<in> set (tiw s j) \<and> p \<notin> set fired" for p j
      unfolding s1'(2) i(3) go fs(1) set_filter using mem [of p j] by blast
    then show "p \<in> set (tiw s' j) \<longleftrightarrow> j < ?S \<and> t_slot (timers s' p) = j \<and> t_active (timers s' p)" for p j
      using mem [of p j] act' [of p] slot' [of p] by auto
    show "t_active (timers s' p) \<longrightarrow> t_slot (timers s' p) < ?S" for p using act' act slot' by auto
    show "finite {p. t_active (timers s' p)}" using ok by (simp add: A chains_ok_def)
    have "set fired \<subseteq> {p. t_active (timers s p)}" using fs(1) by auto
    then show "tiw_nto s' = card {p. t_active (timers s' p)}"
      using ok distinct_card [OF fs(2)] by (simp add: A s1'(4) i(4) chains_ok_def card_Diff_subset)
  qed
  moreover have "min_ok s'"
    unfolding min_ok_def
  proof (intro allI impI)
    fix p assume p: "tiw_min_ptr s' = Some p"
    then have m: "tiw_min_ptr s = Some p" "tiw_min s' = tiw_min s - dt" "p \<notin> set fired"
      using i(6) s1'(5,7) go fs(1) by (auto split: if_splits)
    then have "t_active (timers s p)" "tiw_min s = ticks_left s p" "\<forall>x. t_active (timers s x) \<longrightarrow> tiw_min s \<le> ticks_left s x"
      using mn by (auto simp: min_ok_def)
    with m act' left show "t_active (timers s' p) \<and> tiw_min s' = ticks_left s' p \<and>
        (\<forall>x. t_active (timers s' x) \<longrightarrow> tiw_min s' \<le> ticks_left s' x)"
      by (auto intro: diff_le_mono)
  qed
  moreover have "fired = concat (map (\<lambda>k. filter (\<lambda>p. ticks_left s p < dt) (tiw s ((tiw_pos s + k) mod ?S))) [0..<?n])"
  proof -
    have "filter (expired s (count_at (q + 1) r k)) (tiw s ((tiw_pos s + k) mod ?S)) =
        filter (\<lambda>p. ticks_left s p < dt) (tiw s ((tiw_pos s + k) mod ?S))" if "k < ?n" for k
    proof (rule filter_cong [OF refl])
      fix p assume "p \<in> set (tiw s ((tiw_pos s + k) mod ?S))"
      then have "t_slot (timers s p) = (tiw_pos s + k) mod ?S" using mem by blast
      then have "offset_of s p = k" using slot_at_offset [OF pos] that by (simp add: offset_of_def)
      with ex [of p] show "expired s (count_at (q + 1) r k) p \<longleftrightarrow> ticks_left s p < dt" by simp
    qed
    then show ?thesis unfolding i(1) fired_list_def by (intro arg_cong [where f = concat] map_cong) simp_all
  qed
  moreover have "\<forall>p. t_active (timers s' p) \<longleftrightarrow> t_active (timers s p) \<and> \<not> ticks_left s p < dt"
    using act' fs(1) by auto
  ultimately show ?thesis using s1'(6) fs left by blast
qed

subsection \<open>Setting and cancelling\<close>

lemma pending_Some: "pending s p = Some n \<longleftrightarrow> t_active (timers s p) \<and> n = ticks_left s p"
  by (auto simp: pending_def)

lemma insert_slot:
  assumes "pos < TIW_SIZE"
  shows "ticks div TIW_SIZE * TIW_SIZE + slot_offset pos ((ticks + pos) mod TIW_SIZE) = ticks"
proof -
  have "(ticks + pos) mod TIW_SIZE = (pos + ticks mod TIW_SIZE) mod TIW_SIZE" by (simp add: mod_add_right_eq add.commute)
  then have "slot_offset pos ((ticks + pos) mod TIW_SIZE) = ticks mod TIW_SIZE"
    using slot_at_offset [OF assms] by simp
  then show ?thesis by simp
qed

text \<open>insert\_timer on a timer just marked active: \<open>s\<close> is the wheel before.\<close>

lemma insert_timer_ok:
  assumes ok: "wheel_ok s" and new: "\<not> t_active (timers s p)" and act: "t_active x"
    and t: "t + nat (do_time s) < 2 ^ 64"
    and s': "s' = insert_timer p t (s\<lparr>timers := (timers s)(p := x)\<rparr>)"
  shows "wheel_ok s' \<and> do_time s' = do_time s \<and> pending s' = (pending s)(p \<mapsto> t + nat (do_time s))"
proof -
  let ?S = TIW_SIZE
  define ticks where "ticks = t + nat (do_time s)"
  define tm where "tm = (ticks + tiw_pos s) mod ?S"
  have pos: "tiw_pos s < ?S" and mem: "\<And>p j. p \<in> set (tiw s j) \<longleftrightarrow> j < ?S \<and> t_slot (timers s p) = j \<and> t_active (timers s p)"
    using ok by (auto simp: wheel_ok_def chains_ok_def)
  have tm: "tm < ?S" by (simp add: tm_def)
  have m: "ticks mod 2 ^ 64 = ticks" using t by (simp add: ticks_def)
  have f: "timers s' = (timers s)(p := x\<lparr>t_slot := tm, t_count := ticks div ?S\<rparr>)" "tiw s' = (tiw s)(tm := p # tiw s tm)"
    "tiw_pos s' = tiw_pos s" "tiw_nto s' = tiw_nto s + 1" "do_time s' = do_time s"
    "if tiw_nto s = 0 \<or> tiw_min_ptr s \<noteq> None \<and> ticks < tiw_min s then tiw_min_ptr s' = Some p \<and> tiw_min s' = ticks
     else tiw_min_ptr s' = tiw_min_ptr s \<and> tiw_min s' = tiw_min s \<or> tiw_min_ptr s' = None"
    using m by (auto simp: s' insert_timer_def Let_def ticks_def [symmetric] tm_def [symmetric])
  have left: "ticks_left s' y = (if y = p then ticks else ticks_left s y)" for y
    using insert_slot [OF pos, of ticks] by (simp add: ticks_left_def f tm_def)
  have act': "t_active (timers s' y) \<longleftrightarrow> y = p \<or> t_active (timers s y)" for y using act by (simp add: f)
  have A: "{y. t_active (timers s' y)} = insert p {y. t_active (timers s y)}" using act' by auto
  have notin: "p \<notin> set (tiw s j)" for j using mem new by simp
  have "chains_ok s'"
    unfolding chains_ok_def
  proof (intro conjI allI)
    show "tiw_pos s' < ?S" using pos by (simp add: f)
    show "distinct (tiw s' j)" for j using ok notin by (simp add: f wheel_ok_def chains_ok_def)
    show "y \<in> set (tiw s' j) \<longleftrightarrow> j < ?S \<and> t_slot (timers s' y) = j \<and> t_active (timers s' y)" for y j
      using mem [of y j] new act tm by (auto simp: f(1,2))
    show "t_active (timers s' y) \<longrightarrow> t_slot (timers s' y) < ?S" for y
      using ok tm by (simp add: f(1) wheel_ok_def chains_ok_def)
    show "finite {y. t_active (timers s' y)}" "tiw_nto s' = card {y. t_active (timers s' y)}"
      using ok new by (simp_all add: A f(4) wheel_ok_def chains_ok_def)
  qed
  moreover have "min_ok s'"
  proof (cases "tiw_nto s = 0 \<or> tiw_min_ptr s \<noteq> None \<and> ticks < tiw_min s")
    case True
    have "ticks \<le> ticks_left s y" if "t_active (timers s y)" for y
    proof -
      have "tiw_nto s \<noteq> 0" using that ok by (auto simp: wheel_ok_def chains_ok_def)
      with True that ok show ?thesis by (fastforce simp: wheel_ok_def min_ok_def)
    qed
    with True f(6) act' left show ?thesis by (auto simp: min_ok_def)
  next
    case False
    with f(6) have n: "tiw_min_ptr s' = tiw_min_ptr s \<and> tiw_min s' = tiw_min s \<or> tiw_min_ptr s' = None" by simp
    show ?thesis
      unfolding min_ok_def
    proof (intro allI impI)
      fix y assume y: "tiw_min_ptr s' = Some y"
      with n have m: "tiw_min_ptr s = Some y" "tiw_min s' = tiw_min s" by auto
      with ok new have "y \<noteq> p" "t_active (timers s y)" "tiw_min s = ticks_left s y"
        "\<forall>x. t_active (timers s x) \<longrightarrow> tiw_min s \<le> ticks_left s x"
        by (auto simp: wheel_ok_def min_ok_def)
      moreover have "tiw_min s \<le> ticks" using False m(1) by auto
      ultimately show "t_active (timers s' y) \<and> tiw_min s' = ticks_left s' y \<and>
          (\<forall>x. t_active (timers s' x) \<longrightarrow> tiw_min s' \<le> ticks_left s' x)"
        using m(2) act' left by auto
    qed
  qed
  moreover have "pending s' = (pending s)(p \<mapsto> ticks)" using act' left by (auto simp: pending_def fun_eq_iff)
  ultimately show ?thesis using ok f(5) by (simp add: wheel_ok_def ticks_def)
qed

lemma wheel_ok_time: "wheel_ok s \<Longrightarrow> 0 \<le> d \<Longrightarrow> d < 2 ^ 31 \<Longrightarrow> wheel_ok (s\<lparr>do_time := d\<rparr>)"
  by (auto simp: wheel_ok_def chains_ok_def min_ok_def ticks_left_def)

lemma pending_time [simp]: "pending (s\<lparr>do_time := d\<rparr>) = pending s"
  by (simp add: pending_def ticks_left_def fun_eq_iff)

lemma short_time_small: "0 \<le> x \<Longrightarrow> x < 2 ^ 31 \<Longrightarrow> short_time x = x"
  by (simp add: short_time_def sint_sbintrunc' signed_take_bit_int_eq_self)

lemma time_add_ok:
  assumes "wheel_ok s" and "0 \<le> e" and "do_time s + e < 2 ^ 31"
  shows "wheel_ok (erts_do_time_add e s) \<and> do_time (erts_do_time_add e s) = do_time s + e \<and>
    pending (erts_do_time_add e s) = pending s"
proof -
  have "0 \<le> do_time s + e" using assms(1,2) by (simp add: wheel_ok_def)
  with assms show ?thesis by (simp add: erts_do_time_add_def short_time_small wheel_ok_time)
qed

lemma set_ok:
  assumes "wheel_ok s" and "0 \<le> e" and "do_time s + e < 2 ^ 31" and "t < 2 ^ 63"
  shows "wheel_ok (erts_set_timer p f c a t e s) \<and> do_time (erts_set_timer p f c a t e s) = do_time s + e \<and>
    pending (erts_set_timer p f c a t e s) =
      (if pending s p = None then (pending s)(p \<mapsto> t + nat (do_time s + e)) else pending s)"
proof -
  note a = time_add_ok [OF assms(1-3)]
  let ?s = "erts_do_time_add e s"
  show ?thesis
  proof (cases "t_active (timers ?s p)")
    case True
    then have "pending ?s p \<noteq> None" by (simp add: pending_def)
    with True a show ?thesis by (auto simp: erts_set_timer_def Let_def)
  next
    case False
    then have n: "pending s p = None" using a by (metis pending_def)
    have lim: "t + nat (do_time ?s) < 2 ^ 64" using a assms(3,4) by simp
    show ?thesis using n
      insert_timer_ok [OF _ False _ lim refl, of "(timers ?s p)\<lparr>t_timeout := f, t_cancel := c, t_arg := a, t_active := True\<rparr>"] a False
      by (simp add: erts_set_timer_def Let_def)
  qed
qed

lemma cancel_ok:
  assumes ok: "wheel_ok s"
  shows "wheel_ok (fst (erts_cancel_timer p s)) \<and> do_time (fst (erts_cancel_timer p s)) = do_time s \<and>
    pending (fst (erts_cancel_timer p s)) = (pending s)(p := None)"
proof (cases "t_active (timers s p)")
  case False
  then show ?thesis using ok by (auto simp: erts_cancel_timer_def pending_def fun_eq_iff)
next
  case True
  let ?S = TIW_SIZE
  define s' where "s' = fst (erts_cancel_timer p s)"
  let ?j = "t_slot (timers s p)"
  have mem: "\<And>p j. p \<in> set (tiw s j) \<longleftrightarrow> j < ?S \<and> t_slot (timers s p) = j \<and> t_active (timers s p)"
    and dis: "\<And>j. distinct (tiw s j)" using ok by (auto simp: wheel_ok_def chains_ok_def)
  have f: "timers s' = (timers s)(p := (timers s p)\<lparr>t_active := False, t_slot := 0, t_count := 0\<rparr>)"
    "tiw s' = (tiw s)(?j := remove1 p (tiw s ?j))" "tiw_pos s' = tiw_pos s" "tiw_nto s' = tiw_nto s - 1"
    "do_time s' = do_time s"
    "tiw_min_ptr s' = (if tiw_min_ptr s = Some p then None else tiw_min_ptr s)"
    "tiw_min_ptr s \<noteq> Some p \<Longrightarrow> tiw_min s' = tiw_min s"
    using True by (auto simp: s'_def erts_cancel_timer_def Let_def remove_timer_def clear_min_def)
  have act': "t_active (timers s' y) \<longleftrightarrow> y \<noteq> p \<and> t_active (timers s y)" for y by (simp add: f(1))
  have left: "ticks_left s' y = ticks_left s y" if "y \<noteq> p" for y using that by (simp add: ticks_left_def f)
  have A: "{y. t_active (timers s' y)} = {y. t_active (timers s y)} - {p}" using act' by auto
  have "chains_ok s'"
    unfolding chains_ok_def
  proof (intro conjI allI)
    show "tiw_pos s' < ?S" using ok by (simp add: f wheel_ok_def chains_ok_def)
    show "distinct (tiw s' j)" for j using dis by (simp add: f(2))
    show "y \<in> set (tiw s' j) \<longleftrightarrow> j < ?S \<and> t_slot (timers s' y) = j \<and> t_active (timers s' y)" for y j
      using mem [of y j] mem [of y ?j] dis True by (auto simp: f(1,2))
    show "t_active (timers s' y) \<longrightarrow> t_slot (timers s' y) < ?S" for y
      using ok by (simp add: f(1) wheel_ok_def chains_ok_def)
    show "finite {y. t_active (timers s' y)}" "tiw_nto s' = card {y. t_active (timers s' y)}"
      using ok True by (simp_all add: A f(4) wheel_ok_def chains_ok_def)
  qed
  moreover have "min_ok s'" using ok act' left f(6,7) by (auto simp: wheel_ok_def min_ok_def split: if_splits)
  moreover have "pending s' = (pending s)(p := None)" using act' left by (auto simp: pending_def fun_eq_iff)
  ultimately show ?thesis using ok f(5) by (simp add: wheel_ok_def s'_def)
qed

lemma schedule_ok:
  assumes ok: "wheel_ok s"
  shows "\<exists>s' fired. schedule_bump s = Inr (s', fired) \<and> wheel_ok s' \<and> do_time s' = 0 \<and> distinct fired \<and>
    set fired = {p. \<exists>r<nat (do_time s). pending s p = Some r} \<and>
    pending s' = (\<lambda>p. case pending s p of None \<Rightarrow> None
      | Some r \<Rightarrow> if r < nat (do_time s) then None else Some (r - nat (do_time s)))"
proof -
  let ?s = "s\<lparr>do_time := 0\<rparr>" and ?d = "nat (do_time s)"
  have z: "wheel_ok ?s" using wheel_ok_time [OF ok, of 0] by simp
  show ?thesis
  proof (cases "do_time s = 0")
    case True
    then have e: "s\<lparr>do_time := 0\<rparr> = s" by simp
    have "pending s = (\<lambda>p. case pending s p of None \<Rightarrow> None | Some r \<Rightarrow> if r < nat (do_time s) then None
        else Some (r - nat (do_time s)))" using True by (auto simp: fun_eq_iff split: option.split)
    moreover have "schedule_bump s = Inr (s, [])" using True e by (simp add: schedule_bump_def erts_do_time_read_and_reset_def)
    ultimately show ?thesis using True ok by auto
  next
    case False
    obtain s' fired where b: "bump_timer_internal ?d ?s = (s', fired)" by fastforce
    from bump_ok [OF _ _ b] z have s': "chains_ok s'" "min_ok s'" "do_time s' = 0" "distinct fired"
      "set fired = {p. t_active (timers s p) \<and> ticks_left ?s p < ?d}"
      "\<And>p. t_active (timers s' p) \<longleftrightarrow> t_active (timers s p) \<and> \<not> ticks_left ?s p < ?d"
      "\<And>p. t_active (timers s' p) \<Longrightarrow> ticks_left s' p = ticks_left ?s p - ?d"
      by (auto simp: wheel_ok_def)
    have l: "ticks_left ?s = ticks_left s" by (simp add: ticks_left_def fun_eq_iff)
    have "schedule_bump s = Inr (s', fired)" using False ok b
      by (simp add: schedule_bump_def erts_do_time_read_and_reset_def erts_bump_timer_def wheel_ok_def)
    moreover have "pending s' p = (case pending s p of None \<Rightarrow> None
      | Some r \<Rightarrow> if r < ?d then None else Some (r - ?d))" for p
      using s'(6,7) [of p] by (auto simp: pending_def l)
    moreover have "set fired = {p. \<exists>r<?d. pending s p = Some r}" using s'(5) by (auto simp: pending_Some l)
    ultimately show ?thesis using s'(1-4) by (auto simp: wheel_ok_def)
  qed
qed

subsection \<open>The next timeout and the time left\<close>

lemma time_left_ok:
  assumes "wheel_ok s"
  shows "erts_time_left p s = (case pending s p of None \<Rightarrow> 0 | Some r \<Rightarrow> max 0 (int r - do_time s))"
proof (cases "t_active (timers s p)")
  case True
  let ?x = "timers s p"
  have b: "tiw_pos s < TIW_SIZE" "t_slot ?x < TIW_SIZE" using assms True by (auto simp: wheel_ok_def chains_ok_def)
  have "(if t_slot ?x < tiw_pos s then (t_count ?x + 1) * TIW_SIZE + t_slot ?x - tiw_pos s
      else t_count ?x * TIW_SIZE + t_slot ?x - tiw_pos s) = ticks_left s p"
    using b by (auto simp: ticks_left_def slot_offset_if)
  then show ?thesis using True by (simp add: erts_time_left_def Let_def pending_def)
qed (simp add: erts_time_left_def Let_def pending_def)

text \<open>What the scan knows when it has seen the timers \<open>P\<close>.\<close>

definition scan_ok :: "('f, 'a) wheel \<Rightarrow> nat set \<Rightarrow> nat \<times> nat \<times> nat option \<Rightarrow> bool" where
  "scan_ok s P acc \<longleftrightarrow>
     (case acc of (nto, mn, ptr) \<Rightarrow> finite P \<and> nto = card P \<and> (\<forall>p\<in>P. mn \<le> ticks_left s p) \<and>
        (mn = 2 ^ 32 - 1 \<and> ptr = None \<or> (\<exists>p\<in>P. ptr = Some p \<and> mn = ticks_left s p)))"

lemma scan_ok_mono:
  assumes "scan_ok s P (nto, mn, ptr)" and "p \<notin> P"
  shows "ticks_left s p < mn \<Longrightarrow> scan_ok s (insert p P) (nto + 1, ticks_left s p, Some p)"
    and "\<not> ticks_left s p < mn \<Longrightarrow> scan_ok s (insert p P) (nto + 1, mn, ptr)"
  using assms by (auto simp: scan_ok_def)

lemma scan_chain_ok:
  assumes "\<And>p. p \<in> set ps \<Longrightarrow> ticks_left s p = tm + t_count (timers s p) * TIW_SIZE"
    and "scan_ok s P acc" and "distinct ps" and "set ps \<inter> P = {}"
  shows "case scan_chain s tm ps acc of Inl p \<Rightarrow> p \<in> set ps \<and> t_count (timers s p) = 0
    | Inr acc' \<Rightarrow> scan_ok s (P \<union> set ps) acc' \<and> (\<forall>p\<in>set ps. t_count (timers s p) \<noteq> 0)"
  using assms
proof (induction ps arbitrary: P acc)
  case (Cons p ps)
  obtain nto mn ptr where acc: "acc = (nto, mn, ptr)" by (cases acc)
  let ?t = "tm + t_count (timers s p) * TIW_SIZE"
  let ?acc = "if ?t < mn then (nto + 1, ?t, Some p) else (nto + 1, mn, ptr)"
  have t: "ticks_left s p = ?t" and pP: "p \<notin> P" using Cons.prems by auto
  have "scan_ok s (insert p P) ?acc"
    using scan_ok_mono [OF Cons.prems(2) [unfolded acc] pP] t by auto
  moreover have "distinct ps" "set ps \<inter> insert p P = {}" "\<And>x. x \<in> set ps \<Longrightarrow> ticks_left s x = tm + t_count (timers s x) * TIW_SIZE"
    using Cons.prems by auto
  ultimately have ih: "case scan_chain s tm ps ?acc of Inl x \<Rightarrow> x \<in> set ps \<and> t_count (timers s x) = 0
    | Inr acc' \<Rightarrow> scan_ok s (insert p P \<union> set ps) acc' \<and> (\<forall>x\<in>set ps. t_count (timers s x) \<noteq> 0)"
    by (intro Cons.IH)
  have e: "scan_chain s tm (p # ps) acc = (if t_count (timers s p) = 0 then Inl p else scan_chain s tm ps ?acc)"
    by (simp add: acc)
  show ?case
  proof (cases "t_count (timers s p) = 0")
    case True
    then show ?thesis by (simp add: e)
  next
    case False
    then show ?thesis using ih unfolding e by (auto split: sum.splits)
  qed
qed auto

definition active_before :: "('f, 'a) wheel \<Rightarrow> nat \<Rightarrow> nat set" where
  "active_before s tm = {p. t_active (timers s p) \<and> offset_of s p < tm}"

lemma scan_wheel_ok:
  assumes ok: "chains_ok s" and "n = TIW_SIZE - tm" and "tm \<le> TIW_SIZE" and "i = (tiw_pos s + tm) mod TIW_SIZE"
    and "scan_ok s (active_before s tm) acc" and "\<forall>p\<in>active_before s tm. t_count (timers s p) \<noteq> 0"
  shows "case scan_wheel s n i tm acc of
      Inl (p, tm') \<Rightarrow> t_active (timers s p) \<and> ticks_left s p = tm' \<and> tm' < TIW_SIZE \<and>
        (\<forall>x. t_active (timers s x) \<longrightarrow> tm' \<le> ticks_left s x)
    | Inr (mn, ptr) \<Rightarrow> \<exists>k. scan_ok s {p. t_active (timers s p)} (k, mn, ptr)"
  using assms(2-)
proof (induction n arbitrary: tm i acc)
  case 0
  then have "active_before s tm = {p. t_active (timers s p)}" by (simp add: active_before_def offset_of_def)
  with 0 show ?case by (cases acc) (auto simp: scan_wheel.simps)
next
  case (Suc n)
  let ?S = TIW_SIZE
  have tm: "tm < ?S" using Suc.prems(1) by simp
  have pos: "tiw_pos s < ?S" and dis: "\<And>j. distinct (tiw s j)"
    and mem: "\<And>p j. p \<in> set (tiw s j) \<longleftrightarrow> j < ?S \<and> t_slot (timers s p) = j \<and> t_active (timers s p)"
    and act: "\<And>p. t_active (timers s p) \<Longrightarrow> t_slot (timers s p) < ?S"
    and fin: "finite {p. t_active (timers s p)}" "tiw_nto s = card {p. t_active (timers s p)}"
    using ok by (auto simp: chains_ok_def)
  have at: "p \<in> set (tiw s i) \<longleftrightarrow> t_active (timers s p) \<and> offset_of s p = tm" for p
  proof
    assume "p \<in> set (tiw s i)"
    then have "t_slot (timers s p) = i" "t_active (timers s p)" using mem [of p i] by simp_all
    then show "t_active (timers s p) \<and> offset_of s p = tm"
      using slot_at_offset [OF pos tm] by (simp add: offset_of_def Suc.prems(3))
  next
    assume a: "t_active (timers s p) \<and> offset_of s p = tm"
    then have sl: "t_slot (timers s p) < ?S" using act by simp
    have "tm = (if tiw_pos s \<le> t_slot (timers s p) then t_slot (timers s p) - tiw_pos s
        else t_slot (timers s p) + ?S - tiw_pos s)"
      using slot_offset_if [OF pos sl] a by (simp add: offset_of_def)
    then have "i = t_slot (timers s p)" using sl pos by (auto simp: Suc.prems(3) split: if_splits)
    with a sl mem [of p i] show "p \<in> set (tiw s i)" by simp
  qed
  have tl: "ticks_left s p = offset_of s p + t_count (timers s p) * ?S" for p by (simp add: ticks_left_def offset_of_def)
  have un: "active_before s tm \<union> set (tiw s i) = active_before s (Suc tm)"
    by (rule set_eqI) (unfold Un_iff at active_before_def mem_Collect_eq less_Suc_eq, blast)
  have "\<And>p. p \<in> set (tiw s i) \<Longrightarrow> ticks_left s p = tm + t_count (timers s p) * ?S" using at tl by simp
  moreover have "p \<notin> active_before s tm" if "p \<in> set (tiw s i)" for p
    using at [of p] that by (simp add: active_before_def)
  then have "set (tiw s i) \<inter> active_before s tm = {}" by blast
  ultimately have c: "case scan_chain s tm (tiw s i) acc of Inl p \<Rightarrow> p \<in> set (tiw s i) \<and> t_count (timers s p) = 0
    | Inr acc' \<Rightarrow> scan_ok s (active_before s tm \<union> set (tiw s i)) acc' \<and> (\<forall>p\<in>set (tiw s i). t_count (timers s p) \<noteq> 0)"
    by (intro scan_chain_ok [OF _ Suc.prems(4) dis])
  show ?case
  proof (cases "scan_chain s tm (tiw s i) acc")
    case (Inl p)
    with c at [of p] have p: "t_active (timers s p)" "offset_of s p = tm" "t_count (timers s p) = 0" by simp_all
    have "tm \<le> ticks_left s x" if "t_active (timers s x)" for x
    proof (cases "offset_of s x < tm")
      case True
      then have "t_count (timers s x) \<noteq> 0" using that Suc.prems(5) by (simp add: active_before_def)
      then have "1 * ?S \<le> t_count (timers s x) * ?S" by (intro mult_le_mono1) simp
      then show ?thesis unfolding tl using tm by linarith
    qed (simp add: tl)
    with p tm Inl show ?thesis by (simp add: scan_wheel.simps [of s "Suc n"] tl)
  next
    case (Inr acc')
    with c have "scan_ok s (active_before s tm \<union> set (tiw s i)) acc'" "\<forall>p\<in>set (tiw s i). t_count (timers s p) \<noteq> 0"
      by simp_all
    with Suc.prems(5) have a: "scan_ok s (active_before s (Suc tm)) acc'"
      "\<forall>p\<in>active_before s (Suc tm). t_count (timers s p) \<noteq> 0" unfolding un [symmetric] ball_Un by blast+
    show ?thesis
    proof (cases "fst acc' = tiw_nto s")
      case True
      with a(1) fin have "card (active_before s (Suc tm)) = card {p. t_active (timers s p)}"
        by (cases acc') (auto simp: scan_ok_def)
      then have "active_before s (Suc tm) = {p. t_active (timers s p)}"
        by (intro card_subset_eq fin(1)) (auto simp: active_before_def)
      with a(1) Inr True show ?thesis by (cases acc') (auto simp: scan_wheel.simps [of s "Suc n"])
    next
      case False
      have i: "(i + 1) mod ?S = (tiw_pos s + Suc tm) mod ?S" by (simp add: Suc.prems(3) mod_Suc_eq)
      have e: "scan_wheel s (Suc n) i tm acc = scan_wheel s n ((i + 1) mod ?S) (Suc tm) acc'"
        using False Inr by (subst scan_wheel.simps) simp
      have "n = ?S - Suc tm" "Suc tm \<le> ?S" using Suc.prems(1) tm by simp_all
      from Suc.IH [OF this i a] show ?thesis unfolding e .
    qed
  qed
qed

lemma note_min_ok:
  assumes "wheel_ok s" and "t_active (timers s p)" and "n = ticks_left s p"
    and "\<forall>x. t_active (timers s x) \<longrightarrow> n \<le> ticks_left s x"
  shows "wheel_ok (s\<lparr>tiw_min_ptr := Some p, tiw_min := n\<rparr>) \<and> pending (s\<lparr>tiw_min_ptr := Some p, tiw_min := n\<rparr>) = pending s"
  using assms by (simp add: wheel_ok_def chains_ok_def min_ok_def ticks_left_def pending_def fun_eq_iff)

lemma next_known:
  assumes "n < 2 ^ 31" and "0 \<le> dt" and "dt < 2 ^ 31"
  shows "(if (of_nat n :: Uint32) \<ge> word_of_int dt then sint ((of_nat n :: Uint32) - word_of_int dt) else 0) =
    max 0 (int n - dt)"
proof -
  have u: "uint (of_nat n :: Uint32) = int n" "uint (word_of_int dt :: Uint32) = dt"
    using assms by (simp_all add: uint_word_of_int_small unsigned_of_nat take_bit_nat_eq_self)
  have le: "(of_nat n :: Uint32) \<ge> word_of_int dt \<longleftrightarrow> dt \<le> int n" by (simp add: word_le_def u)
  have "sint ((of_nat n :: Uint32) - word_of_int dt) = int n - dt" if "dt \<le> int n"
  proof -
    have "(of_nat n :: Uint32) - word_of_int dt = word_of_int (int n - dt)" by simp
    moreover have "signed_take_bit 31 (int n - dt) = int n - dt"
      using that assms by (intro signed_take_bit_int_eq_self) simp_all
    ultimately show ?thesis by (simp only: sint_sbintrunc') simp
  qed
  with le show ?thesis by auto
qed

lemma next_ok:
  assumes ok: "wheel_ok s" and nx: "next_time_internal s = (r, s')"
  shows "wheel_ok s' \<and> pending s' = pending s \<and> do_time s' = do_time s \<and> (pending s = Map.empty \<longrightarrow> r = - 1) \<and>
    (\<forall>p n. pending s p = Some n \<and> (\<forall>x m. pending s x = Some m \<longrightarrow> n \<le> m) \<and> n < 2 ^ 31 \<longrightarrow>
       r = max 0 (int n - do_time s))"
proof -
  have ch: "chains_ok s" and mn: "min_ok s" and dt: "0 \<le> do_time s" "do_time s < 2 ^ 31"
    using ok by (auto simp: wheel_ok_def)
  have e: "pending s = Map.empty \<longleftrightarrow> tiw_nto s = 0"
    using ch by (auto simp: chains_ok_def pending_def fun_eq_iff)
  consider (none) "tiw_nto s = 0" | (known) p where "tiw_nto s \<noteq> 0" "tiw_min_ptr s = Some p"
    | (scan) "tiw_nto s \<noteq> 0" "tiw_min_ptr s = None" by (cases "tiw_min_ptr s") auto
  then show ?thesis
  proof cases
    case none
    then show ?thesis using nx ok e by (auto simp: next_time_internal_def Let_def)
  next
    case (known p)
    then have m: "t_active (timers s p)" "tiw_min s = ticks_left s p" "\<forall>x. t_active (timers s x) \<longrightarrow> tiw_min s \<le> ticks_left s x"
      using mn by (auto simp: min_ok_def)
    have r: "s' = s" "r = (if (of_nat (tiw_min s) :: Uint32) \<ge> word_of_int (do_time s)
        then sint ((of_nat (tiw_min s) :: Uint32) - word_of_int (do_time s)) else 0)"
      using nx known by (auto simp: next_time_internal_def Let_def split: if_splits)
    have "r = max 0 (int n - do_time s)"
      if "pending s q = Some n" "\<forall>x k. pending s x = Some k \<longrightarrow> n \<le> k" "n < 2 ^ 31" for q n
    proof -
      have "n = tiw_min s" using that(1,2) m by (metis pending_Some le_antisym)
      with r(2) next_known [OF that(3) dt] show ?thesis by (simp only:)
    qed
    then have "\<forall>q n. pending s q = Some n \<and> (\<forall>x k. pending s x = Some k \<longrightarrow> n \<le> k) \<and> n < 2 ^ 31 \<longrightarrow>
        r = max 0 (int n - do_time s)" by blast
    with known e ok show ?thesis unfolding r(1) by simp
  next
    case scan
    have "scan_ok s (active_before s 0) (0, 2 ^ 32 - 1, None)" "\<forall>p\<in>active_before s 0. t_count (timers s p) \<noteq> 0"
      by (simp_all add: scan_ok_def active_before_def)
    from scan_wheel_ok [OF ch _ _ _ this, of TIW_SIZE "tiw_pos s"] ch
    have sw: "case scan_wheel s TIW_SIZE (tiw_pos s) 0 (0, 2 ^ 32 - 1, None) of
        Inl (p, tm') \<Rightarrow> t_active (timers s p) \<and> ticks_left s p = tm' \<and> tm' < TIW_SIZE \<and>
          (\<forall>x. t_active (timers s x) \<longrightarrow> tm' \<le> ticks_left s x)
      | Inr (mn, ptr) \<Rightarrow> \<exists>k. scan_ok s {p. t_active (timers s p)} (k, mn, ptr)" by (simp add: chains_ok_def)
    show ?thesis
    proof (cases "scan_wheel s TIW_SIZE (tiw_pos s) 0 (0, 2 ^ 32 - 1, None)")
      case (Inl y)
      obtain p tm where y: "y = (p, tm)" by (cases y)
      have p: "t_active (timers s p)" "tm = ticks_left s p" "\<forall>x. t_active (timers s x) \<longrightarrow> tm \<le> ticks_left s x"
        using sw Inl y by auto
      have "r = max 0 (int tm - do_time s)" "s' = s\<lparr>tiw_min_ptr := Some p, tiw_min := tm\<rparr>"
        using nx scan Inl y by (auto simp: next_time_internal_def Let_def max_def)
      moreover have "n = tm" if "pending s q = Some n" "\<forall>x k. pending s x = Some k \<longrightarrow> n \<le> k" for q n
        using that p by (metis pending_Some le_antisym)
      ultimately show ?thesis using note_min_ok [OF ok p] scan e by auto
    next
      case (Inr y)
      obtain mn ptr where y: "y = (mn, ptr)" by (cases y)
      have sc: "\<forall>p. t_active (timers s p) \<longrightarrow> mn \<le> ticks_left s p"
        "mn = 2 ^ 32 - 1 \<and> ptr = None \<or> (\<exists>p. t_active (timers s p) \<and> ptr = Some p \<and> mn = ticks_left s p)"
        using sw Inr y by (auto simp: scan_ok_def)
      have d: "uint (word_of_int (do_time s) :: Uint32) = do_time s" using dt by (simp add: uint_word_of_int_small)
      have r: "r = (if int mn \<le> do_time s then 0 else if int mn - do_time s > ERTS_SHORT_TIME_T_MAX
          then ERTS_SHORT_TIME_T_MAX else int mn - do_time s)"
        "s' = (case ptr of None \<Rightarrow> s | Some p \<Rightarrow> s\<lparr>tiw_min_ptr := Some p, tiw_min := mn\<rparr>)"
        using nx scan Inr y by (auto simp: next_time_internal_def Let_def d)
      have "wheel_ok s' \<and> pending s' = pending s \<and> do_time s' = do_time s"
        using sc r(2) ok note_min_ok [OF ok] by (cases ptr) auto
      moreover have "r = max 0 (int n - do_time s)"
        if "pending s q = Some n" "\<forall>x k. pending s x = Some k \<longrightarrow> n \<le> k" "n < 2 ^ 31" for q n
      proof -
        note q = that
        have "mn \<le> n" using q(1) sc(1) by (auto simp: pending_Some)
        then obtain p where p: "t_active (timers s p)" "mn = ticks_left s p" using sc(2) q(3) by auto
        then have "n = mn" using q(2) \<open>mn \<le> n\<close> by (metis pending_Some le_antisym)
        then show ?thesis using r(1) q(3) dt by (simp add: ERTS_SHORT_TIME_T_MAX_def)
      qed
      then have "\<forall>q n. pending s q = Some n \<and> (\<forall>x k. pending s x = Some k \<longrightarrow> n \<le> k) \<and> n < 2 ^ 31 \<longrightarrow>
          r = max 0 (int n - do_time s)" by blast
      ultimately show ?thesis using scan e by simp
    qed
  qed
qed

subsection \<open>The timer service\<close>

text \<open>
  What the clients of the timers rely on, stated over the ticks left of each timer and the backlog
  of time that has passed but is not processed: setting an idle timer adds it with the backlog on
  top, processing the backlog lets exactly the timers go off whose ticks are used up.
\<close>

datatype 'a service_op = Set_timer nat nat 'a | Cancel_timer nat | Elapse nat | Process

fun op_timer :: "'a service_op \<Rightarrow> nat option" where
  "op_timer (Set_timer p t a) = Some p"
| "op_timer (Cancel_timer p) = Some p"
| "op_timer _ = None"

fun op_elapsed :: "'a service_op \<Rightarrow> nat" where
  "op_elapsed (Elapse e) = e"
| "op_elapsed _ = 0"

definition elapsed :: "'a service_op list \<Rightarrow> nat" where
  "elapsed xs = sum_list (map op_elapsed xs)"

text \<open>Operations that leave a timer alone, and set no timer for an absurd time.\<close>

definition leaves_alone :: "nat \<Rightarrow> 'a service_op list \<Rightarrow> bool" where
  "leaves_alone p xs \<longleftrightarrow> (\<forall>x\<in>set xs. op_timer x \<noteq> Some p)"

fun time_ok :: "'a service_op \<Rightarrow> bool" where
  "time_ok (Set_timer p t a) = (t < 2 ^ 63)"
| "time_ok _ = True"

lemma run_list_simps [simp]:
  "elapsed [] = 0" "elapsed (x # xs) = op_elapsed x + elapsed xs" "elapsed (xs @ ys) = elapsed xs + elapsed ys"
  "leaves_alone p []" "leaves_alone p (x # xs) \<longleftrightarrow> op_timer x \<noteq> Some p \<and> leaves_alone p xs"
  "leaves_alone p (xs @ ys) \<longleftrightarrow> leaves_alone p xs \<and> leaves_alone p ys"
  by (auto simp: elapsed_def leaves_alone_def)

text \<open>A run of the service and the timers that go off in it, in order; None if it fails.\<close>

fun service_run ::
  "(nat \<Rightarrow> nat \<Rightarrow> 'a \<Rightarrow> 's \<Rightarrow> 's) \<Rightarrow> (nat \<Rightarrow> 's \<Rightarrow> 's) \<Rightarrow> (nat \<Rightarrow> 's \<Rightarrow> 's) \<Rightarrow> ('s \<Rightarrow> 'e + 's \<times> nat list) \<Rightarrow>
   'a service_op list \<Rightarrow> 's \<Rightarrow> ('s \<times> nat list) option" where
  "service_run st cn ad pr [] s = Some (s, [])"
| "service_run st cn ad pr (Set_timer p t a # xs) s = service_run st cn ad pr xs (st p t a s)"
| "service_run st cn ad pr (Cancel_timer p # xs) s = service_run st cn ad pr xs (cn p s)"
| "service_run st cn ad pr (Elapse e # xs) s = service_run st cn ad pr xs (ad e s)"
| "service_run st cn ad pr (Process # xs) s =
     (case pr s of
        Inl e \<Rightarrow> None
      | Inr (s', fired) \<Rightarrow>
          map_option (\<lambda>(s2, fired'). (s2, fired @ fired')) (service_run st cn ad pr xs s'))"

text \<open>What becomes of a timer with \<open>r\<close> ticks left when \<open>d\<close> ticks pass, and how often it goes off.\<close>

definition passes :: "nat \<Rightarrow> nat \<Rightarrow> nat option \<Rightarrow> nat \<Rightarrow> bool" where
  "passes r d l n \<longleftrightarrow> l = (if r < d then None else Some (r - d)) \<and> n = (if r < d then 1 else 0)"

locale timer_service =
  fixes inv :: "'s \<Rightarrow> bool" and left :: "'s \<Rightarrow> nat \<rightharpoonup> nat" and backlog :: "'s \<Rightarrow> nat"
    and set_op :: "nat \<Rightarrow> nat \<Rightarrow> 'a \<Rightarrow> 's \<Rightarrow> 's" and cancel_op :: "nat \<Rightarrow> 's \<Rightarrow> 's"
    and add_op :: "nat \<Rightarrow> 's \<Rightarrow> 's" and process_op :: "'s \<Rightarrow> 'e + 's \<times> nat list"
  assumes set_law: "inv s \<Longrightarrow> t < 2 ^ 63 \<Longrightarrow> inv (set_op p t a s) \<and> backlog (set_op p t a s) = backlog s \<and>
      left (set_op p t a s) = (if left s p = None then (left s)(p \<mapsto> t + backlog s) else left s)"
    and cancel_law: "inv s \<Longrightarrow> inv (cancel_op p s) \<and> backlog (cancel_op p s) = backlog s \<and>
      left (cancel_op p s) = (left s)(p := None)"
    and add_law: "inv s \<Longrightarrow> backlog s + e < 2 ^ 31 \<Longrightarrow> inv (add_op e s) \<and> backlog (add_op e s) = backlog s + e \<and>
      left (add_op e s) = left s"
    and process_law: "inv s \<Longrightarrow> \<exists>s' fired. process_op s = Inr (s', fired) \<and> inv s' \<and> backlog s' = 0 \<and>
      distinct fired \<and> set fired = {p. \<exists>r<backlog s. left s p = Some r} \<and>
      left s' = (\<lambda>p. case left s p of None \<Rightarrow> None | Some r \<Rightarrow> if r < backlog s then None else Some (r - backlog s))"
begin

abbreviation run :: "'a service_op list \<Rightarrow> 's \<Rightarrow> ('s \<times> nat list) option" where
  "run \<equiv> service_run set_op cancel_op add_op process_op"

text \<open>Deadlines do not move while the timer is left alone: ticks left less backlog is what is to pass.\<close>

lemma run_idle:
  assumes "inv s" and "left s p = None" and "leaves_alone p xs" and "backlog s + elapsed xs < 2 ^ 31"
    and "list_all time_ok xs"
  shows "\<exists>s' fired. run xs s = Some (s', fired) \<and> inv s' \<and> left s' p = None \<and> count_list fired p = 0"
  using assms
proof (induction xs arbitrary: s)
  case (Cons x xs)
  show ?case
  proof (cases x)
    case (Set_timer q t a)
    then have t: "t < 2 ^ 63" "q \<noteq> p" using Cons.prems by simp_all
    from set_law [OF Cons.prems(1) t(1), of q a] t(2) Cons.prems(2)
    have s: "inv (set_op q t a s)" "backlog (set_op q t a s) = backlog s" "left (set_op q t a s) p = None" by simp_all
    show ?thesis using Cons.IH [OF s(1,3)] Cons.prems(3-5) s(2) Set_timer by simp
  next
    case (Cancel_timer q)
    from cancel_law [OF Cons.prems(1), of q] Cons.prems(2)
    have s: "inv (cancel_op q s)" "backlog (cancel_op q s) = backlog s" "left (cancel_op q s) p = None" by simp_all
    show ?thesis using Cons.IH [OF s(1,3)] Cons.prems(3-5) s(2) Cancel_timer by simp
  next
    case (Elapse e)
    then have "backlog s + e < 2 ^ 31" using Cons.prems(4) by simp
    from add_law [OF Cons.prems(1) this] Cons.prems(2)
    have s: "inv (add_op e s)" "backlog (add_op e s) = backlog s + e" "left (add_op e s) p = None" by simp_all
    show ?thesis using Cons.IH [OF s(1,3)] Cons.prems(3-5) s(2) Elapse by simp
  next
    case Process
    from process_law [OF Cons.prems(1)] Cons.prems(2) obtain s' fired where s': "process_op s = Inr (s', fired)" "inv s'"
      "backlog s' = 0" "set fired = {p. \<exists>r<backlog s. left s p = Some r}" "left s' p = None" by auto
    have "count_list fired p = 0" using s'(4) Cons.prems(2) by simp
    with Cons.IH [OF s'(2,5)] Cons.prems(3-5) s'(1,3) Process show ?thesis by auto
  qed
qed simp

lemma process_at:
  assumes "inv s" and "left s p = Some r"
  obtains s' fired where "process_op s = Inr (s', fired)" "inv s'" "backlog s' = 0"
    "passes r (backlog s) (left s' p) (count_list fired p)"
proof -
  from process_law [OF assms(1)] obtain s' fired where s': "process_op s = Inr (s', fired)" "inv s'" "backlog s' = 0"
    "distinct fired" "set fired = {p. \<exists>r<backlog s. left s p = Some r}"
    "left s' p = (if r < backlog s then None else Some (r - backlog s))" using assms(2) by auto
  have "count_list fired p = (if p \<in> set fired then 1 else 0)" using s'(4) by (induction fired) auto
  moreover have "p \<in> set fired \<longleftrightarrow> r < backlog s" using s'(5) assms(2) by auto
  ultimately show ?thesis using that s' by (simp add: passes_def)
qed

lemma run_pending:
  assumes "inv s" and "left s p = Some r" and "leaves_alone p xs" and "backlog s + elapsed xs < 2 ^ 31"
    and "list_all time_ok xs"
  shows "\<exists>s' fired. run (xs @ [Process]) s = Some (s', fired) \<and> inv s' \<and>
    passes r (backlog s + elapsed xs) (left s' p) (count_list fired p)"
  using assms
proof (induction xs arbitrary: s r)
  case Nil
  obtain s' fired where s': "process_op s = Inr (s', fired)" "inv s'" "backlog s' = 0"
    "passes r (backlog s) (left s' p) (count_list fired p)" by (rule process_at [OF Nil.prems(1,2)])
  then show ?case by (intro exI [of _ s'] exI [of _ fired]) simp
next
  case (Cons x xs)
  show ?case
  proof (cases x)
    case (Set_timer q t a)
    then have t: "t < 2 ^ 63" "q \<noteq> p" using Cons.prems by simp_all
    from set_law [OF Cons.prems(1) t(1), of q a] t(2) Cons.prems(2)
    have s: "inv (set_op q t a s)" "backlog (set_op q t a s) = backlog s" "left (set_op q t a s) p = Some r" by simp_all
    show ?thesis using Cons.IH [OF s(1,3)] Cons.prems(3-5) s(2) Set_timer by simp
  next
    case (Cancel_timer q)
    from cancel_law [OF Cons.prems(1), of q] Cons.prems(2,3) Cancel_timer
    have s: "inv (cancel_op q s)" "backlog (cancel_op q s) = backlog s" "left (cancel_op q s) p = Some r" by simp_all
    show ?thesis using Cons.IH [OF s(1,3)] Cons.prems(3-5) s(2) Cancel_timer by simp
  next
    case (Elapse e)
    then have "backlog s + e < 2 ^ 31" using Cons.prems(4) by simp
    from add_law [OF Cons.prems(1) this] Cons.prems(2)
    have s: "inv (add_op e s)" "backlog (add_op e s) = backlog s + e" "left (add_op e s) p = Some r" by simp_all
    show ?thesis using Cons.IH [OF s(1,3)] Cons.prems(3-5) s(2) Elapse by (simp add: add.assoc)
  next
    case Process
    obtain s' fired where s': "process_op s = Inr (s', fired)" "inv s'" "backlog s' = 0"
      "passes r (backlog s) (left s' p) (count_list fired p)" by (rule process_at [OF Cons.prems(1,2)])
    show ?thesis
    proof (cases "r < backlog s")
      case True
      with s' have n: "left s' p = None" "count_list fired p = 1" by (simp_all add: passes_def)
      from run_idle [OF s'(2) n(1), of "xs @ [Process]"] Cons.prems(3-5) s'(1,3) Process True n(2) show ?thesis by (auto simp: passes_def)
    next
      case False
      with s' have n: "left s' p = Some (r - backlog s)" "count_list fired p = 0" by (simp_all add: passes_def)
      have "backlog s' + elapsed xs < 2 ^ 31" "leaves_alone p xs" "list_all time_ok xs"
        using Cons.prems(3-5) s'(3) by simp_all
      from Cons.IH [OF s'(2) n(1) this(2,1,3)] obtain s2 fired2 where r2: "run (xs @ [Process]) s' = Some (s2, fired2)"
        "inv s2" "passes (r - backlog s) (elapsed xs) (left s2 p) (count_list fired2 p)" using s'(3) by auto
      moreover have "r - backlog s < elapsed xs \<longleftrightarrow> r < backlog s + elapsed xs" using False by linarith
      ultimately show ?thesis using s'(1) n(2) Process by (auto simp: passes_def)
    qed
  qed
qed

end

definition set_simple :: "nat \<Rightarrow> nat \<Rightarrow> 'f \<times> 'f option \<times> 'a \<Rightarrow> ('f, 'a) wheel \<Rightarrow> ('f, 'a) wheel" where
  "set_simple p t x s = erts_set_timer p (fst x) (fst (snd x)) (snd (snd x)) t 0 s"

definition wheel_run ::
  "('f \<times> 'f option \<times> 'a) service_op list \<Rightarrow> ('f, 'a) wheel \<Rightarrow> (('f, 'a) wheel \<times> nat list) option" where
  "wheel_run = service_run set_simple (\<lambda>p s. fst (erts_cancel_timer p s)) (\<lambda>e. erts_do_time_add (int e)) schedule_bump"

interpretation wheel_timers: timer_service "wheel_ok :: ('f, 'a) wheel \<Rightarrow> bool" pending "\<lambda>s. nat (do_time s)" set_simple
  "\<lambda>p s. fst (erts_cancel_timer p s)" "\<lambda>e. erts_do_time_add (int e)" schedule_bump
proof unfold_locales
  fix s :: "('f, 'a) wheel" and t p e :: nat and x :: "'f \<times> 'f option \<times> 'a"
  assume ok: "wheel_ok s"
  then have dt: "0 \<le> do_time s" "do_time s < 2 ^ 31" by (auto simp: wheel_ok_def)
  show "t < 2 ^ 63 \<Longrightarrow> wheel_ok (set_simple p t x s) \<and> nat (do_time (set_simple p t x s)) = nat (do_time s) \<and>
      pending (set_simple p t x s) = (if pending s p = None then (pending s)(p \<mapsto> t + nat (do_time s)) else pending s)"
    using set_ok [OF ok, of 0 t] dt by (simp add: set_simple_def)
  show "wheel_ok (fst (erts_cancel_timer p s)) \<and> nat (do_time (fst (erts_cancel_timer p s))) = nat (do_time s) \<and>
      pending (fst (erts_cancel_timer p s)) = (pending s)(p := None)"
    using cancel_ok [OF ok, of p] by simp
  show "nat (do_time s) + e < 2 ^ 31 \<Longrightarrow> wheel_ok (erts_do_time_add (int e) s) \<and>
      nat (do_time (erts_do_time_add (int e) s)) = nat (do_time s) + e \<and> pending (erts_do_time_add (int e) s) = pending s"
    using time_add_ok [OF ok, of "int e"] dt by (simp add: nat_add_distrib)
  show "\<exists>s' fired. schedule_bump s = Inr (s', fired) \<and> wheel_ok s' \<and> nat (do_time s') = 0 \<and> distinct fired \<and>
      set fired = {p. \<exists>r<nat (do_time s). pending s p = Some r} \<and>
      pending s' = (\<lambda>p. case pending s p of None \<Rightarrow> None
        | Some r \<Rightarrow> if r < nat (do_time s) then None else Some (r - nat (do_time s)))"
    using schedule_ok [OF ok] by auto
qed

lemma init_ok: "(\<And>p. \<not> t_active (memory p)) \<Longrightarrow> wheel_ok (erts_init_time memory) \<and> pending (erts_init_time memory) = Map.empty"
  by (simp add: wheel_ok_def chains_ok_def min_ok_def erts_init_time_def pending_def fun_eq_iff)

lemma sorted_buckets:
  "(\<And>k x. k < n \<Longrightarrow> x \<in> set (g k) \<Longrightarrow> f x = k) \<Longrightarrow> sorted (map f (concat (map g [0..<n])))"
proof (induction n)
  case (Suc n)
  then have "\<And>x. x \<in> set (g n) \<Longrightarrow> f x = n" by simp
  then have "map f (g n) = map (\<lambda>_. n) (g n)" by (intro map_cong) auto
  moreover have "f x \<le> n" if "x \<in> set (concat (map g [0..<n]))" for x
  proof -
    from that obtain k where "k < n" "x \<in> set (g k)" by auto
    with Suc.prems [of k x] show ?thesis by simp
  qed
  ultimately show ?case using Suc by (simp add: sorted_append map_replicate_const)
qed simp

lemma bump_sorted:
  assumes ok: "wheel_ok s" and b: "bump_timer_internal dt s = (s', fired)" and dt: "dt \<le> TIW_SIZE"
  shows "sorted (map (ticks_left s) fired)"
proof -
  have ch: "chains_ok s" "min_ok s" using ok by (auto simp: wheel_ok_def)
  have f: "fired = concat (map (\<lambda>k. filter (\<lambda>p. ticks_left s p < dt) (tiw s ((tiw_pos s + k) mod TIW_SIZE))) [0..<min dt TIW_SIZE])"
    using bump_ok [OF ch b] by blast
  have "ticks_left s x = k" if "k < min dt TIW_SIZE" "x \<in> set (filter (\<lambda>p. ticks_left s p < dt) (tiw s ((tiw_pos s + k) mod TIW_SIZE)))" for k x
  proof -
    have x: "x \<in> set (tiw s ((tiw_pos s + k) mod TIW_SIZE))" "ticks_left s x < dt" using that(2) by simp_all
    then have "t_slot (timers s x) = (tiw_pos s + k) mod TIW_SIZE" using ch(1) by (auto simp: chains_ok_def)
    then have "offset_of s x = k" using slot_at_offset [of "tiw_pos s" k] ch(1) that(1) by (simp add: offset_of_def chains_ok_def)
    moreover have "t_count (timers s x) = 0"
    proof (rule ccontr)
      assume "t_count (timers s x) \<noteq> 0"
      then have "1 * TIW_SIZE \<le> t_count (timers s x) * TIW_SIZE" by (intro mult_le_mono1) simp
      with x(2) dt show False by (simp add: ticks_left_def)
    qed
    ultimately show ?thesis by (simp add: ticks_left_def offset_of_def)
  qed
  then show ?thesis unfolding f by (rule sorted_buckets)
qed

text \<open>
  The first branch of next\_time\_internal does not limit its result: a timeout of 16\#ffffffff
  ticks, the longest a receive accepts, reads as -1, no timeout at all.
\<close>

lemma next_time_negative:
  assumes "\<not> t_active (memory p)"
  shows "fst (erts_next_time (erts_set_timer p f c a 0xFFFFFFFF 0 (erts_init_time memory))) = - 1"
  using assms
  by (simp add: erts_next_time_def erts_set_timer_def erts_do_time_add_def insert_timer_def next_time_internal_def
      erts_init_time_def Let_def short_time_def)

subsection \<open>Properties\<close>

text \<open>
  C20: the wheel implements the map from the active timers to the ticks left. Setting an idle timer
  adds it with the unprocessed time on top, setting an active one does nothing; cancelling removes
  it; processing the time \<open>d\<close> that has passed lets go off, once each, exactly the timers with less
  than \<open>d\<close> ticks left, and takes \<open>d\<close> off the others, whatever part of the wheel, or how many rounds
  of it, the time covers. All of them keep the invariant of the wheel.
\<close>

theorem wheel_refines_ticks:
  assumes "wheel_ok s" and "0 \<le> e" and "do_time s + e < 2 ^ 31" and "t < 2 ^ 63"
  shows "(let s' = erts_set_timer p f c a t e s in wheel_ok s' \<and> do_time s' = do_time s + e \<and>
      pending s' = (if pending s p = None then (pending s)(p \<mapsto> t + nat (do_time s + e)) else pending s)) \<and>
    (let s' = fst (erts_cancel_timer p s) in wheel_ok s' \<and> do_time s' = do_time s \<and>
      pending s' = (pending s)(p := None)) \<and>
    (case schedule_bump s of Inl e \<Rightarrow> False
     | Inr (s', fired) \<Rightarrow> wheel_ok s' \<and> do_time s' = 0 \<and> distinct fired \<and>
        set fired = {p. \<exists>r<nat (do_time s). pending s p = Some r} \<and>
        pending s' = (\<lambda>p. case pending s p of None \<Rightarrow> None
          | Some r \<Rightarrow> if r < nat (do_time s) then None else Some (r - nat (do_time s))))"
  unfolding Let_def using set_ok [OF assms] cancel_ok [OF assms(1)] schedule_ok [OF assms(1)] by auto

text \<open>Memory with no active timer.\<close>

definition idle_memory :: "nat \<Rightarrow> (nat, nat) erl_timer" where
  "idle_memory p = \<lparr>t_slot = 0, t_count = 0, t_active = False, t_timeout = 0, t_cancel = None, t_arg = 0\<rparr>"

lemma idle_wheel: "wheel_ok (erts_init_time idle_memory)" "pending (erts_init_time idle_memory) = Map.empty"
  "do_time (erts_init_time idle_memory) = 0"
  using init_ok [of idle_memory] by (simp_all add: idle_memory_def erts_init_time_def)

theorem wheel_refines_ticks_witness:
  "pending (erts_set_timer 7 3 None 2 70000 5 (erts_init_time idle_memory)) = [7 \<mapsto> 70005]"
  using wheel_refines_ticks [OF idle_wheel(1), of 5 70000 7 3 None 2, unfolded Let_def, THEN conjunct1]
  by (simp add: idle_wheel)

text \<open>
  C21: a timer set for \<open>t\<close> ticks and then left alone goes off exactly once, when time is first
  processed after more than \<open>t\<close> ticks have passed, and not before, whatever other timers are set,
  cancelled or go off in between and however the time is processed in pieces.
\<close>

theorem timer_goes_off_once:
  assumes "wheel_ok s" and "pending s p = None" and "leaves_alone p xs" and "t < 2 ^ 63"
    and "nat (do_time s) + elapsed xs < 2 ^ 31" and "list_all time_ok xs"
  shows "case wheel_run (Set_timer p t x # xs @ [Process]) s of None \<Rightarrow> False
    | Some (s', fired) \<Rightarrow> wheel_ok s' \<and> passes t (elapsed xs) (pending s' p) (count_list fired p)"
proof -
  let ?s = "set_simple p t x s"
  have s: "wheel_ok ?s" "nat (do_time ?s) = nat (do_time s)" "pending ?s p = Some (t + nat (do_time s))"
    using wheel_timers.set_law [OF assms(1,4), of p x] assms(2) by simp_all
  have b: "nat (do_time ?s) + elapsed xs < 2 ^ 31" using assms(5) s(2) by simp
  from wheel_timers.run_pending [OF s(1,3) assms(3) b assms(6)] s(2) show ?thesis
    by (auto simp: wheel_run_def passes_def)
qed

theorem timer_goes_off_once_witness:
  "case wheel_run [Set_timer 7 100 (1, None, 2), Elapse 60, Process, Elapse 41, Process] (erts_init_time idle_memory) of
     None \<Rightarrow> False | Some (s', fired) \<Rightarrow> count_list fired 7 = 1"
  using timer_goes_off_once [OF idle_wheel(1), of 7 "[Elapse 60, Process, Elapse 41]" 100 "(1, None, 2)"]
  by (auto simp: idle_wheel passes_def split: option.splits)

text \<open>
  As long as at most one round of the wheel is processed at a time, timers go off in the order
  of their expiry.
\<close>

theorem timeouts_in_order:
  assumes "wheel_ok s" and "do_time s \<le> int TIW_SIZE"
  shows "case schedule_bump s of Inl e \<Rightarrow> False | Inr (s', fired) \<Rightarrow> sorted (map (\<lambda>p. the (pending s p)) fired)"
proof -
  let ?s = "s\<lparr>do_time := 0\<rparr>" and ?d = "nat (do_time s)"
  have dt: "0 \<le> do_time s" using assms(1) by (simp add: wheel_ok_def)
  obtain s' fired where b: "bump_timer_internal ?d ?s = (s', fired)" by fastforce
  have ok: "wheel_ok ?s" by (rule wheel_ok_time [OF assms(1)]) simp_all
  have "sorted (map (ticks_left ?s) fired)" by (rule bump_sorted [OF ok b]) (use assms(2) dt in simp)
  moreover have "\<And>p. p \<in> set fired \<Longrightarrow> t_active (timers s p)"
    using bump_ok [OF _ _ b] ok by (auto simp: wheel_ok_def)
  then have "map (ticks_left ?s) fired = map (\<lambda>p. the (pending s p)) fired"
    by (intro map_cong) (auto simp: pending_def ticks_left_def)
  ultimately show ?thesis using dt b
    by (auto simp: schedule_bump_def erts_do_time_read_and_reset_def erts_bump_timer_def)
qed

theorem timeouts_in_order_witness:
  "case schedule_bump (erts_do_time_add 9 (erts_set_timer 8 4 None 2 8 0 (erts_set_timer 7 4 None 2 3 0 (erts_init_time idle_memory)))) of
     Inl e \<Rightarrow> False | Inr (s', fired) \<Rightarrow> sorted (map (\<lambda>p. the ([7 \<mapsto> 3::nat, 8 \<mapsto> 8] p)) fired)"
proof -
  let ?s1 = "erts_set_timer 7 4 None 2 3 0 (erts_init_time idle_memory)"
  let ?s2 = "erts_set_timer 8 4 None 2 8 0 ?s1"
  have 1: "wheel_ok ?s1" "do_time ?s1 = 0" "pending ?s1 = [7 \<mapsto> 3]"
    using set_ok [OF idle_wheel(1), of 0 3 7 4 None 2] by (simp_all add: idle_wheel)
  have 2: "wheel_ok ?s2" "do_time ?s2 = 0" "pending ?s2 = [7 \<mapsto> 3, 8 \<mapsto> 8]"
    using set_ok [OF 1(1), of 0 8 8 4 None 2] 1 by simp_all
  have 3: "wheel_ok (erts_do_time_add 9 ?s2)" "do_time (erts_do_time_add 9 ?s2) = 9"
    "pending (erts_do_time_add 9 ?s2) = [7 \<mapsto> 3, 8 \<mapsto> 8]"
    using time_add_ok [OF 2(1), of 9] 2 by simp_all
  show ?thesis by (rule timeouts_in_order [OF 3(1), unfolded 3(2,3)]) (simp add: TIW_SIZE_def)
qed

text \<open>
  erts\_time\_left gives the ticks a timer still has, less the unprocessed time; erts\_next\_time
  gives the least time any timer has left, if that fits its type, and -1 if there is none, and
  looking for it changes no timer.
\<close>

lemma next_time_is_least:
  assumes "wheel_ok s"
  shows "erts_time_left p s = (case pending s p of None \<Rightarrow> 0 | Some r \<Rightarrow> max 0 (int r - do_time s)) \<and>
    (case erts_next_time s of (r, s') \<Rightarrow>
      wheel_ok s' \<and> pending s' = pending s \<and> do_time s' = do_time s \<and> (pending s = Map.empty \<longrightarrow> r = - 1) \<and>
      (\<forall>q n. pending s q = Some n \<and> (\<forall>x m. pending s x = Some m \<longrightarrow> n \<le> m) \<and> n < 2 ^ 31 \<longrightarrow>
         r = max 0 (int n - do_time s)))"
  using time_left_ok [OF assms, of p] next_ok [OF assms] by (auto simp: erts_next_time_def)

end
