(* ===== verification/Process_Dict.thy ===== *)
theory Process_Dict
  imports Prelude
begin

section \<open>The process dictionary: erl\_process\_dict.c\<close>

text \<open>
  The process dictionary is a linear hash table: an array of homeSize + splitPosition buckets, which
  grows and shrinks a few buckets at a time. A bucket is a term: NIL, a tuple \<open>{Key, Value}\<close>, or a
  list of at least two of them. Keys are compared with EQ, equality here, and hashed with MAKE\_HASH,
  the parameter \<open>make_hash\<close>. A process without a dictionary (NULL) is \<open>None\<close>. The terms on the heap
  of the process are values, so the garbage collections before a list is built leave no trace.
\<close>

datatype ('k, 'v) pd_slot =
    Nil_slot
  | Tuple_slot "'k \<times> 'v"
  | List_slot "('k \<times> 'v) list"
  | Other_slot

record ('k, 'v) proc_dict =
  size_of :: nat
  used :: nat
  homeSize :: nat
  splitPosition :: nat
  numElements :: nat
  pd_data :: "('k, 'v) pd_slot list"

datatype pd_error = Damaged_process_dictionary

definition MAX_HASH :: nat where "MAX_HASH = 1342177280"

definition INITIAL_SIZE :: nat where "INITIAL_SIZE = 10"

definition HASH_RANGE :: "('k, 'v) proc_dict \<Rightarrow> nat" where
  "HASH_RANGE pd = homeSize pd + splitPosition pd"

definition ARRAY_GET :: "('k, 'v) proc_dict \<Rightarrow> nat \<Rightarrow> ('k, 'v) pd_slot" where
  "ARRAY_GET pd i = (if size_of pd > i then pd_data pd ! i else Nil_slot)"

definition PD_SZ2BYTES :: "nat \<Rightarrow> nat" where
  "PD_SZ2BYTES sz = 32 + (sz - 1) * 8"

subsection \<open>The array\<close>

definition array_sizes :: "nat list" where
  "array_sizes = [10, 20, 40, 80, 160, 320, 640, 1280, 2560, 5120, 10240, 20480, 40960, 81920, 163840,
     327680, 655360, 1310720, 2621440, 5242880, 10485760, 20971520, 41943040, 83886080, 167772160,
     335544320, 671088640, 1342177280, 2684354560]"

text \<open>
  The loop of next\_array\_size. Its first upper index is \<open>sizeof(tab) / sizeof(Uint) - 1\<close>, where the
  elements of the table are unsigned int, of 4 bytes, and Uint has 8. The test of the loop is \<open>hi \<ge> lo\<close>;
  \<open>cur\<close> is between them whenever it is reached (lemma \<open>array_size_range\<close>).
\<close>

function array_size_loop :: "int \<Rightarrow> int \<Rightarrow> int \<Rightarrow> nat \<Rightarrow> nat" where
  "array_size_loop hi lo cur need =
     (if \<not> (hi \<ge> lo \<and> lo \<le> cur \<and> cur \<le> hi) then need
      else if array_sizes ! nat cur \<ge> need \<and> array_sizes ! nat (cur - 1) < need
      then array_sizes ! nat cur
      else if array_sizes ! nat cur > need
      then array_size_loop (cur - 1) lo ((cur - 1 + lo) div 2) need
      else array_size_loop hi (cur + 1) ((hi + (cur + 1)) div 2) need)"
  by pat_completeness auto
termination
  by (relation "measure (\<lambda>(hi, lo, cur, need). nat (hi - lo + 1))") auto

declare array_size_loop.simps [simp del]

definition next_array_size :: "nat \<Rightarrow> nat" where
  "next_array_size need = array_size_loop (int (4 * length array_sizes div 8) - 1) 1 4 need"

definition array_shrink :: "('k, 'v) proc_dict \<Rightarrow> nat \<Rightarrow> ('k, 'v) proc_dict" where
  "array_shrink pd need =
     (let siz = next_array_size need in
      if siz > size_of pd then pd
      else pd\<lparr>pd_data := take siz (pd_data pd), size_of := siz,
              used := (if siz < used pd then siz else used pd)\<rparr>)"

text \<open>The result is the dictionary and the term that was in the array.\<close>

definition array_put ::
  "('k, 'v) proc_dict option \<Rightarrow> nat \<Rightarrow> ('k, 'v) pd_slot \<Rightarrow> ('k, 'v) proc_dict \<times> ('k, 'v) pd_slot" where
  "array_put ppd ndx t =
     (let pd = (case ppd of
        None \<Rightarrow> let siz = next_array_size (ndx + 1) in
          \<lparr>size_of = siz, used = 0, homeSize = 0, splitPosition = 0, numElements = 0,
           pd_data = replicate siz Nil_slot\<rparr>
      | Some pd \<Rightarrow>
          if ndx \<ge> size_of pd then
            let nsize = next_array_size (ndx + 1) in
            pd\<lparr>pd_data := pd_data pd @ replicate (nsize - size_of pd) Nil_slot, size_of := nsize\<rparr>
          else pd)
      in (pd\<lparr>pd_data := (pd_data pd)[ndx := t],
             used := (if ndx + 1 > used pd then ndx + 1 else used pd)\<rparr>, pd_data pd ! ndx))"

abbreviation put_at :: "('k, 'v) proc_dict \<Rightarrow> nat \<Rightarrow> ('k, 'v) pd_slot \<Rightarrow> ('k, 'v) proc_dict" where
  "put_at pd ndx t \<equiv> fst (array_put (Some pd) ndx t)"

definition pd_hash_value :: "('k \<Rightarrow> nat) \<Rightarrow> ('k, 'v) proc_dict \<Rightarrow> 'k \<Rightarrow> nat" where
  "pd_hash_value make_hash pd k =
     (let hash = make_hash k; high = hash mod (homeSize pd * 2) in
      if high \<ge> HASH_RANGE pd then hash mod homeSize pd else high)"

text \<open>
  The tuples of a bucket in their order, and the bucket of a list of tuples. What the C code makes of
  another term than NIL, a tuple or a list is not defined; it is an empty bucket here.
\<close>

fun slot_cells :: "('k, 'v) pd_slot \<Rightarrow> ('k \<times> 'v) list" where
  "slot_cells (Tuple_slot c) = [c]"
| "slot_cells (List_slot cs) = cs"
| "slot_cells _ = []"

fun cells_slot :: "('k \<times> 'v) list \<Rightarrow> ('k, 'v) pd_slot" where
  "cells_slot [] = Nil_slot"
| "cells_slot [c] = Tuple_slot c"
| "cells_slot cs = List_slot cs"

subsection \<open>Growing and shrinking\<close>

text \<open>The loop of grow over the tuples of the bucket that is split.\<close>

fun split_cells :: "('k \<Rightarrow> bool) \<Rightarrow> ('k \<times> 'v) list \<Rightarrow> ('k \<times> 'v) list \<Rightarrow> ('k \<times> 'v) list \<Rightarrow>
    ('k \<times> 'v) list \<times> ('k \<times> 'v) list" where
  "split_cells stays [] l1 l2 = (l1, l2)"
| "split_cells stays (c # cs) l1 l2 =
     (if stays (fst c) then split_cells stays cs (c # l1) l2 else split_cells stays cs l1 (c # l2))"

definition grow_step :: "('k \<Rightarrow> nat) \<Rightarrow> ('k, 'v) proc_dict \<Rightarrow> ('k, 'v) proc_dict" where
  "grow_step make_hash pd0 =
     (let pd1 = (if splitPosition pd0 = homeSize pd0
                 then pd0\<lparr>homeSize := homeSize pd0 * 2, splitPosition := 0\<rparr> else pd0);
          pos = splitPosition pd1;
          pd = pd1\<lparr>splitPosition := pos + 1\<rparr>;
          l = ARRAY_GET pd pos
      in case l of
           Tuple_slot c \<Rightarrow>
             if pd_hash_value make_hash pd (fst c) \<noteq> pos
             then put_at (put_at pd (pos + homeSize pd) l) pos Nil_slot
             else pd
         | _ \<Rightarrow>
             (case split_cells (\<lambda>k. pd_hash_value make_hash pd k = pos) (slot_cells l) [] [] of
                (l1, l2) \<Rightarrow> put_at (put_at pd pos (cells_slot l1)) (pos + homeSize pd) (cells_slot l2)))"

definition grow :: "('k \<Rightarrow> nat) \<Rightarrow> ('k, 'v) proc_dict \<Rightarrow> ('k, 'v) proc_dict" where
  "grow make_hash pd =
     (let steps = (if homeSize pd div 5 = 0 then 1 else homeSize pd div 5) in
      if MAX_HASH - steps \<le> HASH_RANGE pd then pd
      else (grow_step make_hash ^^ steps) pd)"

text \<open>The bucket that takes the tuples of \<open>hi\<close> in as well.\<close>

fun merge_slots :: "('k, 'v) pd_slot \<Rightarrow> ('k, 'v) pd_slot \<Rightarrow> ('k, 'v) pd_slot" where
  "merge_slots hi Nil_slot = hi"
| "merge_slots (Tuple_slot c) (Tuple_slot d) = List_slot [d, c]"
| "merge_slots hi (Tuple_slot d) = List_slot (d # slot_cells hi)"
| "merge_slots (Tuple_slot c) lo = List_slot (c # slot_cells lo)"
| "merge_slots hi lo = List_slot (fold (#) (slot_cells hi) (slot_cells lo))"

definition shrink_step :: "('k, 'v) proc_dict \<Rightarrow> ('k, 'v) proc_dict" where
  "shrink_step pd0 =
     (let pd1 = (if splitPosition pd0 = 0
                 then pd0\<lparr>homeSize := homeSize pd0 div 2, splitPosition := homeSize pd0 div 2\<rparr> else pd0);
          pd = pd1\<lparr>splitPosition := splitPosition pd1 - 1\<rparr>;
          hi = ARRAY_GET pd (splitPosition pd + homeSize pd);
          lo = ARRAY_GET pd (splitPosition pd);
          pd' = (if hi \<noteq> Nil_slot then put_at pd (splitPosition pd) (merge_slots hi lo) else pd)
      in put_at pd' (splitPosition pd + homeSize pd) Nil_slot)"

definition shrink :: "('k, 'v) proc_dict \<Rightarrow> ('k, 'v) proc_dict" where
  "shrink pd =
     (let range = HASH_RANGE pd;
          steps = (if range - range * 3 div 10 < INITIAL_SIZE then range - INITIAL_SIZE else range * 3 div 10);
          pd' = (shrink_step ^^ steps) pd
      in if HASH_RANGE pd' \<le> size_of pd' div 4 then array_shrink pd' (HASH_RANGE pd' * 3 div 2) else pd')"

subsection \<open>Lookup, insertion and removal\<close>

text \<open>The result of a lookup that finds nothing is the atom undefined, the parameter \<open>undef\<close>.\<close>

fun find_cell :: "'k \<Rightarrow> ('k \<times> 'v) list \<Rightarrow> ('k \<times> 'v) option" where
  "find_cell k [] = None"
| "find_cell k (c # cs) = (if fst c = k then Some c else find_cell k cs)"

definition erts_pd_hash_get ::
  "'v \<Rightarrow> ('k \<Rightarrow> nat) \<Rightarrow> ('k, 'v) proc_dict option \<Rightarrow> 'k \<Rightarrow> pd_error + 'v" where
  "erts_pd_hash_get undef make_hash p k =
     (case p of
        None \<Rightarrow> Inr undef
      | Some pd \<Rightarrow>
          (case ARRAY_GET pd (pd_hash_value make_hash pd k) of
             Nil_slot \<Rightarrow> Inr undef
           | Tuple_slot c \<Rightarrow> Inr (if fst c = k then snd c else undef)
           | List_slot cs \<Rightarrow> Inr (case find_cell k cs of None \<Rightarrow> undef | Some c \<Rightarrow> snd c)
           | Other_slot \<Rightarrow> Inl Damaged_process_dictionary))"

text \<open>The index of the tuple of a key in a list, -1 if there is none.\<close>

fun cell_index :: "'k \<Rightarrow> ('k \<times> 'v) list \<Rightarrow> int \<Rightarrow> int" where
  "cell_index k [] i = - 1"
| "cell_index k (c # cs) i = (if fst c = k then i else cell_index k cs (i + 1))"

text \<open>The list with its element \<open>i\<close> replaced: the new tuple first, those before it reversed, the rest.\<close>

definition replace_cell :: "nat \<Rightarrow> 'k \<times> 'v \<Rightarrow> ('k \<times> 'v) list \<Rightarrow> ('k \<times> 'v) list" where
  "replace_cell i tpl cs = tpl # fold (#) (take i cs) (drop (Suc i) cs)"

definition put_new :: "('k \<Rightarrow> nat) \<Rightarrow> ('k, 'v) proc_dict \<Rightarrow> nat \<Rightarrow> ('k, 'v) pd_slot \<Rightarrow> ('k, 'v) proc_dict" where
  "put_new make_hash pd hval t =
     (let pd1 = put_at pd hval t;
          pd2 = pd1\<lparr>numElements := numElements pd1 + 1\<rparr>
      in if HASH_RANGE pd2 \<le> numElements pd2 then grow make_hash pd2 else pd2)"

definition pd_hash_put ::
  "'v \<Rightarrow> ('k \<Rightarrow> nat) \<Rightarrow> ('k, 'v) proc_dict option \<Rightarrow> 'k \<Rightarrow> 'v \<Rightarrow> pd_error + ('k, 'v) proc_dict \<times> 'v" where
  "pd_hash_put undef make_hash p k v =
     (let pd = (case p of
            None \<Rightarrow> (fst (array_put None (INITIAL_SIZE - 1) Nil_slot))\<lparr>homeSize := INITIAL_SIZE\<rparr>
          | Some pd \<Rightarrow> pd);
          hval = pd_hash_value make_hash pd k
      in case ARRAY_GET pd hval of
           Nil_slot \<Rightarrow> Inr (put_new make_hash pd hval (Tuple_slot (k, v)), undef)
         | Tuple_slot c \<Rightarrow>
             if fst c = k then Inr (put_at pd hval (Tuple_slot (k, v)), snd c)
             else Inr (put_new make_hash pd hval (List_slot [(k, v), c]), undef)
         | List_slot cs \<Rightarrow>
             let i = cell_index k cs 0 in
             if i = - 1 then Inr (put_new make_hash pd hval (List_slot ((k, v) # cs)), undef)
             else Inr (put_at pd hval (List_slot (replace_cell (nat i) (k, v) cs)), snd (cs ! nat i))
         | Other_slot \<Rightarrow> Inl Damaged_process_dictionary)"

text \<open>
  The loop of pd\_hash\_erase over a list. It does not stop at the first match; after one, \<open>prev\<close> points
  into the cell just taken out, so that a match in the next cell would not take it out (\<open>dead\<close>). The
  result is the list, the value and the number of elements.
\<close>

fun erase_cells :: "'k \<Rightarrow> bool \<Rightarrow> ('k \<times> 'v) list \<Rightarrow> 'v \<Rightarrow> nat \<Rightarrow> ('k \<times> 'v) list \<times> 'v \<times> nat" where
  "erase_cells k dead [] ret n = ([], ret, n)"
| "erase_cells k dead (c # cs) ret n =
     (if fst c = k then
        (case erase_cells k (\<not> dead) cs (snd c) (n - 1) of
           (cs', ret', n') \<Rightarrow> (if dead then c # cs' else cs', ret', n'))
      else (case erase_cells k False cs ret n of (cs', ret', n') \<Rightarrow> (c # cs', ret', n')))"

text \<open>The end of pd\_hash\_erase: the table shrinks if less than half of its buckets are needed.\<close>

definition erase_finish :: "('k, 'v) proc_dict \<Rightarrow> ('k, 'v) proc_dict" where
  "erase_finish pd =
     (if HASH_RANGE pd > INITIAL_SIZE \<and> HASH_RANGE pd div 2 > numElements pd then shrink pd else pd)"

definition pd_hash_erase ::
  "'v \<Rightarrow> ('k \<Rightarrow> nat) \<Rightarrow> ('k, 'v) proc_dict option \<Rightarrow> 'k \<Rightarrow> pd_error + ('k, 'v) proc_dict option \<times> 'v" where
  "pd_hash_erase undef make_hash p k =
     (case p of
        None \<Rightarrow> Inr (None, undef)
      | Some pd \<Rightarrow>
          let hval = pd_hash_value make_hash pd k in
          (case ARRAY_GET pd hval of
             Nil_slot \<Rightarrow> Inr (Some (erase_finish pd), undef)
           | Tuple_slot c \<Rightarrow>
               if fst c = k
               then let pd1 = put_at pd hval Nil_slot in
                    Inr (Some (erase_finish (pd1\<lparr>numElements := numElements pd1 - 1\<rparr>)), snd c)
               else Inr (Some (erase_finish pd), undef)
           | List_slot cs \<Rightarrow>
               (case erase_cells k False cs undef (numElements pd) of
                  (cs', ret, n) \<Rightarrow>
                    let pd1 = pd\<lparr>pd_data := (pd_data pd)[hval := List_slot cs'], numElements := n\<rparr>;
                        pd2 = (if tl cs' = [] then put_at pd1 hval (Tuple_slot (hd cs')) else pd1)
                    in Inr (Some (erase_finish pd2), ret))
           | Other_slot \<Rightarrow> Inl Damaged_process_dictionary))"

definition pd_hash_erase_all :: "('k, 'v) proc_dict option \<Rightarrow> ('k, 'v) proc_dict option" where
  "pd_hash_erase_all p = (case p of None \<Rightarrow> p | Some pd \<Rightarrow> None)"

subsection \<open>Listing\<close>

definition pd_hash_get_all :: "('k, 'v) proc_dict option \<Rightarrow> ('k \<times> 'v) list" where
  "pd_hash_get_all p =
     (case p of
        None \<Rightarrow> []
      | Some pd \<Rightarrow> fold (\<lambda>i res. fold (#) (slot_cells (ARRAY_GET pd i)) res) [0..<HASH_RANGE pd] [])"

definition pd_hash_get_keys :: "('k, 'v) proc_dict option \<Rightarrow> 'v \<Rightarrow> 'k list" where
  "pd_hash_get_keys p v =
     (case p of
        None \<Rightarrow> []
      | Some pd \<Rightarrow>
          fold (\<lambda>i res. fold (\<lambda>c res. if snd c = v then fst c # res else res) (slot_cells (ARRAY_GET pd i)) res)
            [0..<HASH_RANGE pd] [])"

definition erts_dictionary_copy :: "('k, 'v) proc_dict option \<Rightarrow> ('k \<times> 'v) list" where
  "erts_dictionary_copy p =
     (case p of
        None \<Rightarrow> []
      | Some pd \<Rightarrow> fold (\<lambda>i res. fold (#) (slot_cells (ARRAY_GET pd i)) res) [0..<HASH_RANGE pd] [])"

definition erts_deep_dictionary_dump :: "('k, 'v) proc_dict option \<Rightarrow> ('k \<times> 'v) list" where
  "erts_deep_dictionary_dump p =
     (case p of
        None \<Rightarrow> []
      | Some pd \<Rightarrow> concat (map (\<lambda>i. slot_cells (ARRAY_GET pd i)) [0..<HASH_RANGE pd]))"

definition erts_dicts_mem_size :: "('k, 'v) proc_dict option \<Rightarrow> nat" where
  "erts_dicts_mem_size p = (case p of None \<Rightarrow> 0 | Some pd \<Rightarrow> PD_SZ2BYTES (size_of pd))"

definition erts_erase_dicts :: "('k, 'v) proc_dict option \<Rightarrow> ('k, 'v) proc_dict option" where
  "erts_erase_dicts p = (case p of None \<Rightarrow> None | Some pd \<Rightarrow> pd_hash_erase_all p)"

subsection \<open>The built-in functions\<close>

definition get_0 :: "('k, 'v) proc_dict option \<Rightarrow> ('k \<times> 'v) list" where
  "get_0 p = pd_hash_get_all p"

definition get_1 :: "'v \<Rightarrow> ('k \<Rightarrow> nat) \<Rightarrow> ('k, 'v) proc_dict option \<Rightarrow> 'k \<Rightarrow> pd_error + 'v" where
  "get_1 undef make_hash p k = erts_pd_hash_get undef make_hash p k"

definition get_keys_1 :: "('k, 'v) proc_dict option \<Rightarrow> 'v \<Rightarrow> 'k list" where
  "get_keys_1 p v = pd_hash_get_keys p v"

definition put_2 ::
  "'v \<Rightarrow> ('k \<Rightarrow> nat) \<Rightarrow> ('k, 'v) proc_dict option \<Rightarrow> 'k \<Rightarrow> 'v \<Rightarrow> pd_error + ('k, 'v) proc_dict option \<times> 'v" where
  "put_2 undef make_hash p k v =
     map_sum id (\<lambda>(pd, ret). (Some pd, ret)) (pd_hash_put undef make_hash p k v)"

definition erase_0 :: "('k, 'v) proc_dict option \<Rightarrow> ('k, 'v) proc_dict option \<times> ('k \<times> 'v) list" where
  "erase_0 p = (let ret = pd_hash_get_all p in (pd_hash_erase_all p, ret))"

definition erase_1 ::
  "'v \<Rightarrow> ('k \<Rightarrow> nat) \<Rightarrow> ('k, 'v) proc_dict option \<Rightarrow> 'k \<Rightarrow> pd_error + ('k, 'v) proc_dict option \<times> 'v" where
  "erase_1 undef make_hash p k = pd_hash_erase undef make_hash p k"

subsection \<open>Buckets\<close>

definition bucket :: "nat \<Rightarrow> nat \<Rightarrow> nat \<Rightarrow> nat" where
  "bucket h s x = (if x mod (h * 2) \<ge> h + s then x mod h else x mod (h * 2))"

lemma pd_hash_value_bucket: "pd_hash_value make_hash pd k = bucket (homeSize pd) (splitPosition pd) (make_hash k)"
  by (simp add: pd_hash_value_def bucket_def HASH_RANGE_def Let_def)

lemma bucket_less: "0 < h \<Longrightarrow> bucket h s x < h + s"
  by (auto simp: bucket_def intro: less_le_trans [OF mod_less_divisor])

lemma bucket_double: "0 < h \<Longrightarrow> bucket (h * 2) 0 x = bucket h h x"
proof -
  assume h: "0 < h"
  have "x mod (h * 2 * 2) mod (h * 2) = x mod (h * 2)" by (rule mod_mod_cancel) simp
  moreover have "x mod (h * 2) < h + h" using h by (metis mod_less_divisor mult_2_right nat_0_less_mult_iff zero_less_numeral)
  ultimately show ?thesis by (auto simp: bucket_def)
qed

lemma bucket_step:
  assumes "s < h"
  shows "bucket h (Suc s) x = (if x mod (h * 2) = h + s then h + s else bucket h s x)"
    and "x mod (h * 2) = h + s \<Longrightarrow> bucket h s x = s"
proof -
  have m: "x mod (h * 2) mod h = x mod h" by (rule mod_mod_cancel) simp
  show "bucket h (Suc s) x = (if x mod (h * 2) = h + s then h + s else bucket h s x)"
    by (auto simp: bucket_def)
  assume x: "x mod (h * 2) = h + s"
  then have "x mod h = s" using m assms by simp
  then show "bucket h s x = s" using x by (simp add: bucket_def)
qed

lemma bucket_split:
  assumes "s < h"
  shows "bucket h (Suc s) x \<noteq> s \<Longrightarrow> bucket h s x = s \<Longrightarrow> bucket h (Suc s) x = h + s"
    and "bucket h s x \<noteq> s \<Longrightarrow> bucket h (Suc s) x = bucket h s x"
    and "bucket h (Suc s) x = h + s \<Longrightarrow> bucket h s x = s"
    and "bucket h (Suc s) x \<noteq> h + s \<Longrightarrow> bucket h s x = bucket h (Suc s) x"
  using bucket_step [OF assms, of x] bucket_less [of h s x] assms by (auto split: if_splits)

subsection \<open>The array\<close>

lemma array_size_ge: "need \<le> array_size_loop hi lo cur need"
  by (induction hi lo cur need rule: array_size_loop.induct) (subst array_size_loop.simps, auto)

lemma next_array_size_ge: "need \<le> next_array_size need"
  by (simp add: next_array_size_def array_size_ge)

lemma array_size_range: "lo \<le> hi \<Longrightarrow> lo \<le> (hi + lo) div 2 \<and> (hi + lo) div 2 \<le> (hi :: int)"
  by linarith

lemma array_size_step:
  assumes "j < 13" and "10 * 2 ^ j < need" and "need \<le> 20 * 2 ^ j"
  shows "next_array_size need = 20 * 2 ^ j"
proof -
  have "j = 0 \<or> j = 1 \<or> j = 2 \<or> j = 3 \<or> j = 4 \<or> j = 5 \<or> j = 6 \<or> j = 7 \<or> j = 8 \<or> j = 9 \<or> j = 10 \<or> j = 11 \<or> j = 12"
    using assms(1) by presburger
  then show ?thesis using assms(2,3)
    by (elim disjE) (simp_all add: next_array_size_def array_size_loop.simps array_sizes_def)
qed

lemma array_size_exact: "need \<le> 10 \<or> 81920 < need \<Longrightarrow> next_array_size need = need"
  by (elim disjE) (simp_all add: next_array_size_def array_size_loop.simps array_sizes_def)

lemma between_powers: "10 < need \<Longrightarrow> need \<le> 10 * 2 ^ n \<Longrightarrow> \<exists>j<n. 10 * 2 ^ j < need \<and> need \<le> 20 * 2 ^ j" for need :: nat
proof (induction n)
  case (Suc n)
  show ?case
  proof (cases "need \<le> 10 * 2 ^ n")
    case True
    with Suc show ?thesis by (meson less_SucI)
  next
    case False
    with Suc.prems show ?thesis by (intro exI [of _ n]) simp
  qed
qed simp

lemma next_array_size_cases:
  "if 10 < need \<and> need \<le> 81920
   then \<exists>j<13. next_array_size need = 20 * 2 ^ j \<and> 10 * 2 ^ j < need \<and> need \<le> 20 * 2 ^ j
   else next_array_size need = need"
proof (cases "10 < need \<and> need \<le> 81920")
  case True
  then obtain j where "j < 13" "10 * 2 ^ j < need" "need \<le> 20 * 2 ^ j" using between_powers [of need 13] by auto
  then show ?thesis using True array_size_step [of j need] by auto
next
  case False
  then have "need \<le> 10 \<or> 81920 < need" by linarith
  then show ?thesis unfolding if_not_P [OF False] by (rule array_size_exact)
qed

text \<open>The tuples of a bucket, all tuples, and when a term is the bucket of its tuples.\<close>

definition cells :: "('k, 'v) proc_dict \<Rightarrow> nat \<Rightarrow> ('k \<times> 'v) list" where
  "cells pd i = slot_cells (ARRAY_GET pd i)"

definition entries :: "('k, 'v) proc_dict \<Rightarrow> ('k \<times> 'v) multiset" where
  "entries pd = mset (concat (map slot_cells (pd_data pd)))"

definition slot_ok :: "('k, 'v) pd_slot \<Rightarrow> bool" where
  "slot_ok t \<longleftrightarrow> cells_slot (slot_cells t) = t"

definition array_ok :: "('k, 'v) proc_dict \<Rightarrow> bool" where
  "array_ok pd \<longleftrightarrow> length (pd_data pd) = size_of pd \<and> used pd \<le> size_of pd \<and> (\<forall>t\<in>set (pd_data pd). slot_ok t)"

lemma slot_ok_simps [simp]:
  "slot_ok Nil_slot" "slot_ok (Tuple_slot c)" "\<not> slot_ok Other_slot"
  "slot_ok (List_slot cs) \<longleftrightarrow> 2 \<le> length cs"
  by (auto simp: slot_ok_def neq_Nil_conv elim: cells_slot.elims) (cases cs rule: cells_slot.cases; simp)+

lemma slot_cells_slot [simp]: "slot_cells (cells_slot cs) = cs" "slot_ok (cells_slot cs)"
  by (cases cs rule: cells_slot.cases; simp add: slot_ok_def)+

lemma array_get_ok: "array_ok pd \<Longrightarrow> slot_ok (ARRAY_GET pd i)"
  by (auto simp: array_ok_def ARRAY_GET_def)

lemma concat_slots_update:
  assumes "i < length xs"
  shows "mset (concat (map slot_cells (xs[i := t]))) + mset (slot_cells (xs ! i)) =
    mset (concat (map slot_cells xs)) + mset (slot_cells t)"
  using mset_concat_update [of i "map slot_cells xs" "slot_cells t"] assms by (simp add: map_update)

lemma put_at_sel [simp]:
  "homeSize (put_at pd i t) = homeSize pd" "splitPosition (put_at pd i t) = splitPosition pd"
  "numElements (put_at pd i t) = numElements pd" "HASH_RANGE (put_at pd i t) = HASH_RANGE pd"
  by (simp_all add: array_put_def Let_def HASH_RANGE_def)

lemma put_at_ok:
  assumes "array_ok pd" and "slot_ok t"
  shows "array_ok (put_at pd i t)" and "ARRAY_GET (put_at pd i t) = (ARRAY_GET pd)(i := t)"
    and "entries (put_at pd i t) + mset (cells pd i) = entries pd + mset (slot_cells t)"
    and "i < size_of (put_at pd i t)"
proof -
  let ?n = "if i \<ge> size_of pd then next_array_size (i + 1) else size_of pd"
  let ?xs = "pd_data pd @ replicate (?n - size_of pd) Nil_slot"
  have n: "size_of pd \<le> ?n" "i < ?n" using next_array_size_ge [of "i + 1"] by auto
  have a: "length (pd_data pd) = size_of pd" "used pd \<le> size_of pd" "\<forall>t\<in>set (pd_data pd). slot_ok t"
    using assms(1) by (auto simp: array_ok_def)
  have p: "pd_data (put_at pd i t) = ?xs[i := t]" "size_of (put_at pd i t) = ?n" "used (put_at pd i t) = max (used pd) (i + 1)"
    by (simp_all add: array_put_def Let_def max_def)
  have l: "length ?xs = ?n" using a n by simp
  have x: "?xs ! j = ARRAY_GET pd j" if "j < ?n" for j using that a by (simp add: ARRAY_GET_def nth_append)
  show "i < size_of (put_at pd i t)" using p n by simp
  show "array_ok (put_at pd i t)"
    unfolding array_ok_def p using a n l assms(2) set_update_subset_insert [of ?xs i t] by (auto split: if_splits)
  show "ARRAY_GET (put_at pd i t) = (ARRAY_GET pd)(i := t)"
  proof
    fix j
    show "ARRAY_GET (put_at pd i t) j = ((ARRAY_GET pd)(i := t)) j"
    proof (cases "j < ?n")
      case True
      then have "ARRAY_GET (put_at pd i t) j = ?xs[i := t] ! j" unfolding ARRAY_GET_def p by simp
      then show ?thesis using True x [OF True] l by (simp add: nth_list_update)
    next
      case False
      then have "ARRAY_GET (put_at pd i t) j = Nil_slot" unfolding ARRAY_GET_def p by simp
      moreover have "ARRAY_GET pd j = Nil_slot" using False n(1) by (simp add: ARRAY_GET_def)
      ultimately show ?thesis using False n(2) by auto
    qed
  qed
  have "mset (concat (map slot_cells ?xs)) = entries pd" by (simp add: entries_def)
  moreover have "slot_cells (?xs ! i) = cells pd i" using x [OF n(2)] by (simp add: cells_def)
  ultimately show "entries (put_at pd i t) + mset (cells pd i) = entries pd + mset (slot_cells t)"
    using concat_slots_update [of i ?xs t] n(2) l p(1) by (simp add: entries_def)
qed

lemma put_at_cells: "array_ok pd \<Longrightarrow> slot_ok t \<Longrightarrow> cells (put_at pd i t) = (cells pd)(i := slot_cells t)"
  by (simp add: cells_def put_at_ok(2) fun_eq_iff)

subsection \<open>Growing and shrinking keep the entries\<close>

definition placed :: "('k \<Rightarrow> nat) \<Rightarrow> ('k, 'v) proc_dict \<Rightarrow> bool" where
  "placed make_hash pd \<longleftrightarrow> (\<forall>i. distinct (map fst (cells pd i)) \<and>
     (\<forall>c\<in>set (cells pd i). bucket (homeSize pd) (splitPosition pd) (make_hash (fst c)) = i))"

text \<open>The invariant of the table, but for the number of its elements.\<close>

definition core_ok :: "('k \<Rightarrow> nat) \<Rightarrow> ('k, 'v) proc_dict \<Rightarrow> bool" where
  "core_ok make_hash pd \<longleftrightarrow> array_ok pd \<and> placed make_hash pd \<and> (\<exists>n. homeSize pd = INITIAL_SIZE * 2 ^ n) \<and>
     splitPosition pd \<le> homeSize pd"

lemma core_home: "core_ok make_hash pd \<Longrightarrow> INITIAL_SIZE \<le> homeSize pd \<and> 0 < homeSize pd"
  by (auto simp: core_ok_def INITIAL_SIZE_def)

lemma resize_sel [simp]:
  "ARRAY_GET (pd\<lparr>homeSize := h\<rparr>) = ARRAY_GET pd"
  "ARRAY_GET (pd\<lparr>splitPosition := s\<rparr>) = ARRAY_GET pd" "ARRAY_GET (pd\<lparr>numElements := n\<rparr>) = ARRAY_GET pd"
  "cells (pd\<lparr>homeSize := h\<rparr>) = cells pd" "cells (pd\<lparr>splitPosition := s\<rparr>) = cells pd"
  "cells (pd\<lparr>numElements := n\<rparr>) = cells pd" "entries (pd\<lparr>numElements := n\<rparr>) = entries pd"
  "entries (pd\<lparr>homeSize := h\<rparr>) = entries pd" "entries (pd\<lparr>splitPosition := s\<rparr>) = entries pd"
  "array_ok (pd\<lparr>homeSize := h\<rparr>) = array_ok pd" "array_ok (pd\<lparr>splitPosition := s\<rparr>) = array_ok pd"
  "array_ok (pd\<lparr>numElements := n\<rparr>) = array_ok pd"
  by (simp_all add: ARRAY_GET_def cells_def entries_def array_ok_def fun_eq_iff)

lemma split_cells_eq:
  "split_cells P cs l1 l2 = (rev (filter (\<lambda>c. P (fst c)) cs) @ l1, rev (filter (\<lambda>c. \<not> P (fst c)) cs) @ l2)"
  by (induction cs arbitrary: l1 l2) auto

lemma mset_split: "mset (filter P cs) + mset (filter (\<lambda>c. \<not> P c) cs) = mset cs"
  by (induction cs) auto

text \<open>Putting two lists in the place of one and of an empty one.\<close>

lemma put_two:
  assumes "array_ok pd" and "i \<noteq> j" and "slot_ok t" and "slot_ok u"
    and "mset (slot_cells t) + mset (slot_cells u) = mset (cells pd i) + mset (cells pd j)"
  shows "array_ok (put_at (put_at pd i t) j u)"
    and "cells (put_at (put_at pd i t) j u) = (cells pd)(i := slot_cells t, j := slot_cells u)"
    and "entries (put_at (put_at pd i t) j u) = entries pd"
proof -
  let ?p = "put_at pd i t"
  have p: "array_ok ?p" "cells ?p = (cells pd)(i := slot_cells t)" "entries ?p + mset (cells pd i) = entries pd + mset (slot_cells t)"
    using put_at_ok [OF assms(1,3)] put_at_cells [OF assms(1,3)] by blast+
  show "array_ok (put_at ?p j u)" "cells (put_at ?p j u) = (cells pd)(i := slot_cells t, j := slot_cells u)"
    using put_at_ok(1) [OF p(1) assms(4)] put_at_cells [OF p(1) assms(4)] p(2) by simp_all
  have "entries (put_at ?p j u) + mset (cells pd j) = entries ?p + mset (slot_cells u)"
    using put_at_ok(3) [OF p(1) assms(4), of j] p(2) assms(2) by simp
  then have "entries (put_at ?p j u) + mset (cells pd j) + mset (cells pd i) =
      (entries ?p + mset (cells pd i)) + mset (slot_cells u)" by (simp only: ac_simps)
  also have "\<dots> = entries pd + (mset (slot_cells t) + mset (slot_cells u))" unfolding p(3) by (simp only: ac_simps)
  also have "\<dots> = entries pd + (mset (cells pd i) + mset (cells pd j))" by (simp only: assms(5))
  finally show "entries (put_at ?p j u) = entries pd" by simp
qed

text \<open>The condition for a bucket to be placed after a step that splits one or joins two.\<close>

lemma placed_two:
  assumes "placed make_hash pd" and "i \<noteq> j"
    and "cells pd' = (cells pd)(i := A, j := B)" and "mset A + mset B = mset (cells pd i) + mset (cells pd j)"
    and "distinct (map fst (cells pd i @ cells pd j))"
    and "\<And>c. c \<in> set A \<Longrightarrow> bucket (homeSize pd') (splitPosition pd') (make_hash (fst c)) = i"
    and "\<And>c. c \<in> set B \<Longrightarrow> bucket (homeSize pd') (splitPosition pd') (make_hash (fst c)) = j"
    and "\<And>x. bucket (homeSize pd) (splitPosition pd) x \<noteq> i \<Longrightarrow> bucket (homeSize pd) (splitPosition pd) x \<noteq> j \<Longrightarrow>
      bucket (homeSize pd') (splitPosition pd') x = bucket (homeSize pd) (splitPosition pd) x"
  shows "placed make_hash pd'"
proof -
  have "mset (map fst (A @ B)) = mset (map fst (cells pd i @ cells pd j))"
    using arg_cong [OF assms(4), of "image_mset fst"] by simp
  then have "distinct (map fst (A @ B))" using assms(5) mset_eq_imp_distinct_iff by blast
  then show ?thesis using assms(1,2,6-8) unfolding placed_def assms(3) by auto
qed

lemma grow_step_ok:
  assumes "core_ok make_hash pd"
  shows "core_ok make_hash (grow_step make_hash pd) \<and> entries (grow_step make_hash pd) = entries pd \<and>
    numElements (grow_step make_hash pd) = numElements pd \<and>
    HASH_RANGE (grow_step make_hash pd) = HASH_RANGE pd + 1"
proof -
  have ok: "array_ok pd" "placed make_hash pd" "splitPosition pd \<le> homeSize pd" and h0: "0 < homeSize pd"
    using assms core_home [OF assms] by (auto simp: core_ok_def)
  obtain n where n: "homeSize pd = INITIAL_SIZE * 2 ^ n" using assms by (auto simp: core_ok_def)
  define pd1 where "pd1 = (if splitPosition pd = homeSize pd
      then pd\<lparr>homeSize := homeSize pd * 2, splitPosition := 0\<rparr> else pd)"
  define pos h where "pos = splitPosition pd1" and "h = homeSize pd1"
  have pd1: "array_ok pd1" "placed make_hash pd1" "entries pd1 = entries pd" "numElements pd1 = numElements pd"
    "HASH_RANGE pd1 = HASH_RANGE pd"
    using ok h0 by (cases "splitPosition pd = homeSize pd"; simp add: pd1_def HASH_RANGE_def placed_def bucket_double)+
  have ph: "pos < h" "0 < h" and hn: "\<exists>n. h = INITIAL_SIZE * 2 ^ n"
    using ok(3) h0 n by (auto simp: pd1_def pos_def h_def intro: exI [of _ "Suc n"])
  let ?pd = "pd1\<lparr>splitPosition := pos + 1\<rparr>"
  have b: "pd_hash_value make_hash ?pd k = bucket h (Suc pos) (make_hash k)" for k
    by (simp add: pd_hash_value_bucket h_def)
  have pl: "placed make_hash pd1 \<longleftrightarrow> (\<forall>i. distinct (map fst (cells pd1 i)) \<and>
      (\<forall>c\<in>set (cells pd1 i). bucket h pos (make_hash (fst c)) = i))"
    by (simp add: placed_def h_def pos_def)
  have hi: "cells pd1 (pos + h) = []"
  proof (rule ccontr)
    assume "cells pd1 (pos + h) \<noteq> []"
    then obtain c where "c \<in> set (cells pd1 (pos + h))" using hd_in_set by blast
    then have "bucket h pos (make_hash (fst c)) = pos + h" using pd1(2) pl by blast
    then show False using bucket_less [of h pos "make_hash (fst c)"] ph(2) by simp
  qed
  have at: "bucket h pos (make_hash (fst c)) = pos" if "c \<in> set (cells pd1 pos)" for c using pd1(2) pl that by blast
  let ?P = "\<lambda>k. bucket h (Suc pos) (make_hash k) = pos"
  let ?A = "filter (\<lambda>c. ?P (fst c)) (cells pd1 pos)" and ?B = "filter (\<lambda>c. \<not> ?P (fst c)) (cells pd1 pos)"
  define pd' where "pd' = grow_step make_hash pd"
  obtain A B where r: "array_ok pd'" "entries pd' = entries pd1" "set A = set ?A" "set B = set ?B"
    "mset A + mset B = mset (cells pd1 pos)" "cells pd' = (cells pd1)(pos := A, pos + h := B)"
    "homeSize pd' = h" "splitPosition pd' = Suc pos" "numElements pd' = numElements pd1"
  proof (cases "\<exists>c. ARRAY_GET pd1 pos = Tuple_slot c")
    case True
    then obtain c where c: "ARRAY_GET pd1 pos = Tuple_slot c" by blast
    then have cc: "cells pd1 pos = [c]" by (simp add: cells_def)
    show ?thesis
    proof (cases "?P (fst c)")
      case True
      then have "pd' = ?pd"
        using c b unfolding pd'_def grow_step_def Let_def pd1_def [symmetric] pos_def [symmetric] by simp
      then show ?thesis using that [of "[c]" "[]"] pd1 cc True hi ph by (simp add: h_def fun_eq_iff)
    next
      case False
      then have e: "pd' = put_at (put_at ?pd (pos + h) (Tuple_slot c)) pos Nil_slot"
        using c b unfolding pd'_def grow_step_def Let_def pd1_def [symmetric] pos_def [symmetric] by (simp add: h_def)
      have "array_ok ?pd" "pos + h \<noteq> pos" "slot_ok (Tuple_slot c)" "slot_ok Nil_slot"
        "mset (slot_cells (Tuple_slot c)) + mset (slot_cells Nil_slot) = mset (cells ?pd (pos + h)) + mset (cells ?pd pos)"
        using pd1(1) ph cc hi by simp_all
      note q = put_two [OF this]
      show ?thesis by (rule that [of "[]" "[c]"]) (use q cc False ph in \<open>simp_all add: e h_def fun_upd_twist\<close>)
    qed
  next
    case False
    then have e: "pd' = put_at (put_at ?pd pos (cells_slot (rev ?A))) (pos + h) (cells_slot (rev ?B))"
      using b unfolding pd'_def grow_step_def Let_def pd1_def [symmetric] pos_def [symmetric]
      by (cases "ARRAY_GET pd1 pos") (simp_all add: h_def split_cells_eq cells_def)
    have "array_ok ?pd" "pos \<noteq> pos + h" "slot_ok (cells_slot (rev ?A))" "slot_ok (cells_slot (rev ?B))"
      "mset (slot_cells (cells_slot (rev ?A))) + mset (slot_cells (cells_slot (rev ?B))) = mset (cells ?pd pos) + mset (cells ?pd (pos + h))"
      using pd1(1) ph hi by (simp_all add: mset_split del: mset_filter)
    note q = put_two [OF this]
    show ?thesis
      by (rule that [of "rev ?A" "rev ?B"]) (use q in \<open>simp_all add: e h_def mset_split del: mset_filter\<close>)
  qed
  have "placed make_hash pd'"
  proof (rule placed_two [OF pd1(2) _ r(6)])
    show "pos \<noteq> pos + h" using ph by simp
    show "mset A + mset B = mset (cells pd1 pos) + mset (cells pd1 (pos + h))" using r(5) hi by simp
    show "distinct (map fst (cells pd1 pos @ cells pd1 (pos + h)))" using hi pd1(2) pl by simp
    show "bucket (homeSize pd') (splitPosition pd') (make_hash (fst c)) = pos" if "c \<in> set A" for c
      using that r by auto
    show "bucket (homeSize pd') (splitPosition pd') (make_hash (fst c)) = pos + h" if "c \<in> set B" for c
      using that r at bucket_split(1) [OF ph(1)] by (auto simp: add.commute)
    show "bucket (homeSize pd') (splitPosition pd') x = bucket (homeSize pd1) (splitPosition pd1) x"
      if "bucket (homeSize pd1) (splitPosition pd1) x \<noteq> pos" for x
      using that r(7,8) bucket_split(2) [OF ph(1)] by (simp add: h_def pos_def)
  qed
  then show ?thesis using r pd1 hn ph unfolding pd'_def [symmetric] core_ok_def
    by (auto simp: HASH_RANGE_def h_def pos_def)
qed

lemma merge_slots_ok:
  assumes "slot_ok hi" and "slot_ok lo" and "hi \<noteq> Nil_slot"
  shows "slot_ok (merge_slots hi lo)" and "mset (slot_cells (merge_slots hi lo)) = mset (slot_cells hi) + mset (slot_cells lo)"
proof -
  have f: "fold (#) cs ds = rev cs @ ds" for cs ds :: "('k \<times> 'v) list" by (induction cs arbitrary: ds) auto
  show "slot_ok (merge_slots hi lo)" using assms by (cases hi; cases lo) (simp_all add: f)
  show "mset (slot_cells (merge_slots hi lo)) = mset (slot_cells hi) + mset (slot_cells lo)"
    using assms by (cases hi; cases lo) (simp_all add: f)
qed

lemma slot_ok_Nil: "slot_ok t \<Longrightarrow> slot_cells t = [] \<longleftrightarrow> t = Nil_slot"
  by (cases t) auto

lemma shrink_step_ok:
  assumes ok: "core_ok make_hash pd" and r: "INITIAL_SIZE < HASH_RANGE pd"
  shows "core_ok make_hash (shrink_step pd) \<and> entries (shrink_step pd) = entries pd \<and>
    numElements (shrink_step pd) = numElements pd \<and> HASH_RANGE (shrink_step pd) + 1 = HASH_RANGE pd"
proof -
  have ok': "array_ok pd" "placed make_hash pd" "splitPosition pd \<le> homeSize pd" and h0: "0 < homeSize pd"
    using ok core_home [OF ok] by (auto simp: core_ok_def)
  obtain n where n: "homeSize pd = INITIAL_SIZE * 2 ^ n" using ok by (auto simp: core_ok_def)
  define pd1 where "pd1 = (if splitPosition pd = 0
      then pd\<lparr>homeSize := homeSize pd div 2, splitPosition := homeSize pd div 2\<rparr> else pd)"
  define s h where "s = splitPosition pd1 - 1" and "h = homeSize pd1"
  have ev: "homeSize pd div 2 * 2 = homeSize pd \<and> (\<exists>k. homeSize pd div 2 = INITIAL_SIZE * 2 ^ k)" if "splitPosition pd = 0"
  proof (cases n)
    case 0
    then show ?thesis using that r n by (simp add: HASH_RANGE_def)
  next
    case (Suc k)
    then show ?thesis using n by auto
  qed
  have dbl: "bucket (homeSize pd) 0 x = bucket (homeSize pd div 2) (homeSize pd div 2) x" if "splitPosition pd = 0" for x
    using bucket_double [of "homeSize pd div 2" x] ev [OF that] h0 by (metis nat_0_less_mult_iff)
  have pd1: "array_ok pd1" "entries pd1 = entries pd" "numElements pd1 = numElements pd"
    using ok' by (simp_all add: pd1_def)
  have rng: "HASH_RANGE pd1 = HASH_RANGE pd" using ev by (auto simp: pd1_def HASH_RANGE_def)
  have pd1p: "placed make_hash pd1" using ok'(2) dbl by (cases "splitPosition pd = 0") (simp_all add: pd1_def placed_def)
  have hn: "\<exists>k. h = INITIAL_SIZE * 2 ^ k" using ev n by (auto simp: h_def pd1_def)
  then have h: "0 < h" by (auto simp: INITIAL_SIZE_def)
  have sp: "splitPosition pd1 = Suc s" "s < h" "h + s + 1 = HASH_RANGE pd"
    using h ok'(3) rng by (auto simp: s_def h_def pd1_def HASH_RANGE_def split: if_splits)
  let ?pd = "pd1\<lparr>splitPosition := s\<rparr>"
  have pl: "placed make_hash pd1 \<longleftrightarrow> (\<forall>i. distinct (map fst (cells pd1 i)) \<and>
      (\<forall>c\<in>set (cells pd1 i). bucket h (Suc s) (make_hash (fst c)) = i))"
    by (simp add: placed_def h_def sp(1))
  have at: "bucket h (Suc s) (make_hash (fst c)) = i" if "c \<in> set (cells pd1 i)" for c i using pd1p pl that by blast
  let ?hi = "ARRAY_GET pd1 (s + h)" and ?lo = "ARRAY_GET pd1 s"
  have sl: "slot_ok ?hi" "slot_ok ?lo" using array_get_ok [OF pd1(1)] by blast+
  define pd' where "pd' = shrink_step pd"
  have e: "pd' = put_at (if ?hi \<noteq> Nil_slot then put_at ?pd s (merge_slots ?hi ?lo) else ?pd) (s + h) Nil_slot"
    unfolding pd'_def shrink_step_def Let_def pd1_def [symmetric] by (simp add: s_def h_def)
  obtain A where r: "array_ok pd'" "entries pd' = entries pd1" "mset A = mset (cells pd1 (s + h)) + mset (cells pd1 s)"
    "cells pd' = (cells pd1)(s := A, s + h := [])"
  proof (cases "?hi = Nil_slot")
    case True
    then have c: "cells pd1 (s + h) = []" by (simp add: cells_def)
    have "array_ok ?pd" using pd1(1) by simp
    note q = put_at_ok [OF this slot_ok_simps(1), of "s + h"] put_at_cells [OF this slot_ok_simps(1), of "s + h"]
    show ?thesis by (rule that [of "cells pd1 s"]) (use q True c in \<open>simp_all add: e fun_eq_iff\<close>)
  next
    case False
    let ?m = "merge_slots ?hi ?lo"
    have "array_ok ?pd" "s \<noteq> s + h" "slot_ok ?m" "slot_ok Nil_slot"
      "mset (slot_cells ?m) + mset (slot_cells Nil_slot) = mset (cells ?pd s) + mset (cells ?pd (s + h))"
      using pd1(1) h merge_slots_ok [OF sl False] by (simp_all add: cells_def)
    note q = put_two [OF this]
    show ?thesis
      by (rule that [of "slot_cells ?m"]) (use q False merge_slots_ok [OF sl False] in \<open>simp_all add: e cells_def [of pd1]\<close>)
  qed
  have p': "homeSize pd' = h" "splitPosition pd' = s" "numElements pd' = numElements pd1" by (simp_all add: e h_def)
  have "placed make_hash pd'"
  proof (rule placed_two [OF pd1p _ r(4)])
    show "s \<noteq> s + h" using h by simp
    show "mset A + mset [] = mset (cells pd1 s) + mset (cells pd1 (s + h))" using r(3) by simp
    have "fst c \<noteq> fst d" if "c \<in> set (cells pd1 s)" "d \<in> set (cells pd1 (s + h))" for c d
      using at [OF that(1)] at [OF that(2)] h by auto
    then show "distinct (map fst (cells pd1 s @ cells pd1 (s + h)))" using pd1p pl by fastforce
    show "bucket (homeSize pd') (splitPosition pd') (make_hash (fst c)) = s" if "c \<in> set A" for c
    proof -
      have "set A = set (cells pd1 (s + h)) \<union> set (cells pd1 s)" using r(3) by (metis set_mset_mset set_mset_union)
      with that have "c \<in> set (cells pd1 s) \<or> c \<in> set (cells pd1 (s + h))" by blast
      then show ?thesis using at [of c] bucket_split(3,4) [OF sp(2), of "make_hash (fst c)"] p' h by (auto simp: add.commute)
    qed
    show "bucket (homeSize pd') (splitPosition pd') x = bucket (homeSize pd1) (splitPosition pd1) x"
      if "bucket (homeSize pd1) (splitPosition pd1) x \<noteq> s + h" for x
      using that p' bucket_split(4) [OF sp(2)] sp(1) by (simp add: h_def add.commute)
  qed simp_all
  then show ?thesis using r p' pd1 hn sp unfolding pd'_def [symmetric] core_ok_def by (simp add: HASH_RANGE_def)
qed

lemma grow_steps_ok:
  assumes "core_ok make_hash pd"
  shows "core_ok make_hash ((grow_step make_hash ^^ n) pd) \<and> entries ((grow_step make_hash ^^ n) pd) = entries pd \<and>
    numElements ((grow_step make_hash ^^ n) pd) = numElements pd \<and>
    HASH_RANGE ((grow_step make_hash ^^ n) pd) = HASH_RANGE pd + n"
proof (induction n)
  case (Suc n)
  then show ?case using grow_step_ok [of make_hash "(grow_step make_hash ^^ n) pd"] by simp
qed (simp add: assms)

lemma shrink_steps_ok:
  assumes "core_ok make_hash pd" and "INITIAL_SIZE + n \<le> HASH_RANGE pd"
  shows "core_ok make_hash ((shrink_step ^^ n) pd) \<and> entries ((shrink_step ^^ n) pd) = entries pd \<and>
    numElements ((shrink_step ^^ n) pd) = numElements pd \<and> HASH_RANGE ((shrink_step ^^ n) pd) + n = HASH_RANGE pd"
  using assms(2)
proof (induction n)
  case (Suc n)
  then have ih: "core_ok make_hash ((shrink_step ^^ n) pd)" "entries ((shrink_step ^^ n) pd) = entries pd"
    "numElements ((shrink_step ^^ n) pd) = numElements pd" "HASH_RANGE ((shrink_step ^^ n) pd) + n = HASH_RANGE pd" by simp_all
  have "INITIAL_SIZE < HASH_RANGE ((shrink_step ^^ n) pd)" using Suc.prems ih(4) by simp
  from shrink_step_ok [OF ih(1) this] show ?case using ih by simp
qed (simp add: assms)

lemma cells_above: "core_ok make_hash pd \<Longrightarrow> HASH_RANGE pd \<le> i \<Longrightarrow> cells pd i = []"
proof (rule ccontr)
  assume ok: "core_ok make_hash pd" and i: "HASH_RANGE pd \<le> i" and "cells pd i \<noteq> []"
  then obtain c where "c \<in> set (cells pd i)" using hd_in_set by blast
  then have "bucket (homeSize pd) (splitPosition pd) (make_hash (fst c)) = i" using ok by (auto simp: core_ok_def placed_def)
  then show False using bucket_less [of "homeSize pd" "splitPosition pd"] core_home [OF ok] i
    by (metis HASH_RANGE_def not_le)
qed

lemma array_shrink_ok:
  assumes ok: "core_ok make_hash pd" and n: "HASH_RANGE pd \<le> need"
  shows "core_ok make_hash (array_shrink pd need) \<and> entries (array_shrink pd need) = entries pd \<and>
    numElements (array_shrink pd need) = numElements pd \<and> HASH_RANGE (array_shrink pd need) = HASH_RANGE pd"
proof (cases "size_of pd < next_array_size need")
  case True
  then show ?thesis using ok by (simp add: array_shrink_def)
next
  case False
  let ?z = "next_array_size need" and ?p = "array_shrink pd need"
  have a: "array_ok pd" using ok by (simp add: core_ok_def)
  have z: "HASH_RANGE pd \<le> ?z" "?z \<le> size_of pd" using next_array_size_ge [of need] n False by auto
  have p: "pd_data ?p = take ?z (pd_data pd)" "size_of ?p = ?z" "used ?p = min (used pd) ?z"
    "homeSize ?p = homeSize pd" "splitPosition ?p = splitPosition pd" "numElements ?p = numElements pd"
    using False by (simp_all add: array_shrink_def Let_def min_def)
  have nil: "ARRAY_GET pd i = Nil_slot" if "?z \<le> i" for i
    using cells_above [OF ok, of i] slot_ok_Nil [OF array_get_ok [OF a], of i] that z(1) by (simp add: cells_def)
  have g: "ARRAY_GET ?p = ARRAY_GET pd"
  proof
    fix i
    show "ARRAY_GET ?p i = ARRAY_GET pd i"
      using nil [of i] z(2) by (cases "i < ?z") (simp_all add: ARRAY_GET_def p)
  qed
  have "slot_cells t = []" if t: "t \<in> set (drop ?z (pd_data pd))" for t
  proof -
    obtain k where k: "k < length (pd_data pd) - ?z" "t = pd_data pd ! (?z + k)" using t by (auto simp: in_set_conv_nth)
    then have "?z + k < size_of pd" using a by (simp add: array_ok_def)
    then show ?thesis using nil [of "?z + k"] k(2) by (simp add: ARRAY_GET_def)
  qed
  then have d: "concat (map slot_cells (drop ?z (pd_data pd))) = []" by (auto simp: concat_eq_Nil_conv)
  have "entries pd = mset (concat (map slot_cells (take ?z (pd_data pd) @ drop ?z (pd_data pd))))" by (simp add: entries_def)
  also have "\<dots> = entries ?p" using d unfolding map_append concat_append entries_def p(1) by simp
  finally have e: "entries ?p = entries pd" ..
  have "array_ok ?p" using a z unfolding array_ok_def p by (auto dest: in_set_takeD)
  moreover have "cells ?p = cells pd" using g by (simp add: cells_def fun_eq_iff)
  ultimately show ?thesis using ok e p by (simp add: core_ok_def placed_def HASH_RANGE_def)
qed

subsection \<open>The invariant and the map of a dictionary\<close>

text \<open>
  Between operations there are at most as many elements as buckets, unless the table has reached its
  largest size, and at least half as many, unless it has its first size.
\<close>

definition load_ok :: "('k, 'v) proc_dict \<Rightarrow> bool" where
  "load_ok pd \<longleftrightarrow> (HASH_RANGE pd = INITIAL_SIZE \<or> HASH_RANGE pd div 2 \<le> numElements pd) \<and>
     (numElements pd < HASH_RANGE pd \<or> MAX_HASH - homeSize pd div 5 \<le> HASH_RANGE pd)"

definition pd_ok :: "('k \<Rightarrow> nat) \<Rightarrow> ('k, 'v) proc_dict \<Rightarrow> bool" where
  "pd_ok make_hash pd \<longleftrightarrow> core_ok make_hash pd \<and> numElements pd = size (entries pd) \<and>
     HASH_RANGE pd < MAX_HASH \<and> load_ok pd"

definition dict_ok :: "('k \<Rightarrow> nat) \<Rightarrow> ('k, 'v) proc_dict option \<Rightarrow> bool" where
  "dict_ok make_hash p \<longleftrightarrow> (\<forall>pd. p = Some pd \<longrightarrow> pd_ok make_hash pd)"

definition pd_lookup :: "('k \<Rightarrow> nat) \<Rightarrow> ('k, 'v) proc_dict \<Rightarrow> 'k \<rightharpoonup> 'v" where
  "pd_lookup make_hash pd k = map_of (cells pd (pd_hash_value make_hash pd k)) k"

definition pd_map :: "('k \<Rightarrow> nat) \<Rightarrow> ('k, 'v) proc_dict option \<Rightarrow> 'k \<rightharpoonup> 'v" where
  "pd_map make_hash p = (case p of None \<Rightarrow> Map.empty | Some pd \<Rightarrow> pd_lookup make_hash pd)"

lemma pd_map_simps [simp]: "pd_map make_hash None = Map.empty" "pd_map make_hash (Some pd) = pd_lookup make_hash pd"
  by (simp_all add: pd_map_def)

lemma entries_mem: "array_ok pd \<Longrightarrow> c \<in># entries pd \<longleftrightarrow> (\<exists>i. c \<in> set (cells pd i))"
proof -
  assume a: "array_ok pd"
  have "c \<in># entries pd \<longleftrightarrow> (\<exists>t\<in>set (pd_data pd). c \<in> set (slot_cells t))" by (simp add: entries_def)
  also have "\<dots> \<longleftrightarrow> (\<exists>i < size_of pd. c \<in> set (slot_cells (pd_data pd ! i)))"
    using a unfolding array_ok_def by (metis in_set_conv_nth)
  also have "\<dots> \<longleftrightarrow> (\<exists>i. c \<in> set (cells pd i))" by (auto simp: cells_def ARRAY_GET_def)
  finally show ?thesis .
qed

lemma placed_D:
  assumes "core_ok make_hash pd"
  shows "distinct (map fst (cells pd i))" and "c \<in> set (cells pd i) \<Longrightarrow> pd_hash_value make_hash pd (fst c) = i"
  using assms unfolding core_ok_def placed_def pd_hash_value_bucket by blast+

lemma lookup_iff:
  assumes "core_ok make_hash pd"
  shows "pd_lookup make_hash pd k = Some v \<longleftrightarrow> (k, v) \<in># entries pd"
proof -
  have "array_ok pd" using assms by (simp add: core_ok_def)
  from entries_mem [OF this, of "(k, v)"] show ?thesis
    using placed_D(1) [OF assms] placed_D(2) [OF assms, of "(k, v)"]
    by (auto simp: pd_lookup_def map_of_eq_Some_iff)
qed

lemma lookup_cong:
  assumes "core_ok make_hash p" and "core_ok make_hash q" and "entries p = entries q"
  shows "pd_lookup make_hash p = pd_lookup make_hash q"
proof
  fix k
  show "pd_lookup make_hash p k = pd_lookup make_hash q k"
    using lookup_iff [OF assms(1), of k] lookup_iff [OF assms(2), of k] assms(3)
    by (cases "pd_lookup make_hash p k"; cases "pd_lookup make_hash q k") auto
qed

lemma core_ok_resize [simp]: "core_ok make_hash (pd\<lparr>numElements := n\<rparr>) = core_ok make_hash pd"
  "pd_lookup make_hash (pd\<lparr>numElements := n\<rparr>) = pd_lookup make_hash pd"
  "HASH_RANGE (pd\<lparr>numElements := n\<rparr>) = HASH_RANGE pd"
  by (auto simp: core_ok_def placed_def HASH_RANGE_def pd_lookup_def pd_hash_value_def Let_def fun_eq_iff)

lemma put_slot_ok:
  assumes ok: "core_ok make_hash pd" and t: "slot_ok t" "distinct (map fst (slot_cells t))"
    "\<And>c. c \<in> set (slot_cells t) \<Longrightarrow> pd_hash_value make_hash pd (fst c) = i"
  shows "core_ok make_hash (put_at pd i t)"
    and "pd_lookup make_hash (put_at pd i t) j =
      (if pd_hash_value make_hash pd j = i then map_of (slot_cells t) j else pd_lookup make_hash pd j)"
    and "size (entries (put_at pd i t)) + length (cells pd i) = size (entries pd) + length (slot_cells t)"
proof -
  have a: "array_ok pd" using ok by (simp add: core_ok_def)
  note c = put_at_cells [OF a t(1), of i]
  show "core_ok make_hash (put_at pd i t)"
    using ok put_at_ok(1) [OF a t(1), of i] t(2,3) unfolding core_ok_def placed_def c by (auto simp: pd_hash_value_bucket)
  show "pd_lookup make_hash (put_at pd i t) j =
      (if pd_hash_value make_hash pd j = i then map_of (slot_cells t) j else pd_lookup make_hash pd j)"
    unfolding pd_lookup_def c by (simp add: pd_hash_value_bucket)
  show "size (entries (put_at pd i t)) + length (cells pd i) = size (entries pd) + length (slot_cells t)"
    using arg_cong [OF put_at_ok(3) [OF a t(1), of i], of size] by simp
qed

subsection \<open>Insertion\<close>

lemma grow_ok:
  assumes ok: "core_ok make_hash pd" and n: "numElements pd = size (entries pd)" and r: "HASH_RANGE pd < MAX_HASH"
    and l: "numElements pd \<le> HASH_RANGE pd \<or> MAX_HASH - homeSize pd div 5 \<le> HASH_RANGE pd"
      "HASH_RANGE pd \<le> numElements pd"
  shows "pd_ok make_hash (grow make_hash pd)" and "pd_lookup make_hash (grow make_hash pd) = pd_lookup make_hash pd"
proof -
  let ?k = "homeSize pd div 5"
  have h: "10 \<le> homeSize pd" "homeSize pd \<le> HASH_RANGE pd" "?k \<noteq> 0" using core_home [OF ok] by (auto simp: INITIAL_SIZE_def HASH_RANGE_def)
  have "pd_ok make_hash (grow make_hash pd) \<and> pd_lookup make_hash (grow make_hash pd) = pd_lookup make_hash pd"
  proof (cases "MAX_HASH - ?k \<le> HASH_RANGE pd")
    case True
    then have "grow make_hash pd = pd" using h by (simp add: grow_def)
    then show ?thesis using ok n r l True by (auto simp: pd_ok_def load_ok_def)
  next
    case False
    define pd' where "pd' = (grow_step make_hash ^^ ?k) pd"
    have e: "grow make_hash pd = pd'" using h False by (simp add: grow_def Let_def pd'_def)
    have g: "core_ok make_hash pd'" "entries pd' = entries pd" "numElements pd' = numElements pd" "HASH_RANGE pd' = HASH_RANGE pd + ?k"
      using grow_steps_ok [OF ok, of ?k] by (auto simp: pd'_def)
    have "HASH_RANGE pd' < MAX_HASH" using False g(4) by linarith
    moreover have "numElements pd' < HASH_RANGE pd'" using False g l h by auto
    moreover have "HASH_RANGE pd' div 2 \<le> numElements pd'" using g l(2) h by linarith
    ultimately show ?thesis using g n lookup_cong [OF g(1) ok g(2)] unfolding e by (simp add: pd_ok_def load_ok_def)
  qed
  then show "pd_ok make_hash (grow make_hash pd)" "pd_lookup make_hash (grow make_hash pd) = pd_lookup make_hash pd" by blast+
qed

lemma put_new_ok:
  assumes ok: "pd_ok make_hash pd" and i: "i = pd_hash_value make_hash pd k" and t: "slot_ok t" "slot_cells t = (k, v) # cells pd i"
    and new: "k \<notin> fst ` set (cells pd i)"
  shows "pd_ok make_hash (put_new make_hash pd i t)"
    and "pd_lookup make_hash (put_new make_hash pd i t) = (pd_lookup make_hash pd)(k \<mapsto> v)"
proof -
  have c: "core_ok make_hash pd" using ok by (simp add: pd_ok_def)
  have d: "distinct (map fst (slot_cells t))" using placed_D(1) [OF c, of i] new t(2) by simp
  have b: "pd_hash_value make_hash pd (fst x) = i" if "x \<in> set (slot_cells t)" for x
    using that placed_D(2) [OF c, of x i] t(2) i by (cases "x = (k, v)") auto
  note p = put_slot_ok [OF c t(1) d b]
  let ?p = "(put_at pd i t)\<lparr>numElements := numElements (put_at pd i t) + 1\<rparr>"
  have l: "pd_lookup make_hash ?p = (pd_lookup make_hash pd)(k \<mapsto> v)"
    using p(2) t(2) i by (auto simp: fun_eq_iff pd_lookup_def)
  have q: "core_ok make_hash ?p" "numElements ?p = size (entries ?p)" "HASH_RANGE ?p = HASH_RANGE pd" "homeSize ?p = homeSize pd"
    "numElements ?p = numElements pd + 1"
    using p(1,3) t(2) ok by (simp_all add: pd_ok_def)
  have r: "HASH_RANGE ?p < MAX_HASH" using ok q(3) by (simp add: pd_ok_def)
  have ld: "load_ok pd" using ok by (simp add: pd_ok_def)
  have "pd_ok make_hash (put_new make_hash pd i t) \<and>
    pd_lookup make_hash (put_new make_hash pd i t) = (pd_lookup make_hash pd)(k \<mapsto> v)"
  proof (cases "HASH_RANGE ?p \<le> numElements ?p")
    case True
    have "numElements ?p \<le> HASH_RANGE ?p \<or> MAX_HASH - homeSize ?p div 5 \<le> HASH_RANGE ?p"
      using ld q(3-5) unfolding load_ok_def by auto
    from grow_ok [OF q(1,2) r this True] l True show ?thesis by (simp add: put_new_def Let_def)
  next
    case False
    have "load_ok ?p" using ld False q unfolding load_ok_def by auto
    then have "pd_ok make_hash ?p" using q r by (simp add: pd_ok_def)
    then show ?thesis using False l by (simp add: put_new_def Let_def)
  qed
  then show "pd_ok make_hash (put_new make_hash pd i t)"
    "pd_lookup make_hash (put_new make_hash pd i t) = (pd_lookup make_hash pd)(k \<mapsto> v)" by blast+
qed

text \<open>The new value in the place of an old one.\<close>

lemma cell_index_spec:
  "0 \<le> i \<Longrightarrow> if k \<in> fst ` set cs then \<exists>j<length cs. cell_index k cs i = i + int j \<and> fst (cs ! j) = k else cell_index k cs i = - 1"
proof (induction cs arbitrary: i)
  case (Cons c cs)
  show ?case
  proof (cases "fst c = k")
    case True
    then show ?thesis by (auto intro!: exI [of _ 0])
  next
    case False
    have "k \<in> fst ` set (c # cs) \<longleftrightarrow> k \<in> fst ` set cs" using False by auto
    moreover have "\<exists>j<length (c # cs). cell_index k (c # cs) i = i + int j \<and> fst ((c # cs) ! j) = k"
      if "j < length cs" "cell_index k cs (i + 1) = i + 1 + int j" "fst (cs ! j) = k" for j
      using that False by (intro exI [of _ "Suc j"]) simp
    ultimately show ?thesis using Cons.IH [of "i + 1"] Cons.prems False by (auto split: if_splits)
  qed
qed simp

lemma map_of_replace:
  assumes "j < length cs" and "distinct (map fst cs)" and "fst (cs ! j) = k"
  shows "distinct (map fst (replace_cell j (k, v) cs))" and "map_of (replace_cell j (k, v) cs) = (map_of cs)(k \<mapsto> v)"
    and "set (replace_cell j (k, v) cs) \<subseteq> insert (k, v) (set cs)" and "length (replace_cell j (k, v) cs) = length cs"
proof -
  define xs ys where "xs = take j cs" and "ys = drop (Suc j) cs"
  have cs: "cs = xs @ cs ! j # ys" using id_take_nth_drop [OF assms(1)] by (simp add: xs_def ys_def)
  have r: "replace_cell j (k, v) cs = (k, v) # rev xs @ ys"
  proof -
    have "fold (#) as bs = rev as @ bs" for as bs :: "('a \<times> 'b) list" by (induction as arbitrary: bs) auto
    then show ?thesis by (simp add: replace_cell_def xs_def ys_def)
  qed
  have "distinct (map fst (xs @ cs ! j # ys))" using assms(2) cs by simp
  then have d: "distinct (map fst xs)" "distinct (map fst ys)" "k \<notin> fst ` set xs" "k \<notin> fst ` set ys" "fst ` set xs \<inter> fst ` set ys = {}"
    using assms(3) by auto
  show "distinct (map fst (replace_cell j (k, v) cs))" using d by (auto simp: r simp flip: rev_map)
  have rev: "map_of (rev xs) = map_of xs" using d(1) by (subst map_of_inject_set) (simp_all flip: rev_map)
  show "map_of (replace_cell j (k, v) cs) = (map_of cs)(k \<mapsto> v)"
    unfolding r by (subst cs) (use assms(3) d(3) rev in \<open>auto simp: fun_eq_iff map_add_def dom_map_of_conv_image_fst split: option.splits\<close>)
  show "set (replace_cell j (k, v) cs) \<subseteq> insert (k, v) (set cs)" unfolding r by (subst cs) auto
  show "length (replace_cell j (k, v) cs) = length cs" unfolding r by (subst cs) simp
qed

lemma put_same_ok:
  assumes ok: "pd_ok make_hash pd" and i: "i = pd_hash_value make_hash pd k" and t: "slot_ok t" "distinct (map fst (slot_cells t))"
    "map_of (slot_cells t) = (map_of (cells pd i))(k \<mapsto> v)" "set (slot_cells t) \<subseteq> insert (k, v) (set (cells pd i))"
    "length (slot_cells t) = length (cells pd i)"
  shows "pd_ok make_hash (put_at pd i t)" and "pd_lookup make_hash (put_at pd i t) = (pd_lookup make_hash pd)(k \<mapsto> v)"
proof -
  have c: "core_ok make_hash pd" using ok by (simp add: pd_ok_def)
  have b: "pd_hash_value make_hash pd (fst x) = i" if "x \<in> set (slot_cells t)" for x
    using that placed_D(2) [OF c, of x i] t(4) i by (cases "x = (k, v)") auto
  note p = put_slot_ok [OF c t(1,2) b]
  show "pd_ok make_hash (put_at pd i t)" using p(1,3) t(5) ok by (auto simp: pd_ok_def load_ok_def)
  show "pd_lookup make_hash (put_at pd i t) = (pd_lookup make_hash pd)(k \<mapsto> v)"
    using p(2) t(3) i by (auto simp: fun_eq_iff pd_lookup_def)
qed

definition empty_dict :: "('k, 'v) proc_dict" where
  "empty_dict = (fst (array_put None (INITIAL_SIZE - 1) Nil_slot))\<lparr>homeSize := INITIAL_SIZE\<rparr>"

lemma empty_dict_ok:
  shows "pd_ok make_hash (empty_dict :: ('k, 'v) proc_dict)" and "pd_lookup make_hash (empty_dict :: ('k, 'v) proc_dict) = Map.empty"
proof -
  let ?e = "empty_dict :: ('k, 'v) proc_dict"
  have e: "?e = \<lparr>size_of = 10, used = 10, homeSize = 10, splitPosition = 0, numElements = 0,
      pd_data = replicate 10 Nil_slot\<rparr>"
    using array_size_exact [of 10] by (simp add: empty_dict_def array_put_def INITIAL_SIZE_def list_update_same_conv)
  have g: "ARRAY_GET ?e = (\<lambda>_. Nil_slot)" by (auto simp: e ARRAY_GET_def fun_eq_iff)
  then have c: "cells ?e = (\<lambda>_. [])" by (simp add: cells_def fun_eq_iff)
  have n: "entries ?e = {#}" by (simp add: e entries_def)
  show "pd_lookup make_hash ?e = Map.empty" by (simp add: pd_lookup_def c fun_eq_iff)
  show "pd_ok make_hash ?e"
    unfolding pd_ok_def core_ok_def placed_def load_ok_def n c
    by (auto simp: e array_ok_def HASH_RANGE_def INITIAL_SIZE_def MAX_HASH_def intro: exI [of _ 0])
qed

lemma pd_hash_put_ok:
  assumes "dict_ok make_hash p"
  shows "\<exists>pd' ret. pd_hash_put undef make_hash p k v = Inr (pd', ret) \<and> pd_ok make_hash pd' \<and>
    pd_lookup make_hash pd' = (pd_map make_hash p)(k \<mapsto> v) \<and>
    ret = (case pd_map make_hash p k of None \<Rightarrow> undef | Some w \<Rightarrow> w)"
proof -
  define pd where "pd = (case p of None \<Rightarrow> empty_dict | Some pd \<Rightarrow> pd)"
  have pd: "pd_ok make_hash pd" "pd_lookup make_hash pd = pd_map make_hash p"
    using assms empty_dict_ok by (auto simp: pd_def dict_ok_def split: option.splits)
  define i where "i = pd_hash_value make_hash pd k"
  have c: "core_ok make_hash pd" and a: "array_ok pd" using pd(1) by (auto simp: pd_ok_def core_ok_def)
  note new = put_new_ok [OF pd(1) i_def] and same = put_same_ok [OF pd(1) i_def]
  have ret: "pd_map make_hash p k = map_of (cells pd i) k" unfolding pd(2) [symmetric] by (simp add: pd_lookup_def i_def)
  have put: "pd_hash_put undef make_hash p k v = (case ARRAY_GET pd i of
      Nil_slot \<Rightarrow> Inr (put_new make_hash pd i (Tuple_slot (k, v)), undef)
    | Tuple_slot c \<Rightarrow>
        if fst c = k then Inr (put_at pd i (Tuple_slot (k, v)), snd c)
        else Inr (put_new make_hash pd i (List_slot [(k, v), c]), undef)
    | List_slot cs \<Rightarrow>
        if cell_index k cs 0 = - 1 then Inr (put_new make_hash pd i (List_slot ((k, v) # cs)), undef)
        else Inr (put_at pd i (List_slot (replace_cell (nat (cell_index k cs 0)) (k, v) cs)), snd (cs ! nat (cell_index k cs 0)))
    | Other_slot \<Rightarrow> Inl Damaged_process_dictionary)"
    unfolding pd_hash_put_def pd_def empty_dict_def i_def Let_def by (rule refl)
  have s: "slot_ok (ARRAY_GET pd i)" by (rule array_get_ok [OF a])
  show ?thesis
  proof (cases "ARRAY_GET pd i")
    case Nil_slot
    then have e: "cells pd i = []" by (simp add: cells_def)
    show ?thesis using new [of "Tuple_slot (k, v)" v] put ret Nil_slot e pd(2) by simp
  next
    case (Tuple_slot x)
    then have e: "cells pd i = [x]" by (simp add: cells_def)
    show ?thesis
    proof (cases "fst x = k")
      case True
      then show ?thesis using same [of "Tuple_slot (k, v)" v] put ret Tuple_slot e pd(2) by (cases x) (simp add: fun_eq_iff)
    next
      case False
      then show ?thesis using new [of "List_slot [(k, v), x]" v] put ret Tuple_slot e pd(2) by (cases x) auto
    qed
  next
    case (List_slot cs)
    then have e: "cells pd i = cs" by (simp add: cells_def)
    have l: "2 \<le> length cs" using s List_slot by simp
    have d: "distinct (map fst cs)" using placed_D(1) [OF c, of i] e by simp
    show ?thesis
    proof (cases "k \<in> fst ` set cs")
      case True
      then obtain j where j: "j < length cs" "cell_index k cs 0 = int j" "fst (cs ! j) = k"
        using cell_index_spec [of 0 k cs] by auto
      note r = map_of_replace [OF j(1) d j(3), of v]
      have "map_of cs k = Some (snd (cs ! j))" using d j(1,3) by (metis map_of_eq_Some_iff nth_mem prod.collapse)
      then show ?thesis
        using same [of "List_slot (replace_cell j (k, v) cs)" v] r l put ret List_slot e pd(2) j(2) by simp
    next
      case False
      then have "map_of cs k = None" "cell_index k cs 0 = - 1" using cell_index_spec [of 0 k cs] by (auto simp: map_of_eq_None_iff)
      then show ?thesis using new [of "List_slot ((k, v) # cs)" v] l put ret List_slot e pd(2) False by simp
    qed
  next
    case Other_slot
    then show ?thesis using s by simp
  qed
qed

subsection \<open>Removal\<close>

lemma shrink_ok:
  assumes ok: "core_ok make_hash pd" and n: "numElements pd = size (entries pd)" and r: "HASH_RANGE pd < MAX_HASH"
    and l: "INITIAL_SIZE < HASH_RANGE pd" "numElements pd < HASH_RANGE pd div 2" "HASH_RANGE pd div 2 \<le> numElements pd + 1"
  shows "pd_ok make_hash (shrink pd)" and "pd_lookup make_hash (shrink pd) = pd_lookup make_hash pd"
proof -
  define k where "k = (if HASH_RANGE pd - HASH_RANGE pd * 3 div 10 < INITIAL_SIZE then HASH_RANGE pd - INITIAL_SIZE
      else HASH_RANGE pd * 3 div 10)"
  have k: "INITIAL_SIZE + k \<le> HASH_RANGE pd" using l(1) by (auto simp: k_def)
  define p where "p = (shrink_step ^^ k) pd"
  have p: "core_ok make_hash p" "entries p = entries pd" "numElements p = numElements pd" "HASH_RANGE p + k = HASH_RANGE pd"
    using shrink_steps_ok [OF ok k] by (auto simp: p_def)
  define q where "q = shrink pd"
  have e: "q = (if HASH_RANGE p \<le> size_of p div 4 then array_shrink p (HASH_RANGE p * 3 div 2) else p)"
    unfolding q_def shrink_def Let_def k_def [symmetric] p_def [symmetric] ..
  have "HASH_RANGE p \<le> HASH_RANGE p * 3 div 2" by linarith
  from array_shrink_ok [OF p(1) this] p
  have q: "core_ok make_hash q" "entries q = entries pd" "numElements q = numElements pd" "HASH_RANGE q = HASH_RANGE p"
    unfolding e by (simp_all split: if_splits)
  have "HASH_RANGE q < MAX_HASH" using q(4) p(4) r by simp
  moreover have "HASH_RANGE q = INITIAL_SIZE \<or> HASH_RANGE q div 2 \<le> numElements q"
    using q(3,4) p(4) l(1,3) by (auto simp: k_def INITIAL_SIZE_def split: if_splits)
  moreover have "numElements q < HASH_RANGE q" using q(3,4) p(4) l by (auto simp: k_def INITIAL_SIZE_def split: if_splits)
  ultimately show "pd_ok make_hash (shrink pd)" using q n unfolding q_def by (simp add: pd_ok_def load_ok_def)
  show "pd_lookup make_hash (shrink pd) = pd_lookup make_hash pd" using lookup_cong [OF q(1) ok q(2)] by (simp add: q_def)
qed

lemma erase_finish_ok:
  assumes "core_ok make_hash pd" and "numElements pd = size (entries pd)" and "HASH_RANGE pd < MAX_HASH"
    and "HASH_RANGE pd = INITIAL_SIZE \<or> HASH_RANGE pd div 2 \<le> numElements pd + 1"
    and "numElements pd < HASH_RANGE pd \<or> MAX_HASH - homeSize pd div 5 \<le> HASH_RANGE pd"
  shows "pd_ok make_hash (erase_finish pd)" and "pd_lookup make_hash (erase_finish pd) = pd_lookup make_hash pd"
proof -
  have "INITIAL_SIZE \<le> HASH_RANGE pd" using core_home [OF assms(1)] by (simp add: HASH_RANGE_def)
  then show "pd_ok make_hash (erase_finish pd)"
    using assms shrink_ok(1) [OF assms(1-3)] by (auto simp: erase_finish_def pd_ok_def load_ok_def)
  show "pd_lookup make_hash (erase_finish pd) = pd_lookup make_hash pd"
    using assms(4) shrink_ok(2) [OF assms(1-3)] by (auto simp: erase_finish_def)
qed

lemma erase_cells_absent: "k \<notin> fst ` set cs \<Longrightarrow> erase_cells k dead cs ret n = (cs, ret, n)"
  by (induction cs arbitrary: dead) auto

lemma erase_cells_present:
  "distinct (map fst cs) \<Longrightarrow> k \<in> fst ` set cs \<Longrightarrow>
     erase_cells k False cs ret n = (filter (\<lambda>c. fst c \<noteq> k) cs, the (map_of cs k), n - 1) \<and>
     length cs = Suc (length (filter (\<lambda>c. fst c \<noteq> k) cs))"
proof (induction cs arbitrary: ret)
  case (Cons c cs)
  show ?case
  proof (cases "fst c = k")
    case True
    with Cons.prems(1) have "k \<notin> fst ` set cs" by simp
    moreover from this have "filter (\<lambda>c. fst c \<noteq> k) cs = cs" by (auto simp: filter_id_conv)
    ultimately show ?thesis using True by (cases c) (simp add: erase_cells_absent)
  next
    case False
    with Cons show ?thesis by (cases c) auto
  qed
qed simp

lemma map_of_erase: "map_of (filter (\<lambda>c. fst c \<noteq> k) cs) = (map_of cs)(k := None)"
  by (induction cs) (auto simp: fun_eq_iff)

lemma used_sel [simp]: "ARRAY_GET (pd\<lparr>used := u\<rparr>) = ARRAY_GET pd" "cells (pd\<lparr>used := u\<rparr>) = cells pd"
  by (simp_all add: ARRAY_GET_def cells_def fun_eq_iff)

lemma used_resize:
  "core_ok make_hash pd \<Longrightarrow> u \<le> size_of pd \<Longrightarrow> core_ok make_hash (pd\<lparr>used := u\<rparr>)"
  "entries (pd\<lparr>used := u\<rparr>) = entries pd" "HASH_RANGE (pd\<lparr>used := u\<rparr>) = HASH_RANGE pd"
  "pd_lookup make_hash (pd\<lparr>used := u\<rparr>) = pd_lookup make_hash pd"
  by (auto simp: core_ok_def placed_def array_ok_def HASH_RANGE_def entries_def pd_lookup_def pd_hash_value_def Let_def fun_eq_iff)

text \<open>Taking the tuple of the key out of its bucket.\<close>

lemma take_out_ok:
  assumes ok: "pd_ok make_hash pd" and i: "i = pd_hash_value make_hash pd k" and t: "slot_ok t"
    and old: "k \<in> fst ` set (cells pd i)" and new: "slot_cells t = filter (\<lambda>c. fst c \<noteq> k) (cells pd i)"
    and p: "p = (put_at pd i t)\<lparr>numElements := numElements pd - 1, used := u\<rparr>" "u \<le> size_of (put_at pd i t)"
  shows "pd_ok make_hash (erase_finish p)" and "pd_lookup make_hash (erase_finish p) = (pd_lookup make_hash pd)(k := None)"
proof -
  have c: "core_ok make_hash pd" using ok by (simp add: pd_ok_def)
  have d: "distinct (map fst (cells pd i))" by (rule placed_D(1) [OF c])
  have d': "distinct (map fst (slot_cells t))" using d new distinct_map_filter by metis
  have b: "pd_hash_value make_hash pd (fst x) = i" if "x \<in> set (slot_cells t)" for x
    using that placed_D(2) [OF c, of x i] new by simp
  note q = put_slot_ok [OF c t d' b]
  have len: "length (cells pd i) = Suc (length (slot_cells t))" using erase_cells_present [OF d old] new by simp
  have p1: "core_ok make_hash p" using used_resize(1) [of make_hash "(put_at pd i t)\<lparr>numElements := numElements pd - 1\<rparr>" u] q(1) p by simp
  have p2: "HASH_RANGE p = HASH_RANGE pd" "numElements p = size (entries p)" "homeSize p = homeSize pd" "numElements p + 1 = numElements pd"
    using q(3) len ok p by (simp_all add: used_resize pd_ok_def)
  have m: "map_of (slot_cells t) j = (if j = k then None else map_of (cells pd i) j)" for j
    unfolding new map_of_erase by simp
  have l: "pd_lookup make_hash p = (pd_lookup make_hash pd)(k := None)"
  proof
    fix j
    have "pd_lookup make_hash p j = pd_lookup make_hash (put_at pd i t) j" using p(1) by (simp add: used_resize)
    then show "pd_lookup make_hash p j = ((pd_lookup make_hash pd)(k := None)) j" using q(2) [of j] m [of j] i by (auto simp: pd_lookup_def)
  qed
  have "HASH_RANGE p < MAX_HASH" "HASH_RANGE p = INITIAL_SIZE \<or> HASH_RANGE p div 2 \<le> numElements p + 1"
    "numElements p < HASH_RANGE p \<or> MAX_HASH - homeSize p div 5 \<le> HASH_RANGE p"
    using ok p2 by (auto simp: pd_ok_def load_ok_def)
  from erase_finish_ok [OF p1 p2(2) this] l
  show "pd_ok make_hash (erase_finish p)" "pd_lookup make_hash (erase_finish p) = (pd_lookup make_hash pd)(k := None)" by simp_all
qed

lemma pd_hash_erase_ok:
  assumes "dict_ok make_hash p"
  shows "\<exists>p' ret. pd_hash_erase undef make_hash p k = Inr (p', ret) \<and> dict_ok make_hash p' \<and>
    pd_map make_hash p' = (pd_map make_hash p)(k := None) \<and>
    ret = (case pd_map make_hash p k of None \<Rightarrow> undef | Some w \<Rightarrow> w)"
proof (cases p)
  case None
  then show ?thesis by (simp add: pd_hash_erase_def dict_ok_def)
next
  case (Some pd)
  then have ok: "pd_ok make_hash pd" using assms by (simp add: dict_ok_def)
  define i where "i = pd_hash_value make_hash pd k"
  have c: "core_ok make_hash pd" and a: "array_ok pd" using ok by (auto simp: pd_ok_def core_ok_def)
  have d: "distinct (map fst (cells pd i))" by (rule placed_D(1) [OF c])
  have ret: "pd_lookup make_hash pd k = map_of (cells pd i) k" by (simp add: pd_lookup_def i_def)
  have "erase_finish pd = pd" using ok core_home [OF c] by (auto simp: erase_finish_def pd_ok_def load_ok_def)
  moreover have "(pd_lookup make_hash pd)(k := None) = pd_lookup make_hash pd" if "k \<notin> fst ` set (cells pd i)"
    using that ret by (auto simp: fun_eq_iff map_of_eq_None_iff [symmetric])
  ultimately have absent: "pd_ok make_hash (erase_finish pd)" "map_of (cells pd i) k = None"
    "pd_lookup make_hash (erase_finish pd) = (pd_lookup make_hash pd)(k := None)" if "k \<notin> fst ` set (cells pd i)"
    using ok that by (simp_all add: map_of_eq_None_iff)
  have s: "slot_ok (ARRAY_GET pd i)" by (rule array_get_ok [OF a])
  note take = take_out_ok [OF ok i_def]
  show ?thesis
  proof (cases "ARRAY_GET pd i")
    case Nil_slot
    then have "cells pd i = []" by (simp add: cells_def)
    with absent Nil_slot ret show ?thesis by (simp add: pd_hash_erase_def Some i_def [symmetric] dict_ok_def)
  next
    case (Tuple_slot x)
    then have e: "cells pd i = [x]" by (simp add: cells_def)
    show ?thesis
    proof (cases "fst x = k")
      case True
      let ?p = "(put_at pd i Nil_slot)\<lparr>numElements := numElements pd - 1\<rparr>"
      have "used (put_at pd i Nil_slot) \<le> size_of (put_at pd i Nil_slot)"
        using put_at_ok(1) [OF a slot_ok_simps(1), of i] by (simp add: array_ok_def)
      from take [of Nil_slot ?p, OF _ _ _ _ this] e True
      show ?thesis using ret Tuple_slot by (cases x) (simp add: pd_hash_erase_def Some i_def [symmetric] dict_ok_def Let_def)
    next
      case False
      with absent e Tuple_slot ret show ?thesis by (cases x) (simp add: pd_hash_erase_def Some i_def [symmetric] dict_ok_def)
    qed
  next
    case (List_slot cs)
    then have e: "cells pd i = cs" by (simp add: cells_def)
    have l: "2 \<le> length cs" using s List_slot by simp
    have sz: "i < size_of pd" using List_slot by (auto simp: ARRAY_GET_def split: if_splits)
    show ?thesis
    proof (cases "k \<in> fst ` set cs")
      case True
      let ?cs = "filter (\<lambda>c. fst c \<noteq> k) cs" and ?n = "numElements pd - 1"
      let ?q = "pd\<lparr>pd_data := (pd_data pd)[i := List_slot ?cs], numElements := ?n\<rparr>"
      let ?p = "if tl ?cs = [] then put_at ?q i (Tuple_slot (hd ?cs)) else ?q"
      have r: "erase_cells k False cs undef (numElements pd) = (?cs, the (map_of cs k), ?n)" "length cs = Suc (length ?cs)"
        using erase_cells_present [of cs k] d e True by auto
      then have ne: "?cs \<noteq> []" using l by auto
      then have sl: "cells_slot ?cs = (if tl ?cs = [] then Tuple_slot (hd ?cs) else List_slot ?cs)"
        by (cases ?cs rule: cells_slot.cases) auto
      have up: "used pd \<le> size_of pd" "used ?p \<le> size_of (put_at pd i (cells_slot ?cs))"
        using a sz by (auto simp: array_ok_def array_put_def Let_def)
      have eq: "?p = (put_at pd i (cells_slot ?cs))\<lparr>numElements := ?n, used := used ?p\<rparr>"
        unfolding sl using sz by (simp add: array_put_def)
      obtain w where w: "map_of cs k = Some w" using True by (metis map_of_eq_None_iff not_None_eq)
      from take [of "cells_slot ?cs" ?p, OF _ _ _ eq up(2)] e True
      show ?thesis using ret List_slot r w
        by (cases "tl ?cs = []")
          (simp_all add: pd_hash_erase_def Some i_def [symmetric] dict_ok_def Let_def del: erase_cells.simps)
    next
      case False
      from l have "tl cs \<noteq> []" by (cases cs rule: cells_slot.cases) auto
      moreover have "(pd_data pd)[i := List_slot cs] = pd_data pd" using List_slot sz by (simp add: ARRAY_GET_def) (metis list_update_id)
      ultimately show ?thesis using absent e List_slot ret False erase_cells_absent [OF False]
        by (simp add: pd_hash_erase_def Some i_def [symmetric] dict_ok_def Let_def)
    qed
  next
    case Other_slot
    then show ?thesis using s by simp
  qed
qed

subsection \<open>Lookup and listing\<close>

lemma find_cell_map: "find_cell k cs = map_option (\<lambda>v. (k, v)) (map_of cs k)"
  by (induction cs) auto

lemma pd_hash_get_ok:
  assumes "dict_ok make_hash p"
  shows "erts_pd_hash_get undef make_hash p k = Inr (case pd_map make_hash p k of None \<Rightarrow> undef | Some v \<Rightarrow> v)"
proof (cases p)
  case None
  then show ?thesis by (simp add: erts_pd_hash_get_def)
next
  case (Some pd)
  then have "slot_ok (ARRAY_GET pd (pd_hash_value make_hash pd k))"
    using assms array_get_ok by (auto simp: dict_ok_def pd_ok_def core_ok_def)
  then show ?thesis unfolding Some
    by (cases "ARRAY_GET pd (pd_hash_value make_hash pd k)")
      (auto simp: erts_pd_hash_get_def pd_lookup_def cells_def find_cell_map split: option.splits)
qed

lemma fold_Cons: "fold (#) xs ys = rev xs @ ys"
  by (induction xs arbitrary: ys) auto

lemma get_all_eq:
  fixes p :: "('k, 'v) proc_dict option"
  shows "pd_hash_get_all p = (case p of None \<Rightarrow> [] | Some pd \<Rightarrow> rev (concat (map (cells pd) [0..<HASH_RANGE pd])))"
proof -
  have "fold (\<lambda>i res. fold (#) (slot_cells (ARRAY_GET pd i)) res) xs ys = rev (concat (map (cells pd) xs)) @ ys"
    for pd :: "('k, 'v) proc_dict" and xs ys by (induction xs arbitrary: ys) (auto simp: fold_Cons cells_def)
  then show ?thesis by (simp add: pd_hash_get_all_def split: option.split)
qed

lemma get_keys_eq:
  fixes p :: "('k, 'v) proc_dict option"
  shows "pd_hash_get_keys p v = map fst (filter (\<lambda>c. snd c = v) (pd_hash_get_all p))"
proof -
  have f: "fold (\<lambda>c res. if snd c = v then fst c # res else res) cs r = rev (map fst (filter (\<lambda>c. snd c = v) cs)) @ r"
    for cs :: "('k \<times> 'v) list" and r by (induction cs arbitrary: r) auto
  have "fold (\<lambda>i res. fold (\<lambda>c res. if snd c = v then fst c # res else res) (slot_cells (ARRAY_GET pd i)) res) xs ys =
      rev (map fst (filter (\<lambda>c. snd c = v) (concat (map (cells pd) xs)))) @ ys"
    for pd :: "('k, 'v) proc_dict" and xs ys by (induction xs arbitrary: ys) (auto simp: f cells_def)
  then show ?thesis by (simp add: pd_hash_get_keys_def get_all_eq rev_map rev_filter split: option.split)
qed

lemma distinct_buckets:
  "(\<And>i. distinct (map f (g i))) \<Longrightarrow> (\<And>i c. c \<in> set (g i) \<Longrightarrow> b (f c) = i) \<Longrightarrow> distinct (map f (concat (map g [0..<n])))"
proof (induction n)
  case (Suc n)
  have "f ` set (concat (map g [0..<n])) \<inter> f ` set (g n) = {}"
  proof -
    have "b (f c) < n" if "c \<in> set (concat (map g [0..<n]))" for c using that Suc.prems(2) by auto
    moreover have "b (f c) = n" if "c \<in> set (g n)" for c using that Suc.prems(2) by blast
    ultimately show ?thesis by fastforce
  qed
  then show ?case using Suc by simp
qed simp

lemma get_all_ok:
  assumes "dict_ok make_hash p"
  shows "distinct (map fst (pd_hash_get_all p))" and "(k, v) \<in> set (pd_hash_get_all p) \<longleftrightarrow> pd_map make_hash p k = Some v"
proof -
  have "distinct (map fst (pd_hash_get_all p)) \<and> ((k, v) \<in> set (pd_hash_get_all p) \<longleftrightarrow> pd_map make_hash p k = Some v)"
  proof (cases p)
    case None
    then show ?thesis by (simp add: get_all_eq)
  next
    case (Some pd)
    then have c: "core_ok make_hash pd" and a: "array_ok pd" using assms by (auto simp: dict_ok_def pd_ok_def core_ok_def)
    have dd: "distinct (map fst (concat (map (cells pd) [0..<HASH_RANGE pd])))"
      by (rule distinct_buckets [where b = "pd_hash_value make_hash pd"]) (simp_all add: placed_D [OF c])
    have below: "i < HASH_RANGE pd" if "(k, v) \<in> set (cells pd i)" for i
      using that cells_above [OF c, of i] by (cases "i < HASH_RANGE pd") auto
    have "(k, v) \<in> set (concat (map (cells pd) [0..<HASH_RANGE pd])) \<longleftrightarrow> (\<exists>i. (k, v) \<in> set (cells pd i))"
      using below by auto
    with dd show ?thesis using lookup_iff [OF c, of k v] entries_mem [OF a, of "(k, v)"]
      by (simp add: Some get_all_eq flip: rev_map)
  qed
  then show "distinct (map fst (pd_hash_get_all p))" "(k, v) \<in> set (pd_hash_get_all p) \<longleftrightarrow> pd_map make_hash p k = Some v"
    by blast+
qed

lemma concat_upto: "m \<le> n \<Longrightarrow> (\<And>i. m \<le> i \<Longrightarrow> g i = []) \<Longrightarrow> concat (map g [0..<n]) = concat (map g [0..<m])"
proof (induction n)
  case (Suc n)
  then show ?case by (cases "m = Suc n") simp_all
qed simp

lemma get_all_entries:
  assumes "core_ok make_hash pd"
  shows "mset (pd_hash_get_all (Some pd)) = entries pd"
proof -
  have a: "length (pd_data pd) = size_of pd" using assms by (simp add: core_ok_def array_ok_def)
  have "map slot_cells (pd_data pd) = map (cells pd) [0..<size_of pd]"
    using a by (intro nth_equalityI) (simp_all add: cells_def ARRAY_GET_def)
  then have "entries pd = mset (concat (map (cells pd) [0..<size_of pd]))" by (simp add: entries_def)
  also have "concat (map (cells pd) [0..<size_of pd]) = concat (map (cells pd) [0..<max (size_of pd) (HASH_RANGE pd)])"
    by (rule concat_upto [symmetric]) (simp_all add: cells_def ARRAY_GET_def)
  also have "\<dots> = concat (map (cells pd) [0..<HASH_RANGE pd])"
    by (rule concat_upto) (simp_all add: cells_above [OF assms])
  finally show ?thesis by (simp add: get_all_eq)
qed

lemma num_elements:
  assumes "pd_ok make_hash pd"
  shows "numElements pd = card (dom (pd_lookup make_hash pd))"
proof -
  have c: "core_ok make_hash pd" using assms by (simp add: pd_ok_def)
  have ok: "dict_ok make_hash (Some pd)" using assms by (simp add: dict_ok_def)
  let ?l = "pd_hash_get_all (Some pd)"
  have "size (entries pd) = length ?l" by (metis get_all_entries [OF c] size_mset)
  also have "\<dots> = card (set (map fst ?l))" using distinct_card [OF get_all_ok(1) [OF ok]] by simp
  also have "set (map fst ?l) = dom (pd_lookup make_hash pd)" using get_all_ok(2) [OF ok] by force
  finally show ?thesis using assms by (simp add: pd_ok_def)
qed

subsection \<open>Histories\<close>

definition pd_put :: "'v \<Rightarrow> ('k \<Rightarrow> nat) \<Rightarrow> ('k, 'v) proc_dict option \<Rightarrow> 'k \<Rightarrow> 'v \<Rightarrow> ('k, 'v) proc_dict option" where
  "pd_put undef make_hash p k v = (case put_2 undef make_hash p k v of Inl e \<Rightarrow> p | Inr (p', ret) \<Rightarrow> p')"

definition pd_del :: "'v \<Rightarrow> ('k \<Rightarrow> nat) \<Rightarrow> ('k, 'v) proc_dict option \<Rightarrow> 'k \<Rightarrow> ('k, 'v) proc_dict option" where
  "pd_del undef make_hash p k = (case erase_1 undef make_hash p k of Inl e \<Rightarrow> p | Inr (p', ret) \<Rightarrow> p')"

lemma put_2_ok:
  assumes "dict_ok make_hash p"
  obtains p' where "put_2 undef make_hash p k v = Inr (p', case pd_map make_hash p k of None \<Rightarrow> undef | Some w \<Rightarrow> w)"
    "dict_ok make_hash p'" "pd_map make_hash p' = (pd_map make_hash p)(k \<mapsto> v)"
proof -
  from pd_hash_put_ok [OF assms, of undef k v] obtain pd where
    "pd_hash_put undef make_hash p k v = Inr (pd, case pd_map make_hash p k of None \<Rightarrow> undef | Some w \<Rightarrow> w)"
    "pd_ok make_hash pd" "pd_lookup make_hash pd = (pd_map make_hash p)(k \<mapsto> v)" by blast
  then show ?thesis using that [of "Some pd"] by (simp add: put_2_def dict_ok_def)
qed

lemma erase_1_ok:
  assumes "dict_ok make_hash p"
  obtains p' where "erase_1 undef make_hash p k = Inr (p', case pd_map make_hash p k of None \<Rightarrow> undef | Some w \<Rightarrow> w)"
    "dict_ok make_hash p'" "pd_map make_hash p' = (pd_map make_hash p)(k := None)"
  using pd_hash_erase_ok [OF assms, of undef k] that unfolding erase_1_def by blast

interpretation pd_store: keyed_store "dict_ok make_hash" "\<lambda>_. True" "pd_map make_hash" "pd_put undef make_hash" "pd_del undef make_hash"
  for undef :: 'v and make_hash :: "'k \<Rightarrow> nat"
proof unfold_locales
  fix p :: "('k, 'v) proc_dict option" and k j :: 'k and v :: 'v
  assume ok: "dict_ok make_hash p"
  show "dict_ok make_hash (pd_put undef make_hash p k v)"
    "pd_map make_hash (pd_put undef make_hash p k v) j = ((pd_map make_hash p)(k \<mapsto> v)) j"
    by (rule put_2_ok [OF ok, of undef k v]; simp add: pd_put_def)+
  show "dict_ok make_hash (pd_del undef make_hash p k)"
    "pd_map make_hash (pd_del undef make_hash p k) j = ((pd_map make_hash p)(k := None)) j"
    by (rule erase_1_ok [OF ok, of undef k]; simp add: pd_del_def)+
qed

text \<open>The term a lookup returns.\<close>

definition term_of_value :: "'v \<Rightarrow> 'v option \<Rightarrow> 'v" where
  "term_of_value undef x = (case x of None \<Rightarrow> undef | Some v \<Rightarrow> v)"

text \<open>The dictionary of a process after the calls of put/2 and erase/1 in \<open>xs\<close>.\<close>

definition after_calls :: "'v \<Rightarrow> ('k \<Rightarrow> nat) \<Rightarrow> ('k, 'v) store_op list \<Rightarrow> ('k, 'v) proc_dict option" where
  "after_calls undef make_hash xs = store_run (pd_put undef make_hash) (pd_del undef make_hash) xs None"

lemma store_run_append:
  "store_run f g (xs @ [Put k v]) s = f (store_run f g xs s) k v"
  "store_run f g (xs @ [Del k]) s = g (store_run f g xs s) k"
  by (induction f g xs s rule: store_run.induct) simp_all

lemma after_calls_ok:
  "dict_ok make_hash (after_calls undef make_hash xs)"
  "pd_map make_hash (after_calls undef make_hash xs) = spec_run xs Map.empty"
proof -
  have n: "dict_ok make_hash None" by (simp add: dict_ok_def)
  show "dict_ok make_hash (after_calls undef make_hash xs)"
    unfolding after_calls_def by (rule pd_store.run_inv [OF n]) simp
  show "pd_map make_hash (after_calls undef make_hash xs) = spec_run xs Map.empty"
    unfolding after_calls_def by (rule ext, subst pd_store.run_refines [OF n]) simp_all
qed

subsection \<open>Properties\<close>

text \<open>
  C22: the process dictionary is a map from keys to values. After any calls of put/2 and erase/1, get/1
  returns the value last put and not erased, or undefined; put/2 and erase/1 return the former value
  and change the map at their key only; get/0 lists every pair once and get\_keys/1 every key of a
  value once; the errors for a damaged dictionary are not reached. The growing and shrinking of the
  table, a few buckets at a time, cannot be seen, whatever the hash function.
\<close>

theorem process_dictionary_is_a_map:
  "case (after_calls undef make_hash xs, spec_run xs Map.empty) of (p, m) \<Rightarrow>
    get_1 undef make_hash p k = Inr (term_of_value undef (m k)) \<and>
    put_2 undef make_hash p k v = Inr (after_calls undef make_hash (xs @ [Put k v]), term_of_value undef (m k)) \<and>
    erase_1 undef make_hash p k = Inr (after_calls undef make_hash (xs @ [Del k]), term_of_value undef (m k)) \<and>
    distinct (map fst (get_0 p)) \<and> set (get_0 p) = {(k, v). m k = Some v} \<and>
    distinct (get_keys_1 p v) \<and> set (get_keys_1 p v) = {k. m k = Some v} \<and>
    erase_0 p = (None, get_0 p)"
proof -
  let ?p = "after_calls undef make_hash xs"
  note ok = after_calls_ok(1) [of make_hash undef xs] and m = after_calls_ok(2) [of make_hash undef xs]
  obtain p1 where p1: "put_2 undef make_hash ?p k v = Inr (p1, term_of_value undef (spec_run xs Map.empty k))"
    using put_2_ok [OF ok, of undef k v] unfolding m term_of_value_def by blast
  moreover have "after_calls undef make_hash (xs @ [Put k v]) = p1"
    using p1 by (simp add: after_calls_def store_run_append pd_put_def)
  moreover obtain p2 where p2: "erase_1 undef make_hash ?p k = Inr (p2, term_of_value undef (spec_run xs Map.empty k))"
    using erase_1_ok [OF ok, of undef k] unfolding m term_of_value_def by blast
  moreover have "after_calls undef make_hash (xs @ [Del k]) = p2"
    using p2 by (simp add: after_calls_def store_run_append pd_del_def)
  moreover have "set (get_0 ?p) = {(k, v). spec_run xs Map.empty k = Some v}"
    using get_all_ok(2) [OF ok] m by (auto simp: get_0_def)
  moreover have "distinct (get_keys_1 ?p v)" "set (get_keys_1 ?p v) = {k. spec_run xs Map.empty k = Some v}"
    using get_all_ok [OF ok] m by (auto simp: get_keys_1_def get_keys_eq distinct_map_filter image_iff)
  moreover have "erase_0 ?p = (None, get_0 ?p)"
    by (simp add: erase_0_def get_0_def pd_hash_erase_all_def split: option.split)
  ultimately show ?thesis
    using pd_hash_get_ok [OF ok, of undef k] get_all_ok(1) [OF ok] m by (simp add: get_1_def get_0_def term_of_value_def)
qed

text \<open>
  C23: the table stays in proportion to the number of its elements: after any calls there are fewer
  elements than buckets, unless the table is too large to grow, and at least half as many, unless it
  has its first size. The range of the hash function stays below MAX\_HASH, so that none of the
  products formed of it leaves the range of an unsigned int, and every key hashes into it.
\<close>

theorem process_dictionary_load:
  "case after_calls undef make_hash xs of None \<Rightarrow> spec_run xs Map.empty = Map.empty
   | Some pd \<Rightarrow> numElements pd = card (dom (spec_run xs Map.empty)) \<and>
      (numElements pd < HASH_RANGE pd \<or> MAX_HASH - homeSize pd div 5 \<le> HASH_RANGE pd) \<and>
      (HASH_RANGE pd = INITIAL_SIZE \<or> HASH_RANGE pd div 2 \<le> numElements pd) \<and>
      HASH_RANGE pd < MAX_HASH \<and> HASH_RANGE pd * 3 < 2 ^ 32 \<and> homeSize pd * 2 < 2 ^ 32 \<and>
      pd_hash_value make_hash pd k < HASH_RANGE pd"
proof (cases "after_calls undef make_hash xs")
  case None
  then show ?thesis using after_calls_ok(2) [of make_hash undef xs] by simp
next
  case (Some pd)
  then have ok: "pd_ok make_hash pd" using after_calls_ok(1) [of make_hash undef xs] by (simp add: dict_ok_def)
  then have c: "core_ok make_hash pd" and r: "HASH_RANGE pd < MAX_HASH" by (simp_all add: pd_ok_def)
  have "homeSize pd \<le> HASH_RANGE pd" by (simp add: HASH_RANGE_def)
  then have "HASH_RANGE pd * 3 < 2 ^ 32" "homeSize pd * 2 < 2 ^ 32" using r by (simp_all add: MAX_HASH_def)
  moreover have "pd_hash_value make_hash pd k < HASH_RANGE pd"
    using bucket_less core_home [OF c] by (simp add: pd_hash_value_bucket HASH_RANGE_def)
  moreover have "numElements pd = card (dom (spec_run xs Map.empty))"
    using num_elements [OF ok] after_calls_ok(2) [of make_hash undef xs] Some by simp
  moreover have "load_ok pd" using ok by (simp add: pd_ok_def)
  ultimately show ?thesis using r unfolding Some option.case load_ok_def by blast
qed

text \<open>
  next\_array\_size finds the least size of the table that is enough, for sizes from 11 to 81920.
  The first half of its table is all it searches: for a larger size, up to the 2684354560 elements
  the table goes to, it returns the size asked for.
\<close>

theorem next_array_size_spec:
  "next_array_size need = (if 10 < need \<and> need \<le> 81920 then 10 * 2 ^ (LEAST k. need \<le> 10 * 2 ^ k) else need)"
proof (cases "10 < need \<and> need \<le> 81920")
  case True
  with next_array_size_cases [of need] obtain j where
    j: "next_array_size need = 20 * 2 ^ j" "10 * 2 ^ j < need" "need \<le> 20 * 2 ^ j" by auto
  have "(LEAST k. need \<le> 10 * 2 ^ k) = Suc j"
  proof (rule Least_equality)
    fix k assume "need \<le> 10 * 2 ^ k"
    with j(2) have "(2::nat) ^ j < 2 ^ k" by linarith
    then show "Suc j \<le> k" by simp
  qed (use j in simp)
  then show ?thesis using j True by simp
next
  case False
  then show ?thesis using next_array_size_cases [of need] unfolding if_not_P [OF False] by (simp only:)
qed

end
