(* ===== verification/Big_Digits.thy ===== *)
theory Big_Digits
  imports Prelude
begin

section \<open>Digits of big integers: big.c\<close>

text \<open>
  The macros of big.c that work on one digit (ErtsDigit, of D\_EXP = 64 bits) and the routines on
  vectors of digits. There is no integer type of twice the size of a digit on a 64-bit machine
  (BIG\_HAVE\_DOUBLE\_DIGIT is not defined), so that products and quotients of two digits are put
  together of half digits of H\_EXP = 32 bits. A vector is a list, least significant digit first; its
  size is the length of the list. A destination vector is given as the memory before the call where
  the code reads it, and is otherwise the result.
\<close>

definition D_EXP :: nat where "D_EXP = 64"

definition H_EXP :: nat where "H_EXP = 32"

definition LO_MASK :: Uint where "LO_MASK = push_bit H_EXP 1 - 1"

definition HI_MASK :: Uint where "HI_MASK = push_bit H_EXP LO_MASK"

definition D_MASK :: Uint where "D_MASK = - 1"

subsection \<open>One digit\<close>

text \<open>Sums and differences, as pairs of the carry or borrow and the digit.\<close>

definition DSUMc :: "Uint \<Rightarrow> Uint \<Rightarrow> Uint \<Rightarrow> Uint \<times> Uint" where
  "DSUMc a b c =
     (let cr = c; xr = a + cr; yr = b;
          cr = of_bool (xr < cr);
          xr = yr + xr;
          cr = cr + of_bool (xr < yr)
      in (cr, xr))"

definition DSUM :: "Uint \<Rightarrow> Uint \<Rightarrow> Uint \<times> Uint" where
  "DSUM a b = (let xr = a; yr = b; xr = yr + xr in (of_bool (xr < yr), xr))"

definition DSUBb :: "Uint \<Rightarrow> Uint \<Rightarrow> Uint \<Rightarrow> Uint \<times> Uint" where
  "DSUBb a b r =
     (let cr = r; xr = a; yr = b + cr;
          cr = of_bool (yr < cr);
          yr = xr - yr;
          cr = cr + of_bool (yr > xr)
      in (cr, yr))"

definition DSUB :: "Uint \<Rightarrow> Uint \<Rightarrow> Uint \<times> Uint" where
  "DSUB a b = (let xr = a; yr = b; yr = xr - yr in (of_bool (yr > xr), yr))"

text \<open>The high and the low digit of \<open>a * b + d1\<close>.\<close>

definition DMULc :: "Uint \<Rightarrow> Uint \<Rightarrow> Uint \<Rightarrow> Uint \<times> Uint" where
  "DMULc a b d1 =
     (let a0 = ucast a :: Uint32; a1 = ucast (drop_bit H_EXP a) :: Uint32;
          b0 = ucast b :: Uint32; b1 = ucast (drop_bit H_EXP b) :: Uint32;
          a0b0 = ucast a0 * ucast b0 :: Uint; a0b1 = ucast a0 * ucast b1 :: Uint;
          a1b0 = ucast a1 * ucast b0 :: Uint; a1b1 = ucast a1 * ucast b1 :: Uint;
          (c0, p0) = DSUM a0b0 d1;
          (p2, p1) = DSUM (push_bit H_EXP c0) (drop_bit H_EXP p0);
          (c0, p1) = DSUM p1 a0b1;
          p2 = p2 + c0;
          (c0, p1) = DSUM p1 a1b0;
          p2 = p2 + c0;
          (c0, p1) = DSUM p1 (push_bit H_EXP a1b1);
          p2 = p2 + c0;
          (c0, p2) = DSUM a1b1 (push_bit H_EXP p2)
      in ((p2 AND HI_MASK) OR drop_bit H_EXP p1, push_bit H_EXP p1 OR (p0 AND LO_MASK)))"

definition DMUL :: "Uint \<Rightarrow> Uint \<Rightarrow> Uint \<times> Uint" where
  "DMUL a b = DMULc a b 0"

text \<open>The number of zero bits above the highest one of a digit.\<close>

definition D2PF :: "Uint \<Rightarrow> nat" where
  "D2PF a =
     (let (x, s) = (a, 0);
          (x, s) = (if x \<le> 0x00000000FFFFFFFF then (push_bit 32 x, s + 32) else (x, s));
          (x, s) = (if x \<le> 0x0000FFFFFFFFFFFF then (push_bit 16 x, s + 16) else (x, s));
          (x, s) = (if x \<le> 0x00FFFFFFFFFFFFFF then (push_bit 8 x, s + 8) else (x, s));
          (x, s) = (if x \<le> 0x0FFFFFFFFFFFFFFF then (push_bit 4 x, s + 4) else (x, s));
          (x, s) = (if x \<le> 0x3FFFFFFFFFFFFFFF then (push_bit 2 x, s + 2) else (x, s))
      in if x \<le> 0x7FFFFFFFFFFFFFFF then s + 1 else s)"

text \<open>
  The loop of DDIVREM that corrects the estimate \<open>q\<close> of a half digit of the quotient; \<open>rh\<close> is the
  rest that belongs to it.
\<close>

function correct_quot :: "Uint \<Rightarrow> Uint \<Rightarrow> Uint \<Rightarrow> Uint \<Rightarrow> Uint \<Rightarrow> Uint" where
  "correct_quot vn1 vn0 un q rh =
     (if q \<ge> push_bit H_EXP 1 \<or> q * vn0 > push_bit H_EXP rh + un
      then let q = q - 1; rh = rh + vn1 in
           if rh \<ge> push_bit H_EXP 1 then q else correct_quot vn1 vn0 un q rh
      else q)"
  by pat_completeness auto
termination
  by (relation "measure (\<lambda>(vn1, vn0, un, q, rh). unat q)")
    (auto simp: H_EXP_def intro!: measure_unat)

declare correct_quot.simps [simp del]

text \<open>
  Quotient and remainder of \<open>a1 * 2 ^ 64 + a0\<close> by \<open>b\<close>. The shift by D\_EXP - s bits is undefined in C
  for \<open>s = 0\<close>, but its result is masked out then.
\<close>

definition DDIVREM :: "Uint \<Rightarrow> Uint \<Rightarrow> Uint \<Rightarrow> Uint \<times> Uint" where
  "DDIVREM a1 a0 b =
     (let s = D2PF b;
          b = push_bit s b;
          vn1 = drop_bit H_EXP b;
          vn0 = b AND LO_MASK;
          un32 = push_bit s a1 OR (drop_bit (D_EXP - s) a0 AND (if s = 0 then 0 else - 1));
          un10 = push_bit s a0;
          un1 = drop_bit H_EXP un10;
          un0 = un10 AND LO_MASK;
          q1 = un32 div vn1;
          rh = un32 - q1 * vn1;
          q1 = correct_quot vn1 vn0 un1 q1 rh;
          un21 = push_bit H_EXP un32 + un1 - q1 * b;
          q0 = un21 div vn1;
          rh = un21 - q0 * vn1;
          q0 = correct_quot vn1 vn0 un0 q0 rh;
          r = drop_bit s (push_bit H_EXP un21 + un0 - q0 * b);
          q = push_bit H_EXP q1 + q0
      in (q, r))"

definition DDIV :: "Uint \<Rightarrow> Uint \<Rightarrow> Uint \<Rightarrow> Uint" where
  "DDIV a1 a0 b = fst (DDIVREM a1 a0 b)"

definition DREM :: "Uint \<Rightarrow> Uint \<Rightarrow> Uint \<Rightarrow> Uint" where
  "DREM a1 a0 b = snd (DDIVREM (a1 mod b) a0 b)"

subsection \<open>Vectors\<close>

definition ZERO_DIGITS :: "Uint list \<Rightarrow> nat \<Rightarrow> Uint list" where
  "ZERO_DIGITS v sz = replicate sz 0 @ drop sz v"

definition MOVE_DIGITS :: "Uint list \<Rightarrow> Uint list \<Rightarrow> nat \<Rightarrow> Uint list" where
  "MOVE_DIGITS dst src sz = take sz src @ drop sz dst"

fun comp_from_top :: "Uint list \<Rightarrow> Uint list \<Rightarrow> int" where
  "comp_from_top (x # xs) (y # ys) = (if x = y then comp_from_top xs ys else if x < y then - 1 else 1)"
| "comp_from_top _ _ = 0"

definition I_comp :: "Uint list \<Rightarrow> Uint list \<Rightarrow> int" where
  "I_comp x y =
     (if length x < length y then - 1
      else if length x > length y then 1
      else comp_from_top (rev x) (rev y))"

text \<open>The loops that add or subtract a carry to the rest of a vector.\<close>

fun add_carry :: "Uint list \<Rightarrow> Uint \<Rightarrow> Uint list" where
  "add_carry [] c = (if c \<noteq> 0 then [1] else [])"
| "add_carry (x # xs) c = (let xr = x + c; c = of_bool (xr < c) in xr # add_carry xs c)"

fun sub_borrow :: "Uint list \<Rightarrow> Uint \<Rightarrow> Uint list" where
  "sub_borrow [] c = []"
| "sub_borrow (x # xs) c = (let yr = x - c; c = of_bool (yr > x) in yr # sub_borrow xs c)"

text \<open>The loop back over zero digits that finds the size of a difference.\<close>

fun trim_zeros :: "Uint list \<Rightarrow> Uint list" where
  "trim_zeros (d # d2 # ds) = (if d = 0 then trim_zeros (d2 # ds) else d # d2 # ds)"
| "trim_zeros ds = ds"

definition trim :: "Uint list \<Rightarrow> Uint list" where
  "trim ds = rev (trim_zeros (rev ds))"

fun I_add_loop :: "Uint list \<Rightarrow> Uint list \<Rightarrow> Uint \<Rightarrow> Uint list" where
  "I_add_loop (x # xs) (y # ys) c =
     (let xr = x + c; yr = y;
          c = of_bool (xr < c);
          xr = yr + xr;
          c = c + of_bool (xr < yr)
      in xr # I_add_loop xs ys c)"
| "I_add_loop xs ys c = add_carry xs c"

definition I_add :: "Uint list \<Rightarrow> Uint list \<Rightarrow> Uint list" where
  "I_add x y = I_add_loop x y 0"

definition D_add :: "Uint list \<Rightarrow> Uint \<Rightarrow> Uint list" where
  "D_add x c = add_carry x c"

fun I_sub_loop :: "Uint list \<Rightarrow> Uint list \<Rightarrow> Uint \<Rightarrow> Uint list" where
  "I_sub_loop (x # xs) (y # ys) c =
     (let yr = y + c; xr = x;
          c = of_bool (yr < c);
          yr = xr - yr;
          c = c + of_bool (yr > xr)
      in yr # I_sub_loop xs ys c)"
| "I_sub_loop xs ys c = sub_borrow xs c"

definition I_sub :: "Uint list \<Rightarrow> Uint list \<Rightarrow> Uint list" where
  "I_sub x y = trim (I_sub_loop x y 0)"

definition D_sub :: "Uint list \<Rightarrow> Uint \<Rightarrow> Uint list" where
  "D_sub x c = trim (sub_borrow x c)"

subsection \<open>Products of vectors\<close>

text \<open>
  One digit of a row of I\_mul, in the cases of its switch: the carries \<open>c\<close> and \<open>cp\<close> and the new digit
  of the destination, where it was \<open>t\<close>.
\<close>

definition mul_step :: "Uint \<Rightarrow> Uint \<Rightarrow> Uint \<Rightarrow> Uint \<Rightarrow> Uint \<Rightarrow> Uint \<times> Uint \<times> Uint" where
  "mul_step d y t c cp =
     (if d = 0 then (c, cp, t)
      else if d = 1 then (let (c, p) = DSUMc y t c in (c, cp, p))
      else if d = 2 then (let (cp, p) = DSUMc y y cp; (c, p) = DSUMc p t c in (c, cp, p))
      else (let (cp, p) = DMULc d y cp; (c, p) = DSUMc p t c in (c, cp, p)))"

text \<open>The digits of a row, and the digit put on top of them.\<close>

fun mul_row :: "Uint \<Rightarrow> Uint list \<Rightarrow> Uint list \<Rightarrow> Uint \<Rightarrow> Uint \<Rightarrow> Uint list" where
  "mul_row d [] r c cp = [c + cp]"
| "mul_row d (y # ys) r c cp =
     (case mul_step d y (hd r) c cp of (c, cp, p) \<Rightarrow> p # mul_row d ys (tl r) c cp)"

fun I_mul_loop :: "Uint list \<Rightarrow> Uint list \<Rightarrow> Uint list \<Rightarrow> Uint list" where
  "I_mul_loop [] y r = r"
| "I_mul_loop (d # x) y r =
     (let r = mul_row d y r 0 0 @ drop (Suc (length y)) r in hd r # I_mul_loop x y (tl r))"

definition I_mul :: "Uint list \<Rightarrow> Uint list \<Rightarrow> Uint list \<Rightarrow> Uint list" where
  "I_mul x y r =
     (let r = I_mul_loop x y r; n = length x + length y
      in if r ! (n - 1) = 0 then take (n - 1) r else take n r)"

text \<open>The inner loop of I\_sqr, with the variables z1, y\_0, y\_1, y\_2 and y\_3.\<close>

fun sqr_row :: "Uint \<Rightarrow> Uint list \<Rightarrow> Uint list \<Rightarrow> Uint \<Rightarrow> Uint \<Rightarrow> Uint \<Rightarrow> Uint \<Rightarrow> Uint \<Rightarrow> Uint list" where
  "sqr_row d [] s z1 y_0 y_1 y_2 y_3 =
     (let z0 = y_0;
          (y_2, z2) = DSUMc z0 z1 y_2;
          (y_3, t) = DSUMc (hd s) z2 y_3
      in [t, y_1 + y_2 + y_3])"
| "sqr_row d (y # ys) s z1 y_0 y_1 y_2 y_3 =
     (let (b1, b0) = DMUL d y;
          (y_0, z0) = DSUMc b0 b0 y_0;
          (y_2, z2) = DSUMc z0 z1 y_2;
          (y_3, t) = DSUMc (hd s) z2 y_3;
          (y_1, z1) = DSUMc b1 b1 y_1
      in t # sqr_row d ys (tl s) z1 y_0 y_1 y_2 y_3)"

text \<open>The last row has no digit on top.\<close>

fun I_sqr_loop :: "Uint list \<Rightarrow> Uint list \<Rightarrow> Uint list" where
  "I_sqr_loop [] r = r"
| "I_sqr_loop (d # x) r =
     (let (b1, b0) = DMUL d d;
          (y_3, t) = DSUMc (hd r) b0 0;
          row = t # sqr_row d x (tl r) b1 0 0 0 y_3
      in if x = [] then take 2 row @ drop 2 r
         else (let r = row @ drop (length row) r in hd r # hd (tl r) # I_sqr_loop x (tl (tl r))))"

definition I_sqr :: "Uint list \<Rightarrow> Uint list \<Rightarrow> Uint list" where
  "I_sqr x r =
     (let r = I_sqr_loop x r; n = 2 * length x
      in if r ! (n - 1) = 0 then take (n - 1) r else take n r)"

fun D_mul_loop :: "Uint list \<Rightarrow> Uint \<Rightarrow> Uint \<Rightarrow> Uint list" where
  "D_mul_loop [] d c = (if c = 0 then [] else [c])"
| "D_mul_loop (x # xs) d c =
     (let (c, p) = (if d = 2 then DSUMc x x c else DMULc d x c) in p # D_mul_loop xs d c)"

definition D_mul :: "Uint list \<Rightarrow> Uint \<Rightarrow> Uint list \<Rightarrow> Uint list" where
  "D_mul x d r =
     (if d = 0 then take 1 (ZERO_DIGITS r 1)
      else if d = 1 then take (length x) (MOVE_DIGITS r x (length x))
      else D_mul_loop x d 0)"

subsection \<open>What the digit operations compute\<close>

text \<open>The base of the digits.\<close>

abbreviation (input) B :: int where "B \<equiv> 2 ^ 64"

lemma digit_bounds: "0 \<le> uint (a :: Uint)" "uint (a :: Uint) < B"
  using uint_lt2p [of a] by simp_all

lemma carry_add:
  fixes a b :: Uint
  shows "uint a + uint b = uint (a + b) + B * of_bool (a + b < a)" and "uint a + uint b = uint (a + b) + B * of_bool (a + b < b)"
  using digit_bounds [of a] digit_bounds [of b] by (auto simp: word_less_def uint_plus_if_size word_size)

lemma borrow_sub:
  fixes a b :: Uint
  shows "uint a - uint b = uint (a - b) - B * of_bool (a < a - b)"
  using digit_bounds [of a] digit_bounds [of b] by (auto simp: word_less_def uint_sub_if_size word_size)

lemma uint_of_bool: "uint (of_bool p :: Uint) = of_bool p" "uint (of_bool p + of_bool q :: Uint) = of_bool p + of_bool q"
  by auto

lemma DSUM_ok:
  assumes "DSUM a b = (c, s)"
  shows "uint a + uint b = uint s + B * uint c" and "uint c \<le> 1"
proof -
  have r: "c = of_bool (b + a < b)" "s = b + a" using assms by (auto simp: DSUM_def Let_def)
  show "uint a + uint b = uint s + B * uint c" using carry_add(1) [of b a] unfolding r uint_of_bool by simp
  show "uint c \<le> 1" unfolding r by simp
qed

lemma DSUMc_ok:
  assumes "DSUMc a b c = (c', s)"
  shows "uint a + uint b + uint c = uint s + B * uint c'" and "uint c' \<le> 2"
proof -
  have r: "c' = of_bool (a + c < c) + of_bool (b + (a + c) < b)" "s = b + (a + c)"
    using assms by (auto simp: DSUMc_def Let_def)
  show "uint a + uint b + uint c = uint s + B * uint c'"
    using carry_add(2) [of a c] carry_add(1) [of b "a + c"] unfolding r uint_of_bool by (simp add: algebra_simps)
  show "uint c' \<le> 2" unfolding r uint_of_bool by simp
qed

lemma DSUBb_ok:
  assumes "DSUBb a b r = (r', d)"
  shows "uint a - uint b - uint r = uint d - B * uint r'" and "uint r' \<le> 2"
proof -
  have e: "r' = of_bool (b + r < r) + of_bool (a < a - (b + r))" "d = a - (b + r)"
    using assms by (auto simp: DSUBb_def Let_def)
  show "uint a - uint b - uint r = uint d - B * uint r'"
    using carry_add(2) [of b r] borrow_sub [of a "b + r"] unfolding e uint_of_bool by (simp add: algebra_simps)
  show "uint r' \<le> 2" unfolding e uint_of_bool by simp
qed

lemma DSUB_ok:
  assumes "DSUB a b = (r, d)"
  shows "uint a - uint b = uint d - B * uint r"
proof -
  have e: "r = of_bool (a < a - b)" "d = a - b" using assms by (auto simp: DSUB_def Let_def)
  show ?thesis using borrow_sub [of a b] unfolding e uint_of_bool by simp
qed

text \<open>Half digits.\<close>

lemma mask_halves: "LO_MASK = mask 32" "HI_MASK = push_bit 32 (mask 32)"
  by (simp_all add: LO_MASK_def HI_MASK_def H_EXP_def mask_eq_exp_minus_1)

lemma uint_low [simp]: "uint (a AND LO_MASK) = uint a mod 2 ^ 32"
  by (simp only: mask_halves uint_and_mask)

lemma uint_high [simp]: "uint (drop_bit H_EXP a) = uint a div 2 ^ 32"
  by (simp only: H_EXP_def uint_drop)

lemma and_high: "a AND HI_MASK = push_bit 32 (drop_bit 32 (a :: Uint))"
  unfolding mask_halves by (intro bit_eqI) (auto simp: bit_and_iff bit_push_bit_iff bit_mask_iff bit_drop_bit_eq)

lemma uint_push_half: "uint (push_bit H_EXP (a :: Uint)) = (uint a mod 2 ^ 32) * 2 ^ 32"
proof -
  have "uint (push_bit H_EXP a) = (uint a * 2 ^ 32) mod 2 ^ 64"
    unfolding H_EXP_def push_bit_eq_mult uint_word_ariths(3) by simp
  also have "\<dots> = (uint a * 2 ^ 32) mod (2 ^ 32 * 2 ^ 32)" by simp
  also have "\<dots> = (uint a mod 2 ^ 32) * 2 ^ 32" by (subst mod_mult_mult2) simp
  finally show ?thesis .
qed

lemma uint_push_half_or:
  assumes "uint v < 2 ^ 32"
  shows "uint (push_bit H_EXP (a :: Uint) OR v) = (uint a mod 2 ^ 32) * 2 ^ 32 + uint v"
proof -
  have "take_bit 32 v = v" using assms by (intro word_uint_eqI) (simp add: unsigned_take_bit_eq take_bit_int_eq_self)
  then have e: "push_bit H_EXP a OR v = push_bit H_EXP a + v" using push_or_take [of 32 a v] by (simp add: H_EXP_def)
  have "(uint a mod 2 ^ 32) * 2 ^ 32 + uint v < 2 ^ 64"
  proof -
    have "uint a mod 2 ^ 32 \<le> 2 ^ 32 - 1" by simp
    then have "(uint a mod 2 ^ 32) * 2 ^ 32 \<le> (2 ^ 32 - 1) * 2 ^ 32" by (rule mult_right_mono) simp
    with assms show ?thesis by simp
  qed
  then show ?thesis unfolding e uint_plus_if_size word_size uint_push_half by simp
qed

lemma uint_half_product:
  fixes x y :: Uint32
  shows "uint (ucast x * ucast y :: Uint) = uint x * uint y" and "uint x * uint y \<le> (2 ^ 32 - 1) * (2 ^ 32 - 1)"
proof -
  have b: "0 \<le> uint x" "uint x \<le> 2 ^ 32 - 1" "0 \<le> uint y" "uint y \<le> 2 ^ 32 - 1"
    using uint_lt2p [of x] uint_lt2p [of y] by simp_all
  then show m: "uint x * uint y \<le> (2 ^ 32 - 1) * (2 ^ 32 - 1)" by (intro mult_mono) simp_all
  have u: "uint (ucast z :: Uint) = uint z" for z :: Uint32
    using uint_lt2p [of z] by (simp add: unsigned_ucast_eq take_bit_int_eq_self)
  show "uint (ucast x * ucast y :: Uint) = uint x * uint y"
    unfolding uint_word_ariths(3) u using m b by (intro mod_pos_pos_trivial) simp_all
qed

lemma uint_halves:
  fixes a :: Uint
  shows "uint (ucast a :: Uint32) = uint a mod 2 ^ 32" and "uint (ucast (drop_bit H_EXP a) :: Uint32) = uint a div 2 ^ 32"
proof -
  show "uint (ucast a :: Uint32) = uint a mod 2 ^ 32" by (simp add: unsigned_ucast_eq take_bit_eq_mod)
  have "0 \<le> uint a div 2 ^ 32" "uint a div 2 ^ 32 < 2 ^ 32"
    using digit_bounds [of a] by (simp_all add: pos_imp_zdiv_nonneg_iff)
  then show "uint (ucast (drop_bit H_EXP a) :: Uint32) = uint a div 2 ^ 32"
    by (simp add: unsigned_ucast_eq take_bit_eq_mod mod_pos_pos_trivial del: mod_less)
qed

text \<open>The product of two digits put together of half digits, plus a third.\<close>

lemma collect_halves:
  fixes H :: int
  assumes "b = H * H" and "X11 = xh * H + xl" and "p0 = ph * H + pl" and "X00 + C = p0 + b * c0"
    and "c0 * H + ph + X01 + X10 + xl * H = p1 + b * p2"
  shows "X11 * b + (X01 + X10) * H + X00 + C = (xh + p2) * (H * b) + p1 * H + pl"
  using assms by algebra

lemma expand_halves:
  fixes H :: int
  assumes "b = H * H" and "u = uh * H + ul" and "v = vh * H + vl"
  shows "u * v = uh * vh * b + (ul * vh + uh * vl) * H + ul * vl"
  using assms by algebra

lemma product_of_halves:
  fixes X00 X01 X10 X11 C p0 p1 c0 p2 :: int
  assumes t: "X11 * B + (X01 + X10) * 2 ^ 32 + X00 + C < B * B"
    and p0: "X00 + C = p0 + B * c0" and p1: "c0 * 2 ^ 32 + p0 div 2 ^ 32 + X01 + X10 + (X11 mod 2 ^ 32) * 2 ^ 32 = p1 + B * p2"
    and n: "0 \<le> X11" "0 \<le> p2" "0 \<le> p1" "0 \<le> p0"
  shows "X11 * B + (X01 + X10) * 2 ^ 32 + X00 + C =
    (((X11 div 2 ^ 32 + p2) mod 2 ^ 32) * 2 ^ 32 + p1 div 2 ^ 32) * B + (p1 mod 2 ^ 32) * 2 ^ 32 + p0 mod 2 ^ 32"
proof -
  let ?H = "(2 :: int) ^ 32"
  have x: "X11 = (X11 div ?H) * ?H + X11 mod ?H" and p: "p0 = (p0 div ?H) * ?H + p0 mod ?H" "p1 = (p1 div ?H) * ?H + p1 mod ?H"
    by simp_all
  have HB: "B = ?H * ?H" by simp
  have e: "X11 * B + (X01 + X10) * ?H + X00 + C =
      (X11 div ?H + p2) * (?H * B) + p1 * ?H + p0 mod ?H" (is "?T = _")
    by (rule collect_halves [OF HB x p(1) p0 p1])
  have "(X11 div ?H + p2) * (?H * B) \<le> ?T" using n unfolding e by simp
  with t have "(X11 div ?H + p2) * (?H * B) < ?H * (?H * B)" by simp
  then have s: "X11 div ?H + p2 < ?H" by (rule mult_right_less_imp_less) simp
  have "0 \<le> X11 div ?H + p2" using n by simp
  with s have m: "(X11 div ?H + p2) mod ?H = X11 div ?H + p2" by (intro mod_pos_pos_trivial)
  have "(p1 div ?H) * B + (p1 mod ?H) * ?H = ((p1 div ?H) * ?H + p1 mod ?H) * ?H"
    unfolding HB by (simp only: distrib_right mult.assoc)
  also have "\<dots> = p1 * ?H" by (simp only: div_mult_mod_eq)
  finally have "(p1 div ?H) * B + (p1 mod ?H) * ?H = p1 * ?H" .
  then show ?thesis unfolding e m by (simp add: algebra_simps)
qed

lemma DMULc_ok:
  assumes "DMULc a b c = (d1, d0)"
  shows "uint a * uint b + uint c = uint d1 * B + uint d0"
proof -
  let ?H = "(2 :: int) ^ 32"
  define a0 a1 b0 b1 where "a0 = (ucast a :: Uint32)" and "a1 = (ucast (drop_bit H_EXP a) :: Uint32)"
    and "b0 = (ucast b :: Uint32)" and "b1 = (ucast (drop_bit H_EXP b) :: Uint32)"
  define x00 x01 x10 x11 where "x00 = (ucast a0 * ucast b0 :: Uint)" and "x01 = (ucast a0 * ucast b1 :: Uint)"
    and "x10 = (ucast a1 * ucast b0 :: Uint)" and "x11 = (ucast a1 * ucast b1 :: Uint)"
  obtain c0 p0 where s0: "DSUM x00 c = (c0, p0)" by fastforce
  obtain q1 r1 where s1: "DSUM (push_bit H_EXP c0) (drop_bit H_EXP p0) = (q1, r1)" by fastforce
  obtain q2 r2 where s2: "DSUM r1 x01 = (q2, r2)" by fastforce
  obtain q3 r3 where s3: "DSUM r2 x10 = (q3, r3)" by fastforce
  obtain q4 p1 where s4: "DSUM r3 (push_bit H_EXP x11) = (q4, p1)" by fastforce
  define p2 where "p2 = q1 + q2 + q3 + q4"
  obtain q5 r5 where s5: "DSUM x11 (push_bit H_EXP p2) = (q5, r5)" by fastforce
  have d: "d1 = (r5 AND HI_MASK) OR drop_bit H_EXP p1" "d0 = push_bit H_EXP p1 OR (p0 AND LO_MASK)"
    using assms unfolding DMULc_def Let_def a0_def [symmetric] a1_def [symmetric] b0_def [symmetric] b1_def [symmetric]
      x00_def [symmetric] x01_def [symmetric] x10_def [symmetric] x11_def [symmetric]
    by (simp_all add: s0 s1 s2 s3 s4 s5 p2_def [symmetric])
  note h = uint_halves [of a] uint_halves [of b]
  have x: "uint x00 = (uint a mod ?H) * (uint b mod ?H)" "uint x01 = (uint a mod ?H) * (uint b div ?H)"
    "uint x10 = (uint a div ?H) * (uint b mod ?H)" "uint x11 = (uint a div ?H) * (uint b div ?H)"
    unfolding x00_def x01_def x10_def x11_def a0_def a1_def b0_def b1_def uint_half_product h by simp_all
  have ab: "uint a * uint b = uint x11 * B + (uint x01 + uint x10) * ?H + uint x00"
    unfolding x by (rule expand_halves) simp_all
  have "uint a * uint b \<le> (B - 1) * (B - 1)" using digit_bounds [of a] digit_bounds [of b] by (intro mult_mono) simp_all
  then have t: "uint x11 * B + (uint x01 + uint x10) * ?H + uint x00 + uint c < B * B"
    using digit_bounds(2) [of c] unfolding ab [symmetric] by simp
  have c0: "uint c0 \<le> 1" and q: "uint q1 \<le> 1" "uint q2 \<le> 1" "uint q3 \<le> 1" "uint q4 \<le> 1"
    using DSUM_ok(2) [OF s0] DSUM_ok(2) [OF s1] DSUM_ok(2) [OF s2] DSUM_ok(2) [OF s3] DSUM_ok(2) [OF s4] by simp_all
  have p2: "uint p2 = uint q1 + uint q2 + uint q3 + uint q4"
    using q digit_bounds(1) [of q1] digit_bounds(1) [of q2] digit_bounds(1) [of q3] digit_bounds(1) [of q4]
    unfolding p2_def uint_plus_if_size word_size by simp
  have "uint c0 mod ?H = uint c0" using c0 digit_bounds(1) [of c0] by (intro mod_pos_pos_trivial) simp_all
  then have p1: "uint c0 * ?H + uint p0 div ?H + uint x01 + uint x10 + (uint x11 mod ?H) * ?H = uint p1 + B * uint p2"
    using DSUM_ok(1) [OF s1] DSUM_ok(1) [OF s2] DSUM_ok(1) [OF s3] DSUM_ok(1) [OF s4]
    unfolding p2 uint_push_half uint_high by simp
  note T = product_of_halves [OF t DSUM_ok(1) [OF s0] p1 digit_bounds(1) digit_bounds(1) digit_bounds(1) digit_bounds(1)]
  have "uint p1 div ?H < ?H" using digit_bounds(2) [of p1] by simp
  then have d1: "uint d1 = (uint r5 div ?H mod ?H) * ?H + uint p1 div ?H"
    unfolding d and_high using uint_push_half_or [of "drop_bit H_EXP p1" "drop_bit 32 r5"] uint_drop [of 32 r5] uint_high [of p1]
    by (simp only: H_EXP_def)
  have "uint r5 = uint x11 + (uint p2 mod ?H) * ?H - B * uint q5" using DSUM_ok(1) [OF s5] by (simp add: uint_push_half)
  also have "uint p2 mod ?H = uint p2" using q digit_bounds(1) [of p2] p2 by (intro mod_pos_pos_trivial) simp_all
  finally have "uint r5 = uint x11 + uint p2 * ?H - (uint q5 * ?H) * ?H" by simp
  then have "uint r5 div ?H mod ?H = (uint x11 div ?H + uint p2) mod ?H"
  proof -
    assume "uint r5 = uint x11 + uint p2 * ?H - (uint q5 * ?H) * ?H"
    then have r: "uint r5 = uint x11 + (uint p2 - uint q5 * ?H) * ?H" by (simp only: left_diff_distrib add_diff_eq)
    have "uint r5 div ?H = (uint p2 - uint q5 * ?H) + uint x11 div ?H" by (subst r, rule div_mult_self1) simp
    then have "uint r5 div ?H = (uint x11 div ?H + uint p2) + (- uint q5) * ?H" by linarith
    then show ?thesis by (simp only: mod_mult_self1)
  qed
  with d1 have "uint d1 = ((uint x11 div ?H + uint p2) mod ?H) * ?H + uint p1 div ?H" by (simp only:)
  with T have "uint a * uint b + uint c = uint d1 * B + (uint p1 mod ?H) * ?H + uint p0 mod ?H"
    unfolding ab by (simp only:)
  moreover have "uint d0 = (uint p1 mod ?H) * ?H + uint p0 mod ?H"
    unfolding d using uint_push_half_or [of "p0 AND LO_MASK" p1] uint_low [of p0] by simp
  ultimately show ?thesis by (simp only: add.assoc)
qed

subsection \<open>Division of two digits by one\<close>

lemma uint_push_small:
  assumes "uint (a :: Uint) * 2 ^ k < B"
  shows "uint (push_bit k a) = uint a * 2 ^ k"
proof -
  have "uint (push_bit k a) = (uint a * 2 ^ k) mod 2 ^ 64"
    by (simp add: unsigned_push_bit_eq take_bit_eq_mod) (simp add: push_bit_eq_mult)
  then show ?thesis using assms by simp
qed

definition shifted :: "Uint \<Rightarrow> Uint \<Rightarrow> nat \<Rightarrow> nat \<Rightarrow> bool" where
  "shifted b x s t \<longleftrightarrow> uint x = uint b * 2 ^ s \<and> 2 ^ t \<le> uint x"

lemma shifted_step:
  assumes "shifted b x s t" and "(if x \<le> m then (push_bit k x, s + k) else (x, s)) = (x', s')"
    and "uint m = 2 ^ (64 - k) - 1" and "64 - k \<le> t + k" and "k \<le> 64"
  shows "shifted b x' s' (64 - k) \<and> s' \<le> s + k"
proof (cases "x \<le> m")
  case True
  then have x: "uint x < 2 ^ (64 - k)" using assms(3) by (simp add: word_le_def)
  have "(2 :: int) ^ (64 - k) * 2 ^ k = B" using assms(5) by (simp flip: power_add)
  with x have "uint x * 2 ^ k < B" by (metis mult_strict_right_mono zero_less_numeral zero_less_power)
  then have p: "uint (push_bit k x) = uint x * 2 ^ k" by (rule uint_push_small)
  have "(2 :: int) ^ (64 - k) \<le> 2 ^ (t + k)" using assms(4) by (intro power_increasing) simp_all
  also have "\<dots> \<le> uint x * 2 ^ k" using assms(1) by (simp add: shifted_def power_add)
  finally show ?thesis using assms(1,2) True p by (auto simp: shifted_def power_add)
next
  case False
  then show ?thesis using assms(1-3) by (auto simp: shifted_def word_le_def)
qed

lemma D2PF_ok:
  assumes "b \<noteq> 0"
  shows "D2PF b < 64" and "uint (push_bit (D2PF b) b) = uint b * 2 ^ D2PF b" and "2 ^ 63 \<le> uint b * 2 ^ D2PF b"
    and "uint b * 2 ^ D2PF b < B"
proof -
  obtain x1 s1 where 1: "(if b \<le> 0x00000000FFFFFFFF then (push_bit 32 b, 0 + 32) else (b, 0 :: nat)) = (x1, s1)" by fastforce
  obtain x2 s2 where 2: "(if x1 \<le> 0x0000FFFFFFFFFFFF then (push_bit 16 x1, s1 + 16) else (x1, s1)) = (x2, s2)" by fastforce
  obtain x3 s3 where 3: "(if x2 \<le> 0x00FFFFFFFFFFFFFF then (push_bit 8 x2, s2 + 8) else (x2, s2)) = (x3, s3)" by fastforce
  obtain x4 s4 where 4: "(if x3 \<le> 0x0FFFFFFFFFFFFFFF then (push_bit 4 x3, s3 + 4) else (x3, s3)) = (x4, s4)" by fastforce
  obtain x5 s5 where 5: "(if x4 \<le> 0x3FFFFFFFFFFFFFFF then (push_bit 2 x4, s4 + 2) else (x4, s4)) = (x5, s5)" by fastforce
  have d: "D2PF b = (if x5 \<le> 0x7FFFFFFFFFFFFFFF then s5 + 1 else s5)"
    using 1 2 3 4 5 by (simp only: D2PF_def Let_def prod.case)
  have "uint b \<noteq> 0" using assms by (simp add: uint_0_iff)
  then have "1 \<le> uint b" using digit_bounds(1) [of b] by linarith
  then have "shifted b b 0 0" by (simp add: shifted_def)
  from shifted_step [OF this 1] have 1: "shifted b x1 s1 32 \<and> s1 \<le> 32" by simp
  from shifted_step [OF conjunct1 [OF 1] 2] 1 have 2: "shifted b x2 s2 48 \<and> s2 \<le> 48" by simp
  from shifted_step [OF conjunct1 [OF 2] 3] 2 have 3: "shifted b x3 s3 56 \<and> s3 \<le> 56" by simp
  from shifted_step [OF conjunct1 [OF 3] 4] 3 have 4: "shifted b x4 s4 60 \<and> s4 \<le> 60" by simp
  from shifted_step [OF conjunct1 [OF 4] 5] 4 have 5: "shifted b x5 s5 62 \<and> s5 \<le> 62" by simp
  obtain x6 where "(if x5 \<le> 0x7FFFFFFFFFFFFFFF then (push_bit 1 x5, s5 + 1) else (x5, s5)) = (x6, D2PF b)"
    unfolding d by (cases "x5 \<le> 0x7FFFFFFFFFFFFFFF") simp_all
  from shifted_step [OF conjunct1 [OF 5] this] 5 have 6: "shifted b x6 (D2PF b) 63 \<and> D2PF b \<le> 63" by simp
  then show "D2PF b < 64" by simp
  show u: "uint b * 2 ^ D2PF b < B" using 6 digit_bounds(2) [of x6] by (simp add: shifted_def)
  show "uint (push_bit (D2PF b) b) = uint b * 2 ^ D2PF b" by (rule uint_push_small [OF u])
  show "2 ^ 63 \<le> uint b * 2 ^ D2PF b" using 6 by (simp add: shifted_def)
qed

text \<open>One half digit of the quotient: the estimate is corrected to the quotient.\<close>

lemma le_div_pos: "0 < b \<Longrightarrow> q \<le> X div b \<longleftrightarrow> q * b \<le> (X :: int)"
proof
  assume b: "0 < b"
  show "q \<le> X div b" if "q * b \<le> X" using zdiv_mono1 [OF that b] b by simp
  show "q * b \<le> X" if "q \<le> X div b"
  proof -
    have "q * b \<le> (X div b) * b" using that b by (simp add: mult_right_mono)
    also have "\<dots> \<le> X" using b pos_mod_sign [OF b, of X] div_mult_mod_eq [of X b] by linarith
    finally show ?thesis .
  qed
qed

lemma quotient_test:
  fixes q rh u u1 v1 v0 H b :: int
  assumes "rh + q * v1 = u" and "b = v1 * H + v0" and "0 < b"
  shows "q * v0 > rh * H + u1 \<longleftrightarrow> q > (u * H + u1) div b"
proof -
  have e: "q * b = (u - rh) * H + q * v0" unfolding assms(2) assms(1) [symmetric] by (simp add: algebra_simps)
  have "q > (u * H + u1) div b \<longleftrightarrow> \<not> q * b \<le> u * H + u1" unfolding le_div_pos [OF assms(3), symmetric] by (simp add: not_le)
  then show ?thesis unfolding e by (simp add: algebra_simps not_le)
qed

lemma correct_quot_ok:
  assumes v1: "2 ^ 31 \<le> uint v1" "uint v1 < 2 ^ 32" and v0: "uint v0 < 2 ^ 32"
    and u: "0 \<le> u" "u < uint v1 * 2 ^ 32 + uint v0" and u1: "uint u1 < 2 ^ 32"
    and q: "(u * 2 ^ 32 + uint u1) div (uint v1 * 2 ^ 32 + uint v0) \<le> uint q" "uint q \<le> 2 ^ 32 + 1"
    and rh: "uint rh + uint q * uint v1 = u" "uint rh < 2 ^ 32"
  shows "uint (correct_quot v1 v0 u1 q rh) = (u * 2 ^ 32 + uint u1) div (uint v1 * 2 ^ 32 + uint v0)"
  using assms
proof (induction v1 v0 u1 q rh rule: correct_quot.induct)
  case (1 v1 v0 u1 q rh)
  let ?H = "(2 :: int) ^ 32"
  let ?b = "uint v1 * ?H + uint v0"
  let ?t = "(u * ?H + uint u1) div ?b"
  note p = "1.prems"
  have b: "0 < ?b" using p(1) by (intro add_pos_nonneg) simp_all
  have one: "uint (push_bit H_EXP 1 :: Uint) = ?H" by (simp add: H_EXP_def)
  have tH: "?t < ?H"
  proof -
    have "\<not> ?H \<le> ?t" unfolding le_div_pos [OF b] using p(5,6) by (simp add: algebra_simps)
    then show ?thesis by simp
  qed
  have test: "q \<ge> push_bit H_EXP 1 \<or> q * v0 > push_bit H_EXP rh + u1 \<longleftrightarrow> ?t < uint q"
  proof (cases "uint q < ?H")
    case True
    have "uint q * uint v0 \<le> (?H - 1) * (?H - 1)" using True p(3) by (intro mult_mono) simp_all
    then have m: "uint (q * v0) = uint q * uint v0" unfolding uint_word_ariths(3) by (intro mod_pos_pos_trivial) simp_all
    have r: "uint (push_bit H_EXP rh) = uint rh * ?H" unfolding uint_push_half using p(10) by simp
    have "uint rh * ?H \<le> (?H - 1) * ?H" using p(10) by (intro mult_right_mono) simp_all
    then have "uint (push_bit H_EXP rh + u1) = uint rh * ?H + uint u1"
      unfolding uint_word_ariths(1) r using p(6) by (intro mod_pos_pos_trivial) simp_all
    then have "q * v0 > push_bit H_EXP rh + u1 \<longleftrightarrow> uint q > ?t"
      using quotient_test [OF p(9) refl b, of "uint u1"] m by (simp add: word_less_def)
    moreover have "\<not> q \<ge> push_bit H_EXP 1" using True one by (simp add: word_le_def)
    ultimately show ?thesis by simp
  next
    case False
    then have "push_bit H_EXP 1 \<le> q" "?t < uint q" using tH one by (simp_all add: word_le_def)
    then show ?thesis by simp
  qed
  show ?case
  proof (cases "?t < uint q")
    case False
    then have "correct_quot v1 v0 u1 q rh = q" using test by (subst correct_quot.simps) (simp only: if_False)
    then show ?thesis using False p(7) by simp
  next
    case True
    have t0: "0 \<le> ?t" using p(4) b by (simp add: pos_imp_zdiv_nonneg_iff)
    have "1 \<le> uint q" using True t0 by linarith
    then have q1: "uint (q - 1) = uint q - 1"
      using digit_bounds(2) [of q] unfolding uint_word_ariths(2) by (simp add: mod_pos_pos_trivial)
    have r1: "uint (rh + v1) = uint rh + uint v1" unfolding uint_word_ariths(1) using p(2,10) by (intro mod_pos_pos_trivial) simp_all
    have s1: "uint (rh + v1) + uint (q - 1) * uint v1 = u" unfolding q1 r1 using p(9) by (simp add: algebra_simps)
    show ?thesis
    proof (cases "push_bit H_EXP 1 \<le> rh + v1")
      case False
      have "correct_quot v1 v0 u1 q rh = correct_quot v1 v0 u1 (q - 1) (rh + v1)"
        using test True False by (subst correct_quot.simps) (simp only: Let_def if_True if_False)
      moreover have "uint (correct_quot v1 v0 u1 (q - 1) (rh + v1)) = ?t"
      proof (rule "1.IH" [OF _ refl refl])
        show "q \<ge> push_bit H_EXP 1 \<or> q * v0 > push_bit H_EXP rh + u1" using test True by blast
        show "\<not> push_bit H_EXP 1 \<le> rh + v1" by (rule False)
        show "uint (rh + v1) < ?H" using False one by (simp add: word_le_def)
        show "?t \<le> uint (q - 1)" "uint (q - 1) \<le> ?H + 1" using True q1 p(8) by simp_all
      qed (use p s1 in simp_all)
      ultimately show ?thesis by simp
    next
      case big: True
      have c: "correct_quot v1 v0 u1 q rh = q - 1"
        using test True big by (subst correct_quot.simps) (simp only: Let_def if_True)
      have rb: "?H \<le> uint (rh + v1)" using big one by (simp add: word_le_def)
      have "uint (q - 1) * uint v0 \<le> ?H * (?H - 1)" using q1 p(3,8) by (intro mult_mono) simp_all
      also have "\<dots> \<le> uint (rh + v1) * ?H" using mult_right_mono [OF rb, of ?H] by simp
      finally have "\<not> uint (q - 1) * uint v0 > uint (rh + v1) * ?H + uint u1" using uint_ge_0 [of u1] by linarith
      then have "\<not> uint (q - 1) > ?t" using quotient_test [OF s1 refl b, of "uint u1"] by blast
      then show ?thesis unfolding c using True q1 by linarith
    qed
  qed
qed

text \<open>From the half digits of the quotient to the quotient.\<close>

lemma two_step_division:
  fixes u u1 u0 b H :: int
  assumes "0 < b" and "0 < H"
  shows "((u * H + u1) div b) * H + (((u * H + u1) mod b) * H + u0) div b = ((u * H + u1) * H + u0) div b"
    and "(((u * H + u1) mod b) * H + u0) mod b = ((u * H + u1) * H + u0) mod b"
proof -
  let ?q = "(u * H + u1) div b" and ?r = "(u * H + u1) mod b"
  have "(u * H + u1) * H + u0 = (?q * b + ?r) * H + u0" by (simp only: div_mult_mod_eq)
  also have "(q * b + r) * H + u0 = (r * H + u0) + (q * H) * b" for q r by algebra
  finally have e: "(u * H + u1) * H + u0 = (?r * H + u0) + (?q * H) * b" .
  show "?q * H + (?r * H + u0) div b = ((u * H + u1) * H + u0) div b"
    unfolding e by (subst div_mult_self1) (use assms(1) in simp_all)
  show "(?r * H + u0) mod b = ((u * H + u1) * H + u0) mod b" unfolding e by (rule mod_mult_self1 [symmetric])
qed

lemma half_quotient_less:
  fixes u u1 b H :: int
  assumes "0 < b" and "u < b" and "u1 < H" and "0 < H"
  shows "(u * H + u1) div b < H"
proof -
  have "(u + 1) * H \<le> b * H" using assms(2,4) by (intro mult_right_mono) simp_all
  then have "\<not> H * b \<le> u * H + u1" using assms(3) by (simp add: algebra_simps)
  then show ?thesis unfolding le_div_pos [OF assms(1), symmetric] by simp
qed

text \<open>One half of DDIVREM: the half digit of the quotient and what is left.\<close>

lemma half_division:
  fixes u1 un b :: Uint
  assumes b: "2 ^ 63 \<le> uint b" and u: "uint un < uint b" and u1: "uint u1 < 2 ^ 32"
  defines "q \<equiv> correct_quot (drop_bit H_EXP b) (b AND LO_MASK) u1 (un div drop_bit H_EXP b)
      (un - (un div drop_bit H_EXP b) * drop_bit H_EXP b)"
  shows "uint q = (uint un * 2 ^ 32 + uint u1) div uint b"
    and "uint (push_bit H_EXP un + u1 - q * b) = (uint un * 2 ^ 32 + uint u1) mod uint b"
proof -
  let ?H = "(2 :: int) ^ 32"
  define v1 v0 where "v1 = drop_bit H_EXP b" and "v0 = b AND LO_MASK"
  have v: "uint v1 = uint b div ?H" "uint v0 = uint b mod ?H" by (simp_all only: v1_def v0_def uint_high uint_low)
  have bv: "uint v1 * ?H + uint v0 = uint b" unfolding v by (rule div_mult_mod_eq)
  have v1: "2 ^ 31 \<le> uint v1" "uint v1 < ?H" and v0: "uint v0 < ?H"
    using b digit_bounds(2) [of b] unfolding v by (simp_all add: le_div_pos)
  have v1p: "0 < uint v1" using v1(1) by simp
  have bp: "0 < uint b" using b by simp
  let ?q = "un div v1"
  have q: "uint ?q = uint un div uint v1" by (rule uint_div)
  have "uint un div uint v1 < ?H + 2"
  proof -
    have "uint un < uint v1 * ?H + ?H" using u bv v0 by linarith
    also have "\<dots> \<le> (?H + 2) * uint v1" using v1(1) by (simp add: algebra_simps)
    finally have "\<not> (?H + 2) * uint v1 \<le> uint un" by simp
    then show ?thesis unfolding le_div_pos [OF v1p, symmetric] by simp
  qed
  then have q2: "uint ?q \<le> ?H + 1" unfolding q by simp
  have rh: "uint (un - ?q * v1) = uint un mod uint v1"
  proof -
    have "un - ?q * v1 = un mod v1" by (simp add: minus_div_mult_eq_mod)
    then show ?thesis by (simp only: uint_mod)
  qed
  have rq: "uint (un - ?q * v1) + uint ?q * uint v1 = uint un" unfolding rh q by (simp only: mod_div_mult_eq)
  have rl: "uint (un - ?q * v1) < ?H" unfolding rh using pos_mod_bound [OF v1p, of "uint un"] v1(2) by linarith
  have "(uint un * ?H + uint u1) div uint b \<le> uint ?q"
  proof -
    let ?t = "(uint un * ?H + uint u1) div uint b"
    have "?t * uint b \<le> uint un * ?H + uint u1" by (rule iffD1 [OF le_div_pos [OF bp] order_refl])
    moreover have "0 \<le> ?t" using bp by (simp add: pos_imp_zdiv_nonneg_iff)
    ultimately have "?t * (uint v1 * ?H) \<le> uint un * ?H + uint u1"
      using mult_left_mono [of "uint v1 * ?H" "uint b" ?t] bv uint_ge_0 [of v0] by linarith
    then have "?t * uint v1 * ?H < (uint un + 1) * ?H" using u1 by (simp add: algebra_simps)
    then have "?t * uint v1 \<le> uint un" by simp
    then show ?thesis unfolding q le_div_pos [OF v1p] .
  qed
  from correct_quot_ok [OF v1 v0 uint_ge_0 _ u1 _ q2 rq rl] this u
  show qt: "uint q = (uint un * ?H + uint u1) div uint b" unfolding bv q_def v1_def [symmetric] v0_def [symmetric] by blast
  have "push_bit H_EXP un + u1 - q * b = word_of_int (uint un * ?H + uint u1 - uint q * uint b)"
    by (simp add: push_bit_eq_mult H_EXP_def)
  also have "uint un * ?H + uint u1 - uint q * uint b = (uint un * ?H + uint u1) mod uint b"
    unfolding qt by (rule minus_div_mult_eq_mod)
  finally have r: "push_bit H_EXP un + u1 - q * b = word_of_int ((uint un * ?H + uint u1) mod uint b)" .
  show "uint (push_bit H_EXP un + u1 - q * b) = (uint un * ?H + uint u1) mod uint b"
    unfolding r
  proof (rule uint_word_of_int_small)
    show "0 \<le> (uint un * ?H + uint u1) mod uint b" using bp by simp
    have "(uint un * ?H + uint u1) mod uint b < uint b" by (rule pos_mod_bound [OF bp])
    then show "(uint un * ?H + uint u1) mod uint b < 2 ^ LENGTH(64)" using digit_bounds(2) [of b] by simp
  qed
qed

text \<open>Shifting the two digits of the dividend by the bits that normalise the divisor.\<close>

lemma shift_dividend:
  fixes a1 a0 b :: Uint
  assumes b: "b \<noteq> 0" and a1: "uint a1 < uint b"
  defines "s \<equiv> D2PF b"
  defines "un \<equiv> push_bit s a1 OR (drop_bit (D_EXP - s) a0 AND (if s = 0 then 0 else - 1))"
  shows "uint un * B + uint (push_bit s a0) = (uint a1 * B + uint a0) * 2 ^ s" and "uint un < uint b * 2 ^ s"
proof -
  note d = D2PF_ok [OF b, folded s_def]
  let ?S = "(2 :: int) ^ s" and ?T = "(2 :: int) ^ (64 - s)"
  have ST: "?T * ?S = B" using d(1) by (simp flip: power_add)
  have lo: "uint (drop_bit (D_EXP - s) a0 AND (if s = 0 then 0 else - 1)) = uint a0 div ?T"
  proof (cases "s = 0")
    case True
    then show ?thesis using digit_bounds [of a0] by simp
  next
    case False
    then show ?thesis by (simp add: D_EXP_def uint_drop)
  qed
  have a0T: "uint a0 div ?T < ?S"
  proof -
    have "\<not> ?S * ?T \<le> uint a0" using ST digit_bounds(2) [of a0] by (simp add: mult.commute)
    then show ?thesis unfolding le_div_pos [of ?T ?S "uint a0", symmetric, OF zero_less_power, simplified] by simp
  qed
  have a1s: "uint a1 * ?S + ?S \<le> uint b * ?S"
  proof -
    have "(uint a1 + 1) * ?S \<le> uint b * ?S" using a1 by (intro mult_right_mono) simp_all
    then show ?thesis by (simp add: algebra_simps)
  qed
  have un: "uint un = uint a1 * ?S + uint a0 div ?T"
  proof -
    have "uint (drop_bit (D_EXP - s) a0 AND (if s = 0 then 0 else - 1)) < ?S" using lo a0T by simp
    from push_or [OF this, of a1] have e: "un = word_of_int (uint a1 * ?S + uint a0 div ?T)" unfolding un_def lo .
    have "0 \<le> uint a1 * ?S + uint a0 div ?T" by (simp add: pos_imp_zdiv_nonneg_iff)
    moreover have "uint a1 * ?S + uint a0 div ?T < 2 ^ LENGTH(64)" using a1s a0T d(4) by simp
    ultimately show ?thesis unfolding e by (rule uint_word_of_int_small)
  qed
  show "uint un < uint b * ?S" unfolding un using a1s a0T by linarith
  have "uint (push_bit s a0) = (uint a0 * ?S) mod (?T * ?S)"
    unfolding ST by (simp add: unsigned_push_bit_eq take_bit_eq_mod) (simp add: push_bit_eq_mult)
  also have "\<dots> = (uint a0 mod ?T) * ?S" by (subst mod_mult_mult2) simp
  finally have p: "uint (push_bit s a0) = (uint a0 mod ?T) * ?S" .
  have "(x * ?S + y) * (?T * ?S) + r * ?S = (x * (?T * ?S) + (y * ?T + r)) * ?S" for x y r by algebra
  then have "uint un * B + uint (push_bit s a0) = (uint a1 * B + (uint a0 div ?T * ?T + uint a0 mod ?T)) * ?S"
    unfolding un p ST [symmetric] .
  then show "uint un * B + uint (push_bit s a0) = (uint a1 * B + uint a0) * ?S" by (simp only: div_mult_mod_eq)
qed

lemma DDIVREM_ok:
  assumes b: "b \<noteq> 0" and a1: "uint a1 < uint b" and r: "DDIVREM a1 a0 b = (q, r)"
  shows "uint q = (uint a1 * B + uint a0) div uint b" and "uint r = (uint a1 * B + uint a0) mod uint b"
proof -
  let ?H = "(2 :: int) ^ 32" and ?N = "uint a1 * B + uint a0"
  define s where "s = D2PF b"
  define b' where "b' = push_bit s b"
  define un32 where "un32 = push_bit s a1 OR (drop_bit (D_EXP - s) a0 AND (if s = 0 then 0 else - 1))"
  define un10 where "un10 = push_bit s a0"
  define un1 un0 where "un1 = drop_bit H_EXP un10" and "un0 = un10 AND LO_MASK"
  define q1 where "q1 = correct_quot (drop_bit H_EXP b') (b' AND LO_MASK) un1 (un32 div drop_bit H_EXP b')
      (un32 - (un32 div drop_bit H_EXP b') * drop_bit H_EXP b')"
  define un21 where "un21 = push_bit H_EXP un32 + un1 - q1 * b'"
  define q0 where "q0 = correct_quot (drop_bit H_EXP b') (b' AND LO_MASK) un0 (un21 div drop_bit H_EXP b')
      (un21 - (un21 div drop_bit H_EXP b') * drop_bit H_EXP b')"
  have qr: "q = push_bit H_EXP q1 + q0" "r = drop_bit s (push_bit H_EXP un21 + un0 - q0 * b')"
    using r unfolding DDIVREM_def Let_def s_def [symmetric] b'_def [symmetric] un32_def [symmetric] un10_def [symmetric]
      un1_def [symmetric] un0_def [symmetric] q1_def [symmetric] un21_def [symmetric] q0_def [symmetric] by simp_all
  note d = D2PF_ok [OF b, folded s_def] and sh = shift_dividend [OF b a1, folded s_def, of a0, folded un32_def un10_def]
  have b': "uint b' = uint b * 2 ^ s" unfolding b'_def by (rule d(2))
  have b63: "2 ^ 63 \<le> uint b'" and bp: "0 < uint b'" using d(3) unfolding b' by simp_all
  have u: "uint un32 < uint b'" using sh(2) unfolding b' .
  have u1: "uint un1 = uint un10 div ?H" and u0: "uint un0 = uint un10 mod ?H" by (simp_all only: un1_def un0_def uint_high uint_low)
  have un10: "uint un1 * ?H + uint un0 = uint un10" unfolding u1 u0 by (rule div_mult_mod_eq)
  have l: "uint un1 < ?H" "uint un0 < ?H" using digit_bounds(2) [of un10] unfolding u1 u0 by simp_all
  note h1 = half_division [OF b63 u l(1), folded q1_def, folded un21_def]
  have u21: "uint un21 < uint b'" unfolding h1(2) by (rule pos_mod_bound [OF bp])
  note h0 = half_division [OF b63 u21 l(2), folded q0_def]
  have ql: "uint q1 < ?H" "uint q0 < ?H"
    unfolding h1(1) h0(1) using half_quotient_less [OF bp] u u21 l by simp_all
  note t = two_step_division [OF bp, of ?H "uint un32" "uint un1" "uint un0", folded h1, folded h0(1)]
  have "(uint un32 * ?H + uint un1) * ?H + uint un0 = uint un32 * B + (uint un1 * ?H + uint un0)" by simp
  also have "\<dots> = ?N * 2 ^ s" unfolding un10 by (rule sh(1))
  finally have N: "(uint un32 * ?H + uint un1) * ?H + uint un0 = ?N * 2 ^ s" .
  have "uint q = uint q1 * ?H + uint q0"
  proof -
    have p: "uint (push_bit H_EXP q1) = uint q1 * ?H" unfolding uint_push_half using ql(1) by simp
    have "uint q1 * ?H \<le> (?H - 1) * ?H" using ql(1) by (intro mult_right_mono) simp_all
    then show ?thesis unfolding qr uint_word_ariths(1) p using ql by (intro mod_pos_pos_trivial) simp_all
  qed
  also have "\<dots> = (?N * 2 ^ s) div (uint b * 2 ^ s)" using t(1) unfolding N b' by simp
  also have "\<dots> = ?N div uint b" by (rule div_mult_mult2) simp
  finally show "uint q = ?N div uint b" .
  have "uint r = uint (push_bit H_EXP un21 + un0 - q0 * b') div 2 ^ s" unfolding qr by (rule uint_drop)
  also have "uint (push_bit H_EXP un21 + un0 - q0 * b') = (?N * 2 ^ s) mod (uint b * 2 ^ s)"
    using h0(2) t(2) unfolding N b' by simp
  also have "\<dots> = (?N mod uint b) * 2 ^ s" by (rule mod_mult_mult2)
  finally show "uint r = ?N mod uint b" by simp
qed

subsection \<open>Vectors as numbers\<close>

fun big_value :: "Uint list \<Rightarrow> int" where
  "big_value [] = 0"
| "big_value (d # ds) = uint d + B * big_value ds"

lemma big_value_append: "big_value (xs @ ys) = big_value xs + B ^ length xs * big_value ys"
  by (induction xs) (simp_all add: algebra_simps)

lemma big_value_bounds: "0 \<le> big_value ds" "big_value ds < B ^ length ds"
proof -
  have "0 \<le> big_value ds \<and> big_value ds < B ^ length ds"
  proof (induction ds)
    case (Cons d ds)
    then have "B * (big_value ds + 1) \<le> B * B ^ length ds" by simp
    then show ?case using Cons digit_bounds [of d] by (simp add: algebra_simps)
  qed simp
  then show "0 \<le> big_value ds" "big_value ds < B ^ length ds" by blast+
qed

lemma big_value_zeros [simp]: "big_value (replicate n 0) = 0"
  by (induction n) simp_all

lemma big_value_snoc: "big_value (ds @ [d]) = big_value ds + B ^ length ds * uint d"
  by (simp add: big_value_append)

lemma scaled: "1 \<le> k \<Longrightarrow> 0 \<le> N \<Longrightarrow> N \<le> N * (k :: int)"
  using mult_left_mono [of 1 k N] by simp

text \<open>A vector without a zero on top.\<close>

definition norm_ok :: "Uint list \<Rightarrow> bool" where
  "norm_ok ds \<longleftrightarrow> ds \<noteq> [] \<and> last ds \<noteq> 0"

lemma norm_okI:
  assumes "length ds = Suc n" and "B ^ n \<le> big_value ds"
  shows "norm_ok ds"
proof -
  obtain xs d where ds: "ds = xs @ [d]" "length xs = n" using assms(1) by (cases ds rule: rev_cases) auto
  have "d \<noteq> 0"
  proof
    assume "d = 0"
    then show False using assms(2) big_value_bounds(2) [of xs] ds by (simp add: big_value_snoc)
  qed
  then show ?thesis using ds by (simp add: norm_ok_def)
qed

lemma norm_ok_ge:
  assumes "norm_ok ds"
  shows "B ^ (length ds - 1) \<le> big_value ds"
proof -
  obtain xs d where ds: "ds = xs @ [d]" using assms by (cases ds rule: rev_cases) (auto simp: norm_ok_def)
  have "uint d \<noteq> 0" using assms ds by (simp add: norm_ok_def uint_0_iff)
  then have "1 \<le> uint d" using uint_ge_0 [of d] by linarith
  then have "B ^ length xs \<le> B ^ length xs * uint d" by (rule scaled) simp
  moreover have "length ds - 1 = length xs" "big_value ds = big_value xs + B ^ length xs * uint d"
    by (simp_all add: ds big_value_snoc)
  ultimately show ?thesis using big_value_bounds(1) [of xs] by (simp only:)
qed

text \<open>There is one such vector for a number.\<close>

lemma big_value_inj:
  "length xs = length ys \<Longrightarrow> big_value xs = big_value ys \<Longrightarrow> xs = ys"
proof (induction xs ys rule: list_induct2)
  case (Cons x xs y ys)
  have "uint x = big_value (x # xs) mod B" "uint y = big_value (y # ys) mod B" using digit_bounds by simp_all
  then have "x = y" using Cons.prems by (intro word_uint_eqI) (simp only:)
  then show ?case using Cons by simp
qed simp

lemma norm_ok_length:
  assumes "norm_ok xs" and "big_value xs < B ^ n"
  shows "length xs \<le> n"
proof (rule ccontr)
  assume "\<not> length xs \<le> n"
  then have "B ^ n \<le> B ^ (length xs - 1)" by (intro power_increasing) simp_all
  then show False using norm_ok_ge [OF assms(1)] assms(2) by linarith
qed

lemma norm_ok_unique:
  assumes "norm_ok xs" and "norm_ok ys" and "big_value xs = big_value ys"
  shows "xs = ys"
proof (rule big_value_inj [OF _ assms(3)])
  have "length xs \<le> length ys" using norm_ok_length [OF assms(1)] big_value_bounds(2) [of ys] assms(3) by simp
  moreover have "length ys \<le> length xs" using norm_ok_length [OF assms(2)] big_value_bounds(2) [of xs] assms(3) by simp
  ultimately show "length xs = length ys" by simp
qed

subsection \<open>Comparison, sums and differences\<close>

lemma comp_from_top_ok:
  "length xs = length ys \<Longrightarrow> comp_from_top xs ys = sgn (big_value (rev xs) - big_value (rev ys))"
proof (induction xs ys rule: list_induct2)
  case (Cons x xs y ys)
  let ?x = "big_value (rev xs)" and ?y = "big_value (rev ys)" and ?n = "B ^ length ys"
  have b: "0 \<le> ?x" "?x < ?n" "0 \<le> ?y" "?y < ?n"
    using big_value_bounds [of "rev xs"] big_value_bounds [of "rev ys"] Cons.hyps by simp_all
  have e: "big_value (rev (x # xs)) - big_value (rev (y # ys)) = ?x - ?y + ?n * (uint x - uint y)"
    using Cons.hyps by (simp add: big_value_snoc algebra_simps)
  consider "x = y" | "uint x < uint y" | "uint y < uint x" by (metis linorder_neqE_linordered_idom word_uint_eqI)
  then show ?case
  proof cases
    case 1
    then show ?thesis using Cons.IH unfolding e by simp
  next
    case 2
    have "?n \<le> ?n * (uint y - uint x)" using 2 by (intro scaled) simp_all
    moreover have "?n * (uint x - uint y) = - (?n * (uint y - uint x))" by (simp only: mult_minus_right [symmetric] minus_diff_eq)
    ultimately have "?x - ?y + ?n * (uint x - uint y) < 0" using b by linarith
    then show ?thesis using 2 unfolding e by (auto simp: word_less_def)
  next
    case 3
    have "?n \<le> ?n * (uint x - uint y)" using 3 by (intro scaled) simp_all
    then have "0 < ?x - ?y + ?n * (uint x - uint y)" using b by linarith
    then show ?thesis using 3 unfolding e by (auto simp: word_less_def)
  qed
qed simp

lemma I_comp_ok:
  assumes "norm_ok x" and "norm_ok y"
  shows "I_comp x y = sgn (big_value x - big_value y)"
proof -
  have short: "big_value a < big_value b" if "norm_ok b" "length a < length b" for a b
  proof -
    have "B ^ length a \<le> B ^ (length b - 1)" using that(2) by (intro power_increasing) simp_all
    then show ?thesis using big_value_bounds(2) [of a] norm_ok_ge [OF that(1)] by linarith
  qed
  consider "length x < length y" | "length y < length x" | "length x = length y" by linarith
  then show ?thesis
  proof cases
    case 1
    then show ?thesis using short [OF assms(2) 1] by (simp add: I_comp_def)
  next
    case 2
    then show ?thesis using short [OF assms(1) 2] by (simp add: I_comp_def)
  next
    case 3
    then show ?thesis using comp_from_top_ok [of "rev x" "rev y"] by (simp add: I_comp_def)
  qed
qed

lemma add_carry_ok: "big_value (add_carry xs c) = big_value xs + uint c \<and>
    (length (add_carry xs c) = length xs \<or> length (add_carry xs c) = Suc (length xs) \<and> last (add_carry xs c) = 1)"
  if "xs \<noteq> [] \<or> uint c \<le> 1"
  using that
proof (induction xs arbitrary: c)
  case Nil
  have "uint c = 1" if "c \<noteq> 0"
  proof -
    have "uint c \<noteq> 0" using that by (simp add: uint_0_iff)
    moreover have "uint c \<le> 1" using Nil by simp
    ultimately show ?thesis using uint_ge_0 [of c] by linarith
  qed
  then show ?case by simp
next
  case (Cons x xs)
  let ?c = "of_bool (x + c < c) :: Uint"
  have ih: "big_value (add_carry xs ?c) = big_value xs + uint ?c"
    "length (add_carry xs ?c) = length xs \<or> length (add_carry xs ?c) = Suc (length xs) \<and> last (add_carry xs ?c) = 1"
    using Cons.IH [of ?c] by simp_all
  have "add_carry xs ?c \<noteq> []" if "length (add_carry xs ?c) = Suc (length xs)" using that by auto
  then show ?case using ih carry_add(2) [of x c] by (auto simp: Let_def uint_of_bool algebra_simps)
qed

lemma carry_le_1:
  assumes "DSUMc a b c = (c', s)" and "uint c \<le> 1"
  shows "uint c' \<le> 1"
proof -
  have "B * uint c' < B * 2" using DSUMc_ok(1) [OF assms(1)] assms(2) digit_bounds [of a] digit_bounds [of b] digit_bounds [of s] by linarith
  then show ?thesis by simp
qed

lemma I_add_loop_ok:
  assumes "length ys \<le> length xs" and "uint c \<le> 1"
  shows "big_value (I_add_loop xs ys c) = big_value xs + big_value ys + uint c \<and>
    (length (I_add_loop xs ys c) = length xs \<or>
     length (I_add_loop xs ys c) = Suc (length xs) \<and> last (I_add_loop xs ys c) = 1)"
  using assms
proof (induction xs ys c rule: I_add_loop.induct)
  case (1 x xs y ys c)
  obtain c' s where d: "DSUMc x y c = (c', s)" by fastforce
  then have e: "I_add_loop (x # xs) (y # ys) c = s # I_add_loop xs ys c'" by (auto simp: DSUMc_def Let_def)
  have c': "c' = of_bool (x + c < c) + of_bool (y + (x + c) < y)" using d by (auto simp: DSUMc_def Let_def)
  have ih: "big_value (I_add_loop xs ys c') = big_value xs + big_value ys + uint c'"
    "length (I_add_loop xs ys c') = length xs \<or> length (I_add_loop xs ys c') = Suc (length xs) \<and> last (I_add_loop xs ys c') = 1"
    using "1.IH" [OF refl refl refl refl refl] "1.prems" carry_le_1 [OF d] unfolding c' by simp_all
  have "I_add_loop xs ys c' \<noteq> []" if "length (I_add_loop xs ys c') = Suc (length xs)" using that by auto
  then show ?case unfolding e using ih DSUMc_ok(1) [OF d] by (auto simp: algebra_simps)
next
  case "2_1"
  then show ?case using add_carry_ok [of "[]"] by simp
next
  case "2_2"
  then show ?case by (simp add: add_carry_ok)
qed

lemma I_add_ok:
  assumes "norm_ok x" and "norm_ok y" and "length y \<le> length x"
  shows "big_value (I_add x y) = big_value x + big_value y" and "norm_ok (I_add x y)"
proof -
  note a = I_add_loop_ok [OF assms(3), of 0, folded I_add_def]
  show v: "big_value (I_add x y) = big_value x + big_value y" using a by simp
  obtain n where n: "length x = Suc n" using assms(1) by (cases x) (auto simp: norm_ok_def)
  show "norm_ok (I_add x y)"
  proof (cases "length (I_add x y) = Suc n")
    case True
    have "B ^ n \<le> big_value (I_add x y)" using v norm_ok_ge [OF assms(1)] big_value_bounds(1) [of y] n by simp
    then show ?thesis by (rule norm_okI [OF True])
  next
    case False
    then have "length (I_add x y) = Suc (Suc n)" "last (I_add x y) = 1" using a n by simp_all
    then show ?thesis by (auto simp: norm_ok_def)
  qed
qed

lemma D_add_ok:
  assumes "norm_ok x"
  shows "big_value (D_add x c) = big_value x + uint c" and "norm_ok (D_add x c)"
proof -
  have ne: "x \<noteq> [] \<or> uint c \<le> 1" using assms by (simp add: norm_ok_def)
  note a = add_carry_ok [OF ne, folded D_add_def]
  show v: "big_value (D_add x c) = big_value x + uint c" using a by simp
  obtain n where n: "length x = Suc n" using assms by (cases x) (auto simp: norm_ok_def)
  show "norm_ok (D_add x c)"
  proof (cases "length (D_add x c) = Suc n")
    case True
    have "B ^ n \<le> big_value (D_add x c)" using v norm_ok_ge [OF assms] uint_ge_0 [of c] n by (simp only: diff_Suc_1)
    then show ?thesis by (rule norm_okI [OF True])
  next
    case False
    then have "length (D_add x c) = Suc (Suc n)" "last (D_add x c) = 1" using a n by simp_all
    then show ?thesis by (auto simp: norm_ok_def)
  qed
qed

text \<open>Trimming keeps the number and one digit at least.\<close>

lemma trim_ok:
  assumes "ds \<noteq> []"
  shows "big_value (trim ds) = big_value ds" and "norm_ok (trim ds) \<or> trim ds = [0]"
proof -
  have "big_value (rev (trim_zeros xs)) = big_value (rev xs) \<and> (trim_zeros xs \<noteq> [] \<and> hd (trim_zeros xs) \<noteq> 0 \<or> trim_zeros xs = [0])"
    if "xs \<noteq> []" for xs
    using that by (induction xs rule: trim_zeros.induct) (auto simp: big_value_append algebra_simps)
  from this [of "rev ds"] assms show "big_value (trim ds) = big_value ds" "norm_ok (trim ds) \<or> trim ds = [0]"
    by (auto simp: trim_def norm_ok_def last_rev)
qed

lemma sub_borrow_ok:
  "uint c \<le> 1 \<Longrightarrow> \<exists>k. 0 \<le> k \<and> big_value xs - uint c = big_value (sub_borrow xs c) - B ^ length xs * k \<and>
     length (sub_borrow xs c) = length xs"
proof (induction xs arbitrary: c)
  case Nil
  then show ?case by (intro exI [of _ "uint c"]) simp
next
  case (Cons x xs)
  let ?c = "of_bool (x < x - c) :: Uint"
  obtain k where k: "0 \<le> k" "big_value xs - uint ?c = big_value (sub_borrow xs ?c) - B ^ length xs * k"
    "length (sub_borrow xs ?c) = length xs" using Cons.IH [of ?c] by (auto simp: uint_of_bool)
  have "uint x - uint c = uint (x - c) - B * uint ?c" using borrow_sub [of x c] by (simp only: uint_of_bool)
  then have "big_value (x # xs) - uint c = uint (x - c) + B * (big_value xs - uint ?c)" by (simp add: algebra_simps)
  then show ?case using k by (intro exI [of _ k]) (simp add: Let_def algebra_simps)
qed

lemma I_sub_loop_ok:
  "length ys \<le> length xs \<Longrightarrow> uint c \<le> 1 \<Longrightarrow>
     \<exists>k. 0 \<le> k \<and> big_value xs - big_value ys - uint c = big_value (I_sub_loop xs ys c) - B ^ length xs * k \<and>
       length (I_sub_loop xs ys c) = length xs"
proof (induction xs ys c rule: I_sub_loop.induct)
  case (1 x xs y ys c)
  obtain c' s where d: "DSUBb x y c = (c', s)" by fastforce
  then have e: "I_sub_loop (x # xs) (y # ys) c = s # I_sub_loop xs ys c'" by (auto simp: DSUBb_def Let_def)
  have c': "c' = of_bool (y + c < c) + of_bool (x < x - (y + c))" using d by (auto simp: DSUBb_def Let_def)
  have "B * uint c' < B * 2" using DSUBb_ok(1) [OF d] "1.prems" digit_bounds [of x] digit_bounds [of y] digit_bounds [of s] by linarith
  then have "uint c' \<le> 1" by simp
  then obtain k where k: "0 \<le> k" "big_value xs - big_value ys - uint c' = big_value (I_sub_loop xs ys c') - B ^ length xs * k"
    "length (I_sub_loop xs ys c') = length xs"
    using "1.IH" [OF refl refl refl refl refl] "1.prems" unfolding c' by auto
  have "big_value (x # xs) - big_value (y # ys) - uint c = uint s + B * (big_value xs - big_value ys - uint c')"
    using DSUBb_ok(1) [OF d] by (simp add: algebra_simps)
  then show ?case unfolding e using k by (intro exI [of _ k]) (simp add: algebra_simps)
next
  case "2_1"
  then show ?case using sub_borrow_ok [of _ "[]"] by simp
next
  case "2_2"
  then show ?case using sub_borrow_ok by simp
qed

lemma no_borrow:
  assumes "0 \<le> v" and "0 \<le> k" and "v = big_value ds - B ^ n * k" and "length ds = n"
  shows "v = big_value ds"
proof -
  have "\<not> 1 \<le> k"
  proof
    assume "1 \<le> k"
    then have "B ^ n \<le> B ^ n * k" by (rule scaled) simp
    then show False using assms(1,3) big_value_bounds(2) [of ds] unfolding assms(4) by linarith
  qed
  then have "k = 0" using assms(2) by linarith
  then show ?thesis using assms(3) by simp
qed

lemma I_sub_ok:
  assumes "length y \<le> length x" and "x \<noteq> []" and "big_value y \<le> big_value x"
  shows "big_value (I_sub x y) = big_value x - big_value y" and "norm_ok (I_sub x y) \<or> I_sub x y = [0]"
proof -
  obtain k where k: "0 \<le> k" "big_value x - big_value y = big_value (I_sub_loop x y 0) - B ^ length x * k"
    "length (I_sub_loop x y 0) = length x" using I_sub_loop_ok [OF assms(1), of 0] by auto
  have "big_value x - big_value y = big_value (I_sub_loop x y 0)" by (rule no_borrow [OF _ k]) (use assms(3) in simp)
  moreover have "I_sub_loop x y 0 \<noteq> []" using k(3) assms(2) by auto
  ultimately show "big_value (I_sub x y) = big_value x - big_value y" "norm_ok (I_sub x y) \<or> I_sub x y = [0]"
    using trim_ok [of "I_sub_loop x y 0"] by (simp_all add: I_sub_def)
qed

lemma sub_borrow_any:
  "xs \<noteq> [] \<Longrightarrow> \<exists>k\<ge>0. big_value xs - uint c = big_value (sub_borrow xs c) - B ^ length xs * k \<and> length (sub_borrow xs c) = length xs"
proof (cases xs)
  case (Cons x ys)
  let ?c = "of_bool (x < x - c) :: Uint"
  obtain k where k: "0 \<le> k" "big_value ys - uint ?c = big_value (sub_borrow ys ?c) - B ^ length ys * k"
    "length (sub_borrow ys ?c) = length ys" using sub_borrow_ok [of ?c ys] by (auto simp: uint_of_bool)
  have "uint x - uint c = uint (x - c) - B * uint ?c" using borrow_sub [of x c] by (simp only: uint_of_bool)
  then have "big_value xs - uint c = uint (x - c) + B * (big_value ys - uint ?c)" by (simp add: Cons algebra_simps)
  then show ?thesis using k by (intro exI [of _ k]) (simp add: Cons Let_def algebra_simps)
qed simp

lemma D_sub_ok:
  assumes "x \<noteq> []" and "uint c \<le> big_value x"
  shows "big_value (D_sub x c) = big_value x - uint c" and "norm_ok (D_sub x c) \<or> D_sub x c = [0]"
proof -
  obtain k where k: "0 \<le> k" "big_value x - uint c = big_value (sub_borrow x c) - B ^ length x * k"
    "length (sub_borrow x c) = length x" using sub_borrow_any [OF assms(1)] by blast
  have "big_value x - uint c = big_value (sub_borrow x c)" by (rule no_borrow [OF _ k]) (use assms(2) in simp)
  moreover have "sub_borrow x c \<noteq> []" using k(3) assms(1) by auto
  ultimately show "big_value (D_sub x c) = big_value x - uint c" "norm_ok (D_sub x c) \<or> D_sub x c = [0]"
    using trim_ok [of "sub_borrow x c"] by (simp_all add: D_sub_def)
qed

subsection \<open>Products\<close>

lemma mul_step_ok:
  assumes "mul_step d y t c cp = (c', cp', p)" and "d = 0 \<Longrightarrow> c = 0 \<and> cp = 0" and "d = 1 \<Longrightarrow> cp = 0"
  shows "uint d * uint y + uint t + uint c + uint cp = uint p + B * (uint c' + uint cp')"
    and "d = 0 \<Longrightarrow> c' = 0 \<and> cp' = 0" and "d = 1 \<Longrightarrow> cp' = 0"
proof -
  consider "d = 0" | "d = 1" | "d = 2" | "d \<noteq> 0" "d \<noteq> 1" "d \<noteq> 2" by blast
  then have "uint d * uint y + uint t + uint c + uint cp = uint p + B * (uint c' + uint cp') \<and>
    (d = 0 \<longrightarrow> c' = 0 \<and> cp' = 0) \<and> (d = 1 \<longrightarrow> cp' = 0)"
  proof cases
    case 1
    then show ?thesis using assms by (simp add: mul_step_def)
  next
    case 2
    obtain c1 p1 where s: "DSUMc y t c = (c1, p1)" by fastforce
    then show ?thesis using assms 2 DSUMc_ok(1) [OF s] by (simp add: mul_step_def)
  next
    case 3
    obtain c1 p1 where s1: "DSUMc y y cp = (c1, p1)" by fastforce
    obtain c2 p2 where s2: "DSUMc p1 t c = (c2, p2)" by fastforce
    then show ?thesis using assms 3 s1 DSUMc_ok(1) [OF s1] DSUMc_ok(1) [OF s2] by (simp add: mul_step_def)
  next
    case 4
    obtain c1 p1 where s1: "DMULc d y cp = (c1, p1)" by fastforce
    obtain c2 p2 where s2: "DSUMc p1 t c = (c2, p2)" by fastforce
    then show ?thesis using assms 4 s1 DMULc_ok [OF s1] DSUMc_ok(1) [OF s2] by (simp add: mul_step_def algebra_simps)
  qed
  then show "uint d * uint y + uint t + uint c + uint cp = uint p + B * (uint c' + uint cp')"
    "d = 0 \<Longrightarrow> c' = 0 \<and> cp' = 0" "d = 1 \<Longrightarrow> cp' = 0" by blast+
qed

lemma digit_sum_fits:
  assumes "uint a + uint b < B"
  shows "uint (a + b :: Uint) = uint a + uint b"
  unfolding uint_word_ariths(1) using assms by (intro mod_pos_pos_trivial) simp_all

lemma mul_row_ok:
  assumes "length y \<le> length r" and "d = 0 \<Longrightarrow> c = 0 \<and> cp = 0" and "d = 1 \<Longrightarrow> cp = 0"
    and "uint d * big_value y + big_value (take (length y) r) + uint c + uint cp < B ^ Suc (length y)"
  shows "big_value (mul_row d y r c cp) = uint d * big_value y + big_value (take (length y) r) + uint c + uint cp \<and>
    length (mul_row d y r c cp) = Suc (length y)"
  using assms
proof (induction y arbitrary: r c cp)
  case Nil
  then show ?case by (simp add: digit_sum_fits)
next
  case (Cons y ys)
  obtain t rs where r: "r = t # rs" using Cons.prems(1) by (cases r) auto
  obtain c' cp' p where s: "mul_step d y t c cp = (c', cp', p)" by (cases "mul_step d y t c cp")
  note m = mul_step_ok [OF s Cons.prems(2,3)]
  let ?v = "uint d * big_value ys + big_value (take (length ys) rs) + uint c' + uint cp'"
  have e: "uint d * big_value (y # ys) + big_value (take (length (y # ys)) r) + uint c + uint cp = uint p + B * ?v"
    using m(1) by (simp add: r algebra_simps)
  have "uint p + B * ?v < B ^ Suc (length (y # ys))" using Cons.prems(4) unfolding e .
  moreover have "B ^ Suc (length (y # ys)) = B * B ^ Suc (length ys)" by simp
  ultimately have "B * ?v < B * B ^ Suc (length ys)" using uint_ge_0 [of p] by linarith
  then have "?v < B ^ Suc (length ys)" by simp
  then have "big_value (mul_row d ys rs c' cp') = ?v \<and> length (mul_row d ys rs c' cp') = Suc (length ys)"
    using Cons.prems(1) r m(2,3) by (intro Cons.IH) simp_all
  then show ?case unfolding e by (simp add: r s)
qed

lemma row_bound:
  assumes "0 \<le> Y" "Y < B ^ n" "0 \<le> R" "R < B ^ n"
  shows "uint (d :: Uint) * Y + R < B ^ Suc n"
proof -
  have "uint d * Y \<le> (B - 1) * (B ^ n - 1)" using assms digit_bounds [of d] by (intro mult_mono) simp_all
  then have "uint d * Y + R \<le> (B - 1) * (B ^ n - 1) + (B ^ n - 1)" using assms by linarith
  also have "\<dots> = B * B ^ n - B" by (simp add: algebra_simps)
  finally show ?thesis by simp
qed

lemma I_mul_loop_ok:
  "length x + length y \<le> length r \<Longrightarrow>
     big_value (take (length x + length y) (I_mul_loop x y r)) = big_value x * big_value y + big_value (take (length y) r) \<and>
     length (I_mul_loop x y r) = length r"
proof (induction x arbitrary: r)
  case (Cons d x)
  let ?row = "mul_row d y r 0 0"
  have b: "uint d * big_value y + big_value (take (length y) r) + uint (0 :: Uint) + uint (0 :: Uint) < B ^ Suc (length y)"
    using row_bound [of "big_value y" "length y" "big_value (take (length y) r)" d] big_value_bounds [of y]
      big_value_bounds [of "take (length y) r"] Cons.prems by simp
  have row: "big_value ?row = uint d * big_value y + big_value (take (length y) r)" "length ?row = Suc (length y)"
    using mul_row_ok [OF _ _ _ b] Cons.prems by simp_all
  define r' where "r' = ?row @ drop (Suc (length y)) r"
  have l: "length r' = length r" using Cons.prems row(2) by (simp add: r'_def)
  obtain t rs where r': "r' = t # rs" using row(2) by (cases r') (auto simp: r'_def)
  have "take (Suc (length y)) r' = ?row" using row(2) by (simp add: r'_def)
  then have v: "uint t + B * big_value (take (length y) rs) = uint d * big_value y + big_value (take (length y) r)"
    using row(1) r' by (metis big_value.simps(2) take_Suc_Cons)
  have "length x + length y \<le> length rs" using Cons.prems l r' by simp
  note ih = Cons.IH [OF this]
  have e: "I_mul_loop (d # x) y r = t # I_mul_loop x y rs" by (simp only: I_mul_loop.simps Let_def r'_def [symmetric] r' list.sel)
  show ?case unfolding e using ih v l r' by (simp add: algebra_simps)
qed simp

lemma product_size:
  assumes "norm_ok x" and "norm_ok y"
  shows "B ^ (length x + length y - 2) \<le> big_value x * big_value y"
proof -
  have "length x + length y - 2 = (length x - 1) + (length y - 1)"
    using assms by (cases x; cases y) (simp_all add: norm_ok_def)
  moreover have "B ^ (length x - 1) * B ^ (length y - 1) \<le> big_value x * big_value y"
    using norm_ok_ge [OF assms(1)] norm_ok_ge [OF assms(2)] by (intro mult_mono) (simp_all add: big_value_bounds)
  ultimately show ?thesis by (simp add: power_add)
qed

text \<open>A product with one digit less than its space, or none.\<close>

lemma cut_top:
  assumes "n \<le> length r" and "2 \<le> n" and "big_value (take n r) = v" and "B ^ (n - 2) \<le> v"
  shows "big_value (if r ! (n - 1) = 0 then take (n - 1) r else take n r) = v \<and>
    norm_ok (if r ! (n - 1) = 0 then take (n - 1) r else take n r)"
proof -
  have t: "take n r = take (n - 1) r @ [r ! (n - 1)]" using assms(1,2) take_Suc_conv_app_nth [of "n - 1" r] by simp
  show ?thesis
  proof (cases "r ! (n - 1) = 0")
    case True
    then have v: "big_value (take (n - 1) r) = v" using assms(3) unfolding t big_value_snoc by simp
    have "norm_ok (take (n - 1) r)"
      by (rule norm_okI [where n = "n - 2"]) (use assms v in simp_all)
    then show ?thesis using True v by simp
  next
    case False
    then have "norm_ok (take n r)" unfolding t by (simp add: norm_ok_def)
    then show ?thesis using False assms(3) by simp
  qed
qed

lemma norm_ok_length_pos: "norm_ok x \<Longrightarrow> 1 \<le> length x"
  by (cases x) (simp_all add: norm_ok_def)

lemma I_mul_ok:
  assumes "norm_ok x" and "norm_ok y" and "length x + length y \<le> length r" and "big_value (take (length y) r) = 0"
  shows "big_value (I_mul x y r) = big_value x * big_value y" and "norm_ok (I_mul x y r)"
proof -
  note m = I_mul_loop_ok [OF assms(3)]
  have "big_value (I_mul x y r) = big_value x * big_value y \<and> norm_ok (I_mul x y r)"
    unfolding I_mul_def Let_def
    by (rule cut_top) (use m assms norm_ok_length_pos [OF assms(1)] norm_ok_length_pos [OF assms(2)] product_size [OF assms(1,2)] in simp_all)
  then show "big_value (I_mul x y r) = big_value x * big_value y" "norm_ok (I_mul x y r)" by blast+
qed

lemma D_mul_loop_ok:
  "big_value (D_mul_loop x d c) = uint d * big_value x + uint c \<and> length x \<le> length (D_mul_loop x d c) \<and>
     (length (D_mul_loop x d c) = length x \<or> norm_ok (D_mul_loop x d c))"
proof (induction x arbitrary: c)
  case Nil
  then show ?case by (simp add: norm_ok_def)
next
  case (Cons x xs)
  obtain c' p where s: "(if d = 2 then DSUMc x x c else DMULc d x c) = (c', p)" by fastforce
  have v: "uint d * uint x + uint c = uint p + B * uint c'"
  proof (cases "d = 2")
    case True
    then have "DSUMc x x c = (c', p)" using s by simp
    from DSUMc_ok(1) [OF this] True show ?thesis by simp
  next
    case False
    then have "DMULc d x c = (c', p)" using s by simp
    from DMULc_ok [OF this] show ?thesis by simp
  qed
  have e: "D_mul_loop (x # xs) d c = p # D_mul_loop xs d c'" using s by simp
  have "norm_ok (p # D_mul_loop xs d c')" if "norm_ok (D_mul_loop xs d c')" using that by (simp add: norm_ok_def)
  then show ?case unfolding e using Cons.IH [of c'] v by (auto simp: algebra_simps)
qed

lemma D_mul_ok:
  assumes "norm_ok x" and "d \<noteq> 0"
  shows "big_value (D_mul x d r) = big_value x * uint d" and "norm_ok (D_mul x d r)"
proof -
  have d: "1 \<le> uint d"
  proof -
    have "uint d \<noteq> 0" using assms(2) by (simp add: uint_0_iff)
    then show ?thesis using uint_ge_0 [of d] by linarith
  qed
  note l = D_mul_loop_ok [of x d 0]
  have "big_value (D_mul x d r) = big_value x * uint d \<and> norm_ok (D_mul x d r)"
  proof (cases "d = 1")
    case True
    then show ?thesis using assms by (simp add: D_mul_def MOVE_DIGITS_def)
  next
    case False
    then have e: "D_mul x d r = D_mul_loop x d 0" using assms(2) by (simp add: D_mul_def)
    have v: "big_value (D_mul_loop x d 0) = big_value x * uint d" using l by (simp add: mult.commute)
    have "norm_ok (D_mul_loop x d 0)" if "length (D_mul_loop x d 0) = length x"
    proof (rule norm_okI [where n = "length x - 1"])
      show "length (D_mul_loop x d 0) = Suc (length x - 1)" using that norm_ok_length_pos [OF assms(1)] by simp
      have "big_value x \<le> big_value x * uint d" using d by (intro scaled) (simp_all add: big_value_bounds)
      then show "B ^ (length x - 1) \<le> big_value (D_mul_loop x d 0)" using norm_ok_ge [OF assms(1)] v by linarith
    qed
    then show ?thesis unfolding e using l v by blast
  qed
  then show "big_value (D_mul x d r) = big_value x * uint d" "norm_ok (D_mul x d r)" by blast+
qed

text \<open>Squares: what a row of I\_sqr carries to the next digit and to the one after it.\<close>

lemma sqr_row_ok:
  assumes "length y < length s" and "uint y_1 \<le> 2"
  shows "big_value (sqr_row d y s z1 y_0 y_1 y_2 y_3) =
      big_value (take (Suc (length y)) s) + 2 * uint d * big_value y + uint z1 + uint y_0 + uint y_2 + uint y_3 + B * uint y_1 \<and>
    length (sqr_row d y s z1 y_0 y_1 y_2 y_3) = length y + 2"
  using assms
proof (induction y arbitrary: s z1 y_0 y_1 y_2 y_3)
  case Nil
  obtain t rs where s: "s = t # rs" using Nil by (cases s) auto
  obtain c2 z2 where s2: "DSUMc y_0 z1 y_2 = (c2, z2)" by fastforce
  obtain c3 w where s3: "DSUMc t z2 y_3 = (c3, w)" by fastforce
  have c: "uint c2 \<le> 2" "uint c3 \<le> 2" using DSUMc_ok(2) [OF s2] DSUMc_ok(2) [OF s3] by simp_all
  have "uint (y_1 + c2) = uint y_1 + uint c2" using c Nil(2) by (intro digit_sum_fits) simp
  moreover have "uint (y_1 + c2 + c3) = uint (y_1 + c2) + uint c3" using c Nil(2) calculation by (intro digit_sum_fits) simp
  ultimately show ?case using DSUMc_ok(1) [OF s2] DSUMc_ok(1) [OF s3] by (simp add: s s2 s3 algebra_simps)
next
  case (Cons y ys)
  obtain t rs where s: "s = t # rs" using Cons.prems(1) by (cases s) auto
  obtain b1 b0 where m: "DMULc d y 0 = (b1, b0)" by fastforce
  obtain c0 z0 where s0: "DSUMc b0 b0 y_0 = (c0, z0)" by fastforce
  obtain c2 z2 where s2: "DSUMc z0 z1 y_2 = (c2, z2)" by fastforce
  obtain c3 w where s3: "DSUMc t z2 y_3 = (c3, w)" by fastforce
  obtain c1 z1' where s1: "DSUMc b1 b1 y_1 = (c1, z1')" by fastforce
  have ih: "big_value (sqr_row d ys rs z1' c0 c1 c2 c3) =
      big_value (take (Suc (length ys)) rs) + 2 * uint d * big_value ys + uint z1' + uint c0 + uint c2 + uint c3 + B * uint c1"
    "length (sqr_row d ys rs z1' c0 c1 c2 c3) = length ys + 2"
    using Cons.IH [of rs c1 z1' c0 c2 c3] Cons.prems(1) s DSUMc_ok(2) [OF s1] by simp_all
  have e: "sqr_row d (y # ys) s z1 y_0 y_1 y_2 y_3 = w # sqr_row d ys rs z1' c0 c1 c2 c3"
    by (simp add: s DMUL_def m s0 s2 s3 s1)
  have p: "uint d * uint y = uint b1 * B + uint b0" using DMULc_ok [OF m] by simp
  have "uint w + B * (uint z1' + uint c0 + uint c2 + uint c3 + B * uint c1) =
      uint t + 2 * (uint d * uint y) + uint z1 + uint y_0 + uint y_2 + uint y_3 + B * uint y_1"
    unfolding p using DSUMc_ok(1) [OF s0] DSUMc_ok(1) [OF s2] DSUMc_ok(1) [OF s3] DSUMc_ok(1) [OF s1] by (simp add: algebra_simps)
  then show ?case unfolding e using ih by (simp add: s algebra_simps)
qed

lemma top_digit_zero:
  fixes w e1 e2 :: int
  assumes "w + B * e1 + B * B * e2 < B * B" and "0 \<le> w" and "0 \<le> e1" and "0 \<le> e2"
  shows "e2 = 0"
  using assms by simp

lemma drop_low_digits:
  fixes w e1 x y :: int
  assumes "w + B * e1 + x < y" and "0 \<le> w" and "0 \<le> e1"
  shows "x < y"
  using assms by simp

lemma power_two_digits: "(b :: int) ^ (2 * Suc n) = b * b * b ^ (2 * n)"
  by simp

lemma two_digits_cancel: "B * B * x < B * B * y \<longleftrightarrow> x < y" for x y :: int
  by (rule mult_less_cancel_left_pos) simp

lemma I_sqr_loop_ok:
  "x \<noteq> [] \<Longrightarrow> 2 * length x \<le> length r \<Longrightarrow>
     (big_value x) ^ 2 + big_value (take (Suc (length x)) r) < B ^ (2 * length x) \<Longrightarrow>
     big_value (take (2 * length x) (I_sqr_loop x r)) = (big_value x) ^ 2 + big_value (take (Suc (length x)) r) \<and>
     length (I_sqr_loop x r) = length r"
proof (induction x arbitrary: r)
  case (Cons d x)
  obtain t0 rs where r: "r = t0 # rs" using Cons.prems(2) by (cases r) auto
  obtain b1 b0 where m: "DMULc d d 0 = (b1, b0)" by fastforce
  obtain c3 w where s3: "DSUMc t0 b0 0 = (c3, w)" by fastforce
  let ?row = "w # sqr_row d x rs b1 0 0 0 c3"
  let ?Y = "big_value x"
  have lx: "length x < length rs" using Cons.prems(2) r by simp
  note q = sqr_row_ok [OF lx, of 0 d b1 0 0 c3]
  have p: "uint d * uint d = uint b1 * B + uint b0" using DMULc_ok [OF m] by simp
  have len: "length ?row = length x + 3" using q by simp
  have row: "big_value ?row = uint d * uint d + 2 * B * uint d * ?Y + big_value (take (length x + 2) r)"
    unfolding p using q DSUMc_ok(1) [OF s3] by (simp add: r algebra_simps)
  have sq: "(big_value (d # x)) ^ 2 = uint d * uint d + 2 * B * uint d * ?Y + B * B * ?Y ^ 2"
    by (simp add: power2_eq_square algebra_simps)
  show ?case
  proof (cases "x = []")
    case True
    then obtain e1 e2 where w: "sqr_row d x rs b1 0 0 0 c3 = [e1, e2]"
      using q by (cases "sqr_row d x rs b1 0 0 0 c3" rule: remdups_adj.cases) auto
    have v: "uint w + B * uint e1 + B * B * uint e2 = (big_value (d # x)) ^ 2 + big_value (take (Suc (length (d # x))) r)"
      using row sq True w by (simp add: numeral_2_eq_2)
    have "uint w + B * uint e1 + B * B * uint e2 < B * B"
      using Cons.prems(3) True unfolding v [symmetric] by (simp add: power2_eq_square)
    then have "uint e2 = 0" using top_digit_zero digit_bounds(1) by blast
    moreover have "I_sqr_loop (d # x) r = [w, e1] @ drop 2 r" using True w by (simp add: r DMUL_def m s3)
    ultimately show ?thesis using v True Cons.prems(2) by simp
  next
    case False
    define r' where "r' = ?row @ drop (length ?row) r"
    obtain e1 u where w: "sqr_row d x rs b1 0 0 0 c3 = e1 # u" using q by (cases "sqr_row d x rs b1 0 0 0 c3") auto
    have u: "length u = Suc (length x)" using q w by simp
    have r': "r' = w # e1 # (u @ drop (length ?row) r)" by (simp add: r'_def w)
    let ?rest = "u @ drop (length ?row) r"
    have ll: "length x + 3 \<le> length r" using Cons.prems(2) False by (cases x) auto
    have l: "length ?rest + 2 = length r" using ll u len by simp
    have tk: "take (Suc (length x)) ?rest = u" using u by simp
    have v: "uint w + B * uint e1 + B * B * big_value u = uint d * uint d + 2 * B * uint d * ?Y + big_value (take (length x + 2) r)"
      using row w by simp
    have T: "(big_value (d # x)) ^ 2 + big_value (take (Suc (length (d # x))) r) =
        uint w + B * uint e1 + B * B * (?Y ^ 2 + big_value u)"
      using sq v by (simp add: algebra_simps)
    have "B * B * (?Y ^ 2 + big_value u) < B ^ (2 * length (d # x))"
      by (rule drop_low_digits [OF Cons.prems(3) [unfolded T] digit_bounds(1) digit_bounds(1)])
    also have "B ^ (2 * length (d # x)) = B * B * B ^ (2 * length x)" unfolding length_Cons by (rule power_two_digits)
    finally have "B * B * (?Y ^ 2 + big_value u) < B * B * B ^ (2 * length x)" .
    then have bd: "?Y ^ 2 + big_value u < B ^ (2 * length x)" by (simp only: two_digits_cancel)
    have ih: "big_value (take (2 * length x) (I_sqr_loop x ?rest)) = ?Y ^ 2 + big_value u" "length (I_sqr_loop x ?rest) = length ?rest"
      using Cons.IH [OF False, of ?rest] bd tk l Cons.prems(2) by simp_all
    have e: "I_sqr_loop (d # x) r = w # e1 # I_sqr_loop x ?rest"
      using False by (simp add: r DMUL_def m s3 w)
    have "big_value (take (2 * length (d # x)) (I_sqr_loop (d # x) r)) = uint w + B * uint e1 + B * B * (?Y ^ 2 + big_value u)"
      unfolding e using ih(1) by (simp add: algebra_simps)
    then show ?thesis unfolding T [symmetric] using e ih(2) l by simp
  qed
qed simp

lemma I_sqr_ok:
  assumes "norm_ok x" and "2 * length x \<le> length r" and "big_value (take (Suc (length x)) r) = 0"
  shows "big_value (I_sqr x r) = (big_value x) ^ 2" and "norm_ok (I_sqr x r)"
proof -
  have ne: "x \<noteq> []" using assms(1) by (simp add: norm_ok_def)
  have "big_value x * big_value x < B ^ length x * B ^ length x"
    using big_value_bounds [of x] by (intro mult_strict_mono') simp_all
  then have "(big_value x) ^ 2 + big_value (take (Suc (length x)) r) < B ^ (2 * length x)"
    using assms(3) by (simp add: power2_eq_square mult_2 power_add)
  note l = I_sqr_loop_ok [OF ne assms(2) this]
  have "B ^ (2 * length x - 2) \<le> (big_value x) ^ 2"
    using product_size [OF assms(1,1)] by (simp add: power2_eq_square mult_2)
  then have "big_value (I_sqr x r) = (big_value x) ^ 2 \<and> norm_ok (I_sqr x r)"
    unfolding I_sqr_def Let_def
    by (intro cut_top) (use l assms norm_ok_length_pos [OF assms(1)] in simp_all)
  then show "big_value (I_sqr x r) = (big_value x) ^ 2" "norm_ok (I_sqr x r)" by blast+
qed

end
