(* ===== verification/Big_Division.thy ===== *)
theory Big_Division
  imports Big_Digits
begin

section \<open>Division of big integers by one digit\<close>

text \<open>
  D\_div and D\_rem of big.c: long division of a vector by one digit, from the most significant digit
  down. The loop of D\_div does not consume a digit of the dividend in every round, so that its
  termination rests on the remainder being less than the divisor.
\<close>

text \<open>A zero divisor, which the callers exclude, traps in the division of DDIVREM.\<close>

datatype digit_error = Division_by_zero

text \<open>
  A round of the loop: \<open>ps\<close> are the digits of the dividend below \<open>xp\<close>, most significant first. The
  result is the digit of the quotient, the remainder and the digits left.
\<close>

definition D_div_step :: "Uint \<Rightarrow> Uint \<Rightarrow> Uint list \<Rightarrow> Uint \<times> Uint \<times> Uint list" where
  "D_div_step d a1 ps =
     (let (a1, a0, ps) = (if d > a1 then (a1, hd ps, tl ps) else (0, a1, ps));
          q0 = DDIV a1 a0 d;
          (b1, b0) = DMUL d q0;
          (b, a1) = DSUB a0 b0
      in (q0, a1, ps))"

lemma digit_mod_diff:
  fixes a1 a0 d q r :: int
  assumes "q * d + r = a1 * B + a0"
  shows "(a0 - (d * q) mod B) mod B = r mod B"
proof -
  have e: "a0 = r + d * q - a1 * B" using assms by (simp add: algebra_simps)
  have "(a0 - (d * q) mod B) mod B = (a0 - d * q) mod B" by (rule mod_diff_right_eq)
  also have "a0 - d * q = r + B * (- a1)" unfolding e by simp
  also have "\<dots> mod B = r mod B" by (rule mod_mult_self2)
  finally show ?thesis .
qed

lemma digit_division:
  assumes d: "d \<noteq> 0" and a1: "uint a1 < uint d" and m: "DMUL d (DDIV a1 a0 d) = (b1, b0)" and s: "DSUB a0 b0 = (b, r)"
  shows "uint (DDIV a1 a0 d) = (uint a1 * B + uint a0) div uint d" and "uint r = (uint a1 * B + uint a0) mod uint d"
proof -
  obtain q t where qt: "DDIVREM a1 a0 d = (q, t)" by fastforce
  note D = DDIVREM_ok [OF d a1 qt]
  have q: "DDIV a1 a0 d = q" by (simp add: DDIV_def qt)
  then show "uint (DDIV a1 a0 d) = (uint a1 * B + uint a0) div uint d" using D(1) by simp
  have dpos: "0 < uint d" using a1 uint_ge_0 [of a1] by linarith
  have "uint d * uint q = uint b1 * B + uint b0" using DMULc_ok [of d q 0 b1 b0] m q by (simp add: DMUL_def)
  then have b0: "uint b0 = (uint d * uint q) mod B" using digit_bounds [of b0] by simp
  have r: "r = a0 - b0" using s by (simp add: DSUB_def Let_def)
  have "uint r = (uint a0 - uint b0) mod B" unfolding r by (simp add: uint_word_ariths(2))
  also have "\<dots> = ((uint a1 * B + uint a0) mod uint d) mod B"
    unfolding b0 by (rule digit_mod_diff [where ?a1.0 = "uint a1"]) (simp only: D(1) div_mult_mod_eq)
  also have "\<dots> = (uint a1 * B + uint a0) mod uint d"
    using pos_mod_bound [OF dpos] pos_mod_sign [OF dpos] digit_bounds(2) [of d]
    by (intro mod_pos_pos_trivial) (auto intro: less_trans)
  finally show "uint r = (uint a1 * B + uint a0) mod uint d" .
qed

lemma D_div_step_ok:
  assumes d: "d \<noteq> 0" and s: "D_div_step d a1 ps = (q0, a1', ps')"
  shows "if a1 < d then uint q0 = (uint a1 * B + uint (hd ps)) div uint d \<and> uint a1' = (uint a1 * B + uint (hd ps)) mod uint d \<and> ps' = tl ps
    else uint q0 = uint a1 div uint d \<and> uint a1' = uint a1 mod uint d \<and> ps' = ps"
    and "a1' < d"
proof -
  have dpos: "0 < uint d" using d uint_ge_0 [of d] by (metis less_le uint_0_iff)
  define c1 c0 where "c1 = (if d > a1 then a1 else 0)" and "c0 = (if d > a1 then hd ps else a1)"
  obtain b1 b0 where m: "DMUL d (DDIV c1 c0 d) = (b1, b0)" by fastforce
  obtain b r where r: "DSUB c0 b0 = (b, r)" by fastforce
  have c: "uint c1 < uint d" using dpos by (simp add: c1_def word_less_def)
  note D = digit_division [OF d c m r]
  have e: "q0 = DDIV c1 c0 d" "a1' = r" "ps' = (if d > a1 then tl ps else ps)"
    using s m r by (auto simp: D_div_step_def Let_def c1_def c0_def split: if_splits)
  show "if a1 < d then uint q0 = (uint a1 * B + uint (hd ps)) div uint d \<and> uint a1' = (uint a1 * B + uint (hd ps)) mod uint d \<and> ps' = tl ps
    else uint q0 = uint a1 div uint d \<and> uint a1' = uint a1 mod uint d \<and> ps' = ps"
    using D unfolding e by (cases "a1 < d") (simp_all add: c1_def c0_def)
  show "a1' < d" unfolding e word_less_def D(2) by (rule pos_mod_bound [OF dpos])
qed

function D_div_loop :: "Uint \<Rightarrow> Uint \<Rightarrow> Uint list \<Rightarrow> Uint list \<Rightarrow> digit_error + (Uint list \<times> Uint)" where
  "D_div_loop d a1 ps q =
     (if d = 0 then Inl Division_by_zero
      else case D_div_step d a1 ps of (q0, a1, ps) \<Rightarrow>
        if ps = [] then Inr (q0 # q, a1) else D_div_loop d a1 ps (q0 # q))"
  by pat_completeness auto
termination
proof (relation "measure (\<lambda>(d, a1, ps, q). 2 * length ps + (if d \<le> a1 then 1 else 0))")
  fix d a1 :: Uint and ps q :: "Uint list" and q0 t a1' ps'
  assume d: "d \<noteq> 0" and s: "(q0, t) = D_div_step d a1 ps" "(a1', ps') = t" and ne: "ps' \<noteq> []"
  have e: "D_div_step d a1 ps = (q0, a1', ps')" using s by simp
  have "ps' = (if a1 < d then tl ps else ps)" "a1' < d"
    using D_div_step_ok [OF d e] by (simp_all split: if_splits)
  with ne show "((d, a1', ps', q0 # q), (d, a1, ps, q)) \<in> measure (\<lambda>(d, a1, ps, q). 2 * length ps + (if d \<le> a1 then 1 else 0))"
    by (cases ps; cases "a1 < d") (auto simp: not_le)
qed simp

declare D_div_loop.simps [simp del]

definition D_div :: "Uint list \<Rightarrow> Uint \<Rightarrow> digit_error + (Uint list \<times> Uint)" where
  "D_div x d =
     (let a1 = last x in
      if d > a1 \<and> length x = 1 then Inr ([0], a1) else D_div_loop d a1 (rev (butlast x)) [])"

fun D_rem_loop :: "Uint \<Rightarrow> Uint list \<Rightarrow> Uint \<Rightarrow> Uint" where
  "D_rem_loop d [] rem = rem"
| "D_rem_loop d (x # xs) rem = D_rem_loop d xs (if rem \<noteq> 0 then DREM rem x d else DREM 0 x d)"

definition D_rem :: "Uint list \<Rightarrow> Uint \<Rightarrow> Uint" where
  "D_rem x d = D_rem_loop d (rev x) 0"

lemma long_division:
  fixes q d P N :: int
  assumes "0 < d"
  shows "(q * d * P + N) div d = q * P + N div d" and "(q * d * P + N) mod d = N mod d"
proof -
  have e: "q * d * P + N = N + (q * P) * d" by (simp add: algebra_simps)
  show "(q * d * P + N) div d = q * P + N div d" unfolding e using assms by simp
  show "(q * d * P + N) mod d = N mod d" unfolding e by simp
qed

lemma D_div_loop_ok:
  assumes "d \<noteq> 0" and "a1 < d \<Longrightarrow> ps \<noteq> []"
  shows "\<exists>new r. D_div_loop d a1 ps q = Inr (new @ q, r) \<and>
    big_value new = (uint a1 * B ^ length ps + big_value (rev ps)) div uint d \<and>
    uint r = (uint a1 * B ^ length ps + big_value (rev ps)) mod uint d \<and>
    length new = length ps + (if d \<le> a1 then 1 else 0)"
  using assms
proof (induction d a1 ps q rule: D_div_loop.induct)
  case (1 d a1 ps q)
  obtain q0 a1' ps' where s: "D_div_step d a1 ps = (q0, a1', ps')" by (metis prod_cases3)
  have dpos: "0 < uint d" using 1(2) uint_ge_0 [of d] by (metis less_le uint_0_iff)
  note S = D_div_step_ok [OF 1(2) s]
  let ?N = "uint a1 * B ^ length ps + big_value (rev ps)" and ?N' = "uint a1' * B ^ length ps' + big_value (rev ps')"
  have N: "?N = uint q0 * uint d * B ^ length ps' + ?N'"
  proof (cases "a1 < d")
    case True
    then obtain p t where ps: "ps = p # t" using 1(3) by (cases ps) auto
    have e: "uint a1 * B + uint p = uint q0 * uint d + uint a1'" using S True ps by simp
    have "?N = (uint a1 * B + uint p) * B ^ length t + big_value (rev t)" by (simp add: ps big_value_append algebra_simps)
    also have "\<dots> = uint q0 * uint d * B ^ length t + (uint a1' * B ^ length t + big_value (rev t))"
      unfolding e by (simp add: algebra_simps)
    finally show ?thesis using S True ps by simp
  next
    case False
    then have e: "uint a1 = uint q0 * uint d + uint a1'" "ps' = ps" using S by simp_all
    show ?thesis unfolding e(1) e(2) by (simp add: algebra_simps)
  qed
  have len: "length ps = length ps' + (if d \<le> a1 then 0 else 1)" using S 1(3) by (cases ps) (auto split: if_splits)
  show ?case
  proof (cases "ps' = []")
    case True
    have "D_div_loop d a1 ps q = Inr ([q0] @ q, a1')" using 1(2) s True by (subst D_div_loop.simps) simp
    moreover have "?N' div uint d = 0" "?N' mod uint d = uint a1'"
      using True S(2) uint_ge_0 [of a1'] by (simp_all add: word_less_def)
    ultimately show ?thesis using long_division [OF dpos, of "uint q0" "B ^ length ps'" "?N'"] True len unfolding N
      by (intro exI [of _ "[q0]"] exI [of _ a1']) (auto split: if_splits)
  next
    case False
    obtain new r where n: "D_div_loop d a1' ps' (q0 # q) = Inr (new @ q0 # q, r)" "big_value new = ?N' div uint d"
      "uint r = ?N' mod uint d" "length new = length ps'"
      using 1(1) [OF 1(2) s [symmetric] refl False 1(2)] S(2) False by (auto simp: not_le)
    have "D_div_loop d a1 ps q = Inr ((new @ [q0]) @ q, r)" using 1(2) s False n(1) by (subst D_div_loop.simps) simp
    moreover have "big_value (new @ [q0]) = ?N div uint d"
      unfolding big_value_snoc N long_division(1) [OF dpos] n(2,4) by (simp add: algebra_simps)
    moreover have "uint r = ?N mod uint d" unfolding N long_division(2) [OF dpos] by (rule n(3))
    ultimately show ?thesis using n(4) len
      by (intro exI [of _ "new @ [q0]"] exI [of _ r]) (auto split: if_splits)
  qed
qed

lemma mod_times_add: "(a mod d * b + c) mod d = (a * b + c) mod d" for a b c d :: int
  by (metis mod_add_left_eq mod_mult_left_eq)

text \<open>D\_div ends for every divisor but zero, and divides: the quotient has no zero on top.\<close>

lemma D_div_ok:
  assumes "norm_ok x" and "d \<noteq> 0"
  obtains q r where "D_div x d = Inr (q, r)" and "big_value q = big_value x div uint d" and "uint r = big_value x mod uint d"
    and "norm_ok q \<or> q = [0]"
proof -
  obtain ps a1 where x: "x = ps @ [a1]" using assms(1) by (cases x rule: rev_cases) (auto simp: norm_ok_def)
  have v: "big_value x = uint a1 * B ^ length (rev ps) + big_value (rev (rev ps))" by (simp add: x big_value_snoc)
  have dpos: "0 < uint d" using assms(2) uint_ge_0 [of d] by (metis less_le uint_0_iff)
  show thesis
  proof (cases "a1 < d \<and> ps = []")
    case True
    then have e: "D_div x d = Inr ([0], a1)" by (simp add: D_div_def x Let_def)
    have "big_value x = uint a1" "uint a1 < uint d" using True x by (simp_all add: word_less_def)
    then show thesis using uint_ge_0 [of a1] by (intro that [OF e]) simp_all
  next
    case False
    then have "\<exists>new r. D_div_loop d a1 (rev ps) [] = Inr (new @ [], r) \<and>
        big_value new = big_value x div uint d \<and> uint r = big_value x mod uint d \<and>
        length new = length (rev ps) + (if d \<le> a1 then 1 else 0)"
      unfolding v by (intro D_div_loop_ok assms(2)) simp
    then obtain q r where
      q: "D_div_loop d a1 (rev ps) [] = Inr (q, r)" "big_value q = big_value x div uint d" "uint r = big_value x mod uint d"
      and l: "length q = length ps + (if d \<le> a1 then 1 else 0)" by auto
    have e: "D_div x d = Inr (q, r)" using False q(1) by (auto simp: D_div_def x Let_def)
    have "B ^ (length q - 1) \<le> big_value q"
    proof (cases "d \<le> a1")
      case True
      have "B ^ length ps * uint d \<le> B ^ length ps * uint a1" using True by (intro mult_left_mono) (simp_all add: word_le_def)
      then have "B ^ length ps * uint d \<le> big_value x" using big_value_bounds(1) [of ps] unfolding x big_value_snoc by linarith
      then show ?thesis using True l unfolding q(2) le_div_pos [OF dpos] by simp
    next
      case F: False
      then obtain n where n: "length ps = Suc n" using False by (cases ps) auto
      have "uint a1 \<noteq> 0" using assms(1) x by (simp add: norm_ok_def uint_0_iff)
      then have "1 \<le> uint a1" using uint_ge_0 [of a1] by linarith
      then have "B ^ length ps * 1 \<le> B ^ length ps * uint a1" by (intro mult_left_mono) simp_all
      then have "B ^ length ps * 1 \<le> big_value x" using big_value_bounds(1) [of ps] unfolding x big_value_snoc by linarith
      then have "B ^ n * B \<le> big_value x" by (simp add: n mult.commute)
      moreover have "B ^ n * uint d \<le> B ^ n * B" using digit_bounds(2) [of d] by (intro mult_left_mono) simp_all
      ultimately have "B ^ n * uint d \<le> big_value x" by linarith
      then show ?thesis using F l n unfolding q(2) le_div_pos [OF dpos] by simp
    qed
    moreover have "length q = Suc (length q - 1)" using l False by (cases ps) (auto simp: not_le)
    ultimately show thesis using norm_okI [of q "length q - 1"] by (intro that [OF e q(2,3)]) simp
  qed
qed

lemma DREM_ok:
  assumes "d \<noteq> 0"
  shows "uint (DREM a1 a0 d) = (uint a1 * B + uint a0) mod uint d"
proof -
  obtain q r where r: "DDIVREM (a1 mod d) a0 d = (q, r)" by fastforce
  have dpos: "0 < uint d" using assms uint_ge_0 [of d] by (metis less_le uint_0_iff)
  have m: "uint (a1 mod d) = uint a1 mod uint d" by (rule uint_mod)
  have "uint r = (uint (a1 mod d) * B + uint a0) mod uint d"
    by (rule DDIVREM_ok(2) [OF assms _ r]) (simp only: m pos_mod_bound [OF dpos])
  also have "\<dots> = (uint a1 * B + uint a0) mod uint d" unfolding m by (rule mod_times_add)
  finally show ?thesis by (simp add: DREM_def r)
qed

lemma D_rem_loop_ok:
  "d \<noteq> 0 \<Longrightarrow> uint rem < uint d \<Longrightarrow>
     uint (D_rem_loop d xs rem) = (uint rem * B ^ length xs + big_value (rev xs)) mod uint d"
proof (induction xs arbitrary: rem)
  case (Cons x xs)
  have e: "D_rem_loop d (x # xs) rem = D_rem_loop d xs (DREM rem x d)" by simp
  have dpos: "0 < uint d" using Cons.prems(2) uint_ge_0 [of rem] by linarith
  have b: "uint (DREM rem x d) < uint d" unfolding DREM_ok [OF Cons.prems(1)] by (rule pos_mod_bound [OF dpos])
  have "((uint rem * B + uint x) mod uint d * B ^ length xs + big_value (rev xs)) mod uint d =
      ((uint rem * B + uint x) * B ^ length xs + big_value (rev xs)) mod uint d" by (rule mod_times_add)
  then show ?case unfolding e Cons.IH [OF Cons.prems(1) b] DREM_ok [OF Cons.prems(1)]
    by (simp add: big_value_append algebra_simps)
qed simp

lemma D_rem_ok:
  assumes "d \<noteq> 0"
  shows "uint (D_rem x d) = big_value x mod uint d"
proof -
  have "0 < uint d" using assms uint_ge_0 [of d] by (metis less_le uint_0_iff)
  then show ?thesis using D_rem_loop_ok [OF assms, of 0 "rev x"] by (simp add: D_rem_def)
qed

end
