(* ===== verification/Long_Division.thy ===== *)
theory Long_Division
  imports Big_Division
begin

section \<open>Division of big integers\<close>

text \<open>
  I\_div and I\_rem of big.c for divisors of two or more digits, with the division of two digits by
  two digits (DDIV2) they estimate a digit of the quotient with. The remainder is kept as an absolute
  value with the sign r\_signed: an estimate that is too large makes the remainder negative, and the
  next digits are subtracted from the quotient. The loops are partial functions: that they end is
  part of what is proved.
\<close>

subsection \<open>Two digits\<close>

definition D2GT :: "Uint \<Rightarrow> Uint \<Rightarrow> Uint \<Rightarrow> Uint \<Rightarrow> bool" where
  "D2GT a1 a0 b1 b0 \<longleftrightarrow> a1 > b1 \<or> (a1 = b1 \<and> a0 > b0)"

definition D2GTE :: "Uint \<Rightarrow> Uint \<Rightarrow> Uint \<Rightarrow> Uint \<Rightarrow> bool" where
  "D2GTE a1 a0 b1 b0 \<longleftrightarrow> \<not> D2GT b1 b0 a1 a0"

definition D2SUB :: "Uint \<Rightarrow> Uint \<Rightarrow> Uint \<Rightarrow> Uint \<Rightarrow> Uint \<times> Uint" where
  "D2SUB a1 a0 b1 b0 = (let (bi, c0) = DSUB a0 b0; (bi, c1) = DSUBb a1 b1 bi in (c1, c0))"

definition D2MULc :: "Uint \<Rightarrow> Uint \<Rightarrow> Uint \<Rightarrow> Uint \<Rightarrow> Uint \<times> Uint \<times> Uint" where
  "D2MULc a b1 b0 d2 = (let (d2, d0) = DMULc a b0 d2; (d2, d1) = DMULc a b1 d2 in (d2, d1, d0))"

definition QUOT_LIM :: Uint where "QUOT_LIM = 0x7FFFFFFFFFFFFFFF"

text \<open>The loop of D2DIVREM, with the quotient so far and its direction.\<close>

definition D2_estimate :: "Uint \<Rightarrow> Uint \<Rightarrow> Uint" where
  "D2_estimate a1 b1 =
     (if b1 = 1 \<and> a1 > 1 then a1 div 2
      else if a1 > QUOT_LIM \<and> b1 < a1 then a1 div (b1 + 1)
      else a1 div b1)"

partial_function (option) D2DIVREM_loop ::
  "Uint \<Rightarrow> Uint \<Rightarrow> Uint \<Rightarrow> Uint \<Rightarrow> Uint \<Rightarrow> bool \<Rightarrow> (Uint \<times> Uint \<times> Uint \<times> bool) option" where
  "D2DIVREM_loop a1 a0 b1 b0 q as_neg =
     (if D2GTE a1 a0 b1 b0
      then let q1 = D2_estimate a1 b1;
               q = (if as_neg then q - q1 else q + q1);
               (t2, t1, t0) = D2MULc q1 b1 b0 0
           in if D2GT t1 t0 a1 a0
              then (case D2SUB t1 t0 a1 a0 of (a1, a0) \<Rightarrow> D2DIVREM_loop a1 a0 b1 b0 q (\<not> as_neg))
              else (case D2SUB a1 a0 t1 t0 of (a1, a0) \<Rightarrow> D2DIVREM_loop a1 a0 b1 b0 q as_neg)
      else Some (q, a1, a0, as_neg))"

declare D2DIVREM_loop.simps [code]

definition D2DIVREM :: "Uint \<Rightarrow> Uint \<Rightarrow> Uint \<Rightarrow> Uint \<Rightarrow> (Uint \<times> Uint \<times> Uint) option" where
  "D2DIVREM a1 a0 b1 b0 =
     (case D2DIVREM_loop a1 a0 b1 b0 0 False of
        None \<Rightarrow> None
      | Some (q, a1, a0, as_neg) \<Rightarrow>
          if as_neg then (case D2SUB b1 b0 a1 a0 of (a1, a0) \<Rightarrow> Some (q - 1, a1, a0))
          else Some (q, a1, a0))"

definition DDIV2 :: "Uint \<Rightarrow> Uint \<Rightarrow> Uint \<Rightarrow> Uint \<Rightarrow> Uint option" where
  "DDIV2 a1 a0 b1 b0 = map_option fst (D2DIVREM a1 a0 b1 b0)"

abbreviation two :: "Uint \<Rightarrow> Uint \<Rightarrow> int" where "two a1 a0 \<equiv> uint a1 * B + uint a0"

lemma two_compare:
  fixes a1 a0 b1 b0 :: int
  assumes "0 \<le> a0" "a0 < B" "0 \<le> b0" "b0 < B"
  shows "a1 * B + a0 > b1 * B + b0 \<longleftrightarrow> a1 > b1 \<or> (a1 = b1 \<and> a0 > b0)"
  using assms by (cases a1 b1 rule: linorder_cases) auto

lemma D2GT_ok: "D2GT a1 a0 b1 b0 \<longleftrightarrow> two a1 a0 > two b1 b0"
  unfolding two_compare [OF digit_bounds [of a0] digit_bounds [of b0]] D2GT_def word_less_def word_uint_eq_iff ..

lemma D2SUB_ok:
  assumes "two b1 b0 \<le> two a1 a0" and "D2SUB a1 a0 b1 b0 = (c1, c0)"
  shows "two c1 c0 = two a1 a0 - two b1 b0"
proof -
  obtain bi where s0: "DSUB a0 b0 = (bi, c0)" and s1: "snd (DSUBb a1 b1 bi) = c1"
    using assms(2) by (auto simp: D2SUB_def Let_def split: prod.splits)
  obtain k where k: "DSUBb a1 b1 bi = (k, c1)" using s1 by (cases "DSUBb a1 b1 bi") auto
  have e: "two a1 a0 - two b1 b0 = two c1 c0 - B * B * uint k"
    using DSUB_ok [OF s0] DSUBb_ok(1) [OF k] by (simp add: algebra_simps)
  have "(two a1 a0 - two b1 b0) + B * 0 + B * B * uint k < B * B"
    using e digit_bounds [of c1] digit_bounds [of c0] by simp
  then have "uint k = 0" by (rule top_digit_zero) (use assms(1) digit_bounds(1) [of k] in simp_all)
  then show ?thesis using e by simp
qed

lemma D2MULc_ok:
  assumes "D2MULc a b1 b0 0 = (t2, t1, t0)"
  shows "uint a * two b1 b0 = B * B * uint t2 + two t1 t0"
proof -
  obtain d2 where m: "DMULc a b0 0 = (d2, t0)" "DMULc a b1 d2 = (t2, t1)"
    using assms by (auto simp: D2MULc_def Let_def split: prod.splits)
  show ?thesis using DMULc_ok [OF m(1)] DMULc_ok [OF m(2)] by (simp add: algebra_simps)
qed

text \<open>The estimate is at least one and does not overshoot by as much as the number divided.\<close>

lemma D2_estimate_bounds:
  assumes b: "1 \<le> uint b1" and le: "uint b1 \<le> uint a1"
  shows "1 \<le> uint (D2_estimate a1 b1)"
    and "uint (D2_estimate a1 b1) * (uint b1 + 1) \<le> uint a1
      \<or> uint (D2_estimate a1 b1) = 1 \<and> uint b1 = uint a1
      \<or> uint (D2_estimate a1 b1) * (uint b1 + 1) \<le> 2 * uint a1 \<and> 2 * uint a1 < B"
proof -
  have a: "uint a1 < B" by (rule digit_bounds(2))
  have Q: "uint QUOT_LIM = 2 ^ 63 - 1" by (simp add: QUOT_LIM_def)
  consider (one) "b1 = 1" "a1 > 1" | (big) "\<not> (b1 = 1 \<and> a1 > 1)" "a1 > QUOT_LIM" "b1 < a1"
    | (plain) "\<not> (b1 = 1 \<and> a1 > 1)" "\<not> (a1 > QUOT_LIM \<and> b1 < a1)" by blast
  then have "1 \<le> uint (D2_estimate a1 b1) \<and> (uint (D2_estimate a1 b1) * (uint b1 + 1) \<le> uint a1
      \<or> uint (D2_estimate a1 b1) = 1 \<and> uint b1 = uint a1
      \<or> uint (D2_estimate a1 b1) * (uint b1 + 1) \<le> 2 * uint a1 \<and> 2 * uint a1 < B)"
  proof cases
    case one
    then have "uint (D2_estimate a1 b1) = uint a1 div 2" by (simp add: D2_estimate_def uint_div)
    moreover have "2 \<le> uint a1" using one(2) by (simp add: word_less_def)
    then have "1 \<le> uint a1 div 2" by (simp add: le_div_pos)
    moreover have "uint a1 div 2 * 2 \<le> uint a1" using le_div_pos [of 2 "uint a1 div 2" "uint a1"] by simp
    ultimately show ?thesis using one by simp
  next
    case big
    then have l: "uint b1 < uint a1" by (simp add: word_less_def)
    then have "uint (b1 + 1) = uint b1 + 1" using a by (simp add: uint_plus_if_size word_size)
    then have e: "uint (D2_estimate a1 b1) = uint a1 div (uint b1 + 1)"
      using big by (auto simp: D2_estimate_def uint_div)
    have pos: "0 < uint b1 + 1" using b by linarith
    have "1 \<le> uint a1 div (uint b1 + 1)" unfolding le_div_pos [OF pos] using l by simp
    moreover have "uint a1 div (uint b1 + 1) * (uint b1 + 1) \<le> uint a1" using le_div_pos [OF pos] by blast
    ultimately show ?thesis unfolding e by blast
  next
    case plain
    then have e: "uint (D2_estimate a1 b1) = uint a1 div uint b1" by (auto simp: D2_estimate_def uint_div)
    have pos: "0 < uint b1" using b by linarith
    have g: "1 \<le> uint a1 div uint b1" unfolding le_div_pos [OF pos] using le by simp
    have q: "uint a1 div uint b1 * uint b1 \<le> uint a1" using le_div_pos [OF pos] by blast
    have qa: "uint a1 div uint b1 \<le> uint a1" using q b mult_left_mono [of 1 "uint b1" "uint a1 div uint b1"] g by linarith
    show ?thesis
    proof (cases "uint b1 = uint a1")
      case True
      then show ?thesis unfolding e using pos by simp
    next
      case False
      then have "b1 < a1" using le by (simp add: word_less_def)
      then have "uint a1 \<le> 2 ^ 63 - 1" using plain(2) unfolding Q [symmetric] by (auto simp: word_less_def not_less)
      then have "2 * uint a1 < B" by simp
      moreover have "uint a1 div uint b1 * (uint b1 + 1) \<le> 2 * uint a1" using q qa by (simp add: algebra_simps)
      ultimately show ?thesis unfolding e using g by blast
    qed
  qed
  then show "1 \<le> uint (D2_estimate a1 b1)"
    and "uint (D2_estimate a1 b1) * (uint b1 + 1) \<le> uint a1
      \<or> uint (D2_estimate a1 b1) = 1 \<and> uint b1 = uint a1
      \<or> uint (D2_estimate a1 b1) * (uint b1 + 1) \<le> 2 * uint a1 \<and> 2 * uint a1 < B" by blast+
qed

lemma product_two_digits:
  fixes q1 b1 b0 a1 a0 H :: int
  assumes H: "1 \<le> H" and "1 \<le> q1" and "1 \<le> b1" and "0 \<le> b0" "b0 < H" and "0 \<le> a0" "a0 < H" and "a1 < H"
    and le: "b1 * H + b0 \<le> a1 * H + a0"
    and q: "q1 * (b1 + 1) \<le> a1 \<or> q1 = 1 \<and> b1 = a1 \<or> q1 * (b1 + 1) \<le> 2 * a1 \<and> 2 * a1 < H"
  shows "q1 * (b1 * H + b0) < 2 * (a1 * H + a0) \<and> q1 * (b1 * H + b0) < H * H"
proof -
  define t where "t = q1 * (b1 * H + b0)"
  define u where "u = (q1 * (b1 + 1)) * H"
  define v where "v = a1 * H"
  have "q1 * (b1 * H + b0) < q1 * ((b1 + 1) * H)" using assms(2,5) by (intro mult_strict_left_mono) (simp_all add: algebra_simps)
  then have t: "t < u" by (simp add: t_def u_def algebra_simps)
  have "1 * H \<le> b1 * H" using H assms(3) by (intro mult_right_mono) simp_all
  then have pos: "H \<le> v + a0" using le assms(4) unfolding v_def by linarith
  have "(a1 + 1) * H \<le> H * H" using H assms(8) by (intro mult_right_mono) simp_all
  then have top: "v + H \<le> H * H" by (simp add: v_def algebra_simps)
  from q have "t < 2 * (v + a0) \<and> t < H * H"
  proof (elim disjE conjE)
    assume "q1 * (b1 + 1) \<le> a1"
    then have "u \<le> v" unfolding u_def v_def using H by (intro mult_right_mono) simp_all
    then show ?thesis using t pos top assms(6) H by auto
  next
    assume "q1 = 1"
    then have "t \<le> v + a0" using le by (simp add: t_def v_def)
    then show ?thesis using pos top H assms(7) by auto
  next
    assume "q1 * (b1 + 1) \<le> 2 * a1" "2 * a1 < H"
    then have "u \<le> (2 * a1) * H" "(2 * a1) * H \<le> H * H" unfolding u_def using H by (intro mult_right_mono; simp)+
    then show ?thesis using t assms(6) unfolding v_def by auto
  qed
  then show ?thesis unfolding t_def v_def .
qed

lemma two_bounds: "0 \<le> two a1 a0" "two a1 a0 < B * B" "1 \<le> uint a1 \<Longrightarrow> B \<le> two a1 a0"
  using digit_bounds [of a1] digit_bounds [of a0] by (simp_all add: add_increasing2)

lemma quotient_range:
  fixes Q b a c H :: int
  assumes "0 < H" and e: "a = Q * b + c" and "0 \<le> c" and "c \<le> b" and "b \<le> a" and "H \<le> b" and "a < H * H"
  shows "0 \<le> Q \<and> Q < H"
proof (intro conjI; rule ccontr)
  assume "\<not> 0 \<le> Q"
  then have "Q * b \<le> (- 1) * b" using assms(1,6) by (intro mult_right_mono) simp_all
  then show False using e assms by linarith
next
  assume "\<not> Q < H"
  then have "H * H \<le> Q * b" using assms(1,6) by (intro mult_mono) simp_all
  then show False using e assms by linarith
qed

lemma D2DIVREM_loop_ok:
  assumes "1 \<le> uint b1" and "N = Q * two b1 b0 + (if neg then - two a1 a0 else two a1 a0)" and "q = word_of_int Q"
  shows "\<exists>Q' r1 r0 neg'. D2DIVREM_loop a1 a0 b1 b0 q neg = Some (word_of_int Q', r1, r0, neg') \<and>
    two r1 r0 < two b1 b0 \<and> N = Q' * two b1 b0 + (if neg' then - two r1 r0 else two r1 r0)"
  using assms(2,3)
proof (induction "nat (two a1 a0)" arbitrary: a1 a0 q Q neg rule: less_induct)
  case less
  show ?case
  proof (cases "D2GTE a1 a0 b1 b0")
    case False
    then have "D2DIVREM_loop a1 a0 b1 b0 q neg = Some (word_of_int Q, a1, a0, neg)"
      using less.prems(2) by (subst D2DIVREM_loop.simps) simp
    moreover have "two a1 a0 < two b1 b0" using False by (simp only: D2GTE_def D2GT_ok not_not)
    ultimately show ?thesis using less.prems(1) by blast
  next
    case True
    then have le: "two b1 b0 \<le> two a1 a0" by (simp only: D2GTE_def D2GT_ok not_less)
    then have "b1 \<le> a1" using True by (auto simp: D2GTE_def D2GT_def)
    then have le1: "uint b1 \<le> uint a1" by (simp only: word_le_def)
    define q1 where "q1 = D2_estimate a1 b1"
    note q1 = D2_estimate_bounds [OF assms(1) le1, folded q1_def]
    obtain t2 t1 t0 where m: "D2MULc q1 b1 b0 0 = (t2, t1, t0)" by (metis prod_cases3)
    note T = D2MULc_ok [OF m]
    have H: "(1 :: int) \<le> B" by simp
    note P = product_two_digits [OF H q1(1) assms(1) digit_bounds digit_bounds digit_bounds(2) le q1(2)]
    have "two t1 t0 + B * 0 + B * B * uint t2 < B * B" using P T by simp
    then have "uint t2 = 0" by (rule top_digit_zero) simp_all
    then have T: "two t1 t0 = uint q1 * two b1 b0" using T by simp
    have bpos: "1 \<le> two b1 b0" by (rule order_trans [OF _ two_bounds(3) [OF assms(1)]]) simp
    have tpos: "1 \<le> two t1 t0" unfolding T using mult_mono [OF q1(1) bpos] by simp
    define Q1 where "Q1 = (if neg then Q - uint q1 else Q + uint q1)"
    have w: "(if neg then q - q1 else q + q1) = word_of_int Q1"
      unfolding Q1_def less.prems(2) by simp
    have N: "N = Q1 * two b1 b0 + (if neg then two t1 t0 - two a1 a0 else two a1 a0 - two t1 t0)"
      unfolding less.prems(1) T Q1_def by (simp add: algebra_simps)
    show ?thesis
    proof (cases "D2GT t1 t0 a1 a0")
      case gt: True
      then have l: "two a1 a0 < two t1 t0" by (simp only: D2GT_ok)
      obtain c1 c0 where c: "D2SUB t1 t0 a1 a0 = (c1, c0)" by fastforce
      note C = D2SUB_ok [OF less_imp_le [OF l] c]
      have e: "D2DIVREM_loop a1 a0 b1 b0 q neg = D2DIVREM_loop c1 c0 b1 b0 (word_of_int Q1) (\<not> neg)"
        using True gt by (subst D2DIVREM_loop.simps) (simp add: Let_def q1_def [symmetric] m c w)
      have "nat (two c1 c0) < nat (two a1 a0)" unfolding C using P l T by simp
      moreover have "N = Q1 * two b1 b0 + (if \<not> neg then - two c1 c0 else two c1 c0)" using N C by auto
      ultimately show ?thesis unfolding e using less.hyps by blast
    next
      case gt: False
      then have l: "two t1 t0 \<le> two a1 a0" by (simp only: D2GT_ok not_less)
      obtain c1 c0 where c: "D2SUB a1 a0 t1 t0 = (c1, c0)" by fastforce
      note C = D2SUB_ok [OF l c]
      have e: "D2DIVREM_loop a1 a0 b1 b0 q neg = D2DIVREM_loop c1 c0 b1 b0 (word_of_int Q1) neg"
        using True gt by (subst D2DIVREM_loop.simps) (simp add: Let_def q1_def [symmetric] m c w)
      have "nat (two c1 c0) < nat (two a1 a0)" unfolding C using tpos l by simp
      moreover have "N = Q1 * two b1 b0 + (if neg then - two c1 c0 else two c1 c0)" using N C by auto
      ultimately show ?thesis unfolding e using less.hyps by blast
    qed
  qed
qed

text \<open>
  Quotient and remainder, but for multiples of the divisor: the loop may reach the remainder zero with
  the negative direction, and the correction after it then makes the remainder the divisor and the
  quotient one too small.
\<close>

lemma D2DIVREM_ok:
  assumes "1 \<le> uint b1" and "two b1 b0 \<le> two a1 a0"
  shows "\<exists>q r1 r0. D2DIVREM a1 a0 b1 b0 = Some (q, r1, r0) \<and>
    two a1 a0 = uint q * two b1 b0 + two r1 r0 \<and> two r1 r0 \<le> two b1 b0"
proof -
  have N: "two a1 a0 = 0 * two b1 b0 + (if False then - two a1 a0 else two a1 a0)" by simp
  obtain Q r1 r0 neg where l: "D2DIVREM_loop a1 a0 b1 b0 0 False = Some (word_of_int Q, r1, r0, neg)"
    and r: "two r1 r0 < two b1 b0" and e: "two a1 a0 = Q * two b1 b0 + (if neg then - two r1 r0 else two r1 r0)"
    using D2DIVREM_loop_ok [OF assms(1) N, of 0] by auto
  define Q' where "Q' = (if neg then Q - 1 else Q)"
  obtain c1 c0 where c: "(if neg then D2SUB b1 b0 r1 r0 else (r1, r0)) = (c1, c0)" by fastforce
  have C: "two c1 c0 = (if neg then two b1 b0 - two r1 r0 else two r1 r0)"
    using c D2SUB_ok [OF less_imp_le [OF r]] by (auto split: if_splits)
  have D: "D2DIVREM a1 a0 b1 b0 = Some (word_of_int Q', c1, c0)"
    using c by (auto simp: D2DIVREM_def l Q'_def split: if_splits)
  have e': "two a1 a0 = Q' * two b1 b0 + two c1 c0" unfolding e C Q'_def by (simp add: algebra_simps)
  have cle: "two c1 c0 \<le> two b1 b0" unfolding C using r two_bounds(1) [of r1 r0] by (cases neg; simp only: if_True if_False; linarith)
  have c0: "0 \<le> two c1 c0" by (rule two_bounds(1))
  have b: "B \<le> two b1 b0" by (rule two_bounds(3) [OF assms(1)])
  have H: "(0 :: int) < B" by simp
  have "0 \<le> Q'" "Q' < B" using quotient_range [OF H e' c0 cle assms(2) b two_bounds(2)] by blast+
  then have "uint (word_of_int Q' :: Uint) = Q'" by (intro uint_word_of_int_small) simp_all
  then show ?thesis using D e' cle by auto
qed

lemma DDIV2_ok:
  assumes "1 \<le> uint b1" and "two b1 b0 \<le> two a1 a0"
  obtains q where "DDIV2 a1 a0 b1 b0 = Some q" and "uint q * two b1 b0 \<le> two a1 a0"
    and "two a1 a0 \<le> uint q * two b1 b0 + two b1 b0"
proof -
  obtain q r1 r0 where D: "D2DIVREM a1 a0 b1 b0 = Some (q, r1, r0)" "two a1 a0 = uint q * two b1 b0 + two r1 r0"
    "two r1 r0 \<le> two b1 b0" using D2DIVREM_ok [OF assms] by blast
  have "0 \<le> two r1 r0" by (rule two_bounds(1))
  then show thesis using D by (intro that [of q]) (simp_all add: DDIV2_def)
qed

lemma D2DIVREM_exact_multiple:
  "D2DIVREM 197 0xFFFFFFFFFFFFFFBE 2 0xFFFFFFFFFFFFFFFF = Some (65, 2, 0xFFFFFFFFFFFFFFFF)"
  "two 197 0xFFFFFFFFFFFFFFBE = 66 * two 2 0xFFFFFFFFFFFFFFFF"
  by code_simp simp

subsection \<open>Multiply and subtract\<close>

fun mulsub_loop :: "Uint \<Rightarrow> Uint list \<Rightarrow> Uint list \<Rightarrow> Uint \<Rightarrow> Uint \<Rightarrow> Uint list \<times> Uint \<times> Uint" where
  "mulsub_loop d (y # ys) (x # xs) c b =
     (let (c, c0) = DMULc d y c; (b, s) = DSUBb x c0 b;
          (ss, c, b) = mulsub_loop d ys xs c b
      in (s # ss, c, b))"
| "mulsub_loop d ys xs c b = ([], c, b)"

text \<open>The size of the result, zero for a borrow, and the digits written.\<close>

definition D_mulsub :: "Uint list \<Rightarrow> Uint \<Rightarrow> Uint list \<Rightarrow> nat \<times> Uint list" where
  "D_mulsub x d y =
     (let (r, c, b) = mulsub_loop d y x 0 0 in
      if length x = length y
      then (if c \<noteq> 0 \<or> b \<noteq> 0 then (0, r) else (length (trim r), r))
      else (let (b, s) = DSUBb (x ! length y) c b; r = r @ [s]
            in if b \<noteq> 0 then (0, r) else (length (trim r), r)))"

fun Z_sub_loop :: "Uint list \<Rightarrow> Uint \<Rightarrow> Uint list" where
  "Z_sub_loop [] c = []"
| "Z_sub_loop (y # ys) c =
     (let yr = y + c; c = of_bool (yr < c);
          yr = 0 - yr; c = c + of_bool (yr > 0)
      in yr # Z_sub_loop ys c)"

definition Z_sub :: "Uint list \<Rightarrow> nat \<times> Uint list" where
  "Z_sub y = (let r = Z_sub_loop y 0 in (length (trim r), r))"

lemma mulsub_loop_ok:
  assumes "length ys \<le> length xs" and "mulsub_loop d ys xs c b = (ss, c', b')"
  shows "big_value (take (length ys) xs) - uint d * big_value ys - uint c - uint b =
      big_value ss - B ^ length ys * (uint c' + uint b') \<and> length ss = length ys"
  using assms
proof (induction d ys xs c b arbitrary: ss c' b' rule: mulsub_loop.induct)
  case (1 d y ys x xs c b)
  obtain c1 c0 where m: "DMULc d y c = (c1, c0)" by fastforce
  obtain b1 s where s: "DSUBb x c0 b = (b1, s)" by fastforce
  obtain ts where t: "mulsub_loop d ys xs c1 b1 = (ts, c', b')" "ss = s # ts"
    using 1(3) by (auto simp: m s Let_def split: prod.splits)
  have "length ys \<le> length xs" using 1(2) by simp
  from 1(1) [OF refl m [symmetric] refl s [symmetric] this t(1)]
  have ih: "big_value (take (length ys) xs) - uint d * big_value ys - uint c1 - uint b1 =
      big_value ts - B ^ length ys * (uint c' + uint b')" "length ts = length ys" by blast+
  have "big_value (take (length (y # ys)) (x # xs)) - uint d * big_value (y # ys) - uint c - uint b =
      (uint x - uint b - (uint d * uint y + uint c)) + B * (big_value (take (length ys) xs) - uint d * big_value ys)"
    by (simp add: algebra_simps)
  also have "\<dots> = uint s + B * (big_value (take (length ys) xs) - uint d * big_value ys - uint c1 - uint b1)"
    using DMULc_ok [OF m] DSUBb_ok(1) [OF s] by (simp add: algebra_simps)
  also have "\<dots> = big_value ss - B ^ length (y # ys) * (uint c' + uint b')"
    unfolding ih(1) t(2) big_value.simps length_Cons power_Suc right_diff_distrib mult.assoc by (rule add_diff_eq)
  finally show ?case using ih(2) t(2) by simp
qed auto

lemma snoc_borrow:
  fixes V D S P c b x1 s1 H b1 :: int
  assumes "V - D = S - P * (c + b)" and "x1 - c - b = s1 - H * b1"
  shows "V + P * x1 - D = S + P * s1 - P * H * b1"
  using assms by algebra

lemma D_mulsub_ok:
  assumes "length x = length y \<or> length x = Suc (length y)" and "y \<noteq> []" and "D_mulsub x d y = (n, r)"
  shows "\<exists>k. 0 \<le> k \<and> big_value x - uint d * big_value y = big_value r - B ^ length x * k \<and>
      length r = length x \<and> n = (if k = 0 then length (trim r) else 0)"
proof -
  obtain s c b where l: "mulsub_loop d y x 0 0 = (s, c, b)" by (metis prod_cases3)
  have le: "length y \<le> length x" using assms(1) by auto
  note m = mulsub_loop_ok [OF le l]
  show ?thesis
  proof (cases "length x = length y")
    case True
    have z: "uint c + uint b = 0 \<longleftrightarrow> c = 0 \<and> b = 0"
      using digit_bounds(1) [of c] digit_bounds(1) [of b] by (auto simp: add_nonneg_eq_0_iff uint_0_iff)
    show ?thesis using True m assms(3) digit_bounds(1) [of c] digit_bounds(1) [of b]
      by (intro exI [of _ "uint c + uint b"]) (auto simp: D_mulsub_def l Let_def z split: if_splits)
  next
    case False
    then obtain xs x1 where x: "x = xs @ [x1]" "length xs = length y" using assms(1) by (cases x rule: rev_cases) auto
    obtain b1 s1 where d: "DSUBb x1 c b = (b1, s1)" by fastforce
    have r: "r = s @ [s1]" "n = (if b1 = 0 then length (trim r) else 0)"
      using assms(3) False x d by (auto simp: D_mulsub_def l [unfolded x(1)] Let_def nth_append split: if_splits)
    have "big_value xs - uint d * big_value y = big_value s - B ^ length y * (uint c + uint b)" using m x by simp
    from snoc_borrow [OF this DSUBb_ok(1) [OF d]]
    have "big_value x - uint d * big_value y = big_value r - B ^ length x * uint b1"
      using m unfolding r(1) x(1) big_value_snoc by (simp add: x(2) mult.commute)
    then show ?thesis using m r x digit_bounds(1) [of b1]
      by (intro exI [of _ "uint b1"]) (auto simp: uint_0_iff)
  qed
qed

lemma Z_sub_loop_ok:
  "uint c \<le> 1 \<Longrightarrow> big_value (Z_sub_loop y c) = (- big_value y - uint c) mod B ^ length y \<and>
     length (Z_sub_loop y c) = length y"
proof (induction y arbitrary: c)
  case (Cons y ys)
  let ?c = "of_bool (y + c < c) + of_bool (0 - (y + c) > 0) :: Uint" and ?d = "0 - (y + c)"
  have e: "Z_sub_loop (y # ys) c = ?d # Z_sub_loop ys ?c" by (simp add: Let_def)
  have f: "uint y + uint c = uint (y + c) + B * of_bool (y + c < c)" by (rule carry_add(2))
  have g: "- uint (y + c) = uint ?d - B * of_bool (0 < ?d)" using borrow_sub [of 0 "y + c"] by simp
  have c: "uint ?c \<le> 1"
  proof -
    have "uint ?c = of_bool (y + c < c) + of_bool (0 < ?d)" by (rule uint_of_bool(2))
    moreover have "\<not> (y + c < c \<and> 0 < ?d)"
    proof
      assume a: "y + c < c \<and> 0 < ?d"
      then have "uint (y + c) < uint c" by (simp only: word_less_def)
      then have "uint (y + c) = 0" using Cons.prems digit_bounds(1) [of "y + c"] by linarith
      then have "y + c = 0" by (simp only: uint_0_iff)
      then show False using a by simp
    qed
    ultimately show ?thesis by auto
  qed
  note ih = Cons.IH [OF c]
  have v: "- big_value (y # ys) - uint c = uint ?d + B * (- big_value ys - uint ?c)"
    using f g unfolding uint_of_bool(2) by (simp add: algebra_simps)
  have "(- big_value (y # ys) - uint c) mod (B * B ^ length ys) = uint ?d + B * ((- big_value ys - uint ?c) mod B ^ length ys)"
  proof -
    have "(uint ?d + B * N) div B = N" "(uint ?d + B * N) mod B = uint ?d" for N
      using digit_bounds [of ?d] by simp_all
    then show ?thesis unfolding v by (simp only: zmod_zmult2_eq zero_le_power zero_le_numeral)
  qed
  then show ?case unfolding e using ih by simp
qed simp

subsection \<open>The estimate of a digit\<close>

text \<open>
  The digit \<open>q0\<close> for the two digits \<open>a1\<close> and \<open>a2\<close> on top of the remainder, and whether it belongs to
  the next lower position.
\<close>

definition div_estimate :: "Uint list \<Rightarrow> Uint \<Rightarrow> Uint \<Rightarrow> (Uint \<times> bool) option" where
  "div_estimate y a1 a2 =
     (let b1 = y ! (length y - 1); b2 = y ! (length y - 2) in
      if b1 < a1 then map_option (\<lambda>q0. (q0, False)) (DDIV2 a1 a2 b1 b2)
      else if b1 > a1 then Some (DDIV a1 a2 b1, True)
      else if b2 \<le> a2 then Some (1, False)
      else Some (D_MASK, True))"

lemma estimate_range:
  fixes A q D P Y u t H :: int
  assumes "q * D \<le> A" and "0 \<le> q" "q < H" and Y: "Y = u + P * D" and u: "0 \<le> u" "u < P" and t: "0 \<le> t" "t < P"
  shows "- (P * H) < A * P + t - q * Y" and "A * P + t - q * Y < (A - q * D + 1) * P"
proof -
  have e: "A * P + t - q * Y = (A - q * D) * P + t - q * u" unfolding Y by (simp add: algebra_simps)
  have "q * u \<le> (H - 1) * P" using assms(2,3) u by (intro mult_mono) simp_all
  then have "q * u < P * H" using u by (simp add: algebra_simps)
  moreover have "0 \<le> (A - q * D) * P" using assms(1) u by simp
  ultimately show "- (P * H) < A * P + t - q * Y" unfolding e using t by linarith
  have "0 \<le> q * u" using assms(2) u by simp
  then show "A * P + t - q * Y < (A - q * D + 1) * P" unfolding e using t by (simp add: algebra_simps)
qed

lemma estimate_range_top:
  fixes a2 b1 b2 P P' Y u t H :: int
  assumes P: "P = P' * H" and Y: "Y = u + P' * (b1 * H + b2)" and u: "0 \<le> u" "u < P'" and t: "0 \<le> t" "t < P"
    and a2: "0 \<le> a2" "a2 < b2" "b2 < H" and b1: "0 \<le> b1"
  shows "- (P * H) < (b1 * H + a2) * P + t - (H - 1) * Y" and "(b1 * H + a2) * P + t - (H - 1) * Y < Y"
proof -
  have H: "0 < H" using a2 by linarith
  have e: "(b1 * H + a2) * P + t - (H - 1) * Y = (a2 - b2) * P + t - H * u + Y"
    unfolding P Y by (simp add: algebra_simps)
  have "0 \<le> H * u" using u H by simp
  moreover have "(a2 - b2) * P \<le> (- 1) * P" using a2 t by (intro mult_right_mono) linarith+
  ultimately show "(b1 * H + a2) * P + t - (H - 1) * Y < Y" unfolding e using t by linarith
  have "H * u < H * P'" using u H by (intro mult_strict_left_mono) simp_all
  then have hu: "H * u < P" unfolding P by (simp add: mult.commute)
  have "(1 - H) * P \<le> (a2 - b2) * P" using a2 t by (intro mult_right_mono) linarith+
  then have ge: "P - P * H \<le> (a2 - b2) * P" by (simp add: algebra_simps)
  have "0 \<le> P' * (b1 * H + b2)" using u b1 H a2 by (intro mult_nonneg_nonneg) simp_all
  then have "0 \<le> Y" unfolding Y using u by linarith
  then show "- (P * H) < (b1 * H + a2) * P + t - (H - 1) * Y" unfolding e using ge hu t by linarith
qed

text \<open>The two digits on top of a vector.\<close>

lemma top_two:
  assumes "length w = Suc (Suc n)"
  shows "big_value w = big_value (take n w) + B ^ n * two (w ! Suc n) (w ! n)"
    and "big_value w = big_value (take (Suc n) w) + B ^ Suc n * uint (w ! Suc n)"
proof -
  have w: "take (Suc n) w = take n w @ [w ! n]" using assms by (intro take_Suc_conv_app_nth) simp
  have w2: "w = take (Suc n) w @ [w ! Suc n]" using take_Suc_conv_app_nth [of "Suc n" w] assms by simp
  have "big_value w = big_value (take (Suc n) w) + B ^ length (take (Suc n) w) * uint (w ! Suc n)"
    by (subst (1) w2) (rule big_value_snoc)
  then show e: "big_value w = big_value (take (Suc n) w) + B ^ Suc n * uint (w ! Suc n)" using assms by simp
  have "big_value (take (Suc n) w) = big_value (take n w) + B ^ n * uint (w ! n)"
    unfolding w big_value_snoc using assms by simp
  then show "big_value w = big_value (take n w) + B ^ n * two (w ! Suc n) (w ! n)"
    unfolding e by (simp add: algebra_simps)
qed

lemma take_bounds: "n \<le> length w \<Longrightarrow> 0 \<le> big_value (take n w) \<and> big_value (take n w) < B ^ n"
  using big_value_bounds [of "take n w"] by simp

lemma div_estimate_ok:
  assumes y: "norm_ok y" "length y = Suc (Suc k)"
  defines "D \<equiv> two (y ! Suc k) (y ! k)"
  shows "\<exists>q0 down. div_estimate y a1 a2 = Some (q0, down) \<and>
    down = (two a1 a2 < D) \<and> (\<not> down \<or> 1 \<le> uint a1 \<longrightarrow> 1 \<le> uint q0) \<and>
    (\<forall>t. 0 \<le> t \<longrightarrow> t < B ^ (if down then Suc k else k) \<longrightarrow>
      - (B ^ (if down then Suc (Suc k) else Suc k)) < two a1 a2 * B ^ (if down then Suc k else k) + t - uint q0 * big_value y \<and>
      (down \<longrightarrow> two a1 a2 * B ^ Suc k + t - uint q0 * big_value y < B ^ Suc (Suc k)))"
proof -
  let ?b1 = "y ! Suc k" and ?b2 = "y ! k" and ?Y = "big_value y"
  have b: "?b1 = y ! (length y - 1)" "?b2 = y ! (length y - 2)" using y(2) by simp_all
  note Y = top_two [OF y(2)]
  have b1: "1 \<le> uint ?b1"
  proof -
    have "uint ?b1 \<noteq> 0" using y by (cases y rule: rev_cases) (auto simp: norm_ok_def uint_0_iff nth_append)
    then show ?thesis using digit_bounds(1) [of ?b1] by linarith
  qed
  have u: "0 \<le> big_value (take k y)" "big_value (take k y) < B ^ k"
    "0 \<le> big_value (take (Suc k) y)" "big_value (take (Suc k) y) < B ^ Suc k"
    using take_bounds [of k y] take_bounds [of "Suc k" y] y(2) by simp_all
  consider (less) "?b1 < a1" | (greater) "a1 < ?b1" | (eq) "?b1 = a1" "?b2 \<le> a2" | (max) "?b1 = a1" "a2 < ?b2"
    by (metis linorder_cases not_le)
  then show ?thesis
  proof cases
    case less
    then have lt: "D < two a1 a2" unfolding D_def by (simp only: D2GT_ok [symmetric] D2GT_def simp_thms)
    obtain q0 where q: "DDIV2 a1 a2 ?b1 ?b2 = Some q0" "uint q0 * D \<le> two a1 a2" "two a1 a2 \<le> uint q0 * D + D"
      using DDIV2_ok [OF b1 less_imp_le [OF lt [unfolded D_def]]] unfolding D_def by blast
    have e: "div_estimate y a1 a2 = Some (q0, False)" using less q(1) y(2) by (simp add: div_estimate_def Let_def)
    have "uint q0 \<noteq> 0" using q(3) lt by auto
    then have "1 \<le> uint q0" using digit_bounds(1) [of q0] by linarith
    then show ?thesis unfolding e using lt estimate_range(1) [OF q(2) digit_bounds Y(1) [folded D_def] u(1,2)]
      by (simp add: mult.commute)
  next
    case greater
    then have lt: "two a1 a2 < D" unfolding D_def by (simp only: D2GT_ok [symmetric] D2GT_def simp_thms)
    have e: "div_estimate y a1 a2 = Some (DDIV a1 a2 ?b1, True)"
      using greater y(2) by (simp add: div_estimate_def Let_def order_less_imp_not_less)
    have pos: "0 < uint ?b1" using b1 by linarith
    have q: "uint (DDIV a1 a2 ?b1) = two a1 a2 div uint ?b1"
      using DDIVREM_ok(1) [of ?b1 a1 a2] pos greater unfolding DDIV_def word_less_def
      by (metis prod.collapse unsigned_0 less_irrefl)
    have qb: "uint (DDIV a1 a2 ?b1) * uint ?b1 \<le> two a1 a2" unfolding q using le_div_pos [OF pos] by blast
    have r: "two a1 a2 - uint (DDIV a1 a2 ?b1) * uint ?b1 + 1 \<le> uint ?b1"
      unfolding q using pos_mod_bound [OF pos, of "two a1 a2"] div_mult_mod_eq [of "two a1 a2" "uint ?b1"] by linarith
    have q1: "1 \<le> uint (DDIV a1 a2 ?b1)" if "1 \<le> uint a1"
      unfolding q le_div_pos [OF pos] using two_bounds(3) [OF that, of a2] digit_bounds(2) [of ?b1] by linarith
    have "(two a1 a2 - uint (DDIV a1 a2 ?b1) * uint ?b1 + 1) * B ^ Suc k \<le> B * B ^ Suc k"
      using r digit_bounds(2) [of ?b1] by (intro mult_right_mono) (linarith, simp)
    then have up: "two a1 a2 * B ^ Suc k + t - uint (DDIV a1 a2 ?b1) * ?Y < B ^ Suc (Suc k)" if "0 \<le> t" "t < B ^ Suc k" for t
      using estimate_range(2) [OF qb digit_bounds Y(2) u(3,4) that] unfolding power_Suc [of B "Suc k"] by (rule less_le_trans [rotated])
    have lo: "- (B ^ Suc (Suc k)) < two a1 a2 * B ^ Suc k + t - uint (DDIV a1 a2 ?b1) * ?Y" if "0 \<le> t" "t < B ^ Suc k" for t
      using estimate_range(1) [OF qb digit_bounds Y(2) u(3,4) that] unfolding power_Suc [of B "Suc k"] mult.commute [of B "B ^ Suc k"] .
    show ?thesis unfolding e using lt q1 up lo by (intro exI [of _ "DDIV a1 a2 ?b1"] exI [of _ True]) (simp only: if_True simp_thms, blast)
  next
    case eq
    then have le: "1 * D \<le> two a1 a2" unfolding D_def by (simp add: word_le_def)
    have e: "div_estimate y a1 a2 = Some (1, False)" using eq y(2) by (simp add: div_estimate_def Let_def)
    have lo: "- (B ^ Suc k) < two a1 a2 * B ^ k + t - 1 * ?Y" if "0 \<le> t" "t < B ^ k" for t
      using estimate_range(1) [OF le _ _ Y(1) [folded D_def] u(1,2) that, of B] unfolding power_Suc mult.commute [of B "B ^ k"] by simp
    show ?thesis unfolding e using le lo by (intro exI [of _ 1] exI [of _ False]) simp
  next
    case max
    have lt: "two a1 a2 < D" using max unfolding D_def by (simp add: word_less_def)
    have e: "div_estimate y a1 a2 = Some (D_MASK, True)" using max y(2) by (simp add: div_estimate_def Let_def not_le)
    have m: "uint D_MASK = B - 1" by (simp add: D_MASK_def unsigned_minus_1_eq_mask mask_eq_exp_minus_1)
    have P: "B ^ Suc k = B ^ k * B" by simp
    have "uint a2 < uint ?b2" using max(2) by (simp only: word_less_def)
    note R = estimate_range_top [OF P Y(1) u(1,2) _ _ digit_bounds(1) this digit_bounds(2) digit_bounds(1)]
    have a1: "uint a1 = uint ?b1" using max(1) by simp
    have up: "two a1 a2 * B ^ Suc k + t - uint D_MASK * ?Y < B ^ Suc (Suc k)" if "0 \<le> t" "t < B ^ Suc k" for t
      using R(2) [OF that] big_value_bounds(2) [of y] unfolding m y(2) a1 by (rule less_trans)
    have lo: "- (B ^ Suc (Suc k)) < two a1 a2 * B ^ Suc k + t - uint D_MASK * ?Y" if "0 \<le> t" "t < B ^ Suc k" for t
      using R(1) [OF that] unfolding m a1 power_Suc [of B "Suc k"] mult.commute [of B "B ^ Suc k"] .
    show ?thesis unfolding e using lt m up lo by (intro exI [of _ D_MASK] exI [of _ True]) (simp only: if_True simp_thms, simp)
  qed
qed

subsection \<open>A round of the division\<close>

text \<open>
  A round of the loops of I\_div and I\_rem: the digit q0, whether it is one position lower, nnsz, and the
  new r, rp, rl and r\_signed.
\<close>

definition div_round ::
  "Uint list \<Rightarrow> Uint list \<Rightarrow> int \<Rightarrow> nat \<Rightarrow> bool \<Rightarrow> (Uint \<times> bool \<times> nat \<times> Uint list \<times> int \<times> nat \<times> bool) option" where
  "div_round y r rp rl r_signed =
     (let yl = length y in
      case div_estimate y (r ! nat (rp + int yl - 1)) (r ! nat (rp + int yl - 2)) of
        None \<Rightarrow> None
      | Some (q0, down) \<Rightarrow>
          let nsz = (if down then yl + 1 else yl);
              rp = (if down then rp - 1 else rp);
              p = nat rp;
              (nnsz, ds) = D_mulsub (take nsz (drop p r)) q0 y;
              r = take p r @ ds @ drop (p + nsz) r;
              (nnsz, r, r_signed) =
                (if nnsz = 0
                 then (let (n, z) = Z_sub (take rl r)
                       in (if nsz > rl - n then nsz - (rl - n) else 1, z @ drop rl r, \<not> r_signed))
                 else (nnsz, r, r_signed));
              nnsz = (if nnsz = 1 \<and> r ! p = 0 then 0 else nnsz)
          in Some (q0, down, nnsz, r, rp - (int yl - int nnsz), rl - (nsz - nnsz), r_signed))"

lemma trim_bounds: "ds \<noteq> [] \<Longrightarrow> 1 \<le> length (trim ds) \<and> length (trim ds) \<le> length ds \<and> big_value ds < B ^ length (trim ds)"
proof -
  assume ne: "ds \<noteq> []"
  have l: "length (trim_zeros xs) \<le> length xs" for xs by (induction xs rule: trim_zeros.induct) auto
  note t = trim_ok [OF ne]
  have "trim ds \<noteq> []" using t(2) by (auto simp: norm_ok_def)
  then show ?thesis using l [of "rev ds"] t(1) big_value_bounds(2) [of "trim ds"] by (cases "trim ds") (auto simp: trim_def)
qed

lemma big_value_split: "n \<le> length ds \<Longrightarrow> big_value ds = big_value (take n ds) + B ^ n * big_value (drop n ds)"
  using big_value_append [of "take n ds" "drop n ds"] by simp

lemma take_enough:
  assumes "big_value ds < B ^ n" and "n \<le> length ds"
  shows "big_value (take n ds) = big_value ds"
proof -
  note e = big_value_split [OF assms(2)]
  have "0 \<le> big_value (take n ds)" by (rule big_value_bounds(1))
  then have "B ^ n * big_value (drop n ds) < B ^ n * 1" using e assms(1) by linarith
  then have "big_value (drop n ds) < 1" by (rule mult_less_cancel_left_pos [THEN iffD1, rotated]) simp
  then have "big_value (drop n ds) = 0" using big_value_bounds(1) [of "drop n ds"] by linarith
  then show ?thesis using e by simp
qed

lemma take_zero_top:
  assumes "big_value z < B ^ Suc p" and "Suc p \<le> length z" and "z ! p = 0"
  shows "big_value z < B ^ p"
proof -
  have "take (Suc p) z = take p z @ [z ! p]" using assms(2) by (intro take_Suc_conv_app_nth) simp
  then have "big_value (take (Suc p) z) = big_value (take p z)" using assms(3) by (simp add: big_value_snoc)
  then have "big_value z = big_value (take p z)" using take_enough [OF assms(1,2)] by simp
  then show ?thesis using take_bounds [of p z] assms(2) by simp
qed

text \<open>The size of the remainder: \<open>nnsz\<close> before and after the test for a zero digit.\<close>

lemma round_size:
  assumes "big_value z < B ^ (p + m)" and "1 \<le> m" and "p + m \<le> length z"
  defines "m' \<equiv> (if m = 1 \<and> z ! p = 0 then 0 else m)"
  shows "big_value (take (p + m') z) = big_value z"
proof (cases "m = 1 \<and> z ! p = 0")
  case True
  then have m: "p + m = Suc p" "z ! p = 0" by simp_all
  have l: "Suc p \<le> length z" using assms(3) unfolding m(1) .
  have "big_value z < B ^ p" by (rule take_zero_top [OF assms(1) [unfolded m(1)] l m(2)])
  then have "big_value (take p z) = big_value z" by (rule take_enough) (rule Suc_leD [OF l])
  moreover have "m' = 0" unfolding m'_def by (rule if_P [OF True])
  ultimately show ?thesis by (simp only: add_0_right)
next
  case False
  have "m' = m" unfolding m'_def by (rule if_not_P [OF False])
  then show ?thesis using take_enough [OF assms(1,3)] by (simp only:)
qed

lemma Z_sub_value:
  assumes "Z_sub y = (n, z)" and "big_value y = B ^ length y - v" and "0 < v" and "v < B ^ m" and "m \<le> length y"
  shows "big_value z = v" and "length z = length y" and "n \<le> m" and "v < B ^ n" and "1 \<le> n"
proof -
  have e: "z = Z_sub_loop y 0" "n = length (trim z)" using assms(1) by (auto simp: Z_sub_def Let_def)
  note l = Z_sub_loop_ok [of 0 y, folded e(1)]
  have "B ^ m \<le> B ^ length y" using assms(5) by (intro power_increasing) simp_all
  then have lt: "v < B ^ length y" using assms(4) by linarith
  have "- (B ^ length y - v) mod B ^ length y = v mod B ^ length y" by (simp add: mod_diff_right_eq minus_diff_eq)
  also have "\<dots> = v" using lt assms(3) by simp
  finally show v: "big_value z = v" using l assms(2) by simp
  show lz: "length z = length y" using l by simp
  have ne: "z \<noteq> []" using v assms(3) by auto
  have "norm_ok (trim z)" using trim_ok [OF ne] v assms(3) by auto
  then show "n \<le> m" unfolding e(2) by (rule norm_ok_length) (use trim_ok(1) [OF ne] v assms(4) in simp)
  show "v < B ^ n" "1 \<le> n" using trim_bounds [OF ne] unfolding e(2) v by simp_all
qed

lemma not_down_at_bottom:
  assumes y: "length y = Suc (Suc k)" and w: "length w = Suc (Suc k)" and le: "big_value y \<le> big_value w"
  shows "two (y ! Suc k) (y ! k) \<le> two (w ! Suc k) (w ! k)"
proof (rule ccontr)
  let ?A = "two (w ! Suc k) (w ! k)" and ?D = "two (y ! Suc k) (y ! k)"
  assume "\<not> ?D \<le> ?A"
  then have "B ^ k * (?A + 1) \<le> B ^ k * ?D" by (intro mult_left_mono) simp_all
  then have "B ^ k * ?A + B ^ k \<le> B ^ k * ?D" by (simp only: distrib_left mult_1_right)
  then show False
    using top_two(1) [OF y] top_two(1) [OF w] le take_bounds [of k w] take_bounds [of k y] w y by linarith
qed

text \<open>
  The two outcomes of D\_mulsub at position \<open>p\<close> of a remainder of \<open>rl\<close> digits, for the difference \<open>d\<close> of
  the digits from \<open>p\<close> on and the product.
\<close>

lemma mulsub_outcome:
  fixes d :: int
  assumes rl: "rl = p + nsz" "rl \<le> length r" and nsz: "2 \<le> nsz" "nsz = length y \<or> nsz = Suc (length y)" "y \<noteq> []"
    and m: "D_mulsub (take nsz (drop p r)) q0 y = (n0, ds)"
    and d: "d = big_value (take nsz (drop p r)) - uint q0 * big_value y" and lo: "- (B ^ (nsz - 1)) < d"
  defines "r1 \<equiv> take p r @ ds @ drop (p + nsz) r"
  obtains (pos) "0 \<le> d" and "n0 \<noteq> 0" and "n0 \<le> nsz" and "d < B ^ n0" and "length r1 = length r"
      and "big_value (take rl r1) = big_value (take p r) + B ^ p * d" and "\<And>i. d < B ^ i \<Longrightarrow> n0 \<le> i \<or> n0 = 1"
    | (neg) n z m where "d < 0" and "n0 = 0" and "Z_sub (take rl r1) = (n, z)" and "length r1 = length r" and "length z = rl"
      and "big_value z = - (big_value (take p r) + B ^ p * d)" and "m = (if nsz > rl - n then nsz - (rl - n) else 1)"
      and "1 \<le> m" and "m < nsz" and "big_value z < B ^ (p + m)" and "big_value z < B ^ (rl - 1)"
proof -
  let ?x = "take nsz (drop p r)" and ?low = "big_value (take p r)"
  have lx: "length ?x = nsz" using rl by simp
  have lp: "length (take p r) = p" using rl by simp
  obtain k where k: "0 \<le> k" "d = big_value ds - B ^ nsz * k" "length ds = nsz" "n0 = (if k = 0 then length (trim ds) else 0)"
    using D_mulsub_ok [OF _ nsz(3) m] lx nsz(2) unfolding d by auto
  have lr1: "length r1 = length r" unfolding r1_def using rl k(3) by simp
  have t1: "take rl r1 = take p r @ ds" unfolding r1_def using rl k(3) lp by simp
  have v1: "big_value (take rl r1) = ?low + B ^ p * big_value ds" unfolding t1 big_value_append lp ..
  have dne: "ds \<noteq> []" using k(3) nsz(1) by auto
  have low: "0 \<le> ?low" "?low < B ^ p" using take_bounds [of p r] rl by simp_all
  show thesis
  proof (cases "k = 0")
    case True
    then have e: "d = big_value ds" "n0 = length (trim ds)" using k by simp_all
    have "n0 \<le> m' \<or> n0 = 1" if "d < B ^ m'" for m'
    proof (cases "norm_ok (trim ds)")
      case True
      then have "n0 \<le> m'" unfolding e(2) by (rule norm_ok_length) (use trim_ok(1) [OF dne] that e(1) in simp)
      then show ?thesis ..
    next
      case False
      then show ?thesis using trim_ok(2) [OF dne] e(2) by simp
    qed
    moreover have "length (trim ds) \<noteq> 0" using trim_bounds [OF dne] by linarith
    ultimately show thesis using trim_bounds [OF dne] e k(3) v1 lr1 big_value_bounds(1) [of ds] by (intro pos) simp_all
  next
    case False
    have P: "0 < B ^ nsz" "B ^ (nsz - 1) \<le> B ^ nsz" by (simp, intro power_increasing, simp_all)
    have "big_value ds < B ^ nsz" using big_value_bounds(2) [of ds] k(3) by simp
    then have "B ^ nsz * k < B ^ nsz * 2" using k(2) lo P by linarith
    then have "k < 2" using P(1) by (rule mult_less_cancel_left_pos [THEN iffD1, rotated])
    then have "k = 1" using k(1) False by linarith
    then have dd: "big_value ds = d + B ^ nsz" "n0 = 0" using k by simp_all
    then have dneg: "d < 0" using \<open>big_value ds < B ^ nsz\<close> by linarith
    define v where "v = - (?low + B ^ p * d)"
    have vy: "big_value (take rl r1) = B ^ length (take rl r1) - v"
    proof -
      have "length (take rl r1) = rl" using lr1 rl by simp
      then show ?thesis unfolding v1 dd(1) v_def using rl(1) by (simp add: power_add algebra_simps)
    qed
    have "B ^ p * d \<le> B ^ p * (- 1)" using dneg by (intro mult_left_mono) simp_all
    then have vpos: "0 < v" using low unfolding v_def by linarith
    have "B ^ p * (- (B ^ (nsz - 1))) < B ^ p * d" using lo by (intro mult_strict_left_mono) simp_all
    moreover have "B ^ p * (- (B ^ (nsz - 1))) = - (B ^ (rl - 1))" using rl(1) nsz(1) by (simp flip: power_add)
    ultimately have vlt: "v < B ^ (rl - 1)" using low unfolding v_def by linarith
    obtain n z where z: "Z_sub (take rl r1) = (n, z)" by fastforce
    have l: "rl - 1 \<le> length (take rl r1)" using lr1 rl by simp
    note Z = Z_sub_value [OF z vy vpos vlt l]
    define m' where "m' = (if nsz > rl - n then nsz - (rl - n) else 1)"
    have nb: "n \<le> rl - 1" "1 \<le> n" "1 \<le> rl" using Z rl nsz(1) by simp_all
    have m1: "1 \<le> m'" "m' < nsz" "n \<le> p + m'" using nb rl(1) nsz(1) by (auto simp: m'_def)
    have "B ^ n \<le> B ^ (p + m')" using m1(3) by (intro power_increasing) simp_all
    then have "big_value z < B ^ (p + m')" using Z(1,4) by linarith
    then show thesis using dneg dd(2) z lr1 Z rl m1 vlt by (intro neg [of n z m']) (simp_all add: v_def m'_def)
  qed
qed

lemma div_round_ok:
  assumes y: "norm_ok y" "length y = Suc (Suc k)" and rl: "rl \<le> length r" "int rl = rp + int (length y)" and rp: "0 \<le> rp"
    and big: "rp = 0 \<Longrightarrow> big_value y \<le> big_value (take rl r)"
  obtains q0 down nnsz r' rl' s' p where
    "div_round y r rp rl s = Some (q0, down, nnsz, r', int rl' - int (length y), rl', s')"
    and "int p = (if down then rp - 1 else rp)" and "length r' = length r" and "rl' \<le> rl" and "rl' = p + nnsz" and "nnsz \<le> length y"
    and "big_value (take rl' r') = (if s' = s then big_value (take rl r) - uint q0 * big_value y * B ^ p
        else uint q0 * big_value y * B ^ p - big_value (take rl r))"
    and "s' \<noteq> s \<Longrightarrow> big_value (take rl' r') < B ^ (rl - 1)"
    and "rl' < rl \<or> big_value (take rl' r') < big_value (take rl r)"
    and "down = (two (r ! (rl - 1)) (r ! (rl - 2)) < two (y ! Suc k) (y ! k))"
    and "\<not> down \<or> 1 \<le> uint (r ! (rl - 1)) \<Longrightarrow> 1 \<le> uint q0"
    and "nnsz = 0 \<Longrightarrow> r' ! p = 0"
proof -
  define n where "n = nat rp"
  have n: "rp = int n" "rl = n + Suc (Suc k)" using rl(2) rp y(2) by (simp_all add: n_def)
  let ?Y = "big_value y" and ?R = "big_value (take rl r)"
  let ?a1 = "r ! (n + Suc k)" and ?a2 = "r ! (n + k)"
  have idx: "nat (rp + int (length y) - 1) = n + Suc k" "nat (rp + int (length y) - 2) = n + k"
    "rl - 1 = n + Suc k" "rl - 2 = n + k" using n y(2) by simp_all
  have Ypos: "0 < ?Y" using norm_ok_ge [OF y(1)] by (rule less_le_trans [rotated]) simp
  obtain q0 down where E: "div_estimate y ?a1 ?a2 = Some (q0, down)" "down = (two ?a1 ?a2 < two (y ! Suc k) (y ! k))"
    "\<not> down \<or> 1 \<le> uint ?a1 \<longrightarrow> 1 \<le> uint q0"
    and bounds: "\<And>t. 0 \<le> t \<Longrightarrow> t < B ^ (if down then Suc k else k) \<Longrightarrow>
      - (B ^ (if down then Suc (Suc k) else Suc k)) < two ?a1 ?a2 * B ^ (if down then Suc k else k) + t - uint q0 * ?Y \<and>
      (down \<longrightarrow> two ?a1 ?a2 * B ^ Suc k + t - uint q0 * ?Y < B ^ Suc (Suc k))"
    using div_estimate_ok [OF y, of ?a1 ?a2] by blast
  define p where "p = (if down then n - 1 else n)"
  define nsz where "nsz = (if down then length y + 1 else length y)"
  define j where "j = (if down then Suc k else k)"
  have n1: "1 \<le> n" if down
  proof (rule ccontr)
    assume "\<not> 1 \<le> n"
    then have "length (take rl r) = Suc (Suc k)" "?Y \<le> ?R" using rl(1) n big by simp_all
    note le = not_down_at_bottom [OF y(2) this]
    have "n = 0" using \<open>\<not> 1 \<le> n\<close> by simp
    then show False using le that E(2) n by simp
  qed
  have P: "rl = p + nsz" "nsz = Suc (Suc j)" "int p = (if down then rp - 1 else rp)" "nsz - 1 = Suc j"
    using n n1 y(2) by (auto simp: p_def nsz_def j_def)
  let ?x = "take nsz (drop p r)" and ?low = "big_value (take p r)"
  have lx: "length ?x = Suc (Suc j)" using rl(1) P by simp
  have xa: "?x ! Suc j = ?a1" "?x ! j = ?a2" using P n rl(1) by (auto simp: p_def j_def split: if_splits)
  define t where "t = big_value (take j ?x)"
  have "j \<le> length ?x" unfolding lx by simp
  then have t: "0 \<le> t" "t < B ^ j" unfolding t_def using take_bounds by blast+
  define d where "d = big_value ?x - uint q0 * ?Y"
  have X: "big_value ?x = two ?a1 ?a2 * B ^ j + t" using top_two(1) [OF lx] unfolding xa t_def by (simp add: mult.commute)
  have d: "- (B ^ (nsz - 1)) < d" "down \<longrightarrow> d < B ^ length y"
    using bounds [OF t(1)] t(2) unfolding d_def X P(4) y(2) by (auto simp: j_def split: if_splits)
  have R: "?R = ?low + B ^ p * big_value ?x"
  proof -
    have "take rl r = take p r @ ?x" unfolding P(1) by (rule take_add)
    then show ?thesis using rl(1) P(1) by (simp add: big_value_append)
  qed
  have diff: "?low + B ^ p * d = ?R - uint q0 * ?Y * B ^ p" unfolding R d_def by (simp add: algebra_simps)
  obtain n0 ds where m: "D_mulsub ?x q0 y = (n0, ds)" by fastforce
  have nsz2: "2 \<le> nsz" "nsz = length y \<or> nsz = Suc (length y)" "y \<noteq> []" using y(2) by (auto simp: nsz_def)
  define r1 where "r1 = take p r @ ds @ drop (p + nsz) r"
  have down1: "\<not> down \<or> 1 \<le> uint (r ! (rl - 1)) \<Longrightarrow> 1 \<le> uint q0" unfolding idx using E(3) by blast
  have pn: "p = nat (if down then rp - 1 else rp)" using P(3) by simp
  show thesis
  proof (rule mulsub_outcome [OF P(1) rl(1) nsz2 m d_def d(1), folded r1_def])
    assume A: "0 \<le> d" "n0 \<noteq> 0" "n0 \<le> nsz" "d < B ^ n0" "length r1 = length r" "big_value (take rl r1) = ?low + B ^ p * d"
      and small: "\<And>i. d < B ^ i \<Longrightarrow> n0 \<le> i \<or> n0 = 1"
    define nnsz where "nnsz = (if n0 = 1 \<and> r1 ! p = 0 then 0 else n0)"
    have "?low + B ^ p * d < B ^ (p + n0)"
    proof -
      have "B ^ p * (d + 1) \<le> B ^ p * B ^ n0" using A(4) by (intro mult_left_mono) simp_all
      then have "B ^ p * d + B ^ p \<le> B ^ (p + n0)" by (simp only: distrib_left mult_1_right power_add)
      then show ?thesis using take_bounds [of p r] rl(1) P(1) by linarith
    qed
    have nn: "nnsz \<le> n0" "1 \<le> n0" using A(2) by (auto simp: nnsz_def)
    have l1: "length (take rl r1) = rl" using A(5) rl(1) by simp
    have "p < rl" using P(1) nsz2(1) by simp
    then have r1p: "take rl r1 ! p = r1 ! p" by simp
    have v: "big_value (take (p + nnsz) r1) = ?R - uint q0 * ?Y * B ^ p"
      using round_size [of "take rl r1" p n0] \<open>?low + B ^ p * d < B ^ (p + n0)\<close> A(3,6) nn P(1)
      unfolding l1 r1p nnsz_def [symmetric] diff [symmetric] by (simp add: min_absorb1)
    have e: "div_round y r rp rl s = Some (q0, down, nnsz, r1, int (p + nnsz) - int (length y), p + nnsz, s)"
      unfolding div_round_def Let_def idx(1,2) E(1) option.case prod.case nsz_def [symmetric] P(3) [symmetric] nat_int m
        r1_def [symmetric] if_not_P [OF A(2)] nnsz_def [symmetric]
      using A(3) nn P(1) by simp
    have small': "nnsz \<le> length y \<and> (down \<longrightarrow> p + nnsz < rl)"
    proof (cases down)
      case True
      then have "n0 \<le> length y" using small d(2) y(2) by fastforce
      then show ?thesis using True nn(1) P(1) by (simp add: nsz_def)
    qed (use A(3) nn(1) in \<open>simp add: nsz_def\<close>)
    have less: "p + nnsz < rl \<or> big_value (take (p + nnsz) r1) < ?R"
    proof (cases down)
      case False
      then have "1 \<le> uint q0" using E(3) by blast
      then have "0 < uint q0 * ?Y * B ^ p" using Ypos by simp
      then show ?thesis unfolding v by simp
    qed (use small' in simp)
    have z0: "nnsz = 0 \<Longrightarrow> r1 ! p = 0" using nn(2) by (auto simp: nnsz_def split: if_splits)
    show thesis
      by (rule that [OF e P(3) A(5) _ refl _ _ _ less _ down1 z0]) (use small' v nn A(3) P(1) E(2) idx in simp_all)
  next
    fix n' z m'
    assume A: "d < 0" "n0 = 0" "Z_sub (take rl r1) = (n', z)" "length r1 = length r" "length z = rl"
      "big_value z = - (?low + B ^ p * d)" "m' = (if nsz > rl - n' then nsz - (rl - n') else 1)"
      "1 \<le> m'" "m' < nsz" "big_value z < B ^ (p + m')" "big_value z < B ^ (rl - 1)"
    define r2 where "r2 = z @ drop rl r1"
    define nnsz where "nnsz = (if m' = 1 \<and> r2 ! p = 0 then 0 else m')"
    have nn: "nnsz \<le> m'" by (auto simp: nnsz_def)
    have "p < rl" using P(1) nsz2(1) by simp
    then have r2p: "z ! p = r2 ! p" using A(5) by (simp add: r2_def nth_append)
    have l2: "length r2 = length r" using A(4,5) rl(1) by (simp add: r2_def)
    have "take (p + nnsz) r2 = take (p + nnsz) z" using nn A(5,9) P(1) by (simp add: r2_def)
    then have v: "big_value (take (p + nnsz) r2) = uint q0 * ?Y * B ^ p - ?R"
      using round_size [of z p m'] A(5,6,8,9,10) P(1) unfolding r2p nnsz_def [symmetric] diff by simp
    have lt: "big_value (take (p + nnsz) r2) < B ^ (rl - 1)" using A(6,11) v diff by simp
    have e: "div_round y r rp rl s = Some (q0, down, nnsz, r2, int (p + nnsz) - int (length y), p + nnsz, \<not> s)"
      unfolding div_round_def Let_def idx(1,2) E(1) option.case prod.case nsz_def [symmetric] P(3) [symmetric] nat_int m
        r1_def [symmetric] if_P [OF A(2)] A(3) A(7) [symmetric] r2_def [symmetric] nnsz_def [symmetric]
      using A(9) nn P(1) by simp
    have small': "nnsz \<le> length y" "p + nnsz < rl" using nn A(9) P(1) by (auto simp: nsz_def split: if_splits)
    have z0: "nnsz = 0 \<Longrightarrow> r2 ! p = 0" using A(8) by (auto simp: nnsz_def split: if_splits)
    show thesis
      by (rule that [OF e P(3) l2 _ refl small'(1) _ lt _ _ down1 z0]) (use small' v E(2) idx in simp_all)
  qed
qed

subsection \<open>The loops\<close>

text \<open>
  The vector of the quotient is kept up to its top \<open>qp + ql\<close>; its digits from \<open>qp\<close> on are the ones a
  digit is added to or subtracted from.
\<close>

partial_function (option) I_div_loop ::
  "Uint list \<Rightarrow> Uint list \<Rightarrow> int \<Rightarrow> nat \<Rightarrow> bool \<Rightarrow> Uint list \<Rightarrow> int \<Rightarrow> (Uint list \<times> nat \<times> bool \<times> Uint list) option" where
  "I_div_loop y r rp rl r_signed q qp =
     (case div_round y r rp rl r_signed of
        None \<Rightarrow> None
      | Some (q0, down, nnsz, r', rp', rl', r_signed') \<Rightarrow>
          let qp = (if down then qp - 1 else qp);
              ds = drop (nat qp) q;
              q = take (nat qp) q @ (if r_signed then D_sub ds q0 else D_add ds q0);
              qp = qp - (int (length y) - int nnsz)
          in if I_comp (take rl' r') y \<ge> 0 then I_div_loop y r' rp' rl' r_signed' q qp
             else Some (r', rl', r_signed', q))"

partial_function (option) I_rem_loop ::
  "Uint list \<Rightarrow> Uint list \<Rightarrow> int \<Rightarrow> nat \<Rightarrow> bool \<Rightarrow> (Uint list \<times> nat \<times> bool) option" where
  "I_rem_loop y r rp rl r_signed =
     (case div_round y r rp rl r_signed of
        None \<Rightarrow> None
      | Some (q0, down, nnsz, r, rp, rl, r_signed) \<Rightarrow>
          if I_comp (take rl r) y \<ge> 0 then I_rem_loop y r rp rl r_signed else Some (r, rl, r_signed))"

declare I_div_loop.simps [code] and I_rem_loop.simps [code]

text \<open>
  The end of both: the remainder without zeros on top, and whether it was negative, so that the
  divisor is added to it and the quotient is one too large.
\<close>

definition div_finish :: "Uint list \<Rightarrow> Uint list \<Rightarrow> nat \<Rightarrow> bool \<Rightarrow> Uint list \<times> bool" where
  "div_finish y r rl r_signed =
     (let rl = (if rl = 0 then 1 else rl); w = trim (take rl r)
      in if r_signed \<and> (length w > 1 \<or> r ! 0 \<noteq> 0) then (I_sub y w, True) else (w, False))"

definition I_div :: "Uint list \<Rightarrow> Uint list \<Rightarrow> (Uint list \<times> Uint list) option" where
  "I_div x y =
     (let xl = length x; yl = length y; b1 = y ! (yl - 1); b2 = y ! (yl - 2);
          a1 = x ! (xl - 1); a2 = x ! (xl - 2);
          rp = int xl - int yl;
          ql = (if b1 < a1 \<or> (b1 = a1 \<and> b2 \<le> a2) then 1 else 0)
      in case I_div_loop y x rp xl False (replicate (xl - yl + ql) 0) rp of
           None \<Rightarrow> None
         | Some (r, rl, r_signed, q) \<Rightarrow>
             (case div_finish y r rl r_signed of (r, negative) \<Rightarrow> Some (if negative then D_sub q 1 else q, r)))"

definition I_rem :: "Uint list \<Rightarrow> Uint list \<Rightarrow> Uint list option" where
  "I_rem x y =
     (case I_rem_loop y x (int (length x) - int (length y)) (length x) False of
        None \<Rightarrow> None
      | Some (r, rl, r_signed) \<Rightarrow> Some (fst (div_finish y r rl r_signed)))"

lemma I_comp_cases:
  assumes "norm_ok y"
  shows "0 \<le> I_comp w y \<Longrightarrow> length y < length w \<or> length w = length y \<and> big_value y \<le> big_value w"
    and "I_comp w y < 0 \<Longrightarrow> big_value w < big_value y"
proof -
  have eq: "I_comp w y = sgn (big_value w - big_value y)" if "length w = length y"
    using comp_from_top_ok [of "rev w" "rev y"] that by (simp add: I_comp_def)
  show "length y < length w \<or> length w = length y \<and> big_value y \<le> big_value w" if "0 \<le> I_comp w y"
    using that eq by (cases "length w" "length y" rule: linorder_cases) (auto simp: I_comp_def sgn_if split: if_splits)
  show "big_value w < big_value y" if c: "I_comp w y < 0"
  proof (cases "length w" "length y" rule: linorder_cases)
    case less
    then have "B ^ length w \<le> B ^ (length y - 1)" by (intro power_increasing) simp_all
    then show ?thesis using big_value_bounds(2) [of w] norm_ok_ge [OF assms] by linarith
  next
    case equal
    then show ?thesis using c eq by simp
  next
    case greater
    then show ?thesis using c by (simp add: I_comp_def)
  qed
qed

text \<open>The quotient after a round.\<close>

lemma quotient_step:
  assumes q: "take p q = replicate p 0" "p < length q"
    and kind: "norm_ok q \<or> \<not> neg \<and> drop p q = [0] \<and> 1 \<le> uint q0"
    and sub: "neg \<Longrightarrow> norm_ok q \<and> 0 < big_value q - uint q0 * B ^ p"
  defines "q' \<equiv> take p q @ (if neg then D_sub (drop p q) q0 else D_add (drop p q) q0)"
  shows "norm_ok q'" and "big_value q' = (if neg then big_value q - uint q0 * B ^ p else big_value q + uint q0 * B ^ p)"
    and "take p q' = replicate p 0" and "p < length q'"
proof -
  let ?ds = "drop p q"
  have Q: "big_value q = B ^ p * big_value ?ds" using big_value_split [of p q] q by simp
  have n: "norm_ok ?ds" if "norm_ok q" using that q(2) by (auto simp: norm_ok_def last_drop)
  define e where "e = (if neg then D_sub ?ds q0 else D_add ?ds q0)"
  have "norm_ok e \<and> big_value e = (if neg then big_value ?ds - uint q0 else big_value ?ds + uint q0)"
  proof (cases neg)
    case True
    have "B ^ p * uint q0 < B ^ p * big_value ?ds" using sub [OF True] Q by (simp add: mult.commute)
    then have lt: "uint q0 < big_value ?ds" by (rule mult_less_cancel_left_pos [THEN iffD1, rotated]) simp
    have "?ds \<noteq> []" using q(2) by simp
    note d = D_sub_ok [OF this less_imp_le [OF lt]]
    then have "norm_ok (D_sub ?ds q0)" using lt by auto
    then show ?thesis using d(1) True by (simp add: e_def)
  next
    case False
    show ?thesis
    proof (cases "norm_ok q")
      case True
      then show ?thesis using D_add_ok [OF n, of q0] False by (simp add: e_def)
    next
      case F: False
      then have "?ds = [0]" "1 \<le> uint q0" using kind by simp_all
      then show ?thesis using False by (auto simp: e_def D_add_def norm_ok_def)
    qed
  qed
  then have E: "norm_ok e" "big_value e = (if neg then big_value ?ds - uint q0 else big_value ?ds + uint q0)" by blast+
  have q': "q' = replicate p 0 @ e" by (simp add: q'_def e_def q(1))
  show "norm_ok q'" using E(1) by (auto simp: q' norm_ok_def)
  show "big_value q' = (if neg then big_value q - uint q0 * B ^ p else big_value q + uint q0 * B ^ p)"
    unfolding q' big_value_append E(2) Q by (simp add: algebra_simps)
  show "take p q' = replicate p 0" by (simp add: q')
  show "p < length q'" using E(1) by (simp add: q' norm_ok_def)
qed

text \<open>
  The invariant of the loops for the dividend \<open>X\<close>: quotient and signed remainder make it up. Before the
  first round the quotient is zero and has its top where the first digit goes.
\<close>

definition div_inv :: "Uint list \<Rightarrow> int \<Rightarrow> Uint list \<Rightarrow> int \<Rightarrow> nat \<Rightarrow> bool \<Rightarrow> Uint list \<Rightarrow> int \<Rightarrow> bool" where
  "div_inv y X r rp rl s q qp \<longleftrightarrow>
     rl \<le> length r \<and> int rl = rp + int (length y) \<and> qp = rp \<and> 0 \<le> rp \<and>
     (rp = 0 \<longrightarrow> big_value y \<le> big_value (take rl r)) \<and>
     X = big_value q * big_value y + (if s then - big_value (take rl r) else big_value (take rl r)) \<and>
     B ^ (length r - 1) \<le> X \<and> take (nat qp) q = replicate (nat qp) 0 \<and>
     (norm_ok q \<and> nat qp < length q \<or>
      \<not> s \<and> 1 \<le> uint (r ! (rl - 1)) \<and>
      q = replicate (nat qp + (if two (r ! (rl - 1)) (r ! (rl - 2)) < two (y ! (length y - 1)) (y ! (length y - 2)) then 0 else 1)) 0)"

lemma quotient_positive:
  fixes Q Q' X Y R R' v :: int
  assumes "X = Q * Y - R" and "0 < Y" and "0 < X" and "0 \<le> R'" and "Q' = Q - v"
    and "R' = R - v * Y \<or> R' = v * Y - R \<and> R' < X"
  shows "0 < Q'"
proof -
  have "0 < Q' * Y" using assms by (auto simp: algebra_simps)
  then show ?thesis using assms(2) by (simp add: zero_less_mult_iff)
qed

lemma remainder_step:
  fixes X Q Y R Q' R' v P :: int
  assumes "X = Q * Y + (if s then - R else R)" and "Q' = (if s then Q - v * P else Q + v * P)"
    and "R' = (if s' = s then R - v * Y * P else v * Y * P - R)"
  shows "X = Q' * Y + (if s' then - R' else R')"
  unfolding assms by (cases s; cases s') (simp_all add: left_diff_distrib distrib_right mult.assoc mult.commute [of P Y])

lemma div_loop_round:
  assumes y: "norm_ok y" "length y = Suc (Suc k)" and inv: "div_inv y X r rp rl s q qp"
  obtains q0 down nnsz r' rl' s' q' p where
    "div_round y r rp rl s = Some (q0, down, nnsz, r', int rl' - int (length y), rl', s')"
    and "nat (if down then qp - 1 else qp) = p" and "int p = (if down then qp - 1 else qp)" and "rl' = p + nnsz"
    and "q' = take p q @ (if s then D_sub (drop p q) q0 else D_add (drop p q) q0)"
    and "length r' = length r" and "rl' \<le> rl" and "rl' < rl \<or> big_value (take rl' r') < big_value (take rl r)"
    and "norm_ok q'" and "take p q' = replicate p 0" and "p < length q'" and "nnsz \<le> length y"
    and "X = big_value q' * big_value y + (if s' then - big_value (take rl' r') else big_value (take rl' r'))"
    and "rl' = 0 \<longrightarrow> r' ! 0 = 0"
proof -
  let ?R = "big_value (take rl r)" and ?Y = "big_value y"
  have idx: "length y - 1 = Suc k" "length y - 2 = k" using y(2) by simp_all
  have I: "rl \<le> length r" "int rl = rp + int (length y)" "qp = rp" "0 \<le> rp" "rp = 0 \<Longrightarrow> ?Y \<le> ?R"
    "X = big_value q * ?Y + (if s then - ?R else ?R)" "B ^ (length r - 1) \<le> X" "take (nat qp) q = replicate (nat qp) 0"
    and K: "norm_ok q \<and> nat qp < length q \<or> \<not> s \<and> 1 \<le> uint (r ! (rl - 1)) \<and>
      q = replicate (nat qp + (if two (r ! (rl - 1)) (r ! (rl - 2)) < two (y ! Suc k) (y ! k) then 0 else 1)) 0"
    using inv [unfolded div_inv_def idx] by blast+
  obtain q0 down nnsz r' rl' s' p where
    D: "div_round y r rp rl s = Some (q0, down, nnsz, r', int rl' - int (length y), rl', s')"
    and p: "int p = (if down then rp - 1 else rp)" and l: "length r' = length r" "rl' \<le> rl" "rl' = p + nnsz" "nnsz \<le> length y"
    and R': "big_value (take rl' r') = (if s' = s then ?R - uint q0 * ?Y * B ^ p else uint q0 * ?Y * B ^ p - ?R)"
    and flip: "s' \<noteq> s \<Longrightarrow> big_value (take rl' r') < B ^ (rl - 1)"
    and less: "rl' < rl \<or> big_value (take rl' r') < ?R"
    and dn: "down = (two (r ! (rl - 1)) (r ! (rl - 2)) < two (y ! Suc k) (y ! k))"
    and q01: "\<not> down \<or> 1 \<le> uint (r ! (rl - 1)) \<Longrightarrow> 1 \<le> uint q0" and z: "nnsz = 0 \<Longrightarrow> r' ! p = 0"
    using div_round_ok [OF y I(1,2,4,5)] by blast
  let ?R' = "big_value (take rl' r')"
  have pq: "p \<le> nat qp" "down \<Longrightarrow> Suc p = nat qp" "\<not> down \<Longrightarrow> p = nat qp" using p I(3,4) by (cases down; simp)+
  have Ypos: "0 < ?Y" using norm_ok_ge [OF y(1)] by (rule less_le_trans [rotated]) simp
  have Xpos: "0 < X" using I(7) by (rule less_le_trans [rotated]) simp
  have "B ^ (rl - 1) \<le> B ^ (length r - 1)" using I(1) by (intro power_increasing) simp_all
  then have flipX: "?R' < X" if "s' \<noteq> s" using flip [OF that] I(7) by linarith
  have tp: "take p q = replicate p 0"
  proof -
    have "take p q = take p (take (nat qp) q)" using pq(1) by (simp add: min_absorb1)
    then show ?thesis unfolding I(8) using pq(1) by (simp add: min_absorb1)
  qed
  have pl: "p < length q" and kind: "norm_ok q \<or> \<not> s \<and> drop p q = [0] \<and> 1 \<le> uint q0"
  proof -
    have "p < length q \<and> (norm_ok q \<or> \<not> s \<and> drop p q = [0] \<and> 1 \<le> uint q0)"
    proof (cases "norm_ok q \<and> nat qp < length q")
      case True
      then show ?thesis using pq(1) by simp
    next
      case False
      then have K': "\<not> s" "1 \<le> uint (r ! (rl - 1))" "q = replicate (nat qp + (if down then 0 else 1)) 0" using K dn by auto
      then have q: "q = replicate (Suc p) 0" using pq by (cases down) auto
      have "drop p q = [0]" unfolding q drop_replicate by simp
      moreover have "p < length q" unfolding q by simp
      ultimately show ?thesis using K'(1,2) q01 by simp
    qed
    then show "p < length q" "norm_ok q \<or> \<not> s \<and> drop p q = [0] \<and> 1 \<le> uint q0" by blast+
  qed
  have sub: "norm_ok q \<and> 0 < big_value q - uint q0 * B ^ p" if "s"
  proof
    show "norm_ok q" using kind that by blast
    show "0 < big_value q - uint q0 * B ^ p"
    proof (rule quotient_positive [OF _ Ypos Xpos big_value_bounds(1) refl])
      show "X = big_value q * ?Y - ?R" using I(6) that by simp
      show "?R' = ?R - uint q0 * B ^ p * ?Y \<or> ?R' = uint q0 * B ^ p * ?Y - ?R \<and> ?R' < X"
        using R' flipX by (cases "s' = s") (simp_all add: algebra_simps)
    qed
  qed
  define q' where "q' = take p q @ (if s then D_sub (drop p q) q0 else D_add (drop p q) q0)"
  note Q = quotient_step [OF tp pl kind sub, folded q'_def]
  have X: "X = big_value q' * ?Y + (if s' then - ?R' else ?R')"
    by (rule remainder_step [OF I(6) Q(2) R'])
  have np: "nat (if down then qp - 1 else qp) = p" "int p = (if down then qp - 1 else qp)" using p I(3) by auto
  have z': "rl' = 0 \<longrightarrow> r' ! 0 = 0" using z l(3) by auto
  show thesis by (rule that [OF D np l(3) q'_def l(1,2) less Q(1,3,4) l(4) X z'])
qed

text \<open>Both loops end, with the same remainder.\<close>

lemma div_loops_ok:
  assumes y: "norm_ok y" "length y = Suc (Suc k)" and inv: "div_inv y X r rp rl s q qp"
  shows "\<exists>r' rl' s' q'. I_div_loop y r rp rl s q qp = Some (r', rl', s', q') \<and> I_rem_loop y r rp rl s = Some (r', rl', s') \<and>
    length r' = length r \<and> rl' \<le> length r' \<and> (rl' = 0 \<longrightarrow> r' ! 0 = 0) \<and> norm_ok q' \<and> big_value (take rl' r') < big_value y \<and>
    X = big_value q' * big_value y + (if s' then - big_value (take rl' r') else big_value (take rl' r'))"
  using inv
proof (induction "(rl, nat (big_value (take rl r)))" arbitrary: r rp rl s q qp rule: wf_induct_rule [OF wf_lex_prod [OF wf_less_than wf_less_than]])
  case 1
  obtain q0 down nnsz r' rl' s' q' p where
    D: "div_round y r rp rl s = Some (q0, down, nnsz, r', int rl' - int (length y), rl', s')"
    and np: "nat (if down then qp - 1 else qp) = p" "int p = (if down then qp - 1 else qp)" and l: "rl' = p + nnsz"
    and q': "q' = take p q @ (if s then D_sub (drop p q) q0 else D_add (drop p q) q0)"
    and len: "length r' = length r" "rl' \<le> rl" and less: "rl' < rl \<or> big_value (take rl' r') < big_value (take rl r)"
    and Q: "norm_ok q'" "take p q' = replicate p 0" "p < length q'" "nnsz \<le> length y"
    and X: "X = big_value q' * big_value y + (if s' then - big_value (take rl' r') else big_value (take rl' r'))"
    and z: "rl' = 0 \<longrightarrow> r' ! 0 = 0" by (rule div_loop_round [OF y "1.prems"]) (rule that, assumption+)
  have I: "rl \<le> length r" "B ^ (length r - 1) \<le> X" using "1.prems" by (simp_all add: div_inv_def)
  have qp': "int p - (int (length y) - int nnsz) = int rl' - int (length y)" using l by simp
  show ?case
  proof (cases "0 \<le> I_comp (take rl' r') y")
    case False
    have "I_div_loop y r rp rl s q qp = Some (r', rl', s', q')"
      by (subst I_div_loop.simps) (simp add: D Let_def np(1) q' False)
    moreover have "I_rem_loop y r rp rl s = Some (r', rl', s')"
      by (subst I_rem_loop.simps) (simp add: D False)
    moreover have "big_value (take rl' r') < big_value y" using False by (intro I_comp_cases(2) [OF y(1)]) simp
    ultimately show ?thesis using len I(1) Q(1) X z by (intro exI [of _ r'] exI [of _ rl'] exI [of _ s'] exI [of _ q']) simp
  next
    case True
    have lw: "length (take rl' r') = rl'" using len I(1) by simp
    have c: "length y < rl' \<or> rl' = length y \<and> big_value y \<le> big_value (take rl' r')"
      using I_comp_cases(1) [OF y(1) True] unfolding lw .
    have nq: "nat (int rl' - int (length y)) \<le> p" using l Q(4) by simp
    have "take (nat (int rl' - int (length y))) q' = take (nat (int rl' - int (length y))) (take p q')"
      using nq by (simp add: min_absorb1)
    then have tq: "take (nat (int rl' - int (length y))) q' = replicate (nat (int rl' - int (length y))) 0"
      unfolding Q(2) using nq by (simp add: min_absorb1)
    have inv': "div_inv y X r' (int rl' - int (length y)) rl' s' q' (int rl' - int (length y))"
      unfolding div_inv_def using c len I tq Q(1,3) nq X by auto
    have "((rl', nat (big_value (take rl' r'))), (rl, nat (big_value (take rl r)))) \<in> less_than <*lex*> less_than"
      using less len(2) big_value_bounds(1) [of "take rl' r'"] by auto
    note ih = "1.hyps" [OF this inv']
    have e1: "I_div_loop y r rp rl s q qp = I_div_loop y r' (int rl' - int (length y)) rl' s' q' (int rl' - int (length y))"
      by (subst I_div_loop.simps) (simp add: D Let_def np(1) True qp' [unfolded np(2)] q')
    have e2: "I_rem_loop y r rp rl s = I_rem_loop y r' (int rl' - int (length y)) rl' s'"
      by (subst I_rem_loop.simps) (simp add: D True)
    show ?thesis unfolding e1 e2 using ih len(1) by simp
  qed
qed

lemma trim_take: "trim ds = take (length (trim ds)) ds"
proof -
  have z: "\<exists>n. trim_zeros xs = drop n xs" for xs
  proof (induction xs rule: trim_zeros.induct)
    case (1 d d2 ds)
    show ?case
    proof (cases "d = 0")
      case True
      then obtain n where "trim_zeros (d2 # ds) = drop n (d2 # ds)" using 1 by blast
      then show ?thesis using True by (intro exI [of _ "Suc n"]) simp
    qed (auto intro: exI [of _ 0])
  qed (auto intro: exI [of _ 0])
  obtain n where "trim_zeros (rev ds) = drop n (rev ds)" using z by blast
  then show ?thesis by (simp add: trim_def rev_drop)
qed

lemma div_finish_ok:
  assumes "norm_ok y" and "r \<noteq> []" and "rl \<le> length r" and "rl = 0 \<longrightarrow> r ! 0 = 0" and "big_value (take rl r) < big_value y"
    and "div_finish y r rl s = (w, fix_q)"
  shows "fix_q = (s \<and> big_value (take rl r) \<noteq> 0)"
    and "big_value w = (if fix_q then big_value y - big_value (take rl r) else big_value (take rl r))"
    and "norm_ok w \<or> w = [0]"
proof -
  define rl' where "rl' = (if rl = 0 then 1 else rl)"
  define v where "v = trim (take rl' r)"
  obtain d t where r: "r = d # t" using assms(2) by (cases r) auto
  have ne: "take rl' r \<noteq> []" using assms(2) by (auto simp: rl'_def)
  have R: "big_value (take rl' r) = big_value (take rl r)" using assms(4) r by (auto simp: rl'_def)
  note t = trim_ok [OF ne, folded v_def, unfolded R]
  have zero: "(length v > 1 \<or> r ! 0 \<noteq> 0) = (big_value (take rl r) \<noteq> 0)"
  proof (cases "length v = 1")
    case True
    then have "v = take 1 (take rl' r)" using trim_take [of "take rl' r"] unfolding v_def by simp
    then have "v = [d]" using r by (auto simp: rl'_def min_def)
    then have "(r ! 0 \<noteq> 0) = (big_value (take rl r) \<noteq> 0)" using t(1) r by (simp flip: uint_0_iff)
    then show ?thesis using True by simp
  next
    case False
    then have n: "norm_ok v" using t(2) by auto
    then have "length v > 1" using False by (cases v) (auto simp: norm_ok_def)
    moreover have "0 < big_value v" using norm_ok_ge [OF n] by (rule less_le_trans [rotated]) simp
    ultimately show ?thesis using t(1) by simp
  qed
  have e: "div_finish y r rl s = (if s \<and> big_value (take rl r) \<noteq> 0 then (I_sub y v, True) else (v, False))"
    unfolding div_finish_def Let_def rl'_def [symmetric] v_def [symmetric] zero ..
  show f: "fix_q = (s \<and> big_value (take rl r) \<noteq> 0)" using assms(6) unfolding e by (auto split: if_splits)
  have "big_value w = (if fix_q then big_value y - big_value (take rl r) else big_value (take rl r)) \<and> (norm_ok w \<or> w = [0])"
  proof (cases fix_q)
    case True
    then have w: "w = I_sub y v" using assms(6) f unfolding e by simp
    have "norm_ok v" using t f True by auto
    then have "length v \<le> length y"
      by (rule norm_ok_length) (use t(1) assms(5) big_value_bounds(2) [of y] in linarith)
    moreover have "y \<noteq> []" using assms(1) by (simp add: norm_ok_def)
    ultimately show ?thesis using I_sub_ok [of v y] t(1) assms(5) True unfolding w by simp
  next
    case False
    then have "w = v" using assms(6) f unfolding e by (auto split: if_splits)
    then show ?thesis using t False by simp
  qed
  then show "big_value w = (if fix_q then big_value y - big_value (take rl r) else big_value (take rl r))"
    and "norm_ok w \<or> w = [0]" by blast+
qed

lemma signed_division:
  fixes X Q Y R :: int
  assumes "0 \<le> R" and "R < Y" and "X = Q * Y + (if s then - R else R)"
  shows "X div Y = (if s \<and> R \<noteq> 0 then Q - 1 else Q)" and "X mod Y = (if s \<and> R \<noteq> 0 then Y - R else R)"
proof -
  have u: "X div Y = q \<and> X mod Y = r" if "X = r + q * Y" "0 \<le> r" "r < Y" for q r
    unfolding that(1) using that(2,3) by simp
  have "X div Y = (if s \<and> R \<noteq> 0 then Q - 1 else Q) \<and> X mod Y = (if s \<and> R \<noteq> 0 then Y - R else R)"
    using assms by (intro u) (auto simp: algebra_simps)
  then show "X div Y = (if s \<and> R \<noteq> 0 then Q - 1 else Q)" "X mod Y = (if s \<and> R \<noteq> 0 then Y - R else R)" by blast+
qed

lemma I_div_ok:
  assumes x: "norm_ok x" and y: "norm_ok y" "2 \<le> length y" and le: "big_value y \<le> big_value x"
  shows "\<exists>q r. I_div x y = Some (q, r) \<and> I_rem x y = Some r \<and>
    big_value q = big_value x div big_value y \<and> big_value r = big_value x mod big_value y \<and>
    (norm_ok q \<or> q = [0]) \<and> (norm_ok r \<or> r = [0])"
proof -
  obtain k where k: "length y = Suc (Suc k)" using y(2) by (metis add_2_eq_Suc le_Suc_ex)
  have "big_value y < B ^ length x" using le big_value_bounds(2) [of x] by (rule le_less_trans)
  then have l: "length y \<le> length x" by (rule norm_ok_length [OF y(1)])
  let ?xl = "length x" and ?rp = "int (length x) - int (length y)"
  let ?a1 = "x ! (?xl - 1)" and ?a2 = "x ! (?xl - 2)" and ?b1 = "y ! (length y - 1)" and ?b2 = "y ! (length y - 2)"
  define up where "up = (?b1 < ?a1 \<or> (?b1 = ?a1 \<and> ?b2 \<le> ?a2))"
  have up: "up = (\<not> two ?a1 ?a2 < two ?b1 ?b2)" unfolding up_def D2GT_ok [symmetric] D2GT_def by auto
  define q where "q = replicate (?xl - length y + (if up then 1 else 0)) (0 :: Uint)"
  have a1: "1 \<le> uint ?a1"
  proof -
    have "?a1 = last x" using l k by (cases x rule: rev_cases) (auto simp: nth_append)
    then have "uint ?a1 \<noteq> 0" using x by (simp add: norm_ok_def uint_0_iff)
    then show ?thesis using digit_bounds(1) [of ?a1] by linarith
  qed
  have inv: "div_inv y (big_value x) x ?rp ?xl False q ?rp"
    unfolding div_inv_def using l le norm_ok_ge [OF x] a1 by (auto simp: q_def up nat_diff_distrib)
  obtain r' rl' s' q' where L: "I_div_loop y x ?rp ?xl False q ?rp = Some (r', rl', s', q')"
    "I_rem_loop y x ?rp ?xl False = Some (r', rl', s')" "length r' = ?xl" "rl' \<le> length r'" "rl' = 0 \<longrightarrow> r' ! 0 = 0"
    "norm_ok q'" "big_value (take rl' r') < big_value y"
    "big_value x = big_value q' * big_value y + (if s' then - big_value (take rl' r') else big_value (take rl' r'))"
    using div_loops_ok [OF y(1) k inv] by blast
  obtain w f where F: "div_finish y r' rl' s' = (w, f)" by fastforce
  have "r' \<noteq> []" using L(3) l k by auto
  note W = div_finish_ok [OF y(1) this L(4,5,7) F]
  note S = signed_division [OF big_value_bounds(1) L(7,8)]
  have d: "I_div x y = Some (if f then D_sub q' 1 else q', w)"
    unfolding I_div_def Let_def up_def [symmetric] q_def [symmetric] L(1) option.case prod.case F ..
  have r: "I_rem x y = Some w" using L(2) F by (simp add: I_rem_def)
  have "0 < big_value q'" using norm_ok_ge [OF L(6)] by (rule less_le_trans [rotated]) simp
  moreover have "q' \<noteq> []" using L(6) by (simp add: norm_ok_def)
  ultimately have q: "big_value (if f then D_sub q' 1 else q') = (if f then big_value q' - 1 else big_value q')"
    "norm_ok (if f then D_sub q' 1 else q') \<or> (if f then D_sub q' 1 else q') = [0]"
    using D_sub_ok [of q' 1] L(6) by simp_all
  show ?thesis using d r q W S by (intro exI [of _ "if f then D_sub q' 1 else q'"] exI [of _ w]) simp
qed

subsection \<open>Property\<close>

text \<open>
  C26: I\_div and I\_rem return, for a divisor of two digits or more that is not larger than the dividend: every
  loop of the estimates and corrections ends, and the results are the quotient and the remainder, without
  zero digits on top.
\<close>

theorem long_division_returns:
  assumes "norm_ok x" and "norm_ok y" and "2 \<le> length y" and "big_value y \<le> big_value x"
  shows "\<exists>q r. I_div x y = Some (q, r) \<and> I_rem x y = Some r \<and>
    big_value x = big_value y * big_value q + big_value r \<and> big_value r < big_value y \<and>
    (norm_ok q \<or> q = [0]) \<and> (norm_ok r \<or> r = [0])"
proof -
  have "0 < B ^ (length y - 1)" by simp
  then have y: "0 < big_value y" using norm_ok_ge [OF assms(2)] by (rule less_le_trans)
  obtain q r where d: "I_div x y = Some (q, r)" "I_rem x y = Some r" "big_value q = big_value x div big_value y"
    "big_value r = big_value x mod big_value y" "norm_ok q \<or> q = [0]" "norm_ok r \<or> r = [0]" using I_div_ok [OF assms] by blast
  show ?thesis
  proof (intro exI conjI)
    show "I_div x y = Some (q, r)" "I_rem x y = Some r" by (fact d)+
    show "big_value x = big_value y * big_value q + big_value r" unfolding d(3,4) by (rule mult_div_mod_eq [symmetric])
    show "big_value r < big_value y" unfolding d(4) by (rule pos_mod_bound [OF y])
  qed (fact d)+
qed

theorem long_division_returns_witness:
  "\<exists>q r. I_div [1, 2, 3] [0xFFFFFFFFFFFFFFFF, 1] = Some (q, r) \<and> I_rem [1, 2, 3] [0xFFFFFFFFFFFFFFFF, 1] = Some r \<and>
    1 + 2 * B + 3 * B\<^sup>2 = (2 * B - 1) * big_value q + big_value r \<and> big_value r < 2 * B - 1"
proof -
  have "big_value [1, 2, 3] = 1 + 2 * B + 3 * B\<^sup>2" "big_value [0xFFFFFFFFFFFFFFFF, 1] = 2 * B - 1"
    by (simp_all add: power2_eq_square)
  then show ?thesis using long_division_returns [of "[1, 2, 3]" "[0xFFFFFFFFFFFFFFFF, 1]"] by (auto simp: norm_ok_def)
qed

end
