(* ===== verification/Bignum.thy ===== *)
theory Bignum
  imports Long_Division "HOL-Library.Signed_Division"
begin

section \<open>Integer terms and big integers: big.c\<close>

text \<open>
  The terms the integer arithmetic works on: small integers of SMALL\_BITS = 60 bits in the term
  itself, big integers of a sign and a vector of digits on the heap, any other term, and NIL, which
  the operations on big integers return for a result that is too large. The operations are given the
  terms; where the code reads the memory a result is written to, it is an argument.
\<close>

definition MAX_SMALL :: int where "MAX_SMALL = 2 ^ 59 - 1"

definition MIN_SMALL :: int where "MIN_SMALL = - (2 ^ 59)"

definition BIG_ARITY_MAX :: nat where "BIG_ARITY_MAX = 2 ^ 19 - 1"

datatype iterm = make_small int | make_big bool "Uint list" | NIL | Other_term nat

definition IS_USMALL :: "bool \<Rightarrow> Uint \<Rightarrow> bool" where
  "IS_USMALL s x \<longleftrightarrow> (if s then x \<le> word_of_int (MAX_SMALL + 1) else x \<le> word_of_int MAX_SMALL)"

definition IS_SSMALL :: "int \<Rightarrow> bool" where
  "IS_SSMALL x \<longleftrightarrow> MIN_SMALL \<le> x \<and> x \<le> MAX_SMALL"

fun big_sign :: "iterm \<Rightarrow> bool" where
  "big_sign (make_big s ds) = s"
| "big_sign _ = False"

fun big_v :: "iterm \<Rightarrow> Uint list" where
  "big_v (make_big s ds) = ds"
| "big_v _ = []"

definition big_size :: "iterm \<Rightarrow> nat" where
  "big_size x = length (big_v x)"

subsection \<open>Operations\<close>

definition big_norm :: "Uint list \<Rightarrow> bool \<Rightarrow> iterm" where
  "big_norm x s =
     (if length x = 1 \<and> IS_USMALL s (x ! 0)
      then (if s then make_small (- sint (x ! 0)) else make_small (sint (x ! 0)))
      else if length x > BIG_ARITY_MAX then NIL
      else make_big s x)"

definition big_comp :: "iterm \<Rightarrow> iterm \<Rightarrow> int" where
  "big_comp x y =
     (if big_sign x = big_sign y
      then (let c = I_comp (big_v x) (big_v y) in if big_sign x then - c else c)
      else if big_sign x then - 1 else 1)"

definition big_ucomp :: "iterm \<Rightarrow> iterm \<Rightarrow> int" where
  "big_ucomp x y = I_comp (big_v x) (big_v y)"

definition uint_to_big :: "Uint \<Rightarrow> iterm" where
  "uint_to_big x = make_big False [x]"

definition erts_make_integer :: "Uint \<Rightarrow> iterm" where
  "erts_make_integer x = (if IS_USMALL False x then make_small (sint x) else uint_to_big x)"

text \<open>A signed word is the integer it stands for; \<open>- (Uint)x\<close> is taken as a word.\<close>

definition small_to_big :: "int \<Rightarrow> iterm" where
  "small_to_big x = (if x \<ge> 0 then make_big False [word_of_int x] else make_big True [- word_of_int x])"

definition erts_uint64_to_big :: "Uint64 \<Rightarrow> iterm" where
  "erts_uint64_to_big x = make_big False [x]"

definition erts_sint64_to_big :: "int \<Rightarrow> iterm" where
  "erts_sint64_to_big x =
     (let (neg, ux) = (if x \<ge> 0 then (False, word_of_int x) else (True, - word_of_int x))
      in make_big neg [ux])"

definition B_plus_minus :: "Uint list \<Rightarrow> bool \<Rightarrow> Uint list \<Rightarrow> bool \<Rightarrow> iterm" where
  "B_plus_minus x xsgn y ysgn =
     (if xsgn = ysgn
      then (if length x > length y then big_norm (I_add x y) xsgn else big_norm (I_add y x) xsgn)
      else (let comp = I_comp x y in
            if comp = 0 then make_small 0
            else if comp > 0 then big_norm (I_sub x y) xsgn
            else big_norm (I_sub y x) ysgn))"

definition big_plus :: "iterm \<Rightarrow> iterm \<Rightarrow> iterm" where
  "big_plus x y = B_plus_minus (big_v x) (big_sign x) (big_v y) (big_sign y)"

definition big_minus :: "iterm \<Rightarrow> iterm \<Rightarrow> iterm" where
  "big_minus x y = B_plus_minus (big_v x) (big_sign x) (big_v y) (\<not> big_sign y)"

definition big_minus_small :: "iterm \<Rightarrow> Uint \<Rightarrow> iterm" where
  "big_minus_small x y =
     (if big_sign x then big_norm (D_add (big_v x) y) (big_sign x) else big_norm (D_sub (big_v x) y) (big_sign x))"

definition big_plus_small :: "iterm \<Rightarrow> Uint \<Rightarrow> iterm" where
  "big_plus_small x y =
     (if big_sign x then big_norm (D_sub (big_v x) y) (big_sign x) else big_norm (D_add (big_v x) y) (big_sign x))"

definition small_times :: "int \<Rightarrow> int \<Rightarrow> iterm" where
  "small_times x y =
     (let sign = (x < 0) \<noteq> (y < 0);
          xu = (if x > 0 then word_of_int x else word_of_int (- x));
          yu = (if y > 0 then word_of_int y else word_of_int (- y));
          (d1, d0) = DMULc xu yu 0
      in if d1 = 0 \<and> IS_USMALL sign d0
         then (if sign then make_small (- sint d0) else make_small (sint d0))
         else make_big sign (if d1 \<noteq> 0 then [d0, d1] else [d0]))"

text \<open>\<open>same\<close> tells that both operands are the same object, \<open>r\<close> is the memory of the result.\<close>

definition big_times :: "bool \<Rightarrow> iterm \<Rightarrow> iterm \<Rightarrow> Uint list \<Rightarrow> iterm" where
  "big_times same x y r =
     (let sign = (big_sign x \<noteq> big_sign y); xsz = big_size x; ysz = big_size y;
          rv = (if ysz = 1 then D_mul (big_v x) (big_v y ! 0) r
                else if xsz = 1 then D_mul (big_v y) (big_v x ! 0) r
                else if same then I_sqr (big_v x) (ZERO_DIGITS r (xsz + 1))
                else if xsz \<ge> ysz then I_mul (big_v x) (big_v y) (ZERO_DIGITS r xsz)
                else I_mul (big_v y) (big_v x) (ZERO_DIGITS r ysz))
      in big_norm rv sign)"

definition big_times_small :: "iterm \<Rightarrow> Uint \<Rightarrow> Uint list \<Rightarrow> iterm" where
  "big_times_small x y r = big_norm (D_mul (big_v x) y r) (big_sign x)"

definition big_neg :: "iterm \<Rightarrow> Uint list \<Rightarrow> iterm" where
  "big_neg x r = big_norm (take (big_size x) (MOVE_DIGITS r (big_v x) (big_size x))) (\<not> big_sign x)"

text \<open>No result stands for a division that does not return.\<close>

definition big_div :: "iterm \<Rightarrow> iterm \<Rightarrow> iterm option" where
  "big_div x y =
     (let sign = (big_sign x \<noteq> big_sign y);
          q = (if big_size y = 1
               then (case D_div (big_v x) (big_v y ! 0) of Inl e \<Rightarrow> None | Inr (q, rem) \<Rightarrow> Some q)
               else map_option fst (I_div (big_v x) (big_v y)))
      in map_option (\<lambda>q. big_norm q sign) q)"

definition big_rem :: "iterm \<Rightarrow> iterm \<Rightarrow> iterm option" where
  "big_rem x y =
     (let sign = big_sign x in
      if big_size y = 1
      then (let rem = D_rem (big_v x) (big_v y ! 0) in
            if IS_USMALL sign rem
            then (if sign then Some (make_small (- sint rem)) else Some (make_small (sint rem)))
            else Some (make_big sign [rem]))
      else map_option (\<lambda>r. big_norm r sign) (I_rem (big_v x) (big_v y)))"

subsection \<open>The integer of a term\<close>

fun int_of_term :: "iterm \<Rightarrow> int" where
  "int_of_term (make_small i) = i"
| "int_of_term (make_big s ds) = (if s then - big_value ds else big_value ds)"
| "int_of_term _ = 0"

text \<open>The digits of a number, and the term of an integer: the smallest one there is for it.\<close>

function digits_of :: "int \<Rightarrow> Uint list" where
  "digits_of n = (if n < B then [word_of_int n] else word_of_int n # digits_of (n div B))"
  by pat_completeness auto
termination
  by (relation "measure nat") auto

declare digits_of.simps [simp del]

definition make_integer :: "int \<Rightarrow> iterm" where
  "make_integer z =
     (if IS_SSMALL z then make_small z
      else let ds = digits_of \<bar>z\<bar> in if length ds > BIG_ARITY_MAX then NIL else make_big (z < 0) ds)"

text \<open>The well-formed terms: the digits have no zero on top, and a small integer is not a big one.\<close>

fun wf_integer :: "iterm \<Rightarrow> bool" where
  "wf_integer (make_small i) = IS_SSMALL i"
| "wf_integer (make_big s ds) =
     (norm_ok ds \<and> length ds \<le> BIG_ARITY_MAX \<and> \<not> (length ds = 1 \<and> IS_USMALL s (ds ! 0)))"
| "wf_integer _ = False"

text \<open>The operands of the operations on big integers: a small integer in one digit is one, too.\<close>

fun is_big_operand :: "iterm \<Rightarrow> bool" where
  "is_big_operand (make_big s ds) = norm_ok ds"
| "is_big_operand _ = False"

lemma digits_of_ok:
  "0 \<le> n \<Longrightarrow> big_value (digits_of n) = n \<and> (n = 0 \<and> digits_of n = [0] \<or> norm_ok (digits_of n))"
proof (induction n rule: digits_of.induct)
  case (1 n)
  show ?case
  proof (cases "n < B")
    case True
    then have "uint (word_of_int n :: Uint) = n" using 1(2) by (intro uint_word_of_int_small) simp_all
    then show ?thesis using True by (subst (1 2 3) digits_of.simps) (auto simp: norm_ok_def)
  next
    case False
    then have d: "0 < n div B" by (simp add: pos_imp_zdiv_pos_iff)
    with 1(1) [OF False] have ih: "big_value (digits_of (n div B)) = n div B" "norm_ok (digits_of (n div B))" by auto
    have e: "digits_of n = word_of_int n # digits_of (n div B)" using False by (subst digits_of.simps) simp
    have "uint (word_of_int n :: Uint) = n mod B" by (simp add: uint_word_of_int)
    then show ?thesis unfolding e using ih by (simp add: norm_ok_def)
  qed
qed

lemma big_value_pos:
  assumes "norm_ok ds"
  shows "0 < big_value ds"
proof -
  have "0 < B ^ (length ds - 1)" by simp
  then show ?thesis using norm_ok_ge [OF assms] by (rule less_le_trans)
qed

lemma sint_small_word:
  fixes d :: Uint
  assumes "uint d < 2 ^ 63"
  shows "sint d = uint d"
proof -
  have "- (2 ^ 63) \<le> uint d" by (rule order_trans [OF _ uint_ge_0]) simp
  then show ?thesis using assms by (simp add: sint_uint signed_take_bit_int_eq_self)
qed

lemma sint_minus_small:
  fixes d :: Uint
  assumes "uint d \<le> 2 ^ 63"
  shows "sint (- d) = - uint d"
proof -
  have "- uint d \<le> 0" by simp
  then have b: "- (2 ^ 63) \<le> - uint d" "- uint d < 2 ^ 63" using assms by (simp_all add: le_less_trans [of _ 0])
  have "- d = word_of_int (- uint d)" by simp
  then have "sint (- d) = signed_take_bit 63 (- uint d)" by (simp only: sint_sbintrunc') simp
  then show ?thesis using b by (simp add: signed_take_bit_int_eq_self)
qed

lemma digits_of_value: "norm_ok ds \<Longrightarrow> digits_of (big_value ds) = ds"
proof (rule norm_ok_unique)
  assume "norm_ok ds"
  then have "0 < big_value ds" by (rule big_value_pos)
  then show "norm_ok (digits_of (big_value ds))" using digits_of_ok [of "big_value ds"] by auto
  show "big_value (digits_of (big_value ds)) = big_value ds" by (simp add: digits_of_ok big_value_bounds(1))
qed

lemma small_bounds:
  fixes u :: int
  assumes "0 \<le> u"
  shows "(if s then u \<le> 2 ^ 59 else u \<le> 2 ^ 59 - 1) \<longleftrightarrow> IS_SSMALL (if s then - u else u)"
  using assms by (cases s) (auto simp: IS_SSMALL_def MAX_SMALL_def MIN_SMALL_def)

lemma IS_USMALL_iff: "IS_USMALL s d \<longleftrightarrow> IS_SSMALL (if s then - uint d else uint d)"
proof -
  have m: "uint (word_of_int (MAX_SMALL + 1) :: Uint) = 2 ^ 59" "uint (word_of_int MAX_SMALL :: Uint) = 2 ^ 59 - 1"
    by (simp_all add: MAX_SMALL_def)
  show ?thesis unfolding IS_USMALL_def word_le_def m by (rule small_bounds [OF uint_ge_0])
qed

lemma norm_ok_long:
  assumes "norm_ok ds" and "length ds \<noteq> 1"
  shows "B \<le> big_value ds"
proof -
  obtain n where n: "length ds = Suc (Suc n)" using assms by (cases ds rule: remdups_adj.cases) (auto simp: norm_ok_def)
  have "B ^ 1 \<le> B ^ (length ds - 1)" unfolding n by (intro power_increasing) simp_all
  then show ?thesis using norm_ok_ge [OF assms(1)] by simp
qed

lemma big_norm_integer:
  assumes "norm_ok ds \<or> ds = [0]"
  shows "big_norm ds s = make_integer (if s then - big_value ds else big_value ds)"
proof (cases "length ds = 1 \<and> IS_USMALL s (ds ! 0)")
  case True
  then obtain d where d: "ds = [d]" "IS_USMALL s d" by (cases ds) auto
  then have i: "IS_SSMALL (if s then - uint d else uint d)" by (simp add: IS_USMALL_iff)
  have u: "uint d \<le> 2 ^ 59" using i by (auto simp: IS_SSMALL_def MAX_SMALL_def MIN_SMALL_def split: if_splits)
  have "sint d = uint d" using u by (intro sint_small_word) simp
  then show ?thesis using d i by (auto simp: big_norm_def make_integer_def)
next
  case False
  have z: "ds \<noteq> [0]" using False by (cases s) (auto simp: IS_USMALL_iff IS_SSMALL_def MAX_SMALL_def MIN_SMALL_def)
  then have n: "norm_ok ds" using assms by simp
  have b: "\<not> IS_SSMALL (if s then - big_value ds else big_value ds)"
  proof (cases "length ds = 1")
    case True
    then obtain d where "ds = [d]" by (cases ds) auto
    then show ?thesis using False by (cases s) (simp_all add: IS_USMALL_iff)
  next
    case F: False
    then show ?thesis using norm_ok_long [OF n F] by (auto simp: IS_SSMALL_def MAX_SMALL_def MIN_SMALL_def)
  qed
  have "0 < big_value ds" by (rule big_value_pos [OF n])
  then show ?thesis using False b digits_of_value [OF n] by (auto simp: big_norm_def make_integer_def Let_def)
qed

subsection \<open>The operations compute integers\<close>

abbreviation with_sign :: "bool \<Rightarrow> int \<Rightarrow> int" where
  "with_sign s v \<equiv> (if s then - v else v)"

lemma big_operand_cases:
  assumes "is_big_operand x"
  obtains s ds where "x = make_big s ds" and "norm_ok ds"
  using assms by (cases x) auto

lemma wf_big_operand: "wf_integer (make_big s ds) \<Longrightarrow> is_big_operand (make_big s ds)"
  by simp

lemma I_sub_integer:
  assumes "norm_ok x" and "norm_ok y" and "big_value y < big_value x"
  shows "big_norm (I_sub x y) s = make_integer (with_sign s (big_value x - big_value y))"
proof -
  have "big_value y < B ^ length x" using assms(3) big_value_bounds(2) [of x] by (rule less_trans)
  then have "length y \<le> length x" by (rule norm_ok_length [OF assms(2)])
  note r = I_sub_ok [OF this, OF _ less_imp_le [OF assms(3)]]
  have "x \<noteq> []" using assms(1) by (simp add: norm_ok_def)
  then show ?thesis using big_norm_integer [OF r(2)] r(1) by simp
qed

lemma B_plus_minus_integer:
  assumes "norm_ok x" and "norm_ok y"
  shows "B_plus_minus x s y t = make_integer (with_sign s (big_value x) + with_sign t (big_value y))"
proof (cases "s = t")
  case True
  show ?thesis
  proof (cases "length x > length y")
    case l: True
    then show ?thesis using True I_add_ok [OF assms] big_norm_integer [of "I_add x y" s]
      by (simp add: B_plus_minus_def)
  next
    case l: False
    then show ?thesis using True I_add_ok [OF assms(2,1)] big_norm_integer [of "I_add y x" s]
      by (cases t) (simp_all add: B_plus_minus_def algebra_simps)
  qed
next
  case False
  note c = I_comp_ok [OF assms]
  consider "big_value x = big_value y" | "big_value y < big_value x" | "big_value x < big_value y" by linarith
  then show ?thesis
  proof cases
    case 1
    then show ?thesis using False c by (simp add: B_plus_minus_def make_integer_def IS_SSMALL_def MIN_SMALL_def MAX_SMALL_def)
  next
    case 2
    then show ?thesis using False c I_sub_integer [OF assms 2, of s] by (auto simp: B_plus_minus_def)
  next
    case 3
    then show ?thesis using False c I_sub_integer [OF assms(2,1) 3, of t] by (auto simp: B_plus_minus_def)
  qed
qed

lemma big_plus_integer:
  assumes "is_big_operand x" and "is_big_operand y"
  shows "big_plus x y = make_integer (int_of_term x + int_of_term y)"
  using assms by (auto elim!: big_operand_cases simp: big_plus_def B_plus_minus_integer)

lemma big_minus_integer:
  assumes "is_big_operand x" and "is_big_operand y"
  shows "big_minus x y = make_integer (int_of_term x - int_of_term y)"
  using assms by (auto elim!: big_operand_cases simp: big_minus_def B_plus_minus_integer)

lemma big_neg_integer:
  assumes "is_big_operand x"
  shows "big_neg x r = make_integer (- int_of_term x)"
  using assms by (auto elim!: big_operand_cases simp: big_neg_def MOVE_DIGITS_def big_size_def big_norm_integer)

lemma big_comp_integer:
  assumes "is_big_operand x" and "is_big_operand y"
  shows "big_comp x y = sgn (int_of_term x - int_of_term y)"
proof -
  obtain s ds t es where x: "x = make_big s ds" "norm_ok ds" and y: "y = make_big t es" "norm_ok es"
    using assms by (auto elim!: big_operand_cases)
  show ?thesis using I_comp_ok [OF x(2) y(2)] big_value_pos [OF x(2)] big_value_pos [OF y(2)]
    by (auto simp: big_comp_def x(1) y(1) sgn_if)
qed

lemma big_ucomp_integer:
  assumes "is_big_operand x" and "is_big_operand y"
  shows "big_ucomp x y = sgn (\<bar>int_of_term x\<bar> - \<bar>int_of_term y\<bar>)"
  using assms by (auto elim!: big_operand_cases simp: big_ucomp_def I_comp_ok big_value_bounds(1))

lemma D_add_integer: "norm_ok x \<Longrightarrow> big_norm (D_add x c) s = make_integer (with_sign s (big_value x + uint c))"
  using big_norm_integer [of "D_add x c" s] D_add_ok [of x c] by simp

lemma D_sub_integer:
  assumes "norm_ok x" and "uint c \<le> big_value x"
  shows "big_norm (D_sub x c) s = make_integer (with_sign s (big_value x - uint c))"
proof -
  have "x \<noteq> []" using assms(1) by (simp add: norm_ok_def)
  note r = D_sub_ok [OF this assms(2)]
  show ?thesis using big_norm_integer [OF r(2)] r(1) by simp
qed

lemma big_plus_small_integer:
  assumes "is_big_operand x" and "uint y \<le> \<bar>int_of_term x\<bar>"
  shows "big_plus_small x y = make_integer (int_of_term x + uint y)"
    and "big_minus_small x y = make_integer (int_of_term x - uint y)"
proof -
  obtain s ds where x: "x = make_big s ds" "norm_ok ds" using assms(1) by (rule big_operand_cases)
  have le: "uint y \<le> big_value ds" using assms(2) x big_value_bounds(1) [of ds] by (simp split: if_splits)
  show "big_plus_small x y = make_integer (int_of_term x + uint y)"
    using D_add_integer [OF x(2), of y False] D_sub_integer [OF x(2) le, of True]
    by (cases s) (simp_all add: big_plus_small_def x(1))
  show "big_minus_small x y = make_integer (int_of_term x - uint y)"
    using D_add_integer [OF x(2), of y True] D_sub_integer [OF x(2) le, of False]
    by (cases s) (simp_all add: big_minus_small_def x(1))
qed

lemma D_mul_integer:
  assumes "norm_ok x" and "d \<noteq> 0"
  shows "big_norm (D_mul x d r) s = make_integer (with_sign s (big_value x * uint d))"
  using big_norm_integer [of "D_mul x d r" s] D_mul_ok [OF assms, of r] by simp

lemma big_times_small_integer:
  assumes "is_big_operand x" and "y \<noteq> 0"
  shows "big_times_small x y r = make_integer (int_of_term x * uint y)"
  using assms by (auto elim!: big_operand_cases simp: big_times_small_def D_mul_integer)

lemma zeroed_start: "k \<le> n \<Longrightarrow> big_value (take k (ZERO_DIGITS r n)) = 0"
  by (simp add: ZERO_DIGITS_def)

lemma big_times_integer:
  assumes "is_big_operand x" and "is_big_operand y" and "same \<Longrightarrow> x = y" and "big_size x + big_size y \<le> length r"
  shows "big_times same x y r = make_integer (int_of_term x * int_of_term y)"
proof -
  obtain s ds t es where x: "x = make_big s ds" "norm_ok ds" and y: "y = make_big t es" "norm_ok es"
    using assms(1,2) by (auto elim!: big_operand_cases)
  have sign: "int_of_term x * int_of_term y = with_sign (s \<noteq> t) (big_value ds * big_value es)" by (simp add: x(1) y(1))
  have len: "length ds + length es \<le> length r" using assms(4) by (simp add: x(1) y(1) big_size_def)
  have z: "length (ZERO_DIGITS r n) = length r" if "n \<le> length r" for n using that by (simp add: ZERO_DIGITS_def)
  note def = big_times_def Let_def x(1) y(1) big_size_def
  consider "length es = 1" | "length es \<noteq> 1" "length ds = 1" | "length es \<noteq> 1" "length ds \<noteq> 1" same
    | "length es \<noteq> 1" "length ds \<noteq> 1" "\<not> same" "length ds \<ge> length es"
    | "length es \<noteq> 1" "length ds \<noteq> 1" "\<not> same" "length ds < length es" by linarith
  then have "big_times same x y r = make_integer (with_sign (s \<noteq> t) (big_value ds * big_value es))"
  proof cases
    case 1
    then obtain e where e: "es = [e]" by (cases es) auto
    have "e \<noteq> 0" using y(2) by (simp add: e norm_ok_def)
    then show ?thesis using D_mul_integer [OF x(2), of e r "s \<noteq> t"] by (simp add: def e)
  next
    case 2
    then obtain e where e: "ds = [e]" by (cases ds) auto
    have "e \<noteq> 0" using x(2) by (simp add: e norm_ok_def)
    then show ?thesis using 2 D_mul_integer [OF y(2), of e r "s \<noteq> t"] by (simp add: def e mult.commute)
  next
    case 3
    then have xy: "t = s" "es = ds" using assms(3) x(1) y(1) by simp_all
    have "Suc (length ds) \<le> length r" using len xy x(2) by (cases ds) (auto simp: norm_ok_def)
    then have "big_norm (I_sqr ds (ZERO_DIGITS r (length ds + 1))) False = make_integer (big_value ds * big_value ds)"
      using I_sqr_ok [OF x(2), of "ZERO_DIGITS r (length ds + 1)"] len xy z [of "length ds + 1"]
        zeroed_start [of "Suc (length ds)" "length ds + 1" r] big_norm_integer [of "I_sqr ds (ZERO_DIGITS r (length ds + 1))" False]
      by (simp add: power2_eq_square)
    then show ?thesis using 3 xy by (simp add: def)
  next
    case 4
    then show ?thesis
      using I_mul_ok [OF x(2) y(2), of "ZERO_DIGITS r (length ds)"] len z [of "length ds"]
        zeroed_start [of "length es" "length ds" r] big_norm_integer [of "I_mul ds es (ZERO_DIGITS r (length ds))" "s \<noteq> t"]
      by (simp add: def)
  next
    case 5
    then show ?thesis
      using I_mul_ok [OF y(2) x(2), of "ZERO_DIGITS r (length es)"] len z [of "length es"]
        zeroed_start [of "length ds" "length es" r] big_norm_integer [of "I_mul es ds (ZERO_DIGITS r (length es))" "s \<noteq> t"]
      by (simp add: def mult.commute)
  qed
  then show ?thesis unfolding sign .
qed

subsection \<open>Terms of machine integers\<close>

lemma make_integer_uint: "make_integer (with_sign s (uint d)) =
    (if IS_USMALL s d then make_small (with_sign s (uint d)) else make_big s [d])"
proof -
  have "norm_ok [d] \<or> [d] = [0]" by (auto simp: norm_ok_def)
  from big_norm_integer [OF this, of s]
  have e: "make_integer (with_sign s (uint d)) = big_norm [d] s" by simp
  have "sint d = uint d" if "IS_USMALL s d"
  proof (rule sint_small_word)
    show "uint d < 2 ^ 63" using that small_bounds [of "uint d" s]
      by (auto simp: IS_USMALL_iff split: if_splits)
  qed
  then show ?thesis unfolding e by (auto simp: big_norm_def BIG_ARITY_MAX_def)
qed

lemma division_signs:
  fixes a b :: int
  assumes "0 < a" and "0 < b"
  shows "with_sign s a sdiv with_sign t b = with_sign (s \<noteq> t) (a div b)" and "with_sign s a smod with_sign t b = with_sign s (a mod b)"
proof -
  show "with_sign s a sdiv with_sign t b = with_sign (s \<noteq> t) (a div b)"
    using assms by (cases s; cases t) (simp_all add: signed_divide_int_def)
  show "with_sign s a smod with_sign t b = with_sign s (a mod b)"
    using assms by (cases s; cases t) (simp_all add: signed_modulo_int_def)
qed

lemma big_div_integer:
  assumes "is_big_operand x" and "is_big_operand y" and "\<bar>int_of_term y\<bar> \<le> \<bar>int_of_term x\<bar>"
  shows "big_div x y = Some (make_integer (int_of_term x sdiv int_of_term y))"
    and "big_rem x y = Some (make_integer (int_of_term x smod int_of_term y))"
proof -
  obtain s ds t es where x: "x = make_big s ds" "norm_ok ds" and y: "y = make_big t es" "norm_ok es"
    using assms(1,2) by (auto elim!: big_operand_cases)
  note pos = big_value_pos [OF x(2)] big_value_pos [OF y(2)]
  have le: "big_value es \<le> big_value ds" using assms(3) pos by (simp add: x(1) y(1) split: if_splits)
  have v: "int_of_term x sdiv int_of_term y = with_sign (s \<noteq> t) (big_value ds div big_value es)"
    "int_of_term x smod int_of_term y = with_sign s (big_value ds mod big_value es)"
    using division_signs [OF pos] by (simp_all add: x(1) y(1))
  have "big_div x y = Some (make_integer (with_sign (s \<noteq> t) (big_value ds div big_value es))) \<and>
    big_rem x y = Some (make_integer (with_sign s (big_value ds mod big_value es)))"
  proof (cases "length es = 1")
    case True
    then obtain d where d: "es = [d]" by (cases es) auto
    then have "d \<noteq> 0" using y(2) by (simp add: norm_ok_def)
    obtain q r where q: "D_div ds d = Inr (q, r)" "big_value q = big_value ds div uint d" "norm_ok q \<or> q = [0]"
      using D_div_ok [OF x(2) \<open>d \<noteq> 0\<close>] by blast
    have "sint u = uint u" if "IS_USMALL s u" for u
      using that small_bounds [of "uint u" s] by (intro sint_small_word) (cases s; simp add: IS_USMALL_iff)
    then have "big_rem x y = Some (make_integer (with_sign s (uint (D_rem ds d))))"
      unfolding make_integer_uint by (simp add: big_rem_def x(1) y(1) d big_size_def Let_def)
    then show ?thesis using q big_norm_integer [OF q(3), of "s \<noteq> t"] D_rem_ok [OF \<open>d \<noteq> 0\<close>, of ds]
      by (simp add: big_div_def x(1) y(1) d big_size_def Let_def)
  next
    case False
    moreover have "length es \<noteq> 0" using y(2) by (simp add: norm_ok_def)
    ultimately have "2 \<le> length es" by linarith
    then obtain q r where q: "I_div ds es = Some (q, r)" "I_rem ds es = Some r" "big_value q = big_value ds div big_value es"
      "big_value r = big_value ds mod big_value es" "norm_ok q \<or> q = [0]" "norm_ok r \<or> r = [0]"
      using I_div_ok [OF x(2) y(2) _ le] by blast
    show ?thesis using False q big_norm_integer [OF q(5), of "s \<noteq> t"] big_norm_integer [OF q(6), of s]
      by (simp add: big_div_def big_rem_def x(1) y(1) big_size_def Let_def)
  qed
  then show "big_div x y = Some (make_integer (int_of_term x sdiv int_of_term y))"
    "big_rem x y = Some (make_integer (int_of_term x smod int_of_term y))" unfolding v by blast+
qed

lemma erts_make_integer_ok: "erts_make_integer x = make_integer (uint x)"
  using make_integer_uint [of False x] sint_small_word [of x] small_bounds [of "uint x" False]
  by (auto simp: erts_make_integer_def uint_to_big_def IS_USMALL_iff)

lemma small_to_big_ok:
  assumes "- (2 ^ 63) \<le> x" and "x < 2 ^ 63"
  shows "int_of_term (small_to_big x) = x" and "x \<noteq> 0 \<Longrightarrow> is_big_operand (small_to_big x)"
    and "\<not> IS_SSMALL x \<Longrightarrow> small_to_big x = make_integer x" and "big_size (small_to_big x) = 1"
proof -
  have p: "uint (word_of_int x :: Uint) = x" if "0 \<le> x" using that assms(2) by (intro uint_word_of_int_small) simp_all
  have m: "- word_of_int x = (word_of_int (- x) :: Uint)" by simp
  have n: "uint (- word_of_int x :: Uint) = - x" if "x < 0" using that assms(1) unfolding m by (intro uint_word_of_int_small) simp_all
  show i: "int_of_term (small_to_big x) = x" using p n by (simp add: small_to_big_def)
  show "is_big_operand (small_to_big x)" if "x \<noteq> 0"
  proof (cases "0 \<le> x")
    case True
    have "(word_of_int x :: Uint) \<noteq> 0" using p [OF True] that by (metis unsigned_0)
    then show ?thesis using True by (simp add: small_to_big_def norm_ok_def)
  next
    case False
    have "(- word_of_int x :: Uint) \<noteq> 0" using n that False by (metis unsigned_0 neg_equal_0_iff_equal not_le)
    then show ?thesis using False by (simp add: small_to_big_def norm_ok_def)
  qed
  show "big_size (small_to_big x) = 1" by (simp add: small_to_big_def big_size_def)
  show "small_to_big x = make_integer x" if "\<not> IS_SSMALL x"
  proof (cases "0 \<le> x")
    case True
    then show ?thesis using make_integer_uint [of False "word_of_int x"] that p
      by (simp add: IS_USMALL_iff small_to_big_def)
  next
    case False
    then show ?thesis using make_integer_uint [of True "- word_of_int x"] that n
      by (simp add: IS_USMALL_iff small_to_big_def)
  qed
qed

lemma erts_sint64_to_big_ok: "erts_sint64_to_big x = small_to_big x"
  by (simp add: erts_sint64_to_big_def small_to_big_def)

lemma small_times_integer:
  assumes x: "- (2 ^ 63) \<le> x" "x < 2 ^ 63" and y: "- (2 ^ 63) \<le> y" "y < 2 ^ 63"
  shows "small_times x y = make_integer (x * y)"
proof -
  have u: "uint (if z > 0 then word_of_int z else word_of_int (- z) :: Uint) = \<bar>z\<bar>" if "- (2 ^ 63) \<le> z" "z < 2 ^ 63" for z
  proof (cases "z > 0")
    case True
    have "uint (word_of_int z :: Uint) = z" using True that by (intro uint_word_of_int_small) simp_all
    then show ?thesis using True by simp
  next
    case False
    have "uint (word_of_int (- z) :: Uint) = - z" using False that by (intro uint_word_of_int_small) simp_all
    then show ?thesis using False by simp
  qed
  let ?x = "if x > 0 then word_of_int x else word_of_int (- x) :: Uint" and ?y = "if y > 0 then word_of_int y else word_of_int (- y) :: Uint"
  let ?s = "(x < 0) \<noteq> (y < 0)"
  obtain d1 d0 where m: "DMULc ?x ?y 0 = (d1, d0)" by fastforce
  have v: "\<bar>x\<bar> * \<bar>y\<bar> = uint d1 * B + uint d0" using DMULc_ok [OF m] unfolding u [OF x] u [OF y] by simp
  have z: "x * y = with_sign ?s (\<bar>x\<bar> * \<bar>y\<bar>)" by (auto simp: abs_if)
  show ?thesis
  proof (cases "d1 = 0")
    case True
    then have "x * y = with_sign ?s (uint d0)" unfolding z v by simp
    moreover have "sint d0 = uint d0" if "IS_USMALL ?s d0"
      using that small_bounds [of "uint d0" ?s] by (intro sint_small_word) (auto simp: IS_USMALL_iff split: if_splits)
    ultimately show ?thesis using True make_integer_uint [of ?s d0]
      by (auto simp: small_times_def m Let_def)
  next
    case False
    then have n: "norm_ok [d0, d1]" by (simp add: norm_ok_def)
    have "x * y = with_sign ?s (big_value [d0, d1])" unfolding z v by simp
    then show ?thesis using False big_norm_integer [of "[d0, d1]" ?s] n
      by (simp add: small_times_def m Let_def big_norm_def BIG_ARITY_MAX_def)
  qed
qed

subsection \<open>Well-formed terms\<close>

lemma make_integer_wf:
  assumes "make_integer z \<noteq> NIL"
  shows "wf_integer (make_integer z)" and "int_of_term (make_integer z) = z"
proof -
  have "wf_integer (make_integer z) \<and> int_of_term (make_integer z) = z"
  proof (cases "IS_SSMALL z")
    case False
    then have nz: "z \<noteq> 0" by (auto simp: IS_SSMALL_def MAX_SMALL_def MIN_SMALL_def)
    note d = digits_of_ok [OF abs_ge_zero, of z]
    have l: "length (digits_of \<bar>z\<bar>) \<le> BIG_ARITY_MAX" and e: "make_integer z = make_big (z < 0) (digits_of \<bar>z\<bar>)"
      using assms False by (auto simp: make_integer_def Let_def split: if_splits)
    have "\<not> IS_USMALL (z < 0) x" if "digits_of \<bar>z\<bar> = [x]" for x
      using d that False by (auto simp: IS_USMALL_iff)
    then have "\<not> (length (digits_of \<bar>z\<bar>) = 1 \<and> IS_USMALL (z < 0) (digits_of \<bar>z\<bar> ! 0))"
      by (cases "digits_of \<bar>z\<bar>") auto
    then show ?thesis using d nz l unfolding e by auto
  qed (simp add: make_integer_def)
  then show "wf_integer (make_integer z)" "int_of_term (make_integer z) = z" by blast+
qed

lemma wf_is_make_integer: "wf_integer t \<Longrightarrow> t = make_integer (int_of_term t)"
proof (cases t)
  case (make_big s ds)
  assume "wf_integer t"
  then have w: "norm_ok ds" "length ds \<le> BIG_ARITY_MAX" "\<not> (length ds = 1 \<and> IS_USMALL s (ds ! 0))" using make_big by simp_all
  then have "big_norm ds s = make_big s ds" by (cases s) (simp_all add: big_norm_def)
  then show ?thesis unfolding make_big using big_norm_integer [of ds s] w(1) by simp
qed (simp_all add: make_integer_def)

lemma wf_integer_unique: "wf_integer t \<Longrightarrow> wf_integer u \<Longrightarrow> int_of_term t = int_of_term u \<longleftrightarrow> t = u"
  by (metis wf_is_make_integer)

interpretation bigs: comparator big_comp "\<lambda>t. is_big_operand t \<and> wf_integer t"
proof unfold_locales
  fix a b c
  assume a: "is_big_operand a \<and> wf_integer a" and b: "is_big_operand b \<and> wf_integer b"
  show "big_comp a b = 0 \<longleftrightarrow> a = b"
    using a b wf_integer_unique [of a b] by (simp add: big_comp_integer sgn_if)
  show "big_comp a b < 0 \<longleftrightarrow> 0 < big_comp b a"
    using a b by (simp add: big_comp_integer)
  assume c: "is_big_operand c \<and> wf_integer c" and "big_comp a b < 0" "big_comp b c < 0"
  then show "big_comp a c < 0" using a b by (simp add: big_comp_integer)
qed

subsection \<open>Bytes\<close>

text \<open>The bytes of a digit, most significant one first in the loop, and of a vector of digits.\<close>

definition bytes_digit :: "byte list \<Rightarrow> Uint" where
  "bytes_digit xp = foldr (\<lambda>b d. push_bit 8 d OR ucast b) xp 0"

function bytes_to_digits :: "byte list \<Rightarrow> Uint list" where
  "bytes_to_digits xp =
     (if length xp > 8 then bytes_digit (take 8 xp) # bytes_to_digits (drop 8 xp)
      else if xp \<noteq> [] then [bytes_digit xp]
      else [])"
  by pat_completeness auto
termination
  by (relation "measure length") auto

declare bytes_to_digits.simps [simp del]

definition bytes_to_big :: "byte list \<Rightarrow> bool \<Rightarrow> iterm" where
  "bytes_to_big xp xsgn =
     (let ds = bytes_to_digits xp in
      if length ds = 1 \<and> IS_USMALL xsgn (ds ! 0)
      then (let d = ds ! 0; d = (if xsgn then - d else d) in make_small (sint d))
      else make_big xsgn ds)"

fun low_bytes :: "nat \<Rightarrow> Uint \<Rightarrow> byte list" where
  "low_bytes 0 d = []"
| "low_bytes (Suc n) d = ucast (d AND 0xff) # low_bytes n (drop_bit 8 d)"

lemma drop_byte_less: "d \<noteq> 0 \<Longrightarrow> unat (drop_bit 8 d) < unat (d :: Uint)"
proof -
  assume "d \<noteq> 0"
  then have "0 < unat d" by (simp add: unat_gt_0)
  moreover have "unat (drop_bit 8 d) = unat d div 2 ^ 8" by (simp only: unat_drop_bit_eq, simp only: drop_bit_eq_div)
  ultimately show ?thesis by simp
qed

function top_bytes :: "Uint \<Rightarrow> byte list" where
  "top_bytes d = ucast (d AND 0xff) # (let d = drop_bit 8 d in if d \<noteq> 0 then top_bytes d else [])"
  by pat_completeness auto
termination
proof (relation "measure unat")
  fix d d' :: Uint
  assume d: "d' = drop_bit 8 d" "d' \<noteq> 0"
  then have "d \<noteq> 0" by auto
  then show "(d', d) \<in> measure unat" using drop_byte_less [of d] d(1) by simp
qed simp

declare top_bytes.simps [simp del]

fun digits_to_bytes :: "Uint list \<Rightarrow> byte list" where
  "digits_to_bytes [] = []"
| "digits_to_bytes [d] = top_bytes d"
| "digits_to_bytes (d # d2 # ds) = low_bytes 8 d @ digits_to_bytes (d2 # ds)"

definition big_to_bytes :: "iterm \<Rightarrow> byte list" where
  "big_to_bytes x = digits_to_bytes (big_v x)"

function count_bytes :: "Uint \<Rightarrow> nat" where
  "count_bytes d = (if d \<noteq> 0 then Suc (count_bytes (drop_bit 8 d)) else 0)"
  by pat_completeness auto
termination
  by (relation "measure unat") (simp_all only: wf_measure in_measure drop_byte_less not_False_eq_True)

declare count_bytes.simps [simp del]

definition big_bytes :: "iterm \<Rightarrow> nat" where
  "big_bytes x = (big_size x - 1) * 8 + count_bytes (last (big_v x))"

text \<open>The number the bytes stand for, least significant byte first.\<close>

fun bytes_value :: "byte list \<Rightarrow> int" where
  "bytes_value [] = 0"
| "bytes_value (b # bs) = uint b + 2 ^ 8 * bytes_value bs"

lemma bytes_value_append: "bytes_value (xs @ ys) = bytes_value xs + (2 ^ 8) ^ length xs * bytes_value ys"
  by (induction xs) (simp_all add: algebra_simps)

lemma bytes_value_bounds: "0 \<le> bytes_value bs \<and> bytes_value bs < (2 ^ 8) ^ length bs"
proof (induction bs)
  case (Cons b bs)
  then have "(2 ^ 8) * (bytes_value bs + 1) \<le> (2 ^ 8 :: int) * (2 ^ 8) ^ length bs" by (intro mult_left_mono) auto
  then show ?case using Cons uint_byte_bounds [of b] by simp
qed simp

lemma bytes_digit_ok:
  "length xp \<le> 8 \<Longrightarrow> uint (bytes_digit xp) = bytes_value xp"
proof (induction xp)
  case (Cons b xp)
  have ih: "uint (bytes_digit xp) = bytes_value xp" using Cons by simp
  have "(2 ^ 8 :: int) ^ length xp \<le> (2 ^ 8) ^ 7" using Cons.prems by (intro power_increasing) simp_all
  then have l: "bytes_value xp < (2 ^ 8) ^ 7" using bytes_value_bounds [of xp] by (blast intro: less_le_trans)
  have b: "uint (ucast b :: Uint) = uint b" using uint_byte_bounds [of b] by (simp add: unsigned_ucast_eq take_bit_int_eq_self)
  then have "uint (ucast b :: Uint) < 2 ^ 8" using uint_byte_bounds [of b] by simp
  note e = push_or [OF this, of "bytes_digit xp", unfolded b ih]
  have "bytes_digit (b # xp) = push_bit 8 (bytes_digit xp) OR ucast b" by (simp add: bytes_digit_def)
  then have "bytes_digit (b # xp) = word_of_int (bytes_value xp * 2 ^ 8 + uint b)" unfolding e .
  moreover have "uint (word_of_int (bytes_value xp * 2 ^ 8 + uint b) :: Uint) = bytes_value xp * 2 ^ 8 + uint b"
    using l bytes_value_bounds [of xp] uint_byte_bounds [of b] by (intro uint_word_of_int_small) simp_all
  ultimately show ?case by simp
qed (simp add: bytes_digit_def)

lemma bytes_to_digits_ok:
  "big_value (bytes_to_digits xp) = bytes_value xp \<and> length (bytes_to_digits xp) = (length xp + 7) div 8"
proof (induction xp rule: bytes_to_digits.induct)
  case (1 xp)
  consider "length xp > 8" | "length xp \<le> 8" "xp \<noteq> []" | "xp = []" by linarith
  then show ?case
  proof cases
    case 1
    then have e: "bytes_to_digits xp = bytes_digit (take 8 xp) # bytes_to_digits (drop 8 xp)"
      by (subst bytes_to_digits.simps) simp
    have "bytes_value xp = bytes_value (take 8 xp) + (2 ^ 8) ^ 8 * bytes_value (drop 8 xp)"
      using 1 bytes_value_append [of "take 8 xp" "drop 8 xp"] by simp
    then show ?thesis unfolding e using 1 "1.IH" [OF 1] bytes_digit_ok [of "take 8 xp"] by simp
  next
    case 2
    then have e: "bytes_to_digits xp = [bytes_digit xp]" by (subst bytes_to_digits.simps) simp
    have "(length xp + 7) div 8 = 1" using 2 by (cases xp) auto
    then show ?thesis unfolding e using 2 bytes_digit_ok [of xp] by simp
  next
    case 3
    then show ?thesis by (subst (1 2) bytes_to_digits.simps) simp
  qed
qed

lemma low_byte: "uint (ucast (d AND 0xff) :: byte) = uint (d :: Uint) mod 2 ^ 8"
proof -
  have "(0xff :: Uint) = mask 8" by (simp add: mask_eq_exp_minus_1)
  then have "uint (d AND 0xff) = uint d mod 2 ^ 8" by (simp only: uint_and_mask)
  then show ?thesis by (simp add: unsigned_ucast_eq take_bit_eq_mod)
qed

lemma low_bytes_ok:
  "bytes_value (low_bytes n d) = uint d mod (2 ^ 8) ^ n \<and> length (low_bytes n d) = n"
proof (induction n arbitrary: d)
  case (Suc n)
  have "uint d mod (2 ^ 8 * (2 ^ 8) ^ n) = 2 ^ 8 * (uint d div 2 ^ 8 mod (2 ^ 8) ^ n) + uint d mod 2 ^ 8"
    by (rule zmod_zmult2_eq) simp
  then show ?case using Suc [of "drop_bit 8 d"] by (simp add: low_byte uint_drop)
qed simp

lemma top_bytes_ok:
  "bytes_value (top_bytes d) = uint d \<and> (d \<noteq> 0 \<longrightarrow> length (top_bytes d) = count_bytes d \<and> last (top_bytes d) \<noteq> 0) \<and> top_bytes d \<noteq> []"
proof (induction d rule: top_bytes.induct)
  case (1 d)
  let ?d = "drop_bit 8 d"
  have v: "uint d = uint d mod 2 ^ 8 + 2 ^ 8 * uint ?d" by (simp add: uint_drop)
  show ?case
  proof (cases "?d = 0")
    case True
    then have e: "top_bytes d = [ucast (d AND 0xff)]" by (subst top_bytes.simps) simp
    have b: "uint (ucast (d AND 0xff) :: byte) = uint d" using v True low_byte [of d] by simp
    have "count_bytes d = 1" if "d \<noteq> 0" using that True by (subst count_bytes.simps, subst count_bytes.simps) simp
    moreover have "(ucast (d AND 0xff) :: byte) \<noteq> 0" if "d \<noteq> 0" using that b by (metis unsigned_0 uint_0_iff)
    ultimately show ?thesis unfolding e using b by simp
  next
    case False
    then have e: "top_bytes d = ucast (d AND 0xff) # top_bytes ?d" by (subst top_bytes.simps) simp
    note ih = "1.IH" [OF refl False]
    have "count_bytes d = Suc (count_bytes ?d)" if "d \<noteq> 0" using that by (subst count_bytes.simps) simp
    then show ?thesis unfolding e using ih False v low_byte [of d] by simp
  qed
qed

lemma bytes_value_ge:
  assumes "bs \<noteq> []" and "last bs \<noteq> 0"
  shows "(2 ^ 8) ^ (length bs - 1) \<le> bytes_value bs"
proof -
  obtain xs b where bs: "bs = xs @ [b]" using assms(1) by (cases bs rule: rev_cases) auto
  have "uint b \<noteq> 0" using assms(2) bs by (simp add: uint_0_iff)
  then have "1 \<le> uint b" using uint_ge_0 [of b] by linarith
  then have "(2 ^ 8) ^ length xs * 1 \<le> (2 ^ 8) ^ length xs * uint b" by (intro mult_left_mono) simp_all
  moreover have "bytes_value bs = bytes_value xs + (2 ^ 8) ^ length xs * uint b" by (simp add: bs bytes_value_append)
  ultimately have "(2 ^ 8) ^ length xs \<le> bytes_value bs" using bytes_value_bounds [THEN conjunct1, of xs] by linarith
  then show ?thesis by (simp add: bs)
qed

lemma count_bytes_bounds: "d \<noteq> 0 \<Longrightarrow> 1 \<le> count_bytes d \<and> count_bytes d \<le> 8"
proof -
  assume d: "d \<noteq> 0"
  note t = top_bytes_ok [of d]
  have ne: "top_bytes d \<noteq> []" "last (top_bytes d) \<noteq> 0" and l: "length (top_bytes d) = count_bytes d" using t d by simp_all
  have "((2 :: int) ^ 8) ^ (count_bytes d - 1) < (2 ^ 8) ^ 8"
    using bytes_value_ge [OF ne] l t digit_bounds(2) [of d] by simp
  then have "count_bytes d - 1 < 8" by (rule power_less_imp_less_exp [rotated]) simp
  moreover have "count_bytes d \<noteq> 0" unfolding l [symmetric] using ne(1) by simp
  ultimately show ?thesis by simp
qed

lemma digits_to_bytes_ok:
  "ds \<noteq> [] \<Longrightarrow> bytes_value (digits_to_bytes ds) = big_value ds \<and> digits_to_bytes ds \<noteq> [] \<and>
     (last ds \<noteq> 0 \<longrightarrow> last (digits_to_bytes ds) \<noteq> 0 \<and>
        length (digits_to_bytes ds) = (length ds - 1) * 8 + count_bytes (last ds))"
proof (induction ds rule: digits_to_bytes.induct)
  case (2 d)
  then show ?case using top_bytes_ok [of d] by simp
next
  case (3 d d2 ds)
  have "bytes_value (low_bytes 8 d) = uint d" using low_bytes_ok [of 8 d] digit_bounds [of d] by simp
  moreover have "length (low_bytes 8 d) = 8" using low_bytes_ok [of 8 d] by simp
  ultimately show ?case using "3.IH" by (simp add: bytes_value_append)
qed simp

lemma bytes_to_big_integer:
  assumes "bs \<noteq> []" and "last bs \<noteq> 0" and "length bs \<le> 8 * BIG_ARITY_MAX"
  shows "bytes_to_big bs s = make_integer (with_sign s (bytes_value bs))"
proof -
  let ?ds = "bytes_to_digits bs"
  have v: "big_value ?ds = bytes_value bs" and l: "length ?ds = (length bs + 7) div 8" using bytes_to_digits_ok [of bs] by simp_all
  have lb: "(length ?ds - 1) * 8 \<le> length bs - 1"
  proof -
    obtain n where n: "length bs = Suc n" using assms(1) by (cases bs) auto
    have "length ?ds = (n + 8) div 8" unfolding l n by (simp add: add.commute)
    then have "length ?ds = n div 8 + 1" by simp
    then show ?thesis using n div_mult_mod_eq [of n 8] by simp
  qed
  have "(2 ^ 8 :: int) ^ ((length ?ds - 1) * 8) \<le> (2 ^ 8) ^ (length bs - 1)" by (intro power_increasing lb) simp_all
  also have "\<dots> \<le> bytes_value bs" by (rule bytes_value_ge [OF assms(1,2)])
  also have "(2 ^ 8 :: int) ^ ((length ?ds - 1) * 8) = B ^ (length ?ds - 1)"
  proof -
    have "(2 ^ 8 :: int) ^ ((length ?ds - 1) * 8) = ((2 ^ 8) ^ 8) ^ (length ?ds - 1)"
      by (simp only: mult.commute [of _ 8] power_mult)
    then show ?thesis by simp
  qed
  finally have n: "norm_ok ?ds" unfolding v [symmetric] using l assms(1) by (intro norm_okI [of _ "length ?ds - 1"]) (cases bs; simp)
  have small: "sint (if s then - d else d) = with_sign s (uint d)" if "IS_USMALL s d" for d
  proof -
    have b: "uint d < 2 ^ 63" using that small_bounds [of "uint d" s] by (cases s) (auto simp: IS_USMALL_iff)
    show ?thesis using sint_small_word [OF b] sint_minus_small [OF less_imp_le [OF b]] by simp
  qed
  have le: "length ?ds \<le> BIG_ARITY_MAX" unfolding l using assms(3) by simp
  show ?thesis
  proof (cases "length ?ds = 1 \<and> IS_USMALL s (?ds ! 0)")
    case True
    then obtain d where d: "?ds = [d]" by (cases ?ds) auto
    then have "bytes_value bs = uint d" using v by simp
    then show ?thesis using True d small [of d] make_integer_uint [of s d] by (cases s) (simp_all add: bytes_to_big_def Let_def)
  next
    case False
    then have "bytes_to_big bs s = big_norm ?ds s" using le by (auto simp: bytes_to_big_def big_norm_def Let_def)
    then show ?thesis using big_norm_integer [of ?ds s] n v by simp
  qed
qed

lemma big_to_bytes_ok:
  assumes "is_big_operand x"
  shows "bytes_value (big_to_bytes x) = \<bar>int_of_term x\<bar>" and "length (big_to_bytes x) = big_bytes x"
    and "big_to_bytes x \<noteq> []" and "last (big_to_bytes x) \<noteq> 0" and "big_bytes x \<le> 8 * big_size x"
proof -
  obtain s ds where x: "x = make_big s ds" "norm_ok ds" using assms by (rule big_operand_cases)
  have ne: "ds \<noteq> []" "last ds \<noteq> 0" using x(2) by (simp_all add: norm_ok_def)
  note d = digits_to_bytes_ok [OF ne(1)]
  show "bytes_value (big_to_bytes x) = \<bar>int_of_term x\<bar>" using d x big_value_bounds(1) [of ds] by (simp add: big_to_bytes_def)
  show "length (big_to_bytes x) = big_bytes x" using d ne x by (simp add: big_to_bytes_def big_bytes_def big_size_def)
  show "big_to_bytes x \<noteq> []" "last (big_to_bytes x) \<noteq> 0" using d ne x by (simp_all add: big_to_bytes_def)
  obtain n where "length ds = Suc n" using ne(1) by (cases ds) auto
  then show "big_bytes x \<le> 8 * big_size x" using count_bytes_bounds [OF ne(2)] x by (simp add: big_bytes_def big_size_def)
qed

subsection \<open>Machine integers of terms\<close>

datatype fail_reason = BADARG | SYSTEM_LIMIT | BADARITH

fun digits_word :: "Uint list \<Rightarrow> nat \<Rightarrow> Uint \<Rightarrow> Uint" where
  "digits_word [] n uval = uval"
| "digits_word (d # ds) n uval = digits_word ds (n + D_EXP) (uval OR push_bit n d)"

fun term_to_Uint :: "iterm \<Rightarrow> fail_reason + Uint" where
  "term_to_Uint (make_small i) = (if i < 0 then Inl BADARG else Inr (word_of_int i))"
| "term_to_Uint (make_big s ds) =
     (if s then Inl BADARG
      else if length ds * D_EXP > 64 then Inl SYSTEM_LIMIT
      else Inr (digits_word ds 0 0))"
| "term_to_Uint _ = Inl BADARG"

fun term_to_Sint :: "iterm \<Rightarrow> int option" where
  "term_to_Sint (make_small i) = Some i"
| "term_to_Sint (make_big s ds) =
     (if length ds * D_EXP > 64 then None
      else let uval = digits_word ds 0 0 in
        if s then (let uval = - uval in if sint uval > 0 then None else Some (sint uval))
        else if sint uval < 0 then None else Some (sint uval))"
| "term_to_Sint _ = None"

lemma long_or_single:
  assumes "norm_ok ds"
  obtains (single) d where "ds = [d]" and "length ds * D_EXP \<le> 64" and "digits_word ds 0 0 = d" and "d \<noteq> 0"
  | (long) "length ds * D_EXP > 64" and "B \<le> big_value ds"
proof (cases "length ds = 1")
  case True
  then obtain d where "ds = [d]" by (cases ds) auto
  then show thesis using assms by (intro single [of d]) (simp_all add: D_EXP_def norm_ok_def)
next
  case False
  moreover have "length ds \<noteq> 0" using assms by (simp add: norm_ok_def)
  ultimately have "length ds * D_EXP > 64" by (cases ds) (auto simp: D_EXP_def)
  then show thesis using norm_ok_long [OF assms False] by (rule long)
qed

lemma term_to_Uint_ok:
  assumes "wf_integer t"
  shows "term_to_Uint t =
    (if int_of_term t < 0 then Inl BADARG
     else if int_of_term t < B then Inr (word_of_int (int_of_term t))
     else Inl SYSTEM_LIMIT)"
proof (cases t)
  case (make_small i)
  have "i < B" using assms make_small by (auto simp: IS_SSMALL_def MAX_SMALL_def)
  then show ?thesis using make_small by simp
next
  case (make_big s ds)
  then have n: "norm_ok ds" using assms by simp
  show ?thesis using n
  proof (cases rule: long_or_single)
    case (single d)
    then show ?thesis using make_big digit_bounds [of d] big_value_pos [OF n] by simp
  next
    case long
    then show ?thesis using make_big by simp
  qed
qed (use assms in simp_all)

lemma sint_cases: "sint (u :: Uint) = (if uint u < 2 ^ 63 then uint u else uint u - B)"
proof -
  have e: "sint u = (uint u + 2 ^ 63) mod B - 2 ^ 63"
    by (simp add: sint_uint signed_take_bit_eq_take_bit_shift take_bit_eq_mod)
  show ?thesis
  proof (cases "uint u < 2 ^ 63")
    case True
    then show ?thesis unfolding e using digit_bounds(1) [of u] by simp
  next
    case False
    have "(uint u + 2 ^ 63) mod B = (uint u + 2 ^ 63 - B) mod B" by (rule minus_mod_self2 [symmetric])
    also have "\<dots> = uint u + 2 ^ 63 - B" using False digit_bounds(2) [of u] by (intro mod_pos_pos_trivial) simp_all
    finally show ?thesis unfolding e using False by simp
  qed
qed

lemma uint_minus: "d \<noteq> 0 \<Longrightarrow> uint (- d :: Uint) = B - uint d"
proof -
  assume "d \<noteq> 0"
  then have "0 < uint d" using digit_bounds(1) [of d] by (simp add: uint_0_iff order_less_le)
  have "uint (- d) = (- uint d) mod B" by (simp add: uint_word_ariths(4))
  also have "\<dots> = (B - uint d) mod B" by (rule minus_mod_self1 [of B "uint d", symmetric])
  also have "\<dots> = B - uint d" using \<open>0 < uint d\<close> digit_bounds(2) [of d] by (intro mod_pos_pos_trivial) simp_all
  finally show ?thesis .
qed

lemma term_to_Sint_ok:
  assumes "wf_integer t"
  shows "term_to_Sint t = (if - (2 ^ 63) \<le> int_of_term t \<and> int_of_term t < 2 ^ 63 then Some (int_of_term t) else None)"
proof (cases t)
  case (make_small i)
  have "- (2 ^ 63) \<le> i" "i < 2 ^ 63" using assms make_small by (simp_all add: IS_SSMALL_def MAX_SMALL_def MIN_SMALL_def)
  then show ?thesis using make_small by simp
next
  case (make_big s ds)
  then have n: "norm_ok ds" using assms by simp
  show ?thesis using n
  proof (cases rule: long_or_single)
    case (single d)
    have "0 < uint d" using big_value_pos [OF n] single(1) by simp
    then show ?thesis using make_big single digit_bounds [of d] by (auto simp: Let_def sint_cases uint_minus)
  next
    case long
    then show ?thesis using make_big by simp
  qed
qed (use assms in simp_all)

subsection \<open>Properties\<close>

text \<open>
  C30: A big integer written to bytes by big\_to\_bytes is read back by bytes\_to\_big as the same term, and
  takes the number of bytes that big\_bytes tells, which the digits have room for.
\<close>

theorem big_bytes_round_trip:
  assumes "wf_integer x" and "is_big_operand x"
  shows "bytes_to_big (big_to_bytes x) (big_sign x) = x \<and> length (big_to_bytes x) = big_bytes x \<and> big_bytes x \<le> 8 * big_size x"
proof -
  obtain s ds where x: "x = make_big s ds" "norm_ok ds" using assms(2) by (rule big_operand_cases)
  note b = big_to_bytes_ok [OF assms(2)]
  have "big_size x \<le> BIG_ARITY_MAX" using assms(1) by (simp add: x(1) big_size_def)
  then have "length (big_to_bytes x) \<le> 8 * BIG_ARITY_MAX" using b(2,5) by linarith
  then have "bytes_to_big (big_to_bytes x) s = make_integer (with_sign s (bytes_value (big_to_bytes x)))"
    by (rule bytes_to_big_integer [OF b(3,4)])
  also have "with_sign s (bytes_value (big_to_bytes x)) = int_of_term x"
    unfolding b(1) using big_value_bounds(1) [of ds] by (simp add: x(1))
  also have "make_integer (int_of_term x) = x" using wf_is_make_integer [OF assms(1)] by (rule sym)
  finally show ?thesis using b(2,5) by (simp add: x(1))
qed

theorem big_bytes_round_trip_witness:
  "bytes_to_big (big_to_bytes (make_big True [5, 0x300])) True = make_big True [5, 0x300]"
  using big_bytes_round_trip [of "make_big True [5, 0x300]"] by (simp add: norm_ok_def BIG_ARITY_MAX_def)

text \<open>
  term\_to\_Uint and term\_to\_Sint accept exactly the integers that a 64-bit word holds, without or with
  a sign, and return them; a negative number is a bad argument for the first, a too large one is beyond the limit.
\<close>

theorem machine_integers_of_terms:
  assumes "wf_integer t"
  shows "term_to_Uint t =
      (if int_of_term t < 0 then Inl BADARG
       else if int_of_term t < B then Inr (word_of_int (int_of_term t))
       else Inl SYSTEM_LIMIT) \<and>
    term_to_Sint t = (if - (2 ^ 63) \<le> int_of_term t \<and> int_of_term t < 2 ^ 63 then Some (int_of_term t) else None)"
  using term_to_Uint_ok [OF assms] term_to_Sint_ok [OF assms] by blast

theorem machine_integers_of_terms_witness:
  "term_to_Sint (make_big True [0x8000000000000000]) = Some (- (2 ^ 63)) \<and>
   term_to_Uint (make_big False [0x8000000000000001]) = Inr 0x8000000000000001"
  using machine_integers_of_terms [of "make_big True [0x8000000000000000]"] machine_integers_of_terms [of "make_big False [0x8000000000000001]"]
  by (simp add: norm_ok_def BIG_ARITY_MAX_def IS_USMALL_def MAX_SMALL_def MIN_SMALL_def)

end
