(* ===== verification/Big_Bits.thy ===== *)
theory Big_Bits
  imports Bignum
begin

section \<open>Bit operations and shifts of big integers: big.c\<close>

text \<open>
  I\_btrail, I\_band, I\_bor, I\_bxor, I\_bnot and I\_lshift. Negative numbers are turned into two's
  complement digit by digit: the digits \<open>c\<close> of the absolute value less one, complemented. The
  operations are specified by the operations on infinite bit strings that HOL has on the integers.
\<close>

subsection \<open>Definitions\<close>

text \<open>
  The digits \<open>c\<close> that the loops compute by DSUB and DSUBb while they walk over a negative operand.
\<close>

fun borrow_loop :: "Uint list \<Rightarrow> Uint \<Rightarrow> Uint list" where
  "borrow_loop [] b = []"
| "borrow_loop (x # xs) b = (let (b, c) = DSUBb x 0 b in c # borrow_loop xs b)"

fun less_one :: "Uint list \<Rightarrow> Uint list" where
  "less_one [] = []"
| "less_one (x # xs) = (let (b, c) = DSUB x 1 in c # borrow_loop xs b)"

text \<open>
  I\_btrail for a negative result: the digits D\_MASK on top are left out, the others complemented, and
  one is added. The loop over \<open>mask\<close> finds the ones on top of the highest digit, which is not D\_MASK, in at
  most 64 rounds.
\<close>

fun strip_masks :: "Uint list \<Rightarrow> Uint list" where
  "strip_masks (d # d2 # ds) = (if d = D_MASK then strip_masks (d2 # ds) else d # d2 # ds)"
| "strip_masks ds = ds"

fun prev_mask_loop :: "nat \<Rightarrow> Uint \<Rightarrow> Uint \<Rightarrow> Uint \<Rightarrow> Uint" where
  "prev_mask_loop 0 d prev_mask msk = prev_mask"
| "prev_mask_loop (Suc n) d prev_mask msk =
     (if d AND msk = msk then prev_mask_loop n d msk (drop_bit 1 msk OR push_bit (D_EXP - 1) 1) else prev_mask)"

definition I_btrail :: "Uint list \<Rightarrow> bool \<Rightarrow> Uint list" where
  "I_btrail r sign =
     (if sign
      then (let top = strip_masks (rev r); d = hd top;
                h = (if d = D_MASK then 0
                     else NOT d AND NOT (prev_mask_loop 64 d 0 (push_bit (D_EXP - 1) 1)))
            in D_add (map NOT (rev (tl top)) @ [h]) 1)
      else trim r)"

text \<open>The first operand is at least as long as the second.\<close>

definition I_band :: "Uint list \<Rightarrow> bool \<Rightarrow> Uint list \<Rightarrow> bool \<Rightarrow> Uint list" where
  "I_band x xsgn y ysgn =
     (let yl = length y; xy = take yl x; rest = drop yl x;
          r = (if \<not> xsgn
               then (if \<not> ysgn then map2 (\<lambda>x y. x AND y) xy y
                     else map2 (\<lambda>x c. x AND NOT c) xy (less_one y) @ rest)
               else (if \<not> ysgn then map2 (\<lambda>c y. NOT c AND y) (less_one xy) y
                     else map2 (\<lambda>c1 c2. NOT c1 AND NOT c2) (less_one xy) (less_one y) @ map NOT rest))
      in I_btrail r (xsgn \<and> ysgn))"

definition I_bor :: "Uint list \<Rightarrow> bool \<Rightarrow> Uint list \<Rightarrow> bool \<Rightarrow> Uint list" where
  "I_bor x xsgn y ysgn =
     (let yl = length y; xy = take yl x; rest = drop yl x;
          r = (if \<not> xsgn
               then (if \<not> ysgn then map2 (\<lambda>x y. x OR y) xy y @ rest
                     else map2 (\<lambda>x c. x OR NOT c) xy (less_one y))
               else (if \<not> ysgn
                     then map2 (\<lambda>c y. NOT c OR y) (take yl (less_one x)) y @ map NOT (drop yl (less_one x))
                     else map2 (\<lambda>c1 c2. NOT c1 OR NOT c2) (less_one xy) (less_one y)))
      in I_btrail r (xsgn \<or> ysgn))"

definition I_bxor :: "Uint list \<Rightarrow> bool \<Rightarrow> Uint list \<Rightarrow> bool \<Rightarrow> Uint list" where
  "I_bxor x xsgn y ysgn =
     (let yl = length y; xy = take yl x; rest = drop yl x;
          r = (if \<not> xsgn
               then (if \<not> ysgn then map2 (\<lambda>x y. x XOR y) xy y @ rest
                     else map2 (\<lambda>x c. x XOR NOT c) xy (less_one y) @ map NOT rest)
               else (if \<not> ysgn then map2 (\<lambda>c y. NOT c XOR y) (less_one xy) y @ map NOT rest
                     else map2 (\<lambda>c1 c2. NOT c1 XOR NOT c2) (less_one xy) (less_one y) @ rest))
      in I_btrail r (xsgn \<noteq> ysgn))"

definition I_bnot :: "Uint list \<Rightarrow> bool \<Rightarrow> Uint list" where
  "I_bnot x xsgn = (if xsgn then D_add x 1 else D_sub x 1)"

text \<open>
  The shift by \<open>y\<close> bits: to the left for a positive \<open>y\<close>. The loop to the right starts at the highest digit; a
  negative number is rounded down, by one that is added to its absolute value when a bit was lost.
\<close>

fun lshift_loop :: "nat \<Rightarrow> Uint \<Rightarrow> Uint list \<Rightarrow> Uint list \<times> Uint" where
  "lshift_loop sw a1 [] = ([], a1)"
| "lshift_loop sw a1 (x # xs) =
     (let a0 = push_bit sw x OR a1; a1 = drop_bit (D_EXP - sw) x; (r, a1) = lshift_loop sw a1 xs in (a0 # r, a1))"

fun rshift_loop :: "nat \<Rightarrow> Uint \<Rightarrow> Uint list \<Rightarrow> Uint list \<times> Uint" where
  "rshift_loop sw a0 [] = ([], a0)"
| "rshift_loop sw a0 (x # xs) =
     (let a1 = drop_bit sw x OR a0; a0 = push_bit (D_EXP - sw) x; (r, a0) = rshift_loop sw a0 xs in (a1 # r, a0))"

definition I_lshift :: "Uint list \<Rightarrow> int \<Rightarrow> bool \<Rightarrow> Uint list" where
  "I_lshift x y sign =
     (if y = 0 then x
      else if length x = 1 \<and> hd x = 0 then [0]
      else (let ay = nat \<bar>y\<bar>; bw = ay div D_EXP; sw = ay mod D_EXP
            in if y > 0
               then (let (r, a1) = (if sw \<noteq> 0 then lshift_loop sw 0 x else (x, 0))
                     in if a1 = 0 then replicate bw 0 @ r else replicate bw 0 @ r @ [a1])
               else if length x \<le> bw then [if sign then 1 else 0]
               else (let add_one = (sign \<and> list_ex (\<lambda>z. z \<noteq> 0) (take bw x));
                         (r, a0) = (if sw \<noteq> 0 then rshift_loop sw 0 (rev (drop bw x)) else (rev (drop bw x), 0));
                         add_one = (add_one \<or> sign \<and> a0 \<noteq> 0)
                     in if hd r = 0 \<and> length r = 1 then [if sign then 1 else 0]
                        else (let r = (if hd r = 0 then tl r else r) in if add_one then D_add (rev r) 1 else rev r))))"

text \<open>The operations on terms.\<close>

definition big_band :: "iterm \<Rightarrow> iterm \<Rightarrow> iterm" where
  "big_band x y =
     (let xsgn = big_sign x; ysgn = big_sign y; sign = (xsgn \<and> ysgn)
      in if big_size x \<ge> big_size y then big_norm (I_band (big_v x) xsgn (big_v y) ysgn) sign
         else big_norm (I_band (big_v y) ysgn (big_v x) xsgn) sign)"

definition big_bor :: "iterm \<Rightarrow> iterm \<Rightarrow> iterm" where
  "big_bor x y =
     (let xsgn = big_sign x; ysgn = big_sign y; sign = (xsgn \<or> ysgn)
      in if big_size x \<ge> big_size y then big_norm (I_bor (big_v x) xsgn (big_v y) ysgn) sign
         else big_norm (I_bor (big_v y) ysgn (big_v x) xsgn) sign)"

definition big_bxor :: "iterm \<Rightarrow> iterm \<Rightarrow> iterm" where
  "big_bxor x y =
     (let xsgn = big_sign x; ysgn = big_sign y; sign = (xsgn \<noteq> ysgn)
      in if big_size x \<ge> big_size y then big_norm (I_bxor (big_v x) xsgn (big_v y) ysgn) sign
         else big_norm (I_bxor (big_v y) ysgn (big_v x) xsgn) sign)"

definition big_bnot :: "iterm \<Rightarrow> iterm" where
  "big_bnot x = (let sign = (\<not> big_sign x) in big_norm (I_bnot (big_v x) sign) sign)"

definition big_lshift :: "iterm \<Rightarrow> int \<Rightarrow> iterm" where
  "big_lshift x y = (let sign = big_sign x in big_norm (I_lshift (big_v x) y sign) sign)"

subsection \<open>The integer of a vector in two's complement\<close>

primrec two_value :: "bool \<Rightarrow> Uint list \<Rightarrow> int" where
  "two_value s [] = (if s then - 1 else 0)"
| "two_value s (d # ds) = uint d + B * two_value s ds"

lemma two_value_big: "two_value s ds = big_value ds - (if s then B ^ length ds else 0)"
  by (induction ds) (auto simp: algebra_simps)

lemma two_value_append: "two_value s (xs @ ys) = big_value xs + B ^ length xs * two_value s ys"
  by (induction xs) (simp_all add: algebra_simps)

lemma two_value_extend: "two_value s (replicate n (if s then - 1 else 0)) = (if s then - 1 else 0)"
  by (induction n) (simp_all add: unsigned_minus_1_eq_mask mask_eq_exp_minus_1)

lemma bit_horner: "bit (uint (x :: Uint) + B * X) m \<longleftrightarrow> (if m < 64 then bit x m else bit X (m - 64))"
proof -
  have "take_bit 64 (uint x) = uint x" by (rule take_bit_int_eq_self [OF digit_bounds])
  then have "uint x + B * X = concat_bit 64 (uint x) X" by (simp add: concat_bit_eq push_bit_eq_mult mult.commute)
  then show ?thesis by (auto simp: bit_concat_bit_iff bit_uint_iff)
qed

lemma and_horner: "(uint (x :: Uint) + B * X) AND (uint y + B * Y) = uint (x AND y) + B * (X AND Y)"
  by (rule bit_eqI) (simp only: bit_and_iff bit_horner split: if_split, blast)

lemma or_horner: "(uint (x :: Uint) + B * X) OR (uint y + B * Y) = uint (x OR y) + B * (X OR Y)"
  by (rule bit_eqI) (simp only: bit_or_iff bit_horner split: if_split, blast)

lemma xor_horner: "(uint (x :: Uint) + B * X) XOR (uint y + B * Y) = uint (x XOR y) + B * (X XOR Y)"
  by (rule bit_eqI) (simp only: bit_xor_iff bit_horner split: if_split, blast)

lemma two_value_and: "length xs = length ys \<Longrightarrow> two_value (s \<and> t) (map2 (AND) xs ys) = two_value s xs AND two_value t ys"
  by (induction xs ys rule: list_induct2) (simp, simp only: zip_Cons_Cons list.map prod.case two_value.simps and_horner)

lemma two_value_or: "length xs = length ys \<Longrightarrow> two_value (s \<or> t) (map2 (OR) xs ys) = two_value s xs OR two_value t ys"
  by (induction xs ys rule: list_induct2) (simp, simp only: zip_Cons_Cons list.map prod.case two_value.simps or_horner)

lemma two_value_xor: "length xs = length ys \<Longrightarrow> two_value (s \<noteq> t) (map2 (XOR) xs ys) = two_value s xs XOR two_value t ys"
  by (induction xs ys rule: list_induct2) (simp, simp only: zip_Cons_Cons list.map prod.case two_value.simps xor_horner)

lemma uint_not: "uint (NOT d) = B - 1 - uint (d :: Uint)"
proof -
  have "uint (NOT d) = take_bit 64 (NOT (uint d))" by (simp add: unsigned_not_eq)
  also have "\<dots> = (- uint d - 1) mod B" by (simp only: take_bit_eq_mod not_int_def)
  also have "\<dots> = (B - 1 - uint d + B * (- 1)) mod B" by (rule arg_cong [where f = "\<lambda>z. z mod B"]) simp
  also have "\<dots> = B - 1 - uint d"
    unfolding mod_mult_self2 by (rule mod_pos_pos_trivial) (use digit_bounds [of d] in linarith)+
  finally show ?thesis .
qed

lemma big_value_not: "big_value (map NOT ds) = B ^ length ds - 1 - big_value ds"
  by (induction ds) (simp_all add: uint_not algebra_simps)

lemma borrow_loop_ok:
  "uint b \<le> 1 \<Longrightarrow> \<exists>k. 0 \<le> k \<and> big_value xs - uint b = big_value (borrow_loop xs b) - B ^ length xs * k \<and>
     length (borrow_loop xs b) = length xs"
proof (induction xs arbitrary: b)
  case Nil
  then show ?case by (intro exI [of _ "uint b"]) simp
next
  case (Cons x xs)
  obtain b' c where d: "DSUBb x 0 b = (b', c)" by fastforce
  have e: "uint x - uint b = uint c - B * uint b'" using DSUBb_ok(1) [OF d] by simp
  then have "B * uint b' < B * 2" using Cons.prems digit_bounds [of x] digit_bounds [of c] by linarith
  then have "uint b' \<le> 1" by simp
  then obtain k where k: "0 \<le> k" "big_value xs - uint b' = big_value (borrow_loop xs b') - B ^ length xs * k"
    "length (borrow_loop xs b') = length xs" using Cons.IH by blast
  have "big_value (x # xs) - uint b = uint c + B * (big_value xs - uint b')" using e by (simp add: algebra_simps)
  then show ?case using k by (intro exI [of _ k]) (simp add: d right_diff_distrib mult.assoc)
qed

lemma less_one_ok:
  assumes "x \<noteq> []" and "1 \<le> big_value x"
  shows "big_value (less_one x) = big_value x - 1" and "length (less_one x) = length x"
proof -
  obtain d ds where x: "x = d # ds" using assms(1) by (cases x) auto
  obtain b c where s: "DSUB d 1 = (b, c)" by fastforce
  have e: "uint d - 1 = uint c - B * uint b" using DSUB_ok [OF s] by simp
  then have "B * uint b < B * 2" using digit_bounds [of d] digit_bounds [of c] by linarith
  then have "uint b \<le> 1" by simp
  then obtain k where k: "0 \<le> k" "big_value ds - uint b = big_value (borrow_loop ds b) - B ^ length ds * k"
    "length (borrow_loop ds b) = length ds" using borrow_loop_ok by blast
  have l: "less_one x = c # borrow_loop ds b" by (simp add: x s)
  show len: "length (less_one x) = length x" unfolding l using k(3) by (simp add: x)
  have "big_value x - 1 = uint c + B * (big_value ds - uint b)" using e by (simp add: x algebra_simps)
  then have "big_value x - 1 = big_value (less_one x) - B ^ length x * k"
    unfolding k(2) l by (simp add: x right_diff_distrib mult.assoc)
  from no_borrow [OF _ k(1) this len] assms(2) show "big_value (less_one x) = big_value x - 1" by simp
qed

subsection \<open>Back to sign and absolute value\<close>

lemma strip_masks_ok:
  assumes "r \<noteq> []"
  obtains low where "strip_masks (rev r) = rev low" and "low \<noteq> []" and "r = low @ replicate (length r - length low) (- 1)"
    and "last low \<noteq> - 1 \<or> low = [- 1]"
proof -
  have "\<exists>n. strip_masks xs = drop n xs \<and> drop n xs \<noteq> [] \<and> take n xs = replicate n (- 1) \<and> (hd (drop n xs) \<noteq> - 1 \<or> drop n xs = [- 1])"
    if "xs \<noteq> []" for xs
    using that
  proof (induction xs rule: strip_masks.induct)
    case (1 d d2 ds)
    show ?case
    proof (cases "d = D_MASK")
      case True
      then obtain n where "strip_masks (d2 # ds) = drop n (d2 # ds)" "drop n (d2 # ds) \<noteq> []"
        "take n (d2 # ds) = replicate n (- 1)" "hd (drop n (d2 # ds)) \<noteq> - 1 \<or> drop n (d2 # ds) = [- 1]"
        using 1 by blast
      then show ?thesis using True by (intro exI [of _ "Suc n"]) (simp add: D_MASK_def)
    next
      case False
      then show ?thesis by (intro exI [of _ 0]) (simp add: D_MASK_def)
    qed
  qed (auto intro: exI [of _ 0])
  then obtain n where n: "strip_masks (rev r) = drop n (rev r)" "drop n (rev r) \<noteq> []" "take n (rev r) = replicate n (- 1)"
    "hd (drop n (rev r)) \<noteq> - 1 \<or> drop n (rev r) = [- 1]" using assms by (metis rev_is_Nil_conv)
  let ?low = "rev (drop n (rev r))"
  have le: "n \<le> length r" using n(2) by simp
  have "rev r = replicate n (- 1) @ drop n (rev r)" using n(3) append_take_drop_id [of n "rev r"] by simp
  then have "r = rev (replicate n (- 1) @ drop n (rev r))" by (metis rev_rev_ident)
  then have "r = ?low @ replicate n (- 1)" by simp
  moreover have "length r - length ?low = n" using le by simp
  ultimately show thesis using n by (intro that [of ?low]) (auto simp: last_rev)
qed

lemma prev_mask_sub: "d AND p = p \<Longrightarrow> d AND prev_mask_loop n d p m = prev_mask_loop n d p m"
  by (induction n d p m rule: prev_mask_loop.induct) auto

lemma not_prev_mask: "NOT d AND NOT (prev_mask_loop n d 0 m) = NOT d"
proof -
  have "d AND prev_mask_loop n d 0 m = prev_mask_loop n d 0 m" by (rule prev_mask_sub) simp
  then have "bit (prev_mask_loop n d 0 m) i \<Longrightarrow> bit d i" for i by (metis bit_and_iff)
  then show ?thesis by (intro bit_eqI) (auto simp: bit_and_iff bit_not_iff)
qed

lemma I_btrail_ok:
  assumes "r \<noteq> []"
  shows "(if sign then - big_value (I_btrail r sign) else big_value (I_btrail r sign)) = two_value sign r"
    and "norm_ok (I_btrail r sign) \<or> I_btrail r sign = [0]"
proof -
  have "(if sign then - big_value (I_btrail r sign) else big_value (I_btrail r sign)) = two_value sign r \<and>
    (norm_ok (I_btrail r sign) \<or> I_btrail r sign = [0])"
  proof (cases sign)
    case False
    then show ?thesis using trim_ok [OF assms] by (simp add: I_btrail_def two_value_big)
  next
    case True
    obtain low where low: "strip_masks (rev r) = rev low" "low \<noteq> []" "r = low @ replicate (length r - length low) (- 1)"
      "last low \<noteq> - 1 \<or> low = [- 1]" by (rule strip_masks_ok [OF assms])
    have h: "hd (rev low) = last low" "rev (tl (rev low)) = butlast low"
      using low(2) by (simp_all add: hd_rev) (metis butlast_rev rev_rev_ident)
    have top: "(if last low = D_MASK then 0 else NOT (last low) AND NOT (prev_mask_loop 64 (last low) 0 (push_bit (D_EXP - 1) 1))) = NOT (last low)"
      unfolding not_prev_mask by (simp add: D_MASK_def)
    have e: "I_btrail r sign = D_add (map NOT low) 1"
    proof -
      have "map NOT (butlast low) @ [NOT (last low)] = map NOT low"
        using append_butlast_last_id [OF low(2)] by (metis list.simps(8) list.simps(9) map_append)
      then show ?thesis unfolding I_btrail_def Let_def if_P [OF True] low(1) h top by simp
    qed
    have v: "big_value (map NOT low) = B ^ length low - 1 - big_value low" by (rule big_value_not)
    have "two_value True r = two_value True low"
      using two_value_extend [of True "length r - length low"] low(3) two_value_append [of True low "replicate (length r - length low) (- 1)"]
        two_value_append [of True low "[]"] by simp
    then have t: "two_value True r = big_value low - B ^ length low" by (simp add: two_value_big)
    have "big_value (D_add (map NOT low) 1) = big_value (map NOT low) + 1 \<and> norm_ok (D_add (map NOT low) 1)"
    proof (cases "low = [- 1]")
      case True
      then show ?thesis by (simp add: D_add_def norm_ok_def)
    next
      case False
      then have "last low \<noteq> - 1" using low(4) by simp
      then have "NOT (last low) \<noteq> 0" by (metis bit.compl_zero bit.double_compl)
      then have "norm_ok (map NOT low)" using low(2) by (simp add: norm_ok_def last_map)
      then show ?thesis using D_add_ok [of "map NOT low" 1] by simp
    qed
    then show ?thesis using True t v unfolding e by simp
  qed
  then show "(if sign then - big_value (I_btrail r sign) else big_value (I_btrail r sign)) = two_value sign r"
    and "norm_ok (I_btrail r sign) \<or> I_btrail r sign = [0]" by blast+
qed

subsection \<open>The operations\<close>

text \<open>An operand in two's complement, and its sign extension.\<close>

definition two_digits :: "bool \<Rightarrow> Uint list \<Rightarrow> Uint list" where
  "two_digits s ds = (if s then map NOT (less_one ds) else ds)"

abbreviation ext :: "bool \<Rightarrow> nat \<Rightarrow> Uint list" where
  "ext s n \<equiv> replicate n (if s then - 1 else 0)"

lemma norm_ok_pos: "norm_ok ds \<Longrightarrow> ds \<noteq> [] \<and> 1 \<le> big_value ds"
proof -
  assume n: "norm_ok ds"
  have "0 < B ^ (length ds - 1)" by simp
  then have "0 < big_value ds" using norm_ok_ge [OF n] by (rule less_le_trans)
  then show ?thesis using n by (simp add: norm_ok_def)
qed

definition two_operand :: "bool \<Rightarrow> Uint list \<Rightarrow> bool" where
  "two_operand s ds \<longleftrightarrow> ds \<noteq> [] \<and> (s \<longrightarrow> 1 \<le> big_value ds)"

lemma norm_ok_operand [simp]: "norm_ok ds \<Longrightarrow> two_operand s ds"
  using norm_ok_pos by (simp add: two_operand_def)

lemma two_digits_ok:
  assumes "two_operand s ds"
  shows "two_value s (two_digits s ds) = with_sign s (big_value ds)" and "length (two_digits s ds) = length ds"
  using less_one_ok [of ds] assms by (auto simp: two_operand_def two_digits_def two_value_big big_value_not)

lemma two_value_ext: "two_value s (ds @ ext s n) = two_value s ds"
  using two_value_append [of s ds "[]"] two_value_append [of s ds "ext s n"] two_value_extend [of s n] by simp

text \<open>
  The digits below the length of the shorter operand, of an operand that is cut there. The borrow that
  leaves the cut part is the difference to the digits of the whole operand.
\<close>

lemma less_one_take: "n \<noteq> 0 \<Longrightarrow> less_one (take n x) = take n (less_one x)"
proof -
  have b: "borrow_loop (take n x) b = take n (borrow_loop x b)" for n x b
    by (induction x arbitrary: n b) (auto simp: take_Cons' Let_def split: prod.splits)
  assume "n \<noteq> 0"
  then obtain m where n: "n = Suc m" by (cases n) auto
  show ?thesis by (cases x) (auto simp: n b Let_def split: prod.splits)
qed

lemma borrow_loop_zero: "borrow_loop x 0 = x"
  by (induction x) (simp_all add: DSUBb_def Let_def)

lemma drop_borrow_loop:
  assumes "uint b \<le> big_value (take n x)" and "uint b \<le> 1" and "n \<le> length x"
  shows "drop n (borrow_loop x b) = drop n x"
  using assms
proof (induction n arbitrary: x b)
  case 0
  then have "b = 0" by (simp add: uint_0_iff)
  then show ?case by (simp add: borrow_loop_zero)
next
  case (Suc n)
  obtain d ds where x: "x = d # ds" using Suc.prems(3) by (cases x) auto
  obtain b' c where s: "DSUBb d 0 b = (b', c)" by fastforce
  have e: "uint d - uint b = uint c - B * uint b'" using DSUBb_ok(1) [OF s] by simp
  then have "B * uint b' < B * 2" using Suc.prems(2) digit_bounds [of d] digit_bounds [of c] by linarith
  then have b1: "uint b' \<le> 1" by simp
  have "uint b' \<le> big_value (take n ds)"
  proof (cases "uint b' = 0")
    case True
    then show ?thesis by (simp add: big_value_bounds(1))
  next
    case False
    then have "uint b' = 1" using b1 digit_bounds(1) [of b'] by linarith
    then have "uint d < uint b" using e digit_bounds(2) [of c] by simp
    then have "uint d = 0" "uint b = 1" using Suc.prems(2) digit_bounds(1) [of d] by linarith+
    then have "1 \<le> B * big_value (take n ds)" using Suc.prems(1) x by simp
    then have "big_value (take n ds) \<noteq> 0" by auto
    then show ?thesis using \<open>uint b' = 1\<close> big_value_bounds(1) [of "take n ds"] by linarith
  qed
  then show ?case using Suc.IH [of b' ds] b1 Suc.prems(3) by (simp add: x s)
qed

lemma drop_less_one:
  assumes "1 \<le> big_value (take n x)" and "n \<le> length x"
  shows "drop n (less_one x) = drop n x"
proof -
  obtain m where n: "n = Suc m" using assms(1) by (cases n) auto
  obtain d ds where x: "x = d # ds" using assms(2) n by (cases x) auto
  obtain b c where s: "DSUB d 1 = (b, c)" by fastforce
  have e: "uint d - 1 = uint c - B * uint b" using DSUB_ok [OF s] by simp
  then have "B * uint b < B * 2" using digit_bounds [of d] digit_bounds [of c] by linarith
  then have b1: "uint b \<le> 1" by simp
  have "uint b \<le> big_value (take m ds)"
  proof (cases "uint b = 0")
    case True
    then show ?thesis by (simp add: big_value_bounds(1))
  next
    case False
    then have "uint b = 1" using b1 digit_bounds(1) [of b] by linarith
    then have "uint d < 1" using e digit_bounds(2) [of c] by simp
    then have "uint d = 0" using digit_bounds(1) [of d] by linarith
    then have "1 \<le> B * big_value (take m ds)" using assms(1) x n by simp
    then have "big_value (take m ds) \<noteq> 0" by auto
    then show ?thesis using \<open>uint b = 1\<close> big_value_bounds(1) [of "take m ds"] by linarith
  qed
  then show ?thesis using drop_borrow_loop [of b m ds] b1 assms(2) by (simp add: n x s)
qed

lemma take_two_digits:
  "n \<noteq> 0 \<Longrightarrow> take n (two_digits s x) = (if s then map NOT (less_one (take n x)) else take n x)"
  by (simp add: two_digits_def take_map less_one_take)

lemma drop_two_digits:
  "s \<Longrightarrow> 1 \<le> big_value (take n x) \<Longrightarrow> n \<le> length x \<Longrightarrow> drop n (two_digits s x) = map NOT (drop n x)"
  by (simp add: two_digits_def drop_map drop_less_one)

text \<open>An operation on two operands, the second one extended to the length of the first one.\<close>

definition two_op :: "(Uint \<Rightarrow> Uint \<Rightarrow> Uint) \<Rightarrow> Uint list \<Rightarrow> bool \<Rightarrow> Uint list \<Rightarrow> bool \<Rightarrow> Uint list" where
  "two_op f x s y t = map2 f (two_digits s x) (two_digits t y @ ext t (length x - length y))"

lemma two_op_split:
  assumes "two_operand s x" and "two_operand t y" and "length y \<le> length x"
  shows "two_op f x s y t = map2 f (take (length y) (two_digits s x)) (two_digits t y) @
    map (\<lambda>a. f a (if t then - 1 else 0)) (drop (length y) (two_digits s x))"
proof -
  have m: "map2 f d (replicate (length d) c) = map (\<lambda>a. f a c) d" for d c by (induction d) simp_all
  have l: "length x - length y = length (drop (length y) (two_digits s x))" using two_digits_ok(2) [OF assms(1)] by simp
  have "two_op f x s y t = map2 f (take (length y) (two_digits s x) @ drop (length y) (two_digits s x))
      (two_digits t y @ ext t (length (drop (length y) (two_digits s x))))"
    unfolding two_op_def append_take_drop_id by (simp only: l)
  also have "\<dots> = map2 f (take (length y) (two_digits s x)) (two_digits t y) @
      map2 f (drop (length y) (two_digits s x)) (ext t (length (drop (length y) (two_digits s x))))"
    by (subst zip_append) (use assms(3) two_digits_ok(2) [OF assms(1)] two_digits_ok(2) [OF assms(2)] in simp_all)
  finally show ?thesis unfolding m .
qed

lemma two_op_length:
  assumes "two_operand s x" and "two_operand t y" and "length y \<le> length x"
  shows "length (two_digits s x) = length (two_digits t y @ ext t (length x - length y))"
  using assms two_digits_ok(2) by auto

lemma two_op_ok:
  assumes "two_operand s x" and "two_operand t y" and "length y \<le> length x"
  shows "two_value (s \<and> t) (two_op (AND) x s y t) = with_sign s (big_value x) AND with_sign t (big_value y)"
    and "two_value (s \<or> t) (two_op (OR) x s y t) = with_sign s (big_value x) OR with_sign t (big_value y)"
    and "two_value (s \<noteq> t) (two_op (XOR) x s y t) = with_sign s (big_value x) XOR with_sign t (big_value y)"
  unfolding two_op_def
  using two_value_and [OF two_op_length [OF assms], of s t] two_value_or [OF two_op_length [OF assms], of s t]
    two_value_xor [OF two_op_length [OF assms], of s t] two_digits_ok(1) [OF assms(1)] two_digits_ok(1) [OF assms(2)]
  by (simp_all only: two_value_ext)

lemma btrail_two:
  assumes "r \<noteq> []" and "r @ ext s k = w" and "two_value s w = v"
  shows "with_sign s (big_value (I_btrail r s)) = v" and "norm_ok (I_btrail r s) \<or> I_btrail r s = [0]"
  using I_btrail_ok [OF assms(1), of s] two_value_ext [of s r k] assms(2,3) by simp_all

lemma map_const_ext: "map (\<lambda>a. c) d = replicate (length d) c"
  by (simp add: map_replicate_const)

lemma map2_not: "map2 f (map NOT xs) ys = map2 (\<lambda>a b. f (NOT a) b) xs ys" "map2 f xs (map NOT ys) = map2 (\<lambda>a b. f a (NOT b)) xs ys"
  by (simp_all add: zip_map1 zip_map2 comp_def case_prod_beta)

text \<open>The operands as the loops read them: the digits of the longer one below the length of the shorter one, and above it.\<close>

lemma two_parts:
  assumes "two_operand s x" and "two_operand t y" and "length y \<le> length x"
  shows "take (length y) (two_digits s x) = (if s then map NOT (less_one (take (length y) x)) else take (length y) x)"
    and "two_digits t y = (if t then map NOT (less_one y) else y)"
    and "\<not> s \<Longrightarrow> drop (length y) (two_digits s x) = drop (length y) x"
    and "s \<Longrightarrow> drop (length y) (two_digits s x) = map NOT (drop (length y) (less_one x))"
    and "s \<and> (length y < length x \<longrightarrow> 1 \<le> big_value (take (length y) x)) \<Longrightarrow>
      drop (length y) (two_digits s x) = map NOT (drop (length y) x)"
proof -
  have n: "length y \<noteq> 0" using assms(2) by (auto simp: two_operand_def)
  show "take (length y) (two_digits s x) = (if s then map NOT (less_one (take (length y) x)) else take (length y) x)"
    by (rule take_two_digits [OF n])
  show "s \<and> (length y < length x \<longrightarrow> 1 \<le> big_value (take (length y) x)) \<Longrightarrow>
      drop (length y) (two_digits s x) = map NOT (drop (length y) x)"
    using assms(3) two_digits_ok(2) [OF assms(1)] by (cases "length y < length x") (auto simp: drop_two_digits)
qed (simp_all add: two_digits_def drop_map)

lemma two_op_nonempty:
  assumes "two_operand s x" and "two_operand t y" and "length y \<le> length x"
  shows "two_op f x s y t \<noteq> []" and "map2 f (take (length y) (two_digits s x)) (two_digits t y) \<noteq> []"
proof -
  have n: "y \<noteq> []" "x \<noteq> []" using assms(1,2) by (auto simp: two_operand_def)
  show m: "map2 f (take (length y) (two_digits s x)) (two_digits t y) \<noteq> []"
    using n two_digits_ok(2) [OF assms(1)] two_digits_ok(2) [OF assms(2)] by (auto simp: zip_eq_Nil_iff)
  then show "two_op f x s y t \<noteq> []" unfolding two_op_split [OF assms] by simp
qed

lemma I_band_ok:
  assumes "two_operand s x" and "two_operand t y" and "length y \<le> length x"
    and "s \<and> t \<and> length y < length x \<longrightarrow> 1 \<le> big_value (take (length y) x)"
  shows "with_sign (s \<and> t) (big_value (I_band x s y t)) = with_sign s (big_value x) AND with_sign t (big_value y)"
    and "norm_ok (I_band x s y t) \<or> I_band x s y t = [0]"
proof -
  let ?low = "map2 (AND) (take (length y) (two_digits s x)) (two_digits t y)"
  note parts = two_parts [OF assms(1-3)] and ne = two_op_nonempty [OF assms(1-3), of "(AND)"]
  note split = two_op_split [OF assms(1-3), of "(AND)"]
  obtain r k where r: "I_band x s y t = I_btrail r (s \<and> t)" "r @ ext (s \<and> t) k = two_op (AND) x s y t" "r \<noteq> []"
  proof (cases t)
    case True
    have "I_band x s y t = I_btrail (two_op (AND) x s y t) (s \<and> t)"
      unfolding split using True assms(4) parts by (cases s) (auto simp: I_band_def Let_def map2_not)
    then show thesis using ne(1) by (intro that [of _ 0]) simp_all
  next
    case False
    have "I_band x s y t = I_btrail ?low (s \<and> t)"
      using False parts by (cases s) (auto simp: I_band_def Let_def map2_not)
    moreover have "?low @ ext (s \<and> t) (length (drop (length y) (two_digits s x))) = two_op (AND) x s y t"
      unfolding split using False by (simp add: map_const_ext)
    ultimately show thesis using ne(2) by (rule that)
  qed
  note b = btrail_two [OF r(3,2) two_op_ok(1) [OF assms(1-3)]]
  show "with_sign (s \<and> t) (big_value (I_band x s y t)) = with_sign s (big_value x) AND with_sign t (big_value y)"
    and "norm_ok (I_band x s y t) \<or> I_band x s y t = [0]" unfolding r(1) using b by blast+
qed

lemma I_bor_ok:
  assumes "two_operand s x" and "two_operand t y" and "length y \<le> length x"
  shows "with_sign (s \<or> t) (big_value (I_bor x s y t)) = with_sign s (big_value x) OR with_sign t (big_value y)"
    and "norm_ok (I_bor x s y t) \<or> I_bor x s y t = [0]"
proof -
  let ?low = "map2 (OR) (take (length y) (two_digits s x)) (two_digits t y)"
  note parts = two_parts [OF assms] and ne = two_op_nonempty [OF assms, of "(OR)"]
  note split = two_op_split [OF assms, of "(OR)"]
  have n: "length y \<noteq> 0" using assms(2) by (auto simp: two_operand_def)
  obtain r k where r: "I_bor x s y t = I_btrail r (s \<or> t)" "r @ ext (s \<or> t) k = two_op (OR) x s y t" "r \<noteq> []"
  proof (cases t)
    case False
    have "I_bor x s y t = I_btrail (two_op (OR) x s y t) (s \<or> t)"
      unfolding split using False parts by (cases s) (auto simp: I_bor_def Let_def map2_not less_one_take [OF n])
    then show thesis using ne(1) by (intro that [of _ 0]) simp_all
  next
    case True
    have "I_bor x s y t = I_btrail ?low (s \<or> t)"
      using True parts by (cases s) (auto simp: I_bor_def Let_def map2_not)
    moreover have "?low @ ext (s \<or> t) (length (drop (length y) (two_digits s x))) = two_op (OR) x s y t"
      unfolding split using True by (simp add: map_const_ext)
    ultimately show thesis using ne(2) by (rule that)
  qed
  note b = btrail_two [OF r(3,2) two_op_ok(2) [OF assms]]
  show "with_sign (s \<or> t) (big_value (I_bor x s y t)) = with_sign s (big_value x) OR with_sign t (big_value y)"
    and "norm_ok (I_bor x s y t) \<or> I_bor x s y t = [0]" unfolding r(1) using b by blast+
qed

lemma I_bxor_ok:
  assumes "two_operand s x" and "two_operand t y" and "length y \<le> length x"
    and "s \<and> length y < length x \<longrightarrow> 1 \<le> big_value (take (length y) x)"
  shows "with_sign (s \<noteq> t) (big_value (I_bxor x s y t)) = with_sign s (big_value x) XOR with_sign t (big_value y)"
    and "norm_ok (I_bxor x s y t) \<or> I_bxor x s y t = [0]"
proof -
  note parts = two_parts [OF assms(1-3)] and ne = two_op_nonempty [OF assms(1-3), of "(XOR)"]
  note split = two_op_split [OF assms(1-3), of "(XOR)"]
  have "I_bxor x s y t = I_btrail (two_op (XOR) x s y t) (s \<noteq> t)"
    unfolding split using assms(4) parts
    by (cases s; cases t) (auto simp: I_bxor_def Let_def map2_not comp_def simp del: bit.xor_compl_left bit.xor_compl_right)
  note b = btrail_two [OF ne(1) _ two_op_ok(3) [OF assms(1-3)], of 0, folded this]
  show "with_sign (s \<noteq> t) (big_value (I_bxor x s y t)) = with_sign s (big_value x) XOR with_sign t (big_value y)"
    and "norm_ok (I_bxor x s y t) \<or> I_bxor x s y t = [0]" using b by simp_all
qed

lemma drop_big_value: "n \<le> length x \<Longrightarrow> big_value (drop n x) = big_value x div B ^ n"
  "n \<le> length x \<Longrightarrow> big_value (take n x) = big_value x mod B ^ n"
proof -
  assume n: "n \<le> length x"
  have "big_value x = big_value (take n x) + B ^ n * big_value (drop n x)"
    using big_value_append [of "take n x" "drop n x"] n by simp
  moreover have "0 \<le> big_value (take n x)" "big_value (take n x) < B ^ n"
    using big_value_bounds [of "take n x"] n by simp_all
  ultimately show "big_value (drop n x) = big_value x div B ^ n" "big_value (take n x) = big_value x mod B ^ n" by simp_all
qed

text \<open>
  In the other cases the high digits are those of the absolute value, not those of the absolute value less
  one: the result is wrong, by one at the lowest of them.
\<close>

lemma high_digits_lost:
  assumes "two_operand True x" and "n \<le> length x" and "big_value (take n x) = 0"
  shows "big_value (drop n (less_one x)) = big_value (drop n x) - 1"
proof -
  have l: "big_value (less_one x) = big_value x - 1" "length (less_one x) = length x"
    using less_one_ok [of x] assms(1) by (auto simp: two_operand_def)
  have x: "big_value x = B ^ n * big_value (drop n x)"
    using big_value_append [of "take n x" "drop n x"] assms(2,3) by simp
  have "big_value (drop n (less_one x)) = (B ^ n * big_value (drop n x) - 1) div B ^ n"
    using drop_big_value(1) [of n "less_one x"] assms(2) l x by simp
  also have "\<dots> = ((B ^ n - 1) + B ^ n * (big_value (drop n x) - 1)) div B ^ n" by (simp add: algebra_simps)
  also have "\<dots> = (big_value (drop n x) - 1) + (B ^ n - 1) div B ^ n" by (rule div_mult_self2) simp
  also have "(B ^ n - 1) div B ^ n = 0" by (intro div_pos_pos_trivial) simp_all
  finally show ?thesis by simp
qed

lemma two_value_high:
  "two_value True (low @ map NOT u) = big_value low + B ^ length low * (- 1 - big_value u)"
  "two_value False (low @ u) = big_value low + B ^ length low * big_value u"
  by (simp_all only: two_value_append) (simp_all add: two_value_big big_value_not)

lemma I_band_lost:
  assumes "two_operand True x" and "two_operand True y" and "length y < length x" and "big_value (take (length y) x) = 0"
  shows "- big_value (I_band x True y True) = (- big_value x AND - big_value y) - B ^ length y"
    and "norm_ok (I_band x True y True) \<or> I_band x True y True = [0]"
proof -
  note le = less_imp_le [OF assms(3)]
  note parts = two_parts [OF assms(1,2) le] and split = two_op_split [OF assms(1,2) le, of "(AND)"]
  define low where "low = map2 (AND) (take (length y) (two_digits True x)) (two_digits True y)"
  have len: "length low = length y" using le two_digits_ok(2) [OF assms(1)] two_digits_ok(2) [OF assms(2)] by (simp add: low_def)
  have r: "I_band x True y True = I_btrail (low @ map NOT (drop (length y) x)) True"
    using parts(1,2) by (simp add: I_band_def Let_def low_def map2_not)
  have "two_op (AND) x True y True = low @ map NOT (drop (length y) (less_one x))"
    unfolding split low_def using parts(4) by simp
  then have "- big_value x AND - big_value y = two_value True (low @ map NOT (drop (length y) (less_one x)))"
    using two_op_ok(1) [OF assms(1,2) le] by simp
  also have "\<dots> = two_value True (low @ map NOT (drop (length y) x)) + B ^ length y"
    unfolding two_value_high len high_digits_lost [OF assms(1) le assms(4)] by (simp add: algebra_simps)
  finally have v: "two_value True (low @ map NOT (drop (length y) x)) = (- big_value x AND - big_value y) - B ^ length y" by simp
  have "low @ map NOT (drop (length y) x) \<noteq> []" using assms(3) by simp
  note b = I_btrail_ok [OF this, of True, folded r]
  show "- big_value (I_band x True y True) = (- big_value x AND - big_value y) - B ^ length y" using b(1) v by simp
  show "norm_ok (I_band x True y True) \<or> I_band x True y True = [0]" by (rule b(2))
qed

lemma I_bxor_lost:
  assumes "two_operand True x" and "two_operand t y" and "length y < length x" and "big_value (take (length y) x) = 0"
  shows "with_sign (\<not> t) (big_value (I_bxor x True y t)) =
      (- big_value x XOR with_sign t (big_value y)) + (if t then B ^ length y else - (B ^ length y))"
    and "norm_ok (I_bxor x True y t) \<or> I_bxor x True y t = [0]"
proof -
  note le = less_imp_le [OF assms(3)]
  note parts = two_parts [OF assms(1,2) le] and split = two_op_split [OF assms(1,2) le, of "(XOR)"]
  define low where "low = map2 (XOR) (take (length y) (two_digits True x)) (two_digits t y)"
  define r where "r = low @ (if t then drop (length y) x else map NOT (drop (length y) x))"
  have len: "length low = length y" using le two_digits_ok(2) [OF assms(1)] two_digits_ok(2) [OF assms(2)] by (simp add: low_def)
  have e: "I_bxor x True y t = I_btrail r (\<not> t)"
    using parts(1,2) by (cases t) (auto simp: I_bxor_def Let_def low_def r_def map2_not simp del: bit.xor_compl_left bit.xor_compl_right)
  have u: "two_op (XOR) x True y t = low @ (if t then drop (length y) (less_one x) else map NOT (drop (length y) (less_one x)))"
    unfolding split low_def using parts(4) by (auto simp: comp_def)
  have "- big_value x XOR with_sign t (big_value y) = two_value (\<not> t) (two_op (XOR) x True y t)"
    using two_op_ok(3) [OF assms(1,2) le] by simp
  also have "\<dots> = two_value (\<not> t) r - (if t then B ^ length y else - (B ^ length y))"
    unfolding u r_def using high_digits_lost [OF assms(1) le assms(4)]
    by (cases t) (simp_all add: two_value_high len right_diff_distrib)
  finally have v: "two_value (\<not> t) r = (- big_value x XOR with_sign t (big_value y)) + (if t then B ^ length y else - (B ^ length y))" by simp
  have "r \<noteq> []" using assms(3) by (simp add: r_def)
  note b = I_btrail_ok [OF this, of "\<not> t", folded e]
  show "with_sign (\<not> t) (big_value (I_bxor x True y t)) =
      (- big_value x XOR with_sign t (big_value y)) + (if t then B ^ length y else - (B ^ length y))" using b(1) v by simp
  show "norm_ok (I_bxor x True y t) \<or> I_bxor x True y t = [0]" by (rule b(2))
qed

subsection \<open>Shifts\<close>

lemma uint_push_or:
  assumes "k \<le> 64" and "uint a < 2 ^ k"
  shows "uint (push_bit k x OR a) = uint a + 2 ^ k * (uint (x :: Uint) mod 2 ^ (64 - k))"
proof -
  have "uint (push_bit k x OR a) = concat_bit k (uint a) (take_bit (64 - k) (uint x))"
    using assms by (simp add: unsigned_or_eq unsigned_push_bit_eq take_bit_push_bit concat_bit_def take_bit_int_eq_self or.commute)
  then show ?thesis using assms(2) by (simp add: concat_bit_eq take_bit_int_eq_self push_bit_eq_mult take_bit_eq_mod mult.commute)
qed

lemma div_less_int:
  assumes "x < a * c" and "0 < (c :: int)"
  shows "x div c < a"
proof -
  have "c * (x div c) \<le> x" using assms(2) by (simp add: minus_mod_eq_mult_div [symmetric])
  then have "c * (x div c) < c * a" using assms(1) by (simp add: mult.commute)
  then show ?thesis using assms(2) by simp
qed

lemma split_power: "k \<le> 64 \<Longrightarrow> (2 :: int) ^ k * 2 ^ (64 - k) = B"
  by (simp flip: power_add)

lemma lshift_loop_ok:
  assumes "0 < k" and "k < 64" and "uint a < 2 ^ k" and "lshift_loop k a xs = (ys, b)"
  shows "big_value ys + B ^ length xs * uint b = 2 ^ k * big_value xs + uint a \<and> length ys = length xs"
  using assms(3,4)
proof (induction xs arbitrary: a ys)
  case (Cons x xs)
  obtain zs where z: "lshift_loop k (drop_bit (64 - k) x) xs = (zs, b)" "ys = (push_bit k x OR a) # zs"
    using Cons.prems(2) by (auto simp: Let_def D_EXP_def split: prod.splits)
  have u: "uint (drop_bit (64 - k) x) = uint x div 2 ^ (64 - k)" by (rule uint_drop)
  have "uint x < 2 ^ k * 2 ^ (64 - k)" using digit_bounds(2) [of x] split_power [of k] assms(2) by simp
  then have "uint (drop_bit (64 - k) x) < 2 ^ k" unfolding u by (rule div_less_int) simp
  from Cons.IH [OF this z(1)]
  have ih: "big_value zs + B ^ length xs * uint b = 2 ^ k * big_value xs + uint x div 2 ^ (64 - k)" "length zs = length xs"
    by (simp_all only: u)
  have v: "uint (push_bit k x OR a) = uint a + 2 ^ k * (uint x mod 2 ^ (64 - k))" using Cons.prems(1) assms(2) by (intro uint_push_or) simp_all
  have "2 ^ k * uint x = 2 ^ k * (2 ^ (64 - k) * (uint x div 2 ^ (64 - k)) + uint x mod 2 ^ (64 - k))" by simp
  also have "\<dots> = B * (uint x div 2 ^ (64 - k)) + 2 ^ k * (uint x mod 2 ^ (64 - k))"
    unfolding distrib_left mult.assoc [symmetric] using split_power [of k] assms(2) by simp
  finally have x: "2 ^ k * uint x = B * (uint x div 2 ^ (64 - k)) + 2 ^ k * (uint x mod 2 ^ (64 - k))" .
  have "big_value ys + B ^ length (x # xs) * uint b = uint (push_bit k x OR a) + B * (big_value zs + B ^ length xs * uint b)"
    by (simp add: z(2) distrib_left mult.assoc)
  also have "\<dots> = uint a + 2 ^ k * uint x + B * (2 ^ k * big_value xs)" unfolding v ih(1) x by (simp only: distrib_left add_ac)
  also have "\<dots> = 2 ^ k * big_value (x # xs) + uint a" by (simp add: algebra_simps)
  finally show ?case using ih(2) z(2) by simp
qed simp

lemma rshift_loop_ok:
  assumes "0 < k" and "k < 64" and "rshift_loop k (push_bit (64 - k) c) xs = (ys, b)"
  shows "\<exists>c' :: Uint. b = push_bit (64 - k) c' \<and> length ys = length xs \<and>
    2 ^ k * big_value (rev ys) + uint c' mod 2 ^ k = B ^ length xs * (uint (c :: Uint) mod 2 ^ k) + big_value (rev xs)"
  using assms(3)
proof (induction xs arbitrary: c ys)
  case Nil
  then show ?case by auto
next
  case (Cons x xs)
  let ?y = "drop_bit k x OR push_bit (64 - k) c"
  obtain zs where z: "rshift_loop k (push_bit (64 - k) x) xs = (zs, b)" "ys = ?y # zs"
    using Cons.prems by (auto simp: Let_def D_EXP_def split: prod.splits)
  obtain c' where c: "b = push_bit (64 - k) c'" "length zs = length xs"
    "2 ^ k * big_value (rev zs) + uint c' mod 2 ^ k = B ^ length xs * (uint x mod 2 ^ k) + big_value (rev xs)"
    using Cons.IH [OF z(1)] by blast
  have "uint x < 2 ^ (64 - k) * 2 ^ k" using digit_bounds(2) [of x] split_power [of k] assms(2) by (simp add: mult.commute)
  then have "uint (drop_bit k x) < 2 ^ (64 - k)" unfolding uint_drop by (rule div_less_int) simp
  then have "uint ?y = uint (drop_bit k x) + 2 ^ (64 - k) * (uint c mod 2 ^ (64 - (64 - k)))"
    unfolding or.commute [of "drop_bit k x"] by (intro uint_push_or) simp_all
  then have y: "uint ?y = uint x div 2 ^ k + 2 ^ (64 - k) * (uint c mod 2 ^ k)" using assms(2) by (simp add: uint_drop)
  have e: "2 ^ k * uint ?y + uint x mod 2 ^ k = uint x + B * (uint c mod 2 ^ k)"
    unfolding y distrib_left mult.assoc [symmetric] using split_power [of k] assms(2) by simp
  have "2 ^ k * big_value (rev ys) + uint c' mod 2 ^ k = B ^ length xs * (2 ^ k * uint ?y) + (2 ^ k * big_value (rev zs) + uint c' mod 2 ^ k)"
    by (simp add: z(2) big_value_snoc c(2) distrib_left mult_ac)
  also have "\<dots> = B ^ length xs * (2 ^ k * uint ?y + uint x mod 2 ^ k) + big_value (rev xs)"
    unfolding c(3) by (simp only: distrib_left add_ac)
  also have "\<dots> = B ^ length (x # xs) * (uint c mod 2 ^ k) + big_value (rev (x # xs))"
    unfolding e by (simp add: big_value_snoc distrib_left mult_ac)
  finally show ?case using c(1,2) z(2) by auto
qed

lemma shift_count: "int ay = y \<Longrightarrow> B ^ (ay div 64) * 2 ^ (ay mod 64) = (2 :: int) ^ nat y"
  unfolding power_mult [symmetric] power_add [symmetric] mult_div_mod_eq by simp

lemma I_lshift_left:
  assumes "norm_ok x" and "0 < y"
  shows "big_value (I_lshift x y s) = big_value x * 2 ^ nat y" and "norm_ok (I_lshift x y s)"
proof -
  define bw sw where "bw = nat y div 64" and "sw = nat y mod 64"
  obtain r a where r: "(if sw \<noteq> 0 then lshift_loop sw 0 x else (x, 0)) = (r, a)" by fastforce
  have sw: "sw < 64" by (simp add: sw_def)
  have l: "big_value r + B ^ length x * uint a = 2 ^ sw * big_value x \<and> length r = length x"
  proof (cases "sw = 0")
    case True
    then show ?thesis using r by simp
  next
    case False
    then show ?thesis using lshift_loop_ok [of sw 0 x r a] r sw by simp
  qed
  have nz: "\<not> (length x = 1 \<and> hd x = 0)" using assms(1) by (cases x) (auto simp: norm_ok_def)
  have e: "I_lshift x y s = (if a = 0 then replicate bw 0 @ r else replicate bw 0 @ r @ [a])"
  proof -
    have "nat \<bar>y\<bar> = nat y" using assms(2) by simp
    then show ?thesis unfolding I_lshift_def Let_def D_EXP_def bw_def [symmetric] sw_def [symmetric]
      using assms(2) nz r by (simp only: if_True if_False prod.case bw_def [symmetric] sw_def [symmetric]) simp
  qed
  have z: "big_value (replicate n 0) = 0" for n by (induction n) simp_all
  have two: "B ^ bw * 2 ^ sw = (2 :: int) ^ nat y" unfolding bw_def sw_def using assms(2) by (intro shift_count) simp
  have "big_value (I_lshift x y s) = B ^ bw * (big_value r + B ^ length x * uint a)"
    unfolding e using l by (auto simp: big_value_append z)
  then have v: "big_value (I_lshift x y s) = B ^ bw * (2 ^ sw * big_value x)" using l by simp
  then show "big_value (I_lshift x y s) = big_value x * 2 ^ nat y" using two by (simp add: mult_ac)
  show "norm_ok (I_lshift x y s)"
  proof (cases "a = 0")
    case True
    obtain n where n: "length x = Suc n" using assms(1) by (cases x) (auto simp: norm_ok_def)
    have "B ^ n \<le> big_value x" using norm_ok_ge [OF assms(1)] n by simp
    moreover have "1 * big_value x \<le> 2 ^ sw * big_value x" using big_value_bounds(1) [of x] by (intro mult_right_mono) simp_all
    ultimately have "B ^ n \<le> 2 ^ sw * big_value x" by linarith
    then have "B ^ bw * B ^ n \<le> big_value (I_lshift x y s)" unfolding v by (intro mult_left_mono) simp_all
    then have "B ^ (bw + n) \<le> big_value (I_lshift x y s)" by (simp only: power_add)
    moreover have "length (I_lshift x y s) = Suc (bw + n)" unfolding e using True l n by simp
    ultimately show ?thesis by (intro norm_okI)
  next
    case False
    then show ?thesis unfolding e by (simp add: norm_ok_def)
  qed
qed

lemma big_value_zero_iff: "big_value xs = 0 \<longleftrightarrow> \<not> list_ex (\<lambda>z. z \<noteq> 0) xs"
proof (induction xs)
  case (Cons x xs)
  have "uint x + B * big_value xs = 0 \<longleftrightarrow> uint x = 0 \<and> big_value xs = 0"
    using digit_bounds(1) [of x] big_value_bounds(1) [of xs] by (auto simp: add_nonneg_eq_0_iff)
  then show ?case using Cons by (auto simp: uint_0_iff)
qed simp

text \<open>The quotient rounded down, from the quotient of the absolute value and the lost bits.\<close>

lemma floor_neg_div:
  assumes "0 < (d :: int)"
  shows "(- x) div d = - (x div d + (if x mod d = 0 then 0 else 1))"
  using assms by (simp add: zdiv_zminus1_eq_if)

text \<open>
  The shift to the right by the digits \<open>bw\<close> and the bits \<open>sw\<close>: what is left, and whether a bit that is
  set was lost.
\<close>

lemma rshift_digits:
  assumes "sw < 64" and "(if sw \<noteq> 0 then rshift_loop sw 0 (rev z) else (rev z, 0)) = (r, a)"
  shows "length r = length z" and "big_value (rev r) = big_value z div 2 ^ sw" and "a \<noteq> 0 \<longleftrightarrow> big_value z mod 2 ^ sw \<noteq> 0"
proof -
  have all: "length r = length z \<and> big_value (rev r) = big_value z div 2 ^ sw \<and> (a \<noteq> 0 \<longleftrightarrow> big_value z mod 2 ^ sw \<noteq> 0)"
  proof (cases "sw = 0")
    case True
    then show ?thesis using assms(2) by auto
  next
    case False
    have z: "rshift_loop sw (push_bit (64 - sw) 0) (rev z) = (r, a)" using assms(2) False by simp
    obtain c :: Uint where c: "a = push_bit (64 - sw) c" "length r = length z" "2 ^ sw * big_value (rev r) + uint c mod 2 ^ sw = big_value z"
      using rshift_loop_ok [OF _ assms(1) z] False by auto
    have "uint (push_bit (64 - sw) c OR 0) = uint (0 :: Uint) + 2 ^ (64 - sw) * (uint c mod 2 ^ (64 - (64 - sw)))"
      by (rule uint_push_or) simp_all
    then have "uint a = 2 ^ (64 - sw) * (uint c mod 2 ^ sw)" using c(1) assms(1) by simp
    then have "uint a = 0 \<longleftrightarrow> uint c mod 2 ^ sw = 0" by (simp only: mult_eq_0_iff) simp
    then have "a \<noteq> 0 \<longleftrightarrow> uint c mod 2 ^ sw \<noteq> 0" by (simp only: uint_0_iff)
    moreover have "big_value z div 2 ^ sw = big_value (rev r)" "big_value z mod 2 ^ sw = uint c mod 2 ^ sw"
      unfolding c(3) [symmetric] by simp_all
    ultimately show ?thesis using c(2) by (intro conjI; simp only:)
  qed
  show "length r = length z" using all by (rule conjunct1)
  show "big_value (rev r) = big_value z div 2 ^ sw" using all by (rule conjunct1 [OF conjunct2])
  show "a \<noteq> 0 \<longleftrightarrow> big_value z mod 2 ^ sw \<noteq> 0" using all by (rule conjunct2 [OF conjunct2])
qed

text \<open>At most one zero digit is on top afterwards.\<close>

lemma rshift_norm:
  assumes "sw < 64" and "norm_ok z" and "length r = length z" and "big_value (rev r) = big_value z div 2 ^ sw"
  shows "norm_ok (rev (if hd r = 0 then tl r else r)) \<or> hd r = 0 \<and> length r = 1"
    and "big_value (rev (if hd r = 0 then tl r else r)) = big_value (rev r)"
proof -
  obtain d ds where r: "r = d # ds" using assms(2,3) by (cases r) (auto simp: norm_ok_def)
  show "big_value (rev (if hd r = 0 then tl r else r)) = big_value (rev r)" by (simp add: r big_value_snoc)
  show "norm_ok (rev (if hd r = 0 then tl r else r)) \<or> hd r = 0 \<and> length r = 1"
  proof (cases "d = 0 \<and> ds \<noteq> []")
    case True
    then obtain n where n: "length ds = Suc n" by (cases ds) auto
    have "length z = Suc (Suc n)" using assms(3) r n by simp
    then have "B ^ Suc n \<le> big_value z" using norm_ok_ge [OF assms(2)] by simp
    moreover have "B ^ n * 2 ^ sw \<le> B ^ Suc n"
      unfolding power_Suc2 by (intro mult_left_mono power_increasing less_imp_le [OF assms(1)]) simp_all
    ultimately have "B ^ n * 2 ^ sw \<le> big_value z" by (rule order_trans [rotated])
    then have "B ^ n * 2 ^ sw div 2 ^ sw \<le> big_value z div 2 ^ sw" by (rule zdiv_mono1) simp
    then have "B ^ n \<le> big_value (rev ds)" unfolding assms(4) [symmetric] using True by (simp add: r big_value_snoc)
    then have "norm_ok (rev ds)" using n by (intro norm_okI [of _ n]) simp_all
    then show ?thesis using True r by simp
  next
    case False
    then show ?thesis by (auto simp: r norm_ok_def)
  qed
qed

lemma I_lshift_right:
  assumes "norm_ok x" and "y < 0"
  shows "with_sign s (big_value (I_lshift x y s)) = with_sign s (big_value x) div 2 ^ nat (- y)"
    and "norm_ok (I_lshift x y s) \<or> I_lshift x y s = [0]"
proof -
  define bw sw where "bw = nat (- y) div 64" and "sw = nat (- y) mod 64"
  have ay: "nat \<bar>y\<bar> = nat (- y)" using assms(2) by simp
  have nz: "\<not> (length x = 1 \<and> hd x = 0)" using assms(1) by (cases x) (auto simp: norm_ok_def)
  have sw: "sw < 64" by (simp add: sw_def)
  have two: "B ^ bw * 2 ^ sw = (2 :: int) ^ nat (- y)" unfolding bw_def sw_def using assms(2) by (intro shift_count) simp
  have pos: "1 \<le> big_value x" using norm_ok_pos [OF assms(1)] by simp
  have floor: "with_sign s (big_value x) div 2 ^ nat (- y) =
      with_sign s (big_value x div 2 ^ nat (- y) + (if s \<and> big_value x mod 2 ^ nat (- y) \<noteq> 0 then 1 else 0))"
    by (auto simp: floor_neg_div)
  have "with_sign s (big_value (I_lshift x y s)) = with_sign s (big_value x) div 2 ^ nat (- y) \<and>
    (norm_ok (I_lshift x y s) \<or> I_lshift x y s = [0])"
  proof (cases "length x \<le> bw")
    case True
    then have e: "I_lshift x y s = [if s then 1 else 0]"
      using assms(2) nz by (simp add: I_lshift_def Let_def D_EXP_def ay bw_def)
    have "B ^ length x \<le> B ^ bw" using True by (intro power_increasing) simp_all
    moreover have "B ^ bw * 1 \<le> B ^ bw * 2 ^ sw" by (intro mult_left_mono) simp_all
    ultimately have "big_value x < 2 ^ nat (- y)" unfolding two [symmetric] using big_value_bounds(2) [of x] by linarith
    then have "big_value x div 2 ^ nat (- y) = 0" "big_value x mod 2 ^ nat (- y) \<noteq> 0" using pos by simp_all
    then show ?thesis unfolding floor e by (simp add: norm_ok_def)
  next
    case False
    define z where "z = drop bw x"
    obtain r a where r: "(if sw \<noteq> 0 then rshift_loop sw 0 (rev z) else (rev z, 0)) = (r, a)" by fastforce
    note d = rshift_digits [OF sw r]
    have z: "norm_ok z" using assms(1) False by (simp add: z_def norm_ok_def)
    define add_one where "add_one \<longleftrightarrow> s \<and> list_ex (\<lambda>z. z \<noteq> 0) (take bw x) \<or> s \<and> a \<noteq> 0"
    define r' where "r' = (if hd r = 0 then tl r else r)"
    have e: "I_lshift x y s = (if hd r = 0 \<and> length r = 1 then [if s then 1 else 0] else if add_one then D_add (rev r') 1 else rev r')"
    proof -
      have "I_lshift x y s = (let add_one = (s \<and> list_ex (\<lambda>z. z \<noteq> 0) (take bw x));
                         (r, a0) = (if sw \<noteq> 0 then rshift_loop sw 0 (rev (drop bw x)) else (rev (drop bw x), 0));
                         add_one = (add_one \<or> s \<and> a0 \<noteq> 0)
                     in if hd r = 0 \<and> length r = 1 then [if s then 1 else 0]
                        else (let r = (if hd r = 0 then tl r else r) in if add_one then D_add (rev r) 1 else rev r))"
        unfolding I_lshift_def Let_def D_EXP_def ay bw_def [symmetric] sw_def [symmetric] using assms(2) nz False by auto
      also have "\<dots> = (if hd r = 0 \<and> length r = 1 then [if s then 1 else 0] else if add_one then D_add (rev r') 1 else rev r')"
        unfolding z_def [symmetric] r Let_def prod.case add_one_def r'_def ..
      finally show ?thesis .
    qed
    have q: "big_value (rev r) = big_value x div 2 ^ nat (- y)"
      unfolding d(2) z_def two [symmetric] using False by (simp add: drop_big_value(1) zdiv_zmult2_eq)
    have lost: "add_one \<longleftrightarrow> s \<and> big_value x mod 2 ^ nat (- y) \<noteq> 0"
    proof -
      have "big_value x mod 2 ^ nat (- y) = B ^ bw * (big_value z mod 2 ^ sw) + big_value (take bw x)"
        unfolding two [symmetric] z_def using False by (simp add: drop_big_value zmod_zmult2_eq)
      moreover have "0 \<le> B ^ bw * (big_value z mod 2 ^ sw)" by simp
      ultimately have "big_value x mod 2 ^ nat (- y) = 0 \<longleftrightarrow> big_value z mod 2 ^ sw = 0 \<and> big_value (take bw x) = 0"
        using big_value_bounds(1) [of "take bw x"] by (simp add: add_nonneg_eq_0_iff)
      then show ?thesis using d(3) big_value_zero_iff [of "take bw x"] by (auto simp: add_one_def)
    qed
    note n = rshift_norm [OF sw z d(1,2), folded r'_def]
    show ?thesis
    proof (cases "hd r = 0 \<and> length r = 1")
      case True
      then have "big_value (rev r) = 0" by (cases r) auto
      then have "big_value x div 2 ^ nat (- y) = 0" using q by simp
      moreover from this have "big_value x mod 2 ^ nat (- y) = big_value x"
        using div_mult_mod_eq [of "big_value x" "2 ^ nat (- y)"] by simp
      ultimately show ?thesis using pos True unfolding floor e by (simp add: norm_ok_def)
    next
      case F: False
      then have no: "norm_ok (rev r')" using n(1) by blast
      show ?thesis
        using D_add_ok [OF no, of 1] no F lost n(2) q unfolding floor e by auto
    qed
  qed
  then show "with_sign s (big_value (I_lshift x y s)) = with_sign s (big_value x) div 2 ^ nat (- y)"
    and "norm_ok (I_lshift x y s) \<or> I_lshift x y s = [0]" by blast+
qed

subsection \<open>The operations on terms\<close>

text \<open>
  Two operands of different lengths are exchanged. The condition says which operands I\_band and I\_bxor
  give the right result for: the digits of the longer operand at the place of the shorter one are not all zero.
\<close>

definition low_digits :: "iterm \<Rightarrow> iterm \<Rightarrow> int" where
  "low_digits x y = big_value (take (min (big_size x) (big_size y)) (if big_size y \<le> big_size x then big_v x else big_v y))"

fun bit_operand :: "iterm \<Rightarrow> bool" where
  "bit_operand (make_big s ds) = two_operand s ds"
| "bit_operand _ = False"

lemma bit_operand_cases:
  assumes "bit_operand x"
  obtains s ds where "x = make_big s ds" and "two_operand s ds"
  using assms by (cases x) auto

lemma is_big_bit_operand [simp]: "is_big_operand x \<Longrightarrow> bit_operand x"
  by (cases x) simp_all

lemma big_bor_integer:
  assumes "bit_operand x" and "bit_operand y"
  shows "big_bor x y = make_integer (int_of_term x OR int_of_term y)"
proof -
  obtain s ds t es where x: "x = make_big s ds" "two_operand s ds" and y: "y = make_big t es" "two_operand t es"
    using assms by (metis bit_operand_cases)
  show ?thesis
  proof (cases "length es \<le> length ds")
    case True
    note b = I_bor_ok [OF x(2) y(2) True]
    show ?thesis using True big_norm_integer [OF b(2)] b(1) by (simp add: big_bor_def Let_def big_size_def x(1) y(1))
  next
    case False
    then have le: "length ds \<le> length es" by simp
    note b = I_bor_ok [OF y(2) x(2) le]
    have "t \<or> s \<longleftrightarrow> s \<or> t" by blast
    then show ?thesis using False big_norm_integer [OF b(2)] b(1)
      by (simp add: big_bor_def Let_def big_size_def x(1) y(1) or.commute)
  qed
qed

lemma big_band_integer:
  assumes "bit_operand x" and "bit_operand y"
    and "big_sign x \<and> big_sign y \<and> big_size x \<noteq> big_size y \<longrightarrow> low_digits x y \<noteq> 0"
  shows "big_band x y = make_integer (int_of_term x AND int_of_term y)"
proof -
  obtain s ds t es where x: "x = make_big s ds" "two_operand s ds" and y: "y = make_big t es" "two_operand t es"
    using assms by (metis bit_operand_cases)
  show ?thesis
  proof (cases "length es \<le> length ds")
    case True
    have "s \<and> t \<and> length es < length ds \<longrightarrow> 1 \<le> big_value (take (length es) ds)"
      using assms(3) True big_value_bounds(1) [of "take (length es) ds"] by (auto simp: low_digits_def x(1) y(1) big_size_def)
    note b = I_band_ok [OF x(2) y(2) True this]
    show ?thesis using True big_norm_integer [OF b(2)] b(1) by (simp add: big_band_def Let_def big_size_def x(1) y(1))
  next
    case False
    then have le: "length ds \<le> length es" by simp
    have "t \<and> s \<and> length ds < length es \<longrightarrow> 1 \<le> big_value (take (length ds) es)"
      using assms(3) False big_value_bounds(1) [of "take (length ds) es"] by (auto simp: low_digits_def x(1) y(1) big_size_def)
    note b = I_band_ok [OF y(2) x(2) le this]
    have "t \<and> s \<longleftrightarrow> s \<and> t" by blast
    then show ?thesis using False big_norm_integer [OF b(2)] b(1)
      by (simp add: big_band_def Let_def big_size_def x(1) y(1) and.commute)
  qed
qed

lemma big_bxor_integer:
  assumes "bit_operand x" and "bit_operand y"
    and "(big_sign x \<and> big_size y < big_size x \<or> big_sign y \<and> big_size x < big_size y) \<longrightarrow> low_digits x y \<noteq> 0"
  shows "big_bxor x y = make_integer (int_of_term x XOR int_of_term y)"
proof -
  obtain s ds t es where x: "x = make_big s ds" "two_operand s ds" and y: "y = make_big t es" "two_operand t es"
    using assms by (metis bit_operand_cases)
  show ?thesis
  proof (cases "length es \<le> length ds")
    case True
    have "s \<and> length es < length ds \<longrightarrow> 1 \<le> big_value (take (length es) ds)"
      using assms(3) True big_value_bounds(1) [of "take (length es) ds"] by (auto simp: low_digits_def x(1) y(1) big_size_def)
    note b = I_bxor_ok [OF x(2) y(2) True this]
    show ?thesis using True big_norm_integer [OF b(2)] b(1) by (simp add: big_bxor_def Let_def big_size_def x(1) y(1))
  next
    case False
    then have le: "length ds \<le> length es" by simp
    have "t \<and> length ds < length es \<longrightarrow> 1 \<le> big_value (take (length ds) es)"
      using assms(3) False big_value_bounds(1) [of "take (length ds) es"] by (auto simp: low_digits_def x(1) y(1) big_size_def)
    note b = I_bxor_ok [OF y(2) x(2) le this]
    have "(t \<noteq> s) = (s \<noteq> t)" by blast
    then show ?thesis using False big_norm_integer [OF b(2)] b(1)
      by (simp add: big_bxor_def Let_def big_size_def x(1) y(1) xor.commute)
  qed
qed

lemma low_digits_zero:
  assumes "low_digits (make_big s ds) (make_big t es) = 0"
  shows "length es \<le> length ds \<Longrightarrow> big_value (take (length es) ds) = 0" and "length ds < length es \<Longrightarrow> big_value (take (length ds) es) = 0"
  using assms by (simp_all add: low_digits_def big_size_def)

lemma big_band_lost:
  assumes "bit_operand x" and "bit_operand y" and "big_sign x \<and> big_sign y" and "big_size x \<noteq> big_size y" and "low_digits x y = 0"
  shows "big_band x y = make_integer ((int_of_term x AND int_of_term y) - B ^ min (big_size x) (big_size y))"
proof -
  obtain ds es where x: "x = make_big True ds" "two_operand True ds" and y: "y = make_big True es" "two_operand True es"
    using assms(1-3) by (auto elim!: bit_operand_cases)
  have z: "length es \<le> length ds \<Longrightarrow> big_value (take (length es) ds) = 0" "length ds < length es \<Longrightarrow> big_value (take (length ds) es) = 0"
    using low_digits_zero assms(5) x(1) y(1) by blast+
  show ?thesis
  proof (cases "length es \<le> length ds")
    case True
    then have less: "length es < length ds" using assms(4) by (simp add: x(1) y(1) big_size_def)
    note b = I_band_lost [OF x(2) y(2) less z(1) [OF True]]
    show ?thesis using True big_norm_integer [OF b(2), of True] b(1) by (simp add: big_band_def Let_def big_size_def x(1) y(1))
  next
    case False
    then have less: "length ds < length es" by simp
    note b = I_band_lost [OF y(2) x(2) less z(2) [OF less]]
    show ?thesis using False less big_norm_integer [OF b(2), of True] b(1)
      by (simp add: big_band_def Let_def big_size_def x(1) y(1) and.commute)
  qed
qed

lemma big_bxor_lost:
  assumes "bit_operand x" and "bit_operand y"
    and "big_sign x \<and> big_size y < big_size x \<or> big_sign y \<and> big_size x < big_size y" and "low_digits x y = 0"
  shows "big_bxor x y = make_integer ((int_of_term x XOR int_of_term y) +
    (if big_sign x \<and> big_sign y then B ^ min (big_size x) (big_size y) else - (B ^ min (big_size x) (big_size y))))"
proof -
  obtain s ds t es where x: "x = make_big s ds" "two_operand s ds" and y: "y = make_big t es" "two_operand t es"
    using assms(1,2) by (metis bit_operand_cases)
  have z: "length es \<le> length ds \<Longrightarrow> big_value (take (length es) ds) = 0" "length ds < length es \<Longrightarrow> big_value (take (length ds) es) = 0"
    using low_digits_zero assms(4) x(1) y(1) by blast+
  show ?thesis
  proof (cases "length es \<le> length ds")
    case True
    then have less: "length es < length ds" and s using assms(3) by (auto simp: x(1) y(1) big_size_def)
    then have xs: "two_operand True ds" using x(2) by simp
    note b = I_bxor_lost [OF xs y(2) less z(1) [OF True]]
    show ?thesis using True less \<open>s\<close> big_norm_integer [OF b(2), of "\<not> t"] b(1)
      by (simp add: big_bxor_def Let_def big_size_def x(1) y(1))
  next
    case False
    then have less: "length ds < length es" and t using assms(3) by (auto simp: x(1) y(1) big_size_def)
    then have ys: "two_operand True es" using y(2) by simp
    note b = I_bxor_lost [OF ys x(2) less z(2) [OF less]]
    show ?thesis using False less \<open>t\<close> big_norm_integer [OF b(2), of "\<not> s"] b(1)
      by (simp add: big_bxor_def Let_def big_size_def x(1) y(1) xor.commute)
  qed
qed

lemma big_bnot_integer:
  assumes "is_big_operand x"
  shows "big_bnot x = make_integer (NOT (int_of_term x))"
proof -
  obtain s ds where x: "x = make_big s ds" "norm_ok ds" using assms by (rule big_operand_cases)
  have pos: "ds \<noteq> []" "uint (1 :: Uint) \<le> big_value ds" using norm_ok_pos [OF x(2)] by simp_all
  show ?thesis
  proof (cases s)
    case True
    show ?thesis using True D_sub_ok [OF pos] big_norm_integer [of "D_sub ds 1" False]
      by (simp add: big_bnot_def I_bnot_def Let_def x(1) not_int_def)
  next
    case False
    show ?thesis using False D_add_ok [OF x(2), of 1] big_norm_integer [of "D_add ds 1" True]
      by (simp add: big_bnot_def I_bnot_def Let_def x(1) not_int_def)
  qed
qed

text \<open>The arithmetic shift of an integer, and of a term.\<close>

definition shift_left :: "int \<Rightarrow> int \<Rightarrow> int" where
  "shift_left z n = (if 0 \<le> n then z * 2 ^ nat n else z div 2 ^ nat (- n))"

lemma big_lshift_integer:
  assumes "is_big_operand x"
  shows "big_lshift x n = make_integer (shift_left (int_of_term x) n)"
proof -
  obtain s ds where x: "x = make_big s ds" "norm_ok ds" using assms by (rule big_operand_cases)
  consider "n = 0" | "0 < n" | "n < 0" by linarith
  then show ?thesis
  proof cases
    case 1
    then show ?thesis using big_norm_integer [of ds s] x(2) by (simp add: big_lshift_def Let_def x(1) I_lshift_def shift_left_def)
  next
    case 2
    note l = I_lshift_left [OF x(2) 2, of s]
    have "big_norm (I_lshift ds n s) s = make_integer (with_sign s (big_value ds * 2 ^ nat n))"
      by (rule big_norm_integer [OF disjI1 [OF l(2)], of s, unfolded l(1)])
    then show ?thesis using 2 by (simp add: big_lshift_def Let_def x(1) shift_left_def)
  next
    case 3
    note r = I_lshift_right [OF x(2) 3, of s]
    show ?thesis using 3 big_norm_integer [OF r(2), of s] unfolding r(1) by (simp add: big_lshift_def Let_def x(1) shift_left_def)
  qed
qed

text \<open>Where the condition does not hold, the results are wrong: the borrow is not taken on to the high digits.\<close>

lemma top_digit_one: "1 AND NOT (prev_mask_loop n (- 2) 0 m) = 1"
  using not_prev_mask [of "- 2" n m] by simp

lemma borrow_lost:
  "I_band [0, 1] True [1] True = [0, 2]" "I_bxor [0, 1] True [1] False = [0xFFFFFFFFFFFFFFFF, 1]"
  by (simp_all add: I_band_def I_bxor_def DSUB_def DSUBb_def I_btrail_def Let_def top_digit_one D_MASK_def D_add_def DSUMc_def DSUM_def)

lemma band_borrow_lost:
  "big_band (make_big True [0, 1]) (make_big True [1]) = make_big True [0, 2]"
  "big_bxor (make_big True [0, 1]) (make_big False [1]) = make_big True [0xFFFFFFFFFFFFFFFF, 1]"
  by (simp_all add: big_band_def big_bxor_def big_size_def borrow_lost big_norm_def BIG_ARITY_MAX_def)

end
