(* ===== verification/Erl_Arith.thy ===== *)
theory Erl_Arith
  imports Big_Bits
begin

section \<open>Arithmetic of integer terms: erl\_arith.c\<close>

text \<open>
  The functions erts\_mixed\_plus, erts\_mixed\_minus, erts\_mixed\_times, erts\_int\_div, erts\_int\_rem,
  erts\_band, erts\_bor, erts\_bxor and the built-in functions on top of them, for terms that are integers or
  not numbers. The operands of both sizes are mixed: a small one is made a big one when the other is big.
  A result is a term or the reason of the failure. The branches for floats are not modelled.
\<close>

subsection \<open>Definitions\<close>

type_synonym arith = "fail_reason + iterm"

text \<open>A result that does not fit into the header of a big integer is NIL.\<close>

definition check_limit :: "iterm \<Rightarrow> arith" where
  "check_limit res = (if res = NIL then Inl SYSTEM_LIMIT else Inr res)"

definition small_or_big :: "int \<Rightarrow> arith" where
  "small_or_big ires = (if IS_SSMALL ires then Inr (make_small ires) else Inr (small_to_big ires))"

fun erts_mixed_plus :: "iterm \<Rightarrow> iterm \<Rightarrow> arith" where
  "erts_mixed_plus (make_small i) (make_small j) = small_or_big (i + j)"
| "erts_mixed_plus (make_small i) (make_big t ys) =
     (if i = 0 then Inr (make_big t ys) else check_limit (big_plus (small_to_big i) (make_big t ys)))"
| "erts_mixed_plus (make_big s xs) (make_small j) =
     (if j = 0 then Inr (make_big s xs) else check_limit (big_plus (make_big s xs) (small_to_big j)))"
| "erts_mixed_plus (make_big s xs) (make_big t ys) = check_limit (big_plus (make_big s xs) (make_big t ys))"
| "erts_mixed_plus _ _ = Inl BADARITH"

fun erts_mixed_minus :: "iterm \<Rightarrow> iterm \<Rightarrow> arith" where
  "erts_mixed_minus (make_small i) (make_small j) = small_or_big (i - j)"
| "erts_mixed_minus (make_small i) (make_big t ys) = check_limit (big_minus (small_to_big i) (make_big t ys))"
| "erts_mixed_minus (make_big s xs) (make_small j) =
     (if j = 0 then Inr (make_big s xs) else check_limit (big_minus (make_big s xs) (small_to_big j)))"
| "erts_mixed_minus (make_big s xs) (make_big t ys) = check_limit (big_minus (make_big s xs) (make_big t ys))"
| "erts_mixed_minus _ _ = Inl BADARITH"

text \<open>\<open>same\<close> and \<open>mem\<close>: whether the operands are one object, and the memory that HAlloc gives for the result.\<close>

fun erts_mixed_times :: "bool \<Rightarrow> (nat \<Rightarrow> Uint list) \<Rightarrow> iterm \<Rightarrow> iterm \<Rightarrow> arith" where
  "erts_mixed_times same mem (make_small i) (make_small j) =
     (if i = 0 \<or> j = 0 then Inr (make_small 0)
      else if i = 1 then Inr (make_small j)
      else if j = 1 then Inr (make_small i)
      else Inr (small_times i j))"
| "erts_mixed_times same mem (make_small i) (make_big t ys) =
     (if i = 0 then Inr (make_small 0)
      else if i = 1 then Inr (make_big t ys)
      else check_limit (big_times False (small_to_big i) (make_big t ys) (mem (2 + length ys))))"
| "erts_mixed_times same mem (make_big s xs) (make_small j) =
     (if j = 0 then Inr (make_small 0)
      else if j = 1 then Inr (make_big s xs)
      else check_limit (big_times False (make_big s xs) (small_to_big j) (mem (2 + length xs))))"
| "erts_mixed_times same mem (make_big s xs) (make_big t ys) =
     check_limit (big_times same (make_big s xs) (make_big t ys) (mem (length xs + length ys)))"
| "erts_mixed_times same mem _ _ = Inl BADARITH"

text \<open>The result None is a division that does not return.\<close>

definition L_big_div :: "iterm \<Rightarrow> iterm \<Rightarrow> arith option" where
  "L_big_div x y =
     (let ires = big_ucomp x y in
      if ires < 0 then Some (Inr (make_small 0))
      else if ires = 0 then Some (Inr (if big_sign x = big_sign y then make_small 1 else make_small (- 1)))
      else map_option check_limit (big_div x y))"

fun erts_int_div :: "iterm \<Rightarrow> iterm \<Rightarrow> arith option" where
  "erts_int_div (make_small i) (make_small j) = L_big_div (small_to_big i) (small_to_big j)"
| "erts_int_div (make_big s xs) (make_small j) = L_big_div (make_big s xs) (small_to_big j)"
| "erts_int_div (make_small i) (make_big t ys) =
     (if i \<noteq> MIN_SMALL then Some (Inr (make_small 0)) else L_big_div (small_to_big i) (make_big t ys))"
| "erts_int_div (make_big s xs) (make_big t ys) = L_big_div (make_big s xs) (make_big t ys)"
| "erts_int_div _ _ = Some (Inl BADARITH)"

definition L_big_rem :: "iterm \<Rightarrow> iterm \<Rightarrow> arith option" where
  "L_big_rem x y =
     (let ires = big_ucomp x y in
      if ires = 0 then Some (Inr (make_small 0))
      else if ires > 0 then map_option check_limit (big_rem x y)
      else Some (Inr x))"

fun erts_int_rem :: "iterm \<Rightarrow> iterm \<Rightarrow> arith option" where
  "erts_int_rem (make_big s xs) (make_small j) = L_big_rem (make_big s xs) (small_to_big j)"
| "erts_int_rem (make_small i) (make_big t ys) =
     (if i \<noteq> MIN_SMALL then Some (Inr (make_small i))
      else if big_ucomp (small_to_big i) (make_big t ys) = 0 then Some (Inr (make_small 0))
      else Some (Inr (make_small i)))"
| "erts_int_rem (make_big s xs) (make_big t ys) = L_big_rem (make_big s xs) (make_big t ys)"
| "erts_int_rem _ _ = Some (Inl BADARITH)"

fun erts_band :: "iterm \<Rightarrow> iterm \<Rightarrow> arith" where
  "erts_band (make_small i) (make_big t ys) = Inr (big_band (small_to_big i) (make_big t ys))"
| "erts_band (make_big s xs) (make_small j) = Inr (big_band (make_big s xs) (small_to_big j))"
| "erts_band (make_big s xs) (make_big t ys) = Inr (big_band (make_big s xs) (make_big t ys))"
| "erts_band _ _ = Inl BADARITH"

fun erts_bor :: "iterm \<Rightarrow> iterm \<Rightarrow> arith" where
  "erts_bor (make_small i) (make_big t ys) = Inr (big_bor (small_to_big i) (make_big t ys))"
| "erts_bor (make_big s xs) (make_small j) = Inr (big_bor (make_big s xs) (small_to_big j))"
| "erts_bor (make_big s xs) (make_big t ys) = Inr (big_bor (make_big s xs) (make_big t ys))"
| "erts_bor _ _ = Inl BADARITH"

fun erts_bxor :: "iterm \<Rightarrow> iterm \<Rightarrow> arith" where
  "erts_bxor (make_small i) (make_big t ys) = Inr (big_bxor (small_to_big i) (make_big t ys))"
| "erts_bxor (make_big s xs) (make_small j) = Inr (big_bxor (make_big s xs) (small_to_big j))"
| "erts_bxor (make_big s xs) (make_big t ys) = Inr (big_bxor (make_big s xs) (make_big t ys))"
| "erts_bxor _ _ = Inl BADARITH"

fun erts_bnot :: "iterm \<Rightarrow> arith" where
  "erts_bnot (make_big s xs) = check_limit (big_bnot (make_big s xs))"
| "erts_bnot _ = Inl BADARITH"

text \<open>The built-in functions.\<close>

fun splus_1 :: "iterm \<Rightarrow> arith" where
  "splus_1 (make_small i) = Inr (make_small i)"
| "splus_1 (make_big s xs) = Inr (make_big s xs)"
| "splus_1 _ = Inl BADARITH"

definition splus_2 :: "iterm \<Rightarrow> iterm \<Rightarrow> arith" where
  "splus_2 x y = erts_mixed_plus x y"

definition sminus_1 :: "iterm \<Rightarrow> arith" where
  "sminus_1 x = erts_mixed_minus (make_small 0) x"

definition sminus_2 :: "iterm \<Rightarrow> iterm \<Rightarrow> arith" where
  "sminus_2 x y = erts_mixed_minus x y"

definition stimes_2 :: "bool \<Rightarrow> (nat \<Rightarrow> Uint list) \<Rightarrow> iterm \<Rightarrow> iterm \<Rightarrow> arith" where
  "stimes_2 same mem x y = erts_mixed_times same mem x y"

fun signed_val :: "iterm \<Rightarrow> int option" where
  "signed_val (make_small i) = Some i"
| "signed_val _ = None"

definition intdiv_2 :: "iterm \<Rightarrow> iterm \<Rightarrow> arith option" where
  "intdiv_2 x y =
     (if y = make_small 0 then Some (Inl BADARITH)
      else case (signed_val x, signed_val y) of
        (Some i, Some j) \<Rightarrow> (let ires = i sdiv j in if IS_SSMALL ires then Some (Inr (make_small ires)) else erts_int_div x y)
      | _ \<Rightarrow> erts_int_div x y)"

definition rem_2 :: "iterm \<Rightarrow> iterm \<Rightarrow> arith option" where
  "rem_2 x y =
     (if y = make_small 0 then Some (Inl BADARITH)
      else case (signed_val x, signed_val y) of
        (Some i, Some j) \<Rightarrow> Some (Inr (make_small (i smod j)))
      | _ \<Rightarrow> erts_int_rem x y)"

fun band_2 :: "iterm \<Rightarrow> iterm \<Rightarrow> arith" where
  "band_2 (make_small i) (make_small j) = Inr (make_small (i AND j))"
| "band_2 x y = erts_band x y"

fun bor_2 :: "iterm \<Rightarrow> iterm \<Rightarrow> arith" where
  "bor_2 (make_small i) (make_small j) = Inr (make_small (i OR j))"
| "bor_2 x y = erts_bor x y"

fun bxor_2 :: "iterm \<Rightarrow> iterm \<Rightarrow> arith" where
  "bxor_2 (make_small i) (make_small j) = Inr (make_small (i XOR j))"
| "bxor_2 x y = erts_bxor x y"

fun bnot_1 :: "iterm \<Rightarrow> arith" where
  "bnot_1 (make_small i) = Inr (make_small (NOT i))"
| "bnot_1 (make_big s xs) = check_limit (big_bnot (make_big s xs))"
| "bnot_1 _ = Inl BADARITH"

text \<open>
  The shift by a small number \<open>i\<close> to the left. A small operand is shifted as a machine word if the result
  is small: the test reads the bits that would be lost, of the number or, for a negative one, of its
  complement. The test of the size lets through what is a little too large for the header.
\<close>

definition big_shift :: "iterm \<Rightarrow> int \<Rightarrow> arith" where
  "big_shift x i =
     (let ires = (if i > 0 then int (big_size x) + i div 64
                  else if int (big_size x) \<le> - i div 64 then 3 else int (big_size x) - (- i div 64))
      in if ires - 8 > int BIG_ARITY_MAX then Inl SYSTEM_LIMIT else check_limit (big_lshift x i))"

definition lost_bits :: "int \<Rightarrow> int \<Rightarrow> Uint" where
  "lost_bits ires i = push_bit (59 - nat i) (NOT 0) AND word_of_int ires"

definition small_shift :: "int \<Rightarrow> int \<Rightarrow> arith" where
  "small_shift ires i =
     (if i = 0 \<or> ires = 0 then Inr (make_small ires)
      else if i < 0
      then (if - i \<ge> 59 then Inr (if ires < 0 then make_small (- 1) else make_small 0)
            else Inr (make_small (drop_bit (nat (- i)) ires)))
      else if i < 59 \<and> (ires > 0 \<and> lost_bits ires i = 0 \<or> lost_bits (NOT ires) i = 0)
      then Inr (make_small (push_bit (nat i) ires))
      else big_shift (small_to_big ires) i)"

fun shift_small :: "iterm \<Rightarrow> int \<Rightarrow> arith" where
  "shift_small (make_small ires) i = small_shift ires i"
| "shift_small (make_big s xs) i = (if i = 0 then Inr (make_big s xs) else big_shift (make_big s xs) i)"
| "shift_small _ i = Inl BADARITH"

fun is_integer_term :: "iterm \<Rightarrow> bool" where
  "is_integer_term (make_small i) = True"
| "is_integer_term (make_big s xs) = True"
| "is_integer_term _ = False"

fun shift :: "iterm \<Rightarrow> iterm \<Rightarrow> bool \<Rightarrow> arith" where
  "shift x (make_small j) right = shift_small x (if right then - j else j)"
| "shift x (make_big t ys) right =
     (if right then shift_small x (if t then MAX_SMALL else MIN_SMALL)
      else if t then shift_small x MIN_SMALL
      else if is_integer_term x then Inl SYSTEM_LIMIT
      else Inl BADARITH)"
| "shift x _ right = Inl BADARITH"

definition bsl_2 :: "iterm \<Rightarrow> iterm \<Rightarrow> arith" where
  "bsl_2 x y = shift x y False"

definition bsr_2 :: "iterm \<Rightarrow> iterm \<Rightarrow> arith" where
  "bsr_2 x y = shift x y True"

subsection \<open>The operations on integers\<close>

text \<open>
  The specification: the operation on the integers, the term of its result if there is one, and
  BADARITH for operands that are not integers. Integers are represented in one way, by well-formed terms.
\<close>

definition wf_operand :: "iterm \<Rightarrow> bool" where
  "wf_operand x \<longleftrightarrow> (is_integer_term x \<longrightarrow> wf_integer x)"

definition integer_result :: "int \<Rightarrow> arith" where
  "integer_result z = check_limit (make_integer z)"

definition integer_op :: "(int \<Rightarrow> int \<Rightarrow> int) \<Rightarrow> iterm \<Rightarrow> iterm \<Rightarrow> arith" where
  "integer_op f x y =
     (if is_integer_term x \<and> is_integer_term y then integer_result (f (int_of_term x) (int_of_term y)) else Inl BADARITH)"

lemma integer_result_small [simp]: "IS_SSMALL i \<Longrightarrow> integer_result i = Inr (make_small i)"
  by (simp add: integer_result_def make_integer_def check_limit_def)

lemma integer_result_term [simp]: "wf_integer x \<Longrightarrow> integer_result (int_of_term x) = Inr x"
proof -
  assume w: "wf_integer x"
  then have "x \<noteq> NIL" by auto
  then show ?thesis using wf_is_make_integer [OF w] by (simp add: integer_result_def check_limit_def)
qed

lemma integer_result_big: "wf_integer (make_big s ds) \<Longrightarrow> integer_result (with_sign s (big_value ds)) = Inr (make_big s ds)"
  using integer_result_term [of "make_big s ds"] by simp

lemma small_range:
  assumes "IS_SSMALL i"
  shows "- (2 ^ 63) \<le> i" and "i < 2 ^ 63" and "- (2 ^ 59) \<le> i" and "i < 2 ^ 59"
  using assms by (simp_all add: IS_SSMALL_def MAX_SMALL_def MIN_SMALL_def)

lemma small_or_big_ok:
  assumes "- (2 ^ 63) \<le> z" and "z < 2 ^ 63"
  shows "small_or_big z = integer_result z"
proof (cases "IS_SSMALL z")
  case False
  then have e: "small_to_big z = make_integer z" by (rule small_to_big_ok(3) [OF assms])
  have "small_to_big z \<noteq> NIL" by (simp add: small_to_big_def Let_def)
  then show ?thesis using False e by (simp add: small_or_big_def integer_result_def check_limit_def)
qed (simp add: small_or_big_def)

lemma small_operand:
  assumes "IS_SSMALL i"
  shows "int_of_term (small_to_big i) = i" and "i \<noteq> 0 \<Longrightarrow> is_big_operand (small_to_big i)" and "big_size (small_to_big i) = 1"
  using small_to_big_ok [OF small_range(1,2) [OF assms]] by auto

lemma operand_cases:
  assumes "wf_operand x"
  obtains (small) i where "x = make_small i" and "IS_SSMALL i"
  | (big) s ds where "x = make_big s ds" and "wf_integer x" and "is_big_operand x"
  | (other) "\<not> is_integer_term x"
  using assms by (cases x) (auto simp: wf_operand_def)

lemma not_integer [simp]: "\<not> is_integer_term x \<Longrightarrow> integer_op f x y = Inl BADARITH" "\<not> is_integer_term y \<Longrightarrow> integer_op f x y = Inl BADARITH"
  by (simp_all add: integer_op_def)

lemma add_zero_digit: "ys \<noteq> [] \<Longrightarrow> I_add ys [0] = ys"
proof -
  have "add_carry xs 0 = xs" for xs by (induction xs) simp_all
  then show "ys \<noteq> [] \<Longrightarrow> I_add ys [0] = ys" by (cases ys) (simp_all add: I_add_def)
qed

lemma zero_minus_big:
  assumes "norm_ok ys"
  shows "big_minus (small_to_big 0) (make_big t ys) = make_integer (- with_sign t (big_value ys))"
proof -
  have ne: "ys \<noteq> []" using assms by (simp add: norm_ok_def)
  have z: "small_to_big 0 = make_big False [0]" by (simp add: small_to_big_def)
  show ?thesis
  proof (cases t)
    case True
    have "\<not> length [0 :: Uint] > length ys" using ne by (cases ys) auto
    then show ?thesis using True big_norm_integer [of ys False] assms
      by (simp add: z big_minus_def B_plus_minus_def add_zero_digit [OF ne])
  next
    case False
    have c: "I_comp [0] ys = - 1"
    proof (cases "length ys = 1")
      case True
      then obtain y where "ys = [y]" by (cases ys) auto
      then show ?thesis using assms by (simp add: I_comp_def norm_ok_def word_neq_0_conv)
    next
      case F: False
      then show ?thesis using ne by (cases ys) (auto simp: I_comp_def)
    qed
    have "length [0 :: Uint] \<le> length ys" using ne by (cases ys) auto
    note r = I_sub_ok [OF this ne]
    show ?thesis using False c r big_norm_integer [of "I_sub ys [0]" True] big_value_bounds(1) [of ys]
      by (simp add: z big_minus_def B_plus_minus_def)
  qed
qed

text \<open>The cases of two operands. One digit of a big operand is enough to be an operand of the bit operations.\<close>

lemma operand_pairs:
  assumes "wf_operand x" and "wf_operand y"
    and "\<And>i j. IS_SSMALL i \<Longrightarrow> IS_SSMALL j \<Longrightarrow> P (make_small i) (make_small j)"
    and "\<And>i t es. IS_SSMALL i \<Longrightarrow> wf_integer (make_big t es) \<Longrightarrow> P (make_small i) (make_big t es)"
    and "\<And>s ds j. wf_integer (make_big s ds) \<Longrightarrow> IS_SSMALL j \<Longrightarrow> P (make_big s ds) (make_small j)"
    and "\<And>s ds t es. wf_integer (make_big s ds) \<Longrightarrow> wf_integer (make_big t es) \<Longrightarrow> P (make_big s ds) (make_big t es)"
    and "\<And>x y. \<not> is_integer_term x \<or> \<not> is_integer_term y \<Longrightarrow> P x y"
  shows "P x y"
  by (rule operand_cases [OF assms(1)]; rule operand_cases [OF assms(2)]) (auto intro: assms(3-7))

lemma big_pair_value: "int_of_term (make_big s ds) = with_sign s (big_value ds)"
  by simp

text \<open>From here on the digits of a big operand stay closed.\<close>

declare wf_integer.simps(2) [simp del] int_of_term.simps(2) [simp del] is_big_operand.simps(1) [simp del] bit_operand.simps(1) [simp del]

lemma integer_op_simps [simp]:
  "integer_op f (make_small i) (make_small j) = integer_result (f i j)"
  "integer_op f (make_small i) (make_big t es) = integer_result (f i (int_of_term (make_big t es)))"
  "integer_op f (make_big s ds) (make_small j) = integer_result (f (int_of_term (make_big s ds)) j)"
  "integer_op f (make_big s ds) (make_big t es) =
     integer_result (f (int_of_term (make_big s ds)) (int_of_term (make_big t es)))"
  by (simp_all add: integer_op_def)

lemma big_size_digits [simp]: "big_size (make_big s ds) = length ds"
  by (simp add: big_size_def)

lemma constant_results [simp]: "integer_result 0 = Inr (make_small 0)" "integer_result 1 = Inr (make_small 1)"
  "integer_result (- 1) = Inr (make_small (- 1))"
  by (simp_all add: IS_SSMALL_def MAX_SMALL_def MIN_SMALL_def)

lemmas operand_simps = small_operand wf_big_operand integer_result_def [symmetric]

lemma bad_operands:
  assumes "\<not> is_integer_term x \<or> \<not> is_integer_term y"
  shows "erts_mixed_plus x y = Inl BADARITH" and "erts_mixed_minus x y = Inl BADARITH"
    and "erts_mixed_times same mem x y = Inl BADARITH" and "erts_int_div x y = Some (Inl BADARITH)"
    and "erts_int_rem x y = Some (Inl BADARITH)" and "erts_band x y = Inl BADARITH" and "erts_bor x y = Inl BADARITH"
    and "erts_bxor x y = Inl BADARITH" and "band_2 x y = Inl BADARITH" and "bor_2 x y = Inl BADARITH" and "bxor_2 x y = Inl BADARITH"
    and "integer_op f x y = Inl BADARITH"
  using assms by (cases x; cases y; simp; fail)+

lemma mixed_plus_ok:
  assumes "wf_operand x" and "wf_operand y"
  shows "erts_mixed_plus x y = integer_op (+) x y"
  using assms
proof (rule operand_pairs)
  show "erts_mixed_plus (make_small i) (make_small j) = integer_op (+) (make_small i) (make_small j)"
    if "IS_SSMALL i" "IS_SSMALL j" for i j
    using small_range [OF that(1)] small_range [OF that(2)] by (simp add: small_or_big_ok)
qed (simp_all add: bad_operands operand_simps big_plus_integer)

lemma mixed_minus_ok:
  assumes "wf_operand x" and "wf_operand y"
  shows "erts_mixed_minus x y = integer_op (-) x y"
  using assms
proof (rule operand_pairs)
  show "erts_mixed_minus (make_small i) (make_small j) = integer_op (-) (make_small i) (make_small j)"
    if "IS_SSMALL i" "IS_SSMALL j" for i j
    using small_range [OF that(1)] small_range [OF that(2)] by (simp add: small_or_big_ok)
  show "erts_mixed_minus (make_small i) (make_big t es) = integer_op (-) (make_small i) (make_big t es)"
    if "IS_SSMALL i" "wf_integer (make_big t es)" for i t es
  proof (cases "i = 0")
    case True
    have "norm_ok es" using that(2) by (simp add: wf_integer.simps(2))
    then show ?thesis using True by (simp add: zero_minus_big big_pair_value integer_result_def [symmetric])
  next
    case False
    then show ?thesis using that by (simp add: operand_simps big_minus_integer)
  qed
qed (simp_all add: bad_operands operand_simps big_minus_integer)

text \<open>The memory of the result has the size that is asked for.\<close>

lemma mixed_times_ok:
  assumes "wf_operand x" and "wf_operand y" and "\<And>n. length (mem n) = n" and "same \<Longrightarrow> x = y"
  shows "erts_mixed_times same mem x y = integer_op (*) x y"
proof -
  have "(same \<longrightarrow> x = y) \<longrightarrow> erts_mixed_times same mem x y = integer_op (*) x y"
    using assms(1,2)
  proof (rule operand_pairs)
    show "(same \<longrightarrow> make_small i = make_small j) \<longrightarrow>
        erts_mixed_times same mem (make_small i) (make_small j) = integer_op (*) (make_small i) (make_small j)"
      if "IS_SSMALL i" "IS_SSMALL j" for i j
    proof -
      have "small_times i j = make_integer (i * j)"
        using small_range [OF that(1)] small_range [OF that(2)] by (intro small_times_integer)
      moreover have "small_times i j \<noteq> NIL" by (simp add: small_times_def Let_def split: prod.splits)
      ultimately have "integer_result (i * j) = Inr (small_times i j)" by (simp add: integer_result_def check_limit_def)
      then show ?thesis using that by auto
    qed
  qed (simp_all add: bad_operands operand_simps big_times_integer assms(3))
  then show ?thesis using assms(4) by blast
qed

text \<open>Division. A small dividend is nearer to zero than a big divisor, but for the smallest one.\<close>

lemma wf_big_bound:
  assumes "wf_integer (make_big s ds)"
  shows "int_of_term (make_big s ds) \<le> MIN_SMALL - 1 \<or> MAX_SMALL + 1 \<le> int_of_term (make_big s ds)"
proof -
  have "make_big s ds = make_integer (int_of_term (make_big s ds))" by (rule wf_is_make_integer [OF assms])
  then have "\<not> IS_SSMALL (int_of_term (make_big s ds))" by (auto simp: make_integer_def)
  then show ?thesis by (auto simp: IS_SSMALL_def)
qed

lemma sdiv_less:
  assumes "\<bar>x\<bar> < \<bar>y\<bar>"
  shows "x sdiv y = 0" and "x smod y = (x :: int)"
  using assms by (simp_all add: signed_divide_int_def signed_modulo_int_def mult_sgn_abs)

lemma sdiv_equal:
  assumes "\<bar>x\<bar> = \<bar>y\<bar>" and "y \<noteq> (0 :: int)"
  shows "x sdiv y = (if (x < 0) = (y < 0) then 1 else - 1)" and "x smod y = 0"
proof -
  show d: "x sdiv y = (if (x < 0) = (y < 0) then 1 else - 1)"
    using assms by (auto simp: signed_divide_int_def sgn_if)
  have "x = y \<or> x = - y" using assms(1) by linarith
  then show "x smod y = 0" using assms d by (auto simp: signed_modulo_int_def split: if_splits)
qed

lemma big_sign_iff:
  assumes "is_big_operand x"
  shows "big_sign x \<longleftrightarrow> int_of_term x < 0"
proof -
  obtain s ds where x: "x = make_big s ds" "norm_ok ds" using assms by (rule big_operand_cases)
  show ?thesis using big_value_pos [OF x(2)] by (simp add: x(1) big_pair_value)
qed

lemma operand_nonzero:
  assumes "is_big_operand x"
  shows "int_of_term x \<noteq> 0"
proof -
  obtain s ds where x: "x = make_big s ds" "norm_ok ds" using assms by (rule big_operand_cases)
  show ?thesis using big_value_pos [OF x(2)] by (simp add: x(1) big_pair_value)
qed

lemma L_big_div_ok:
  assumes "is_big_operand x" and "is_big_operand y"
  shows "L_big_div x y = Some (integer_result (int_of_term x sdiv int_of_term y))"
proof -
  note c = big_ucomp_integer [OF assms] and ny = operand_nonzero [OF assms(2)]
  consider "\<bar>int_of_term x\<bar> < \<bar>int_of_term y\<bar>" | "\<bar>int_of_term x\<bar> = \<bar>int_of_term y\<bar>" | "\<bar>int_of_term y\<bar> < \<bar>int_of_term x\<bar>"
    by linarith
  then show ?thesis
  proof cases
    case 1
    then show ?thesis using c by (simp add: L_big_div_def sdiv_less)
  next
    case 2
    then show ?thesis using c sdiv_equal [OF 2 ny] by (simp add: L_big_div_def big_sign_iff [OF assms(1)] big_sign_iff [OF assms(2)])
  next
    case 3
    then show ?thesis using c big_div_integer(1) [OF assms less_imp_le [OF 3]] by (simp add: L_big_div_def integer_result_def)
  qed
qed

lemma L_big_rem_ok:
  assumes "is_big_operand x" and "is_big_operand y" and "integer_result (int_of_term x) = Inr x"
  shows "L_big_rem x y = Some (integer_result (int_of_term x smod int_of_term y))"
proof -
  note c = big_ucomp_integer [OF assms(1,2)] and ny = operand_nonzero [OF assms(2)]
  consider "\<bar>int_of_term x\<bar> < \<bar>int_of_term y\<bar>" | "\<bar>int_of_term x\<bar> = \<bar>int_of_term y\<bar>" | "\<bar>int_of_term y\<bar> < \<bar>int_of_term x\<bar>"
    by linarith
  then show ?thesis
  proof cases
    case 1
    then show ?thesis using c assms(3) by (simp add: L_big_rem_def sdiv_less)
  next
    case 2
    then show ?thesis using c sdiv_equal [OF 2 ny] by (simp add: L_big_rem_def)
  next
    case 3
    then show ?thesis using c big_div_integer(2) [OF assms(1,2) less_imp_le [OF 3]] by (simp add: L_big_rem_def integer_result_def)
  qed
qed

text \<open>Quotients and remainders of machine integers.\<close>

lemma small_sdiv:
  assumes "IS_SSMALL i" and "IS_SSMALL j" and "j \<noteq> 0"
  shows "IS_SSMALL (i smod j)" and "\<not> IS_SSMALL (i sdiv j) \<Longrightarrow> i \<noteq> 0"
proof -
  have m: "\<bar>i smod j\<bar> < \<bar>j\<bar>" using assms(3) by (simp add: signed_modulo_int_def abs_mult)
  show "IS_SSMALL (i smod j)" using small_range [OF assms(2)] m by (auto simp: IS_SSMALL_def MAX_SMALL_def MIN_SMALL_def)
  show "\<not> IS_SSMALL (i sdiv j) \<Longrightarrow> i \<noteq> 0" by (auto simp: signed_divide_int_def IS_SSMALL_def MAX_SMALL_def MIN_SMALL_def)
qed

definition zero_divisor :: "iterm \<Rightarrow> bool" where
  "zero_divisor y \<longleftrightarrow> y = make_small 0"

lemma intdiv_ok:
  assumes "wf_operand x" and "wf_operand y"
  shows "intdiv_2 x y = Some (if zero_divisor y then Inl BADARITH else integer_op (sdiv) x y)"
  using assms
proof (rule operand_pairs)
  show "intdiv_2 (make_small i) (make_small j) =
      Some (if zero_divisor (make_small j) then Inl BADARITH else integer_op (sdiv) (make_small i) (make_small j))"
    if "IS_SSMALL i" "IS_SSMALL j" for i j
    using that small_sdiv(2) [OF that] by (auto simp: intdiv_2_def zero_divisor_def Let_def operand_simps L_big_div_ok)
  show "intdiv_2 (make_small i) (make_big t es) =
      Some (if zero_divisor (make_big t es) then Inl BADARITH else integer_op (sdiv) (make_small i) (make_big t es))"
    if "IS_SSMALL i" "wf_integer (make_big t es)" for i t es
  proof (cases "i = MIN_SMALL")
    case True
    then have "i \<noteq> 0" by (simp add: MIN_SMALL_def)
    then show ?thesis using True that by (simp add: intdiv_2_def zero_divisor_def operand_simps L_big_div_ok)
  next
    case False
    then have "\<bar>i\<bar> < \<bar>int_of_term (make_big t es)\<bar>"
      using wf_big_bound [OF that(2)] that(1) by (auto simp: IS_SSMALL_def MAX_SMALL_def MIN_SMALL_def)
    then show ?thesis using False by (simp add: intdiv_2_def zero_divisor_def sdiv_less)
  qed
  show "intdiv_2 (make_big s ds) (make_small j) =
      Some (if zero_divisor (make_small j) then Inl BADARITH else integer_op (sdiv) (make_big s ds) (make_small j))"
    if "wf_integer (make_big s ds)" "IS_SSMALL j" for s ds j
    using that by (simp add: intdiv_2_def zero_divisor_def operand_simps L_big_div_ok)
  show "intdiv_2 x y = Some (if zero_divisor y then Inl BADARITH else integer_op (sdiv) x y)"
    if "\<not> is_integer_term x \<or> \<not> is_integer_term y" for x y
    using that by (cases x; cases y) (simp_all add: intdiv_2_def zero_divisor_def bad_operands)
qed (simp add: intdiv_2_def zero_divisor_def operand_simps L_big_div_ok)

lemma rem_ok:
  assumes "wf_operand x" and "wf_operand y"
  shows "rem_2 x y = Some (if zero_divisor y then Inl BADARITH else integer_op (smod) x y)"
  using assms
proof (rule operand_pairs)
  show "rem_2 (make_small i) (make_small j) =
      Some (if zero_divisor (make_small j) then Inl BADARITH else integer_op (smod) (make_small i) (make_small j))"
    if "IS_SSMALL i" "IS_SSMALL j" for i j
    using small_sdiv(1) [OF that] by (auto simp: rem_2_def zero_divisor_def)
  show "rem_2 (make_small i) (make_big t es) =
      Some (if zero_divisor (make_big t es) then Inl BADARITH else integer_op (smod) (make_small i) (make_big t es))"
    if "IS_SSMALL i" "wf_integer (make_big t es)" for i t es
  proof (cases "\<bar>i\<bar> = \<bar>int_of_term (make_big t es)\<bar>")
    case True
    have "i = MIN_SMALL" using True wf_big_bound [OF that(2)] that(1) by (auto simp: IS_SSMALL_def MAX_SMALL_def MIN_SMALL_def)
    moreover from this have "i \<noteq> 0" by (simp add: MIN_SMALL_def)
    ultimately show ?thesis using True sdiv_equal [OF True operand_nonzero [OF wf_big_operand [OF that(2)]]]
        big_ucomp_integer [of "small_to_big i" "make_big t es"] that
      by (simp add: rem_2_def zero_divisor_def operand_simps)
  next
    case False
    then have less: "\<bar>i\<bar> < \<bar>int_of_term (make_big t es)\<bar>"
      using wf_big_bound [OF that(2)] that(1) by (auto simp: IS_SSMALL_def MAX_SMALL_def MIN_SMALL_def)
    have "i = MIN_SMALL \<Longrightarrow> big_ucomp (small_to_big i) (make_big t es) \<noteq> 0"
      using big_ucomp_integer [of "small_to_big i" "make_big t es"] that False less
      by (simp add: operand_simps MIN_SMALL_def sgn_if)
    then show ?thesis using less that(1) by (simp add: rem_2_def zero_divisor_def sdiv_less)
  qed
  show "rem_2 (make_big s ds) (make_small j) =
      Some (if zero_divisor (make_small j) then Inl BADARITH else integer_op (smod) (make_big s ds) (make_small j))"
    if "wf_integer (make_big s ds)" "IS_SSMALL j" for s ds j
    using that by (simp add: rem_2_def zero_divisor_def operand_simps L_big_rem_ok)
  show "rem_2 x y = Some (if zero_divisor y then Inl BADARITH else integer_op (smod) x y)"
    if "\<not> is_integer_term x \<or> \<not> is_integer_term y" for x y
    using that by (cases x; cases y) (simp_all add: rem_2_def zero_divisor_def bad_operands)
qed (simp add: rem_2_def zero_divisor_def operand_simps L_big_rem_ok)

text \<open>
  The bit operations have no check of the size: a result with more digits than the header can count is NIL.
\<close>

definition bit_op :: "(int \<Rightarrow> int \<Rightarrow> int) \<Rightarrow> iterm \<Rightarrow> iterm \<Rightarrow> arith" where
  "bit_op f x y =
     (if is_integer_term x \<and> is_integer_term y then Inr (make_integer (f (int_of_term x) (int_of_term y))) else Inl BADARITH)"

lemma bit_op_simps [simp]:
  "bit_op f (make_small i) (make_small j) = Inr (make_integer (f i j))"
  "bit_op f (make_small i) (make_big t es) = Inr (make_integer (f i (int_of_term (make_big t es))))"
  "bit_op f (make_big s ds) (make_small j) = Inr (make_integer (f (int_of_term (make_big s ds)) j))"
  "bit_op f (make_big s ds) (make_big t es) =
     Inr (make_integer (f (int_of_term (make_big s ds)) (int_of_term (make_big t es))))"
  by (simp_all add: bit_op_def)

lemma bit_op_bad: "\<not> is_integer_term x \<or> \<not> is_integer_term y \<Longrightarrow> bit_op f x y = Inl BADARITH"
  by (auto simp: bit_op_def)

lemma small_bit_operand: "IS_SSMALL i \<Longrightarrow> bit_operand (small_to_big i)"
proof (cases "i = 0")
  case True
  then show ?thesis by (simp add: small_to_big_def two_operand_def bit_operand.simps(1))
qed (simp add: operand_simps)

lemmas bit_simps = small_bit_operand is_big_bit_operand wf_big_operand small_operand(1,3)

lemma small_result [simp]: "IS_SSMALL i \<Longrightarrow> make_integer i = make_small i"
  by (simp add: make_integer_def)

text \<open>The small integers are the numbers of 60 bits: the bit operations stay among them.\<close>

lemma small_bits: "IS_SSMALL i \<longleftrightarrow> signed_take_bit 59 i = i"
  unfolding signed_take_bit_int_eq_self_iff by (auto simp: IS_SSMALL_def MAX_SMALL_def MIN_SMALL_def)

lemma signed_take_bit_bits:
  "signed_take_bit n (i AND j) = signed_take_bit n i AND signed_take_bit n (j :: int)"
  "signed_take_bit n (i OR j) = signed_take_bit n i OR signed_take_bit n j"
  "signed_take_bit n (i XOR j) = signed_take_bit n i XOR signed_take_bit n j"
  "signed_take_bit n (NOT i) = NOT (signed_take_bit n i)"
  by (auto intro!: bit_eqI simp: bit_signed_take_bit_iff bit_and_iff bit_or_iff bit_xor_iff bit_not_iff)

lemma small_bit_ops:
  assumes "IS_SSMALL i" and "IS_SSMALL j"
  shows "IS_SSMALL (i AND j)" and "IS_SSMALL (i OR j)" and "IS_SSMALL (i XOR j)"
  using assms unfolding small_bits by (simp_all add: signed_take_bit_bits)

text \<open>
  The operands for which band and bxor are right: the digits of the longer operand, negative together with the
  other one or, for bxor, negative, are not all zero below the length of the shorter one.
\<close>

fun digits_term :: "iterm \<Rightarrow> iterm" where
  "digits_term (make_small i) = small_to_big i"
| "digits_term x = x"

definition band_safe :: "iterm \<Rightarrow> iterm \<Rightarrow> bool" where
  "band_safe x y \<longleftrightarrow>
     (let x = digits_term x; y = digits_term y
      in big_sign x \<and> big_sign y \<and> big_size x \<noteq> big_size y \<longrightarrow> low_digits x y \<noteq> 0)"

definition bxor_safe :: "iterm \<Rightarrow> iterm \<Rightarrow> bool" where
  "bxor_safe x y \<longleftrightarrow>
     (let x = digits_term x; y = digits_term y
      in (big_sign x \<and> big_size y < big_size x \<or> big_sign y \<and> big_size x < big_size y) \<longrightarrow> low_digits x y \<noteq> 0)"

lemma bor_ok:
  assumes "wf_operand x" and "wf_operand y"
  shows "bor_2 x y = bit_op (OR) x y"
  using assms by (rule operand_pairs) (simp_all add: bad_operands bit_op_bad bit_simps small_bit_ops big_bor_integer)

text \<open>What the results are off by: the borrow that is lost, at the length of the shorter operand.\<close>

definition lost_borrow :: "iterm \<Rightarrow> iterm \<Rightarrow> int" where
  "lost_borrow x y = B ^ min (big_size (digits_term x)) (big_size (digits_term y))"

definition band_result :: "iterm \<Rightarrow> iterm \<Rightarrow> int" where
  "band_result x y = (int_of_term x AND int_of_term y) - (if band_safe x y then 0 else lost_borrow x y)"

definition bxor_result :: "iterm \<Rightarrow> iterm \<Rightarrow> int" where
  "bxor_result x y =
     (int_of_term x XOR int_of_term y) +
     (if bxor_safe x y then 0
      else if int_of_term x < 0 \<and> int_of_term y < 0 then lost_borrow x y else - lost_borrow x y)"

definition is_digits :: "iterm \<Rightarrow> bool" where
  "is_digits x \<longleftrightarrow> bit_operand x \<and> (big_sign x \<longleftrightarrow> int_of_term x < 0)"

lemma is_digits [simp]: "IS_SSMALL i \<Longrightarrow> is_digits (small_to_big i)" "wf_integer (make_big s ds) \<Longrightarrow> is_digits (make_big s ds)"
proof -
  show "is_digits (small_to_big i)" if "IS_SSMALL i"
  proof (cases "i = 0")
    case True
    then show ?thesis using that by (simp add: is_digits_def small_bit_operand small_operand(1)) (simp add: small_to_big_def)
  next
    case False
    then show ?thesis using that by (simp add: is_digits_def small_bit_operand big_sign_iff small_operand)
  qed
  show "is_digits (make_big s ds)" if "wf_integer (make_big s ds)"
    unfolding is_digits_def using wf_big_operand [OF that] big_sign_iff [OF wf_big_operand [OF that]] by (simp only: is_big_bit_operand simp_thms)
qed

lemma band_digits:
  assumes "is_digits a" and "is_digits b" and "a = digits_term x" and "b = digits_term y"
    and "int_of_term a = int_of_term x" and "int_of_term b = int_of_term y"
  shows "big_band a b = make_integer (band_result x y)"
proof -
  have d: "bit_operand a" "bit_operand b" "big_sign a \<longleftrightarrow> int_of_term x < 0" "big_sign b \<longleftrightarrow> int_of_term y < 0"
    using assms(1,2,5,6) by (simp_all add: is_digits_def)
  note e = assms(3,4) [symmetric]
  show ?thesis
  proof (cases "band_safe x y")
    case True
    then have "(big_sign a \<and> big_sign b \<and> big_size a \<noteq> big_size b) \<longrightarrow> low_digits a b \<noteq> 0" by (simp add: band_safe_def Let_def e)
    then show ?thesis using True big_band_integer [OF d(1,2)] assms(5,6) by (simp add: band_result_def)
  next
    case False
    then have c: "big_sign a \<and> big_sign b \<and> big_size a \<noteq> big_size b" "low_digits a b = 0" unfolding band_safe_def Let_def e by blast+
    show ?thesis using False big_band_lost [OF d(1,2) _ _ c(2)] c(1) assms(5,6) unfolding band_result_def lost_borrow_def e d(3) [symmetric] d(4) [symmetric] by simp
  qed
qed

lemma bxor_digits:
  assumes "is_digits a" and "is_digits b" and "a = digits_term x" and "b = digits_term y"
    and "int_of_term a = int_of_term x" and "int_of_term b = int_of_term y"
  shows "big_bxor a b = make_integer (bxor_result x y)"
proof -
  have d: "bit_operand a" "bit_operand b" "big_sign a \<longleftrightarrow> int_of_term x < 0" "big_sign b \<longleftrightarrow> int_of_term y < 0"
    using assms(1,2,5,6) by (simp_all add: is_digits_def)
  note e = assms(3,4) [symmetric]
  show ?thesis
  proof (cases "bxor_safe x y")
    case True
    then have "(big_sign a \<and> big_size b < big_size a \<or> big_sign b \<and> big_size a < big_size b) \<longrightarrow> low_digits a b \<noteq> 0" by (simp add: bxor_safe_def Let_def e)
    then show ?thesis using True big_bxor_integer [OF d(1,2)] assms(5,6) by (simp add: bxor_result_def)
  next
    case False
    then have c: "big_sign a \<and> big_size b < big_size a \<or> big_sign b \<and> big_size a < big_size b" "low_digits a b = 0" unfolding bxor_safe_def Let_def e by blast+
    show ?thesis using False big_bxor_lost [OF d(1,2) c] assms(5,6) unfolding bxor_result_def lost_borrow_def e d(3) [symmetric] d(4) [symmetric] by simp
  qed
qed

lemma small_safe:
  assumes "IS_SSMALL i" and "IS_SSMALL j"
  shows "band_safe (make_small i) (make_small j)" and "bxor_safe (make_small i) (make_small j)"
  using assms by (simp_all add: band_safe_def bxor_safe_def small_operand)

lemma band_ok:
  assumes "wf_operand x" and "wf_operand y"
  shows "band_2 x y = (if is_integer_term x \<and> is_integer_term y then Inr (make_integer (band_result x y)) else Inl BADARITH)"
  using assms
  by (rule operand_pairs)
    (simp_all add: bad_operands band_digits small_operand(1) small_bit_ops small_safe band_result_def [of "make_small _" "make_small _"])

lemma bxor_ok:
  assumes "wf_operand x" and "wf_operand y"
  shows "bxor_2 x y = (if is_integer_term x \<and> is_integer_term y then Inr (make_integer (bxor_result x y)) else Inl BADARITH)"
  using assms
  by (rule operand_pairs)
    (simp_all add: bad_operands bxor_digits small_operand(1) small_bit_ops small_safe bxor_result_def [of "make_small _" "make_small _"])

lemma bnot_ok:
  assumes "wf_operand x"
  shows "bnot_1 x = (if is_integer_term x then integer_result (NOT (int_of_term x)) else Inl BADARITH)"
  using assms
proof (cases rule: operand_cases)
  case (small i)
  then have "IS_SSMALL (NOT i)" by (simp add: small_bits signed_take_bit_bits)
  then show ?thesis using small by simp
next
  case (big s ds)
  then show ?thesis by (simp add: big_bnot_integer integer_result_def)
next
  case other
  then show ?thesis by (cases x) auto
qed

subsection \<open>Shifts\<close>

text \<open>The exponent from which on every shift to the left is too large, and every shift to the right empty.\<close>

abbreviation huge :: "int \<Rightarrow> bool" where
  "huge n \<equiv> 64 * int BIG_ARITY_MAX \<le> n"

lemma huge_power: "huge n \<Longrightarrow> B ^ BIG_ARITY_MAX \<le> 2 ^ nat n"
proof -
  assume h: "huge n"
  have "B ^ BIG_ARITY_MAX = 2 ^ (64 * BIG_ARITY_MAX)" by (rule power_mult [symmetric])
  moreover have "64 * BIG_ARITY_MAX \<le> nat n" using h by simp
  ultimately show ?thesis by (simp only: power_increasing)
qed

lemma huge_constants: "huge MAX_SMALL" "huge (- MIN_SMALL)"
  by (simp_all add: MAX_SMALL_def MIN_SMALL_def BIG_ARITY_MAX_def)

lemma integer_result_limit:
  assumes "B ^ BIG_ARITY_MAX \<le> \<bar>z\<bar>"
  shows "integer_result z = Inl SYSTEM_LIMIT"
proof -
  have "B ^ 1 \<le> B ^ BIG_ARITY_MAX" by (intro power_increasing) (simp_all add: BIG_ARITY_MAX_def)
  then have b: "B \<le> \<bar>z\<bar>" using assms by simp
  then have "\<not> IS_SSMALL z" by (auto simp: IS_SSMALL_def MAX_SMALL_def MIN_SMALL_def)
  moreover have "BIG_ARITY_MAX < length (digits_of \<bar>z\<bar>)"
  proof -
    have "\<bar>z\<bar> < B ^ length (digits_of \<bar>z\<bar>)" using big_value_bounds(2) [of "digits_of \<bar>z\<bar>"] digits_of_ok [OF abs_ge_zero, of z] b by auto
    then have "B ^ BIG_ARITY_MAX < B ^ length (digits_of \<bar>z\<bar>)" using assms by (rule le_less_trans [rotated])
    then show ?thesis by (rule power_less_imp_less_exp [rotated]) simp
  qed
  ultimately show ?thesis by (simp add: integer_result_def make_integer_def check_limit_def Let_def)
qed

lemma wf_integer_less: "wf_integer x \<Longrightarrow> \<bar>int_of_term x\<bar> < B ^ BIG_ARITY_MAX"
proof (rule ccontr)
  assume w: "wf_integer x" and "\<not> \<bar>int_of_term x\<bar> < B ^ BIG_ARITY_MAX"
  then have "integer_result (int_of_term x) = Inl SYSTEM_LIMIT" by (intro integer_result_limit) simp
  then show False using w by simp
qed

lemma shift_left_zero: "shift_left 0 n = 0"
  by (simp add: shift_left_def)

lemma shift_up_huge: "z \<noteq> 0 \<Longrightarrow> huge n \<Longrightarrow> integer_result (shift_left z n) = Inl SYSTEM_LIMIT"
proof (rule integer_result_limit)
  assume z: "z \<noteq> 0" and h: "huge n"
  have "1 * 2 ^ nat n \<le> \<bar>z\<bar> * 2 ^ nat n" using z by (intro mult_right_mono) simp_all
  then have "2 ^ nat n \<le> \<bar>shift_left z n\<bar>" using h by (simp add: shift_left_def abs_mult)
  then show "B ^ BIG_ARITY_MAX \<le> \<bar>shift_left z n\<bar>" by (rule order_trans [OF huge_power [OF h]])
qed

lemma div_beyond:
  assumes "\<bar>z\<bar> \<le> (d :: int)" and "0 < d" and "z < d"
  shows "z div d = (if z < 0 then - 1 else 0)"
proof (cases "z < 0")
  case True
  have "z div d = (z + d + d * (- 1)) div d" by simp
  also have "\<dots> = (z + d) div d - 1" using assms(2) by (subst div_mult_self2) simp_all
  also have "(z + d) div d = 0" using True assms by (intro div_pos_pos_trivial) simp_all
  finally show ?thesis using True by simp
qed (use assms in simp)

lemma shift_down_huge: "\<bar>z\<bar> < B ^ BIG_ARITY_MAX \<Longrightarrow> huge (- n) \<Longrightarrow> shift_left z n = (if z < 0 then - 1 else 0)"
proof -
  assume z: "\<bar>z\<bar> < B ^ BIG_ARITY_MAX" and h: "huge (- n)"
  have "\<bar>z\<bar> < 2 ^ nat (- n)" by (rule less_le_trans [OF z huge_power [OF h]])
  moreover have "n < 0" using h by (simp add: BIG_ARITY_MAX_def)
  ultimately show ?thesis by (simp add: shift_left_def div_beyond)
qed

text \<open>The operand is one digit of a small integer, or a well-formed big integer.\<close>

lemma big_shift_ok:
  assumes "is_big_operand x" and "big_size x \<le> BIG_ARITY_MAX" and "i \<noteq> 0"
  shows "big_shift x i = integer_result (shift_left (int_of_term x) i)"
proof -
  obtain s ds where x: "x = make_big s ds" "norm_ok ds" using assms(1) by (rule big_operand_cases)
  have r: "check_limit (big_lshift x i) = integer_result (shift_left (int_of_term x) i)"
    by (simp add: big_lshift_integer [OF assms(1)] integer_result_def)
  show ?thesis
  proof (cases "i > 0")
    case False
    then have "0 \<le> - i div 64" by (simp add: pos_imp_zdiv_nonneg_iff)
    then show ?thesis using False r assms(2) by (auto simp: big_shift_def Let_def)
  next
    case pos: True
    show ?thesis
    proof (cases "int (big_size x) + i div 64 - 8 > int BIG_ARITY_MAX")
      case False
      then show ?thesis using r pos by (simp add: big_shift_def Let_def)
    next
      case True
      have q: "B ^ (nat i div 64) \<le> 2 ^ nat i"
        unfolding power_mult [symmetric] by (intro power_increasing) simp_all
      have "nat (i div 64) = nat i div 64" using pos by (simp add: nat_div_distrib)
      then have "BIG_ARITY_MAX \<le> length ds - 1 + nat i div 64" using True pos by (simp add: x(1))
      then have "B ^ BIG_ARITY_MAX \<le> B ^ (length ds - 1 + nat i div 64)" by (intro power_increasing) simp_all
      also have "\<dots> = B ^ (length ds - 1) * B ^ (nat i div 64)" by (rule power_add)
      also have "\<dots> \<le> big_value ds * 2 ^ nat i" using q norm_ok_ge [OF x(2)] big_value_bounds(1) [of ds] by (intro mult_mono) simp_all
      also have "\<dots> = \<bar>shift_left (int_of_term x) i\<bar>"
        using pos big_value_bounds(1) [of ds] by (simp add: shift_left_def x(1) big_pair_value abs_mult)
      finally show ?thesis using True pos by (simp add: big_shift_def Let_def integer_result_limit)
    qed
  qed
qed

text \<open>The test of the lost bits.\<close>

lemma push_ones_and: "push_bit k (NOT 0) AND w = 0 \<Longrightarrow> uint (w :: Uint) < 2 ^ k"
proof -
  assume a: "push_bit k (NOT 0) AND w = 0"
  have "take_bit k w = w"
  proof (rule bit_eqI)
    fix n assume "possible_bit TYPE(64 word) n"
    moreover have "\<not> bit (push_bit k (NOT 0) AND w) n" using a by simp
    ultimately show "bit (take_bit k w) n = bit w n" by (auto simp: bit_and_iff bit_push_bit_iff bit_not_iff bit_take_bit_iff bit_mask_iff)
  qed
  then have "uint w = take_bit k (uint w)" by (metis unsigned_take_bit_eq)
  then show ?thesis using take_bit_int_less_exp [of k "uint w"] by simp
qed

lemma lost_bits_ok:
  assumes "lost_bits z i = 0" and "0 < i" and "i < 59" and "- (2 ^ 59) \<le> z" and "z < 2 ^ 59"
  shows "0 \<le> z" and "z * 2 ^ nat i < 2 ^ 59"
proof -
  have lt: "uint (word_of_int z :: Uint) < 2 ^ (59 - nat i)" using assms(1) unfolding lost_bits_def by (rule push_ones_and)
  have "(2 :: int) ^ (59 - nat i) \<le> 2 ^ 59" by (intro power_increasing) simp_all
  then have w: "uint (word_of_int z :: Uint) < 2 ^ 59" using lt by simp
  show nonneg: "0 \<le> z"
  proof (rule ccontr)
    assume "\<not> 0 \<le> z"
    then have "uint (word_of_int z :: Uint) = z + B"
    proof -
      have "z mod B = (z + B) mod B" by (rule mod_add_self2 [symmetric])
      also have "\<dots> = z + B" using assms(4) \<open>\<not> 0 \<le> z\<close> by (intro mod_pos_pos_trivial) simp_all
      finally show ?thesis by (simp add: uint_word_of_int)
    qed
    then show False using w assms(4) by simp
  qed
  then have "uint (word_of_int z :: Uint) = z" using assms(5) by (intro uint_word_of_int_small) simp_all
  then have "z * 2 ^ nat i < 2 ^ (59 - nat i) * 2 ^ nat i" using lt by simp
  also have "\<dots> = 2 ^ 59" using assms(2,3) by (simp flip: power_add)
  finally show "z * 2 ^ nat i < 2 ^ 59" .
qed

lemma small_shift_ok:
  assumes "IS_SSMALL z"
  shows "small_shift z i = integer_result (shift_left z i)"
proof -
  note r = small_range(3,4) [OF assms]
  consider "i = 0 \<or> z = 0" | "z \<noteq> 0" "i < 0" | "z \<noteq> 0" "0 < i" by linarith
  then show ?thesis
  proof cases
    case 1
    then show ?thesis using assms by (auto simp: small_shift_def shift_left_def)
  next
    case 2
    show ?thesis
    proof (cases "- i \<ge> 59")
      case True
      have p: "(2 :: int) ^ 59 \<le> 2 ^ nat (- i)" using True by (intro power_increasing) simp_all
      have "z div 2 ^ nat (- i) = (if z < 0 then - 1 else 0)" by (rule div_beyond) (use r p in linarith)+
      then show ?thesis using 2 True by (simp add: small_shift_def shift_left_def)
    next
      case False
      have p: "(1 :: int) \<le> 2 ^ nat (- i)" by simp
      have "z div 2 ^ nat (- i) < 2 ^ 59"
      proof (rule div_less_int)
        have "(2 :: int) ^ 59 * 1 \<le> 2 ^ 59 * 2 ^ nat (- i)" by (rule mult_left_mono [OF p]) simp
        then show "z < 2 ^ 59 * 2 ^ nat (- i)" using r(2) by linarith
      qed simp
      moreover have "- (2 ^ 59) \<le> z div 2 ^ nat (- i)"
      proof -
        have "(2 :: int) ^ 59 * 1 \<le> 2 ^ 59 * 2 ^ nat (- i)" by (rule mult_left_mono [OF p]) simp
        then have "- (2 ^ 59) * 2 ^ nat (- i) \<le> z" unfolding mult_minus_left using r(1) by linarith
        then have "- (2 ^ 59) * 2 ^ nat (- i) div 2 ^ nat (- i) \<le> z div 2 ^ nat (- i)" by (rule zdiv_mono1) simp
        then show ?thesis by (subst (asm) nonzero_mult_div_cancel_right) simp_all
      qed
      ultimately have "IS_SSMALL (z div 2 ^ nat (- i))" by (simp add: IS_SSMALL_def MAX_SMALL_def MIN_SMALL_def)
      then show ?thesis using 2 False by (simp add: small_shift_def shift_left_def drop_bit_eq_div)
    qed
  next
    case 3
    have big: "big_shift (small_to_big z) i = integer_result (shift_left z i)"
      using big_shift_ok [of "small_to_big z" i] small_operand [OF assms] 3 by (simp add: BIG_ARITY_MAX_def)
    show ?thesis
    proof (cases "i < 59 \<and> (z > 0 \<and> lost_bits z i = 0 \<or> lost_bits (NOT z) i = 0)")
      case False
      then have "small_shift z i = big_shift (small_to_big z) i" unfolding small_shift_def if_not_P [OF False] using 3 by simp
      then show ?thesis using big by (rule trans)
    next
      case True
      have "IS_SSMALL (z * 2 ^ nat i)"
      proof (cases "z > 0 \<and> lost_bits z i = 0")
        case pos: True
        have "z * 2 ^ nat i < 2 ^ 59" using lost_bits_ok(2) [of z i] pos True 3 r by simp
        moreover have "0 \<le> z * 2 ^ nat i" using pos by simp
        ultimately show ?thesis by (simp add: IS_SSMALL_def MAX_SMALL_def MIN_SMALL_def)
      next
        case False
        then have l: "lost_bits (- z - 1) i = 0" using True by (auto simp: not_int_def)
        have "0 \<le> - z - 1" and m: "(- z - 1) * 2 ^ nat i < 2 ^ 59"
          using lost_bits_ok [OF l 3(2)] True r by simp_all
        have "nat i \<le> 59" using True by (simp add: nat_le_iff)
        then have dvd: "(2 :: int) ^ nat i dvd 2 ^ 59" by (rule le_imp_power_dvd)
        then obtain k where k: "(2 :: int) ^ 59 = 2 ^ nat i * k" by blast
        have "2 ^ nat i * (- z - 1) < 2 ^ nat i * k" using m unfolding k by (simp add: mult.commute)
        then have "- z - 1 < k" by simp
        then have "- z \<le> k" by linarith
        then have "2 ^ nat i * (- z) \<le> 2 ^ nat i * k" by (rule mult_left_mono) simp
        then have "- (2 ^ 59) \<le> z * 2 ^ nat i" unfolding k mult_minus_right mult.commute [of z] by linarith
        moreover have "z * 2 ^ nat i < 0" using \<open>0 \<le> - z - 1\<close> by (intro mult_neg_pos) simp_all
        ultimately show ?thesis by (simp add: IS_SSMALL_def MAX_SMALL_def MIN_SMALL_def)
      qed
      then show ?thesis using 3 True unfolding small_shift_def by (simp add: shift_left_def push_bit_eq_mult)
    qed
  qed
qed

lemma shift_small_ok:
  assumes "wf_operand x"
  shows "shift_small x i = (if is_integer_term x then integer_result (shift_left (int_of_term x) i) else Inl BADARITH)"
  using assms
proof (cases rule: operand_cases)
  case (small z)
  then show ?thesis by (simp add: small_shift_ok)
next
  case (big s ds)
  have "big_size x \<le> BIG_ARITY_MAX" using big(1,2) by (simp add: wf_integer.simps(2))
  then show ?thesis using big big_shift_ok [of x i] by (cases "i = 0") (auto simp: shift_left_def)
next
  case other
  then show ?thesis by (cases x) auto
qed

text \<open>
  The shifts of all integers: one case differs from the shift of the integers, a zero that is
  shifted to the left by a big integer.
\<close>

definition zero_by_big :: "iterm \<Rightarrow> iterm \<Rightarrow> bool" where
  "zero_by_big x y \<longleftrightarrow> x = make_small 0 \<and> is_big_operand y \<and> \<not> big_sign y"

definition shift_op :: "bool \<Rightarrow> int \<Rightarrow> int \<Rightarrow> int" where
  "shift_op right z n = shift_left z (if right then - n else n)"

lemma shift_ok:
  assumes "wf_operand x" and "wf_operand y" and "right \<or> \<not> zero_by_big x y"
  shows "shift x y right = integer_op (shift_op right) x y"
  using assms(2)
proof (cases rule: operand_cases)
  case (small n)
  then show ?thesis using assms(1) by (auto simp: shift_small_ok shift_op_def integer_op_def)
next
  case (big t es)
  let ?n = "if right then - int_of_term y else int_of_term y" and ?z = "int_of_term x"
  show ?thesis
  proof (cases "is_integer_term x")
    case False
    then show ?thesis using big(1) assms(1) by (auto simp: shift_small_ok)
  next
    case True
    then have w: "wf_integer x" using assms(1) by (simp add: wf_operand_def)
    note x = w wf_integer_less [OF w]
    have i: "integer_op (shift_op right) x y = integer_result (shift_left ?z ?n)"
      using True big(1) by (simp add: integer_op_def shift_op_def)
    have t: "t \<longleftrightarrow> int_of_term y < 0" using big_sign_iff [OF big(3)] big(1) by simp
    have far: "int_of_term y \<le> MIN_SMALL - 1 \<or> MAX_SMALL + 1 \<le> int_of_term y" using wf_big_bound big(1,2) by blast
    show ?thesis
    proof (cases "right = t")
      case down: False
      have n: "huge (- ?n)"
        using down t far huge_constants by (cases right) (auto simp: MIN_SMALL_def MAX_SMALL_def BIG_ARITY_MAX_def)
      have "shift x y right = shift_small x MIN_SMALL" using down big(1) by (cases right) simp_all
      then show ?thesis unfolding i using shift_down_huge [OF x(2) n] shift_down_huge [OF x(2) huge_constants(2)] True assms(1)
        by (simp add: shift_small_ok)
    next
      case up: True
      have n: "huge ?n"
        using up t far by (cases right) (auto simp: MIN_SMALL_def MAX_SMALL_def BIG_ARITY_MAX_def)
      show ?thesis
      proof (cases "?z = 0")
        case True
        then have z: "x = make_small 0" using x(1) operand_nonzero [OF wf_big_operand] by (cases x) auto
        have right
        proof (rule ccontr)
          assume "\<not> right"
          moreover from this have "\<not> t" using up by simp
          then have "zero_by_big x y" using z big(1,3) by (simp add: zero_by_big_def)
          ultimately show False using assms(3) by blast
        qed
        then have "shift x y right = Inr (make_small 0)" using big(1) z by (simp add: small_shift_def)
        then show ?thesis unfolding i True shift_left_zero by simp
      next
        case False
        then show ?thesis unfolding i using shift_up_huge [OF False n] shift_up_huge [OF False huge_constants(1)] up big(1) True assms(1)
          by (cases right) (simp_all add: shift_small_ok)
      qed
    qed
  qed
next
  case other
  then show ?thesis by (cases y) auto
qed

lemma shift_zero_by_big: "zero_by_big x y \<Longrightarrow> shift x y False = Inl SYSTEM_LIMIT"
  by (cases y) (auto simp: zero_by_big_def)

subsection \<open>Properties\<close>

lemma integer_result_wf: "integer_result z = Inr t \<Longrightarrow> wf_integer t \<and> int_of_term t = z"
  using make_integer_wf [of z] by (auto simp: integer_result_def check_limit_def split: if_splits)

lemma integer_op_wf: "integer_op f x y = Inr t \<Longrightarrow> wf_integer t"
  by (auto simp: integer_op_def dest: integer_result_wf split: if_splits)

text \<open>A result of a bit operation that has too many digits is the empty list, and not an error.\<close>

lemma wf_longest: "wf_integer (make_big True (replicate BIG_ARITY_MAX (- 1)))"
  by (simp add: wf_integer.simps(2) norm_ok_def BIG_ARITY_MAX_def del: replicate.simps)

lemma big_value_ones: "big_value (replicate n (- 1)) = B ^ n - 1"
  by (induction n) (simp_all add: unsigned_minus_1_eq_mask mask_eq_exp_minus_1 algebra_simps)

lemma and_minus_two: "odd z \<Longrightarrow> z AND - 2 = z - (1 :: int)"
proof -
  assume o: "odd z"
  then obtain w where w: "z = 2 * w + 1" by (rule oddE)
  have "z AND - 2 = of_bool (odd z \<and> odd (- 2 :: int)) + 2 * (z div 2 AND - 2 div 2)" by (rule and_rec)
  then show ?thesis unfolding w by simp
qed

lemma band_too_long: "band_2 (make_big True (replicate BIG_ARITY_MAX (- 1))) (make_small (- 2)) = Inr NIL"
proof -
  let ?x = "make_big True (replicate BIG_ARITY_MAX (- 1))" and ?y = "make_small (- 2)"
  obtain m where m: "BIG_ARITY_MAX = Suc m" by (simp add: BIG_ARITY_MAX_def)
  have v: "int_of_term ?x = 1 - B ^ BIG_ARITY_MAX" unfolding big_pair_value big_value_ones by simp
  have safe: "band_safe ?x ?y"
    by (simp add: band_safe_def Let_def low_digits_def small_to_big_def big_size_def m unsigned_minus_1_eq_mask)
  have "odd (1 - B ^ BIG_ARITY_MAX)" by (simp add: m)
  then have "int_of_term ?x AND - 2 = - (B ^ BIG_ARITY_MAX)" unfolding v by (simp add: and_minus_two)
  then have r: "band_result ?x ?y = - (B ^ BIG_ARITY_MAX)" using safe by (simp add: band_result_def)
  have w: "wf_operand ?x" "wf_operand ?y" using wf_longest by (simp_all add: wf_operand_def IS_SSMALL_def MAX_SMALL_def MIN_SMALL_def)
  have "band_2 ?x ?y = Inr (make_integer (- (B ^ BIG_ARITY_MAX)))" unfolding band_ok [OF w] r by simp
  moreover have "integer_result (- (B ^ BIG_ARITY_MAX)) = Inl SYSTEM_LIMIT" by (rule integer_result_limit) simp
  ultimately show ?thesis by (simp add: integer_result_def check_limit_def split: if_splits)
qed

text \<open>
  C24: Sums, differences and products of terms are those of the integers: the result is the one term
  of the exact result, small or big, SYSTEM\_LIMIT if it has more than 524287 digits, and BADARITH if an
  operand is not an integer. It does not depend on what the memory of the result holds.
\<close>

theorem integer_arithmetic:
  assumes "wf_operand x" and "wf_operand y" and "\<And>n. length (mem n) = n" and "same \<Longrightarrow> x = y"
  shows "splus_2 x y = integer_op (+) x y \<and> sminus_2 x y = integer_op (-) x y \<and>
    stimes_2 same mem x y = integer_op (*) x y"
  using mixed_plus_ok [OF assms(1,2)] mixed_minus_ok [OF assms(1,2)] mixed_times_ok [OF assms]
  by (simp add: splus_2_def sminus_2_def stimes_2_def)

theorem integer_arithmetic_witness:
  "let x = make_big True [0, 1]; y = make_small 5
   in splus_2 x y = integer_result (5 - B) \<and> sminus_2 x y = integer_result (- 5 - B) \<and>
      stimes_2 False (\<lambda>n. replicate n 0) x y = integer_result (- 5 * B)"
  using integer_arithmetic [of "make_big True [0, 1]" "make_small 5" "\<lambda>n. replicate n 0" False]
  by (simp add: wf_operand_def wf_integer.simps(2) norm_ok_def BIG_ARITY_MAX_def IS_SSMALL_def MAX_SMALL_def MIN_SMALL_def big_pair_value)

text \<open>
  C25: div and rem always return: the quotient rounded to zero and the remainder with the sign of the
  dividend, for operands of any size, and BADARITH for a divisor zero and for operands that are not integers.
\<close>

theorem integer_division:
  assumes "wf_operand x" and "wf_operand y"
  shows "intdiv_2 x y = Some (if zero_divisor y then Inl BADARITH else integer_op (sdiv) x y) \<and>
    rem_2 x y = Some (if zero_divisor y then Inl BADARITH else integer_op (smod) x y)"
  using intdiv_ok [OF assms] rem_ok [OF assms] by blast

theorem integer_division_witness:
  "let x = make_big True [7, 0, 1]; y = make_big False [0, 2]
   in intdiv_2 x y = Some (integer_result (- (B div 2))) \<and> rem_2 x y = Some (integer_result (- 7))"
  using integer_division [of "make_big True [7, 0, 1]" "make_big False [0, 2]"]
  by (simp add: wf_operand_def wf_integer.simps(2) norm_ok_def BIG_ARITY_MAX_def zero_divisor_def big_pair_value
      signed_divide_int_def signed_modulo_int_def)

text \<open>
  C27: Every integer that the operations return is a well-formed term: no zero digit on top, no more digits than
  the header can count, and a big integer only if it is not small. So equal integers are equal terms.
\<close>

theorem integer_results_well_formed:
  assumes "wf_operand x" and "wf_operand y" and "\<And>n. length (mem n) = n" and "same \<Longrightarrow> x = y"
    and "Inr t \<in> {splus_2 x y, sminus_2 x y, stimes_2 same mem x y, bnot_1 x, bsl_2 x y, bsr_2 x y} \<or>
      Some (Inr t) \<in> {intdiv_2 x y, rem_2 x y}"
  shows "wf_integer t \<and> t = make_integer (int_of_term t)"
proof -
  have s: "shift x y r = Inr t \<Longrightarrow> wf_integer t" for r
    using shift_ok [OF assms(1,2), of r] shift_zero_by_big [of x y] by (cases r; cases "zero_by_big x y") (auto dest: integer_op_wf integer_op_wf [OF sym])
  have m: "erts_mixed_plus x y = Inr t \<Longrightarrow> wf_integer t" "erts_mixed_minus x y = Inr t \<Longrightarrow> wf_integer t"
    "erts_mixed_times same mem x y = Inr t \<Longrightarrow> wf_integer t"
    using mixed_plus_ok [OF assms(1,2)] mixed_minus_ok [OF assms(1,2)] mixed_times_ok [OF assms(1-4)] by (auto intro: integer_op_wf)
  have d: "intdiv_2 x y = Some (Inr t) \<Longrightarrow> wf_integer t" "rem_2 x y = Some (Inr t) \<Longrightarrow> wf_integer t"
    unfolding intdiv_ok [OF assms(1,2)] rem_ok [OF assms(1,2)] by (auto dest: integer_op_wf split: if_splits)
  have n: "bnot_1 x = Inr t \<Longrightarrow> wf_integer t"
    unfolding bnot_ok [OF assms(1)] by (auto dest: integer_result_wf split: if_splits)
  have "wf_integer t"
    using assms(5) s m d n unfolding splus_2_def sminus_2_def stimes_2_def bsl_2_def bsr_2_def by (elim disjE insertE emptyE; metis)
  then show ?thesis using wf_is_make_integer by blast
qed

theorem integer_results_well_formed_witness:
  "wf_integer (make_small (- 8)) \<and> make_small (- 8) = make_integer (int_of_term (make_small (- 8)))"
proof -
  have "bnot_1 (make_small 7) = Inr (make_small (- 8))" by (simp add: not_int_def)
  then show ?thesis
    using integer_results_well_formed [of "make_small 7" "make_small 0" "\<lambda>n. replicate n 0" False "make_small (- 8)"]
    by (simp add: wf_operand_def IS_SSMALL_def MAX_SMALL_def MIN_SMALL_def)
qed

text \<open>
  C28: bor and bnot are those of the integers, as infinite bit strings. band and bxor are, too, unless the longer
  operand is negative (for band: both are) and has only zero digits below the length of the other: then
  the borrow of the conversion to two's complement is lost, and the result is off by one in the digit above.
\<close>

theorem integer_bit_operations:
  assumes "wf_operand x" and "wf_operand y"
  shows "bor_2 x y = bit_op (OR) x y \<and>
    band_2 x y = (if is_integer_term x \<and> is_integer_term y then Inr (make_integer (band_result x y)) else Inl BADARITH) \<and>
    bxor_2 x y = (if is_integer_term x \<and> is_integer_term y then Inr (make_integer (bxor_result x y)) else Inl BADARITH) \<and>
    bnot_1 x = (if is_integer_term x then integer_result (NOT (int_of_term x)) else Inl BADARITH)"
  using bor_ok [OF assms] band_ok [OF assms] bxor_ok [OF assms] bnot_ok [OF assms(1)] by blast

theorem integer_bit_operations_witness:
  "band_2 (make_big True [0, 1]) (make_small (- 1)) = Inr (make_integer (- 2 * B)) \<and>
   int_of_term (make_big True [0, 1]) AND - 1 = - B"
  using integer_bit_operations [of "make_big True [0, 1]" "make_small (- 1)", THEN conjunct2, THEN conjunct1]
  by (simp add: wf_operand_def wf_integer.simps(2) norm_ok_def BIG_ARITY_MAX_def IS_SSMALL_def MAX_SMALL_def MIN_SMALL_def
      big_pair_value band_result_def band_safe_def lost_borrow_def low_digits_def small_to_big_def big_size_def Let_def)

text \<open>
  C29: Shifts are multiplications by powers of two and divisions rounded down, for small and big
  operands and counts: SYSTEM\_LIMIT if the result is too large. The one exception is a zero shifted to the
  left by a big integer, which is refused with SYSTEM\_LIMIT although the result is zero.
\<close>

theorem integer_shifts:
  assumes "wf_operand x" and "wf_operand y"
  shows "bsl_2 x y = (if zero_by_big x y then Inl SYSTEM_LIMIT else integer_op (shift_op False) x y) \<and>
    bsr_2 x y = integer_op (shift_op True) x y"
  using shift_ok [OF assms, of False] shift_ok [OF assms, of True] shift_zero_by_big [of x y]
  by (simp add: bsl_2_def bsr_2_def)

theorem integer_shifts_witness:
  "bsl_2 (make_small 0) (make_big False [0, 1]) = Inl SYSTEM_LIMIT \<and>
   bsr_2 (make_big True [3, 1]) (make_small 65) = Inr (make_small (- 1))"
  using integer_shifts [of "make_small 0" "make_big False [0, 1]", THEN conjunct1]
    integer_shifts [of "make_big True [3, 1]" "make_small 65", THEN conjunct2]
  by (simp add: wf_operand_def wf_integer.simps(2) norm_ok_def BIG_ARITY_MAX_def IS_SSMALL_def MAX_SMALL_def MIN_SMALL_def
      zero_by_big_def is_big_operand.simps(1) big_pair_value shift_op_def shift_left_def)

end
