(* ===== verification/Erl_Map.thy ===== *)
theory Erl_Map
  imports Node_Terms "HOL-Library.Multiset"
begin

section \<open>Maps: erl\_map.c\<close>

text \<open>
  A map is a tuple of its keys, in the order of the terms, and its values in the same order. The functions
  of terms that the code calls are in a record: the test for immediate terms, whose words are compared directly,
  eq for the other ones, and CMP\_TERM. A built-in function has None for an argument that is not a map.
  The specification is a finite map, and every finite map has one representation.
\<close>

subsection \<open>Definitions\<close>

record 't term_ops =
  is_immed :: "'t \<Rightarrow> bool"
  eq :: "'t \<Rightarrow> 't \<Rightarrow> bool"
  CMP_TERM :: "'t \<Rightarrow> 't \<Rightarrow> int"

definition EQ :: "'t term_ops \<Rightarrow> 't \<Rightarrow> 't \<Rightarrow> bool" where
  "EQ T x y = (if is_immed T x \<and> is_immed T y then x = y else eq T x y)"

record 't map_t =
  map_get_size :: nat
  map_get_keys :: "'t list"
  map_get_values :: "'t list"

datatype 't map_error = badarg | bad_key 't

text \<open>The keys and values that the loops walk over together.\<close>

definition entries :: "'t map_t \<Rightarrow> ('t \<times> 't) list" where
  "entries m = zip (map_get_keys m) (map_get_values m)"

definition make_map :: "('t \<times> 't) list \<Rightarrow> 't map_t" where
  "make_map es = \<lparr>map_get_size = length es, map_get_keys = map fst es, map_get_values = map snd es\<rparr>"

fun map_size_1 :: "'t map_t option \<Rightarrow> 't map_error + nat" where
  "map_size_1 (Some m) = Inr (map_get_size m)"
| "map_size_1 None = Inl badarg"

fun cons_loop :: "nat \<Rightarrow> (nat \<Rightarrow> 'a) \<Rightarrow> 'a list \<Rightarrow> 'a list" where
  "cons_loop 0 f res = res"
| "cons_loop (Suc n) f res = cons_loop n f (f n # res)"

fun maps_to_list_1 :: "'t map_t option \<Rightarrow> 't map_error + ('t \<times> 't) list" where
  "maps_to_list_1 (Some m) =
     Inr (cons_loop (map_get_size m) (\<lambda>n. (map_get_keys m ! n, map_get_values m ! n)) [])"
| "maps_to_list_1 None = Inl badarg"

fun find_loop :: "('t \<Rightarrow> bool) \<Rightarrow> ('t \<times> 't) list \<Rightarrow> 't option" where
  "find_loop same [] = None"
| "find_loop same ((k, v) # es) = (if same k then Some v else find_loop same es)"

definition erts_maps_find :: "'t term_ops \<Rightarrow> 't \<Rightarrow> 't map_t \<Rightarrow> 't option" where
  "erts_maps_find T key m = find_loop (\<lambda>k. EQ T k key) (entries m)"

text \<open>The result None is the atom error, Some v the tuple of ok and v.\<close>

fun maps_find_2 :: "'t term_ops \<Rightarrow> 't \<Rightarrow> 't map_t option \<Rightarrow> 't map_error + 't option" where
  "maps_find_2 T key (Some m) = Inr (erts_maps_find T key m)"
| "maps_find_2 T key None = Inl badarg"

definition erts_maps_get :: "'t term_ops \<Rightarrow> 't \<Rightarrow> 't map_t \<Rightarrow> 't option" where
  "erts_maps_get T key m =
     (if map_get_size m = 0 then None
      else case (if is_immed T key then find_loop (\<lambda>k. k = key) (entries m) else None) of
        Some v \<Rightarrow> Some v
      | None \<Rightarrow> find_loop (\<lambda>k. EQ T k key) (entries m))"

fun maps_get_2 :: "'t term_ops \<Rightarrow> 't \<Rightarrow> 't map_t option \<Rightarrow> 't map_error + 't" where
  "maps_get_2 T key (Some m) = (case erts_maps_get T key m of Some v \<Rightarrow> Inr v | None \<Rightarrow> Inl (bad_key key))"
| "maps_get_2 T key None = Inl badarg"

text \<open>
  A list of terms, and its elements, as the first loop of from\_list tells them apart. The search goes back from
  the last key; its result is the place and the last comparison.
\<close>

datatype 't item = Tuple2 't 't | Other_item
datatype 't list_term = Proper "'t item list" | Improper "'t item list" | Not_list

fun search_back :: "'t term_ops \<Rightarrow> 't \<Rightarrow> 't list \<Rightarrow> int \<Rightarrow> nat \<Rightarrow> nat \<times> int" where
  "search_back T key ks c 0 = (0, c)"
| "search_back T key ks c (Suc i) =
     (let c = CMP_TERM T key (ks ! i) in if c < 0 then search_back T key ks c i else (Suc i, c))"

definition insert_sorted :: "'t term_ops \<Rightarrow> 't \<Rightarrow> 't \<Rightarrow> 't list \<times> 't list \<Rightarrow> 't list \<times> 't list" where
  "insert_sorted T key v = (\<lambda>(ks, vs).
     (let (idx, c) = search_back T key ks 0 (length ks)
      in if c = 0 then (ks[idx - 1 := key], vs[idx - 1 := v])
         else (take idx ks @ key # drop idx ks, take idx vs @ v # drop idx vs)))"

fun from_list_loop :: "'t term_ops \<Rightarrow> 't item list \<Rightarrow> 't list \<times> 't list \<Rightarrow> 't list \<times> 't list" where
  "from_list_loop T [] a = a"
| "from_list_loop T (Tuple2 k v # items) a = from_list_loop T items (insert_sorted T k v a)"
| "from_list_loop T (Other_item # items) a = from_list_loop T items a"

fun maps_from_list_1 :: "'t term_ops \<Rightarrow> 't list_term \<Rightarrow> 't map_error + 't map_t" where
  "maps_from_list_1 T (Proper items) =
     (if Other_item \<in> set items then Inl badarg
      else case items of
        Tuple2 k v # items \<Rightarrow>
          (let (ks, vs) = from_list_loop T items ([k], [v])
           in Inr \<lparr>map_get_size = length ks, map_get_keys = ks, map_get_values = vs\<rparr>)
      | _ \<Rightarrow> Inr (make_map []))"
| "maps_from_list_1 T _ = Inl badarg"

definition key_member :: "'t term_ops \<Rightarrow> 't \<Rightarrow> 't map_t \<Rightarrow> bool" where
  "key_member T key m =
     (if map_get_size m = 0 then False
      else (is_immed T key \<and> list_ex (\<lambda>k. k = key) (map_get_keys m)) \<or> list_ex (\<lambda>k. EQ T k key) (map_get_keys m))"

fun maps_is_key_2 :: "'t term_ops \<Rightarrow> 't \<Rightarrow> 't map_t option \<Rightarrow> 't map_error + bool" where
  "maps_is_key_2 T key (Some m) = Inr (key_member T key m)"
| "maps_is_key_2 T key None = Inl badarg"

fun maps_keys_1 :: "'t map_t option \<Rightarrow> 't map_error + 't list" where
  "maps_keys_1 (Some m) =
     (if map_get_size m = 0 then Inr [] else Inr (cons_loop (map_get_size m) (\<lambda>n. map_get_keys m ! n) []))"
| "maps_keys_1 None = Inl badarg"

fun maps_values_1 :: "'t map_t option \<Rightarrow> 't map_error + 't list" where
  "maps_values_1 (Some m) =
     (if map_get_size m = 0 then Inr [] else Inr (cons_loop (map_get_size m) (\<lambda>n. map_get_values m ! n) []))"
| "maps_values_1 None = Inl badarg"

text \<open>
  maps\_merge\_2 and erts\_validate\_and\_sort\_map keep the comparison, which is a Sint, in an int of 32 bits.
  The merge gives the entries written, and the number of keys that both maps have.
\<close>

definition as_int :: "int \<Rightarrow> int" where
  "as_int c = sint (word_of_int c :: 32 word)"

fun merge_loop :: "'t term_ops \<Rightarrow> ('t \<times> 't) list \<Rightarrow> ('t \<times> 't) list \<Rightarrow> nat \<Rightarrow> ('t \<times> 't) list \<times> nat" where
  "merge_loop T (e1 # es1) (e2 # es2) unused =
     (let c = as_int (CMP_TERM T (fst e1) (fst e2)) in
      if c = 0 then (let (es, u) = merge_loop T es1 es2 (Suc unused) in (e2 # es, u))
      else if c < 0 then (let (es, u) = merge_loop T es1 (e2 # es2) unused in (e1 # es, u))
      else (let (es, u) = merge_loop T (e1 # es1) es2 unused in (e2 # es, u)))"
| "merge_loop T es1 es2 unused = (es1 @ es2, unused)"

fun maps_merge_2 :: "'t term_ops \<Rightarrow> 't map_t option \<Rightarrow> 't map_t option \<Rightarrow> 't map_error + 't map_t" where
  "maps_merge_2 T (Some m1) (Some m2) =
     (let (es, unused) = merge_loop T (entries m1) (entries m2) 0
      in Inr \<lparr>map_get_size = map_get_size m1 + map_get_size m2 - unused, map_get_keys = map fst es, map_get_values = map snd es\<rparr>)"
| "maps_merge_2 T _ _ = Inl badarg"

definition maps_new_0 :: "'t map_t" where
  "maps_new_0 = make_map []"

text \<open>The comparison of a key that an update uses: of words for an immediate key.\<close>

definition same_key :: "'t term_ops \<Rightarrow> 't \<Rightarrow> 't \<Rightarrow> bool" where
  "same_key T key k = (if is_immed T key then k = key else EQ T k key)"

fun put_sorted :: "'t term_ops \<Rightarrow> 't \<Rightarrow> 't \<Rightarrow> ('t \<times> 't) list \<Rightarrow> ('t \<times> 't) list" where
  "put_sorted T key v [] = [(key, v)]"
| "put_sorted T key v (e # es) = (if CMP_TERM T (fst e) key < 0 then e # put_sorted T key v es else (key, v) # e # es)"

definition erts_maps_put :: "'t term_ops \<Rightarrow> 't \<Rightarrow> 't \<Rightarrow> 't map_t \<Rightarrow> 't map_t" where
  "erts_maps_put T key v m =
     (if map_get_size m = 0 then make_map [(key, v)]
      else if list_ex (same_key T key) (map_get_keys m)
      then \<lparr>map_get_size = map_get_size m, map_get_keys = map_get_keys m,
            map_get_values = map (\<lambda>(k, w). if same_key T key k then v else w) (entries m)\<rparr>
      else (let es = put_sorted T key v (entries m)
            in \<lparr>map_get_size = map_get_size m + 1, map_get_keys = map fst es, map_get_values = map snd es\<rparr>))"

fun maps_put_3 :: "'t term_ops \<Rightarrow> 't \<Rightarrow> 't \<Rightarrow> 't map_t option \<Rightarrow> 't map_error + 't map_t" where
  "maps_put_3 T key v (Some m) = Inr (erts_maps_put T key v m)"
| "maps_put_3 T key v None = Inl badarg"

fun remove_loop :: "('t \<Rightarrow> bool) \<Rightarrow> ('t \<times> 't) list \<Rightarrow> ('t \<times> 't) list option" where
  "remove_loop same [] = None"
| "remove_loop same (e # es) = (if same (fst e) then Some es else map_option (Cons e) (remove_loop same es))"

definition erts_maps_remove :: "'t term_ops \<Rightarrow> 't \<Rightarrow> 't map_t \<Rightarrow> 't map_t" where
  "erts_maps_remove T key m =
     (if map_get_size m = 0 then m
      else case remove_loop (same_key T key) (entries m) of
        None \<Rightarrow> m
      | Some es \<Rightarrow> \<lparr>map_get_size = map_get_size m - 1, map_get_keys = map fst es, map_get_values = map snd es\<rparr>)"

fun maps_remove_2 :: "'t term_ops \<Rightarrow> 't \<Rightarrow> 't map_t option \<Rightarrow> 't map_error + 't map_t" where
  "maps_remove_2 T key (Some m) = Inr (erts_maps_remove T key m)"
| "maps_remove_2 T key None = Inl badarg"

fun update_loop :: "('t \<Rightarrow> bool) \<Rightarrow> 't \<Rightarrow> ('t \<times> 't) list \<Rightarrow> 't list option" where
  "update_loop same v [] = None"
| "update_loop same v ((k, w) # es) = (if same k then Some (v # map snd es) else map_option (Cons w) (update_loop same v es))"

definition erts_maps_update :: "'t term_ops \<Rightarrow> 't \<Rightarrow> 't \<Rightarrow> 't map_t \<Rightarrow> 't map_t option" where
  "erts_maps_update T key v m =
     (if map_get_size m = 0 then None
      else map_option (\<lambda>vs. \<lparr>map_get_size = map_get_size m, map_get_keys = map_get_keys m, map_get_values = vs\<rparr>)
        (update_loop (same_key T key) v (entries m)))"

fun maps_update_3 :: "'t term_ops \<Rightarrow> 't \<Rightarrow> 't \<Rightarrow> 't map_t option \<Rightarrow> 't map_error + 't map_t" where
  "maps_update_3 T key v (Some m) = (case erts_maps_update T key v m of Some m' \<Rightarrow> Inr m' | None \<Rightarrow> Inl badarg)"
| "maps_update_3 T key v None = Inl badarg"

text \<open>
  The entries below \<open>ix\<close> are kept with the last one first; the new one moves past those with larger keys. An
  equal key ends the sort with an error.
\<close>

fun move_down :: "'t term_ops \<Rightarrow> 't \<times> 't \<Rightarrow> ('t \<times> 't) list \<Rightarrow> ('t \<times> 't) list option" where
  "move_down T e [] = Some [e]"
| "move_down T e (p # ps) =
     (let c = as_int (CMP_TERM T (fst e) (fst p)) in
      if c \<le> 0 then (if c = 0 then None else map_option (Cons p) (move_down T e ps)) else Some (e # p # ps))"

fun sort_loop :: "'t term_ops \<Rightarrow> ('t \<times> 't) list \<Rightarrow> ('t \<times> 't) list \<Rightarrow> ('t \<times> 't) list option" where
  "sort_loop T [] below = Some (rev below)"
| "sort_loop T (e # es) below = (case move_down T e below of None \<Rightarrow> None | Some below \<Rightarrow> sort_loop T es below)"

definition erts_validate_and_sort_map :: "'t term_ops \<Rightarrow> 't map_t \<Rightarrow> 't map_t option" where
  "erts_validate_and_sort_map T m =
     map_option (\<lambda>es. \<lparr>map_get_size = map_get_size m, map_get_keys = map fst es, map_get_values = map snd es\<rparr>)
       (sort_loop T (entries m) [])"

fun erts_internal_map_to_tuple_keys_1 :: "'t map_t option \<Rightarrow> 't map_error + 't list" where
  "erts_internal_map_to_tuple_keys_1 (Some m) = Inr (map_get_keys m)"
| "erts_internal_map_to_tuple_keys_1 None = Inl badarg"

subsection \<open>The finite map of a map\<close>

definition sorted_entries :: "'t term_ops \<Rightarrow> ('t \<Rightarrow> bool) \<Rightarrow> ('t \<times> 't) list \<Rightarrow> bool" where
  "sorted_entries T ok es \<longleftrightarrow> sorted_wrt (\<lambda>a b. CMP_TERM T (fst a) (fst b) < 0) es \<and> (\<forall>e\<in>set es. ok (fst e))"

definition map_ok :: "'t term_ops \<Rightarrow> ('t \<Rightarrow> bool) \<Rightarrow> 't map_t \<Rightarrow> bool" where
  "map_ok T ok m \<longleftrightarrow> m = make_map (entries m) \<and> sorted_entries T ok (entries m)"

definition map_fun :: "'t map_t \<Rightarrow> 't \<Rightarrow> 't option" where
  "map_fun m = map_of (entries m)"

lemma entries_make [simp]: "entries (make_map es) = es"
  by (simp add: entries_def make_map_def zip_map_fst_snd)

lemma make_map_sel [simp]:
  "map_get_size (make_map es) = length es" "map_get_keys (make_map es) = map fst es" "map_get_values (make_map es) = map snd es"
  by (simp_all add: make_map_def)

lemma map_ok_make [simp]: "map_ok T ok (make_map es) \<longleftrightarrow> sorted_entries T ok es"
  by (simp add: map_ok_def)

lemma map_fun_make [simp]: "map_fun (make_map es) = map_of es"
  by (simp add: map_fun_def)

lemma map_ok_cases:
  assumes "map_ok T ok m"
  obtains es where "m = make_map es" and "sorted_entries T ok es"
  using assms by (auto simp: map_ok_def)

lemma cons_loop_map: "cons_loop n f res = map f [0..<n] @ res"
  by (induction n f res rule: cons_loop.induct) simp_all

lemma cons_loop_nth: "cons_loop (length xs) (\<lambda>n. xs ! n) [] = xs"
  by (simp add: cons_loop_map map_nth)

lemma cons_loop_pairs: "cons_loop (length es) (\<lambda>n. (map fst es ! n, map snd es ! n)) [] = es"
  unfolding cons_loop_map by (rule nth_equalityI) simp_all

lemma lists_of_make [simp]:
  "maps_to_list_1 (Some (make_map es)) = Inr es"
  "maps_keys_1 (Some (make_map es)) = Inr (map fst es)"
  "maps_values_1 (Some (make_map es)) = Inr (map snd es)"
  using cons_loop_pairs [of es] cons_loop_nth [of "map fst es"] cons_loop_nth [of "map snd es"] by simp_all

text \<open>What the functions on maps rely on: CMP\_TERM orders the terms, and eq is their equality.\<close>

definition int_compares :: "'t term_ops \<Rightarrow> 't list \<Rightarrow> 't list \<Rightarrow> bool" where
  "int_compares T ks ls \<longleftrightarrow> (\<forall>k\<in>set ks. \<forall>l\<in>set ls. sgn (as_int (CMP_TERM T k l)) = sgn (CMP_TERM T k l))"

locale map_terms = comparator "CMP_TERM T" ok for T :: "'t term_ops" and ok :: "'t \<Rightarrow> bool" +
  assumes eq_ok: "ok a \<Longrightarrow> ok b \<Longrightarrow> \<not> (is_immed T a \<and> is_immed T b) \<Longrightarrow> eq T a b \<longleftrightarrow> a = b"
begin

abbreviation sorted :: "('t \<times> 't) list \<Rightarrow> bool" where
  "sorted \<equiv> sorted_entries T ok"

lemma EQ_iff [simp]: "ok a \<Longrightarrow> ok b \<Longrightarrow> EQ T a b \<longleftrightarrow> a = b"
  by (simp add: EQ_def eq_ok)

lemma same_key_iff [simp]: "ok a \<Longrightarrow> ok b \<Longrightarrow> same_key T a b \<longleftrightarrow> b = a"
  by (simp add: same_key_def)

lemma sorted_Cons: "sorted (e # es) \<longleftrightarrow> ok (fst e) \<and> (\<forall>d\<in>set es. CMP_TERM T (fst e) (fst d) < 0) \<and> sorted es"
  by (auto simp: sorted_entries_def)

lemma sorted_Nil [simp]: "sorted []"
  by (simp add: sorted_entries_def)

lemma sorted_ok: "sorted es \<Longrightarrow> e \<in> set es \<Longrightarrow> ok (fst e)"
  by (simp add: sorted_entries_def)

lemma less_neq: "ok a \<Longrightarrow> ok b \<Longrightarrow> CMP_TERM T a b < 0 \<Longrightarrow> a \<noteq> b"
  using cmp_refl by fastforce

lemma smaller_absent:
  assumes "ok k" and "sorted es" and "\<forall>d\<in>set es. CMP_TERM T k (fst d) < 0"
  shows "k \<notin> fst ` set es"
  using assms sorted_ok less_neq by (metis imageE)

lemma sorted_distinct: "sorted es \<Longrightarrow> distinct (map fst es)"
proof (induction es)
  case (Cons e es)
  then show ?case using smaller_absent [of "fst e" es] by (auto simp: sorted_Cons)
qed simp

lemma map_of_absent: "k \<notin> fst ` set es \<Longrightarrow> map_of es k = None"
  by (simp add: map_of_eq_None_iff)

text \<open>One representation of a finite map.\<close>

lemma sorted_unique:
  "sorted es \<Longrightarrow> sorted fs \<Longrightarrow> map_of es = map_of fs \<Longrightarrow> es = fs"
proof (induction es arbitrary: fs)
  case Nil
  then show ?case by (cases fs) (auto simp: fun_eq_iff split: if_splits)
next
  case (Cons e es)
  obtain k v where e: "e = (k, v)" by fastforce
  have "map_of fs k = Some v" using Cons.prems(3) e by (metis map_of_Cons_code(2))
  then obtain f gs where fs: "fs = f # gs" by (cases fs) auto
  obtain j w where f: "f = (j, w)" by fastforce
  have ok: "ok k" "ok j" "sorted es" "sorted gs" using Cons.prems(1,2) e fs f by (simp_all add: sorted_Cons)
  have es: "k \<notin> fst ` set es" and gs: "j \<notin> fst ` set gs"
    using Cons.prems(1,2) e fs f smaller_absent ok by (simp_all add: sorted_Cons)
  have kj: "k = j"
  proof (rule ccontr)
    assume "k \<noteq> j"
    then consider "CMP_TERM T k j < 0" | "CMP_TERM T j k < 0" using cmp_neq ok by blast
    then show False
    proof cases
      case 1
      have "CMP_TERM T k (fst d) < 0" if "d \<in> set gs" for d
        using that Cons.prems(2) fs f cmp_trans [OF ok(1,2) _ 1] sorted_ok [OF ok(4)] by (auto simp: sorted_Cons)
      then have "k \<notin> fst ` set fs" using \<open>k \<noteq> j\<close> smaller_absent [OF ok(1,4)] fs f by auto
      then show False using \<open>map_of fs k = Some v\<close> by (simp add: map_of_absent)
    next
      case 2
      have "CMP_TERM T j (fst d) < 0" if "d \<in> set es" for d
        using that Cons.prems(1) e cmp_trans [OF ok(2,1) _ 2] sorted_ok [OF ok(3)] by (auto simp: sorted_Cons)
      then have "j \<notin> fst ` set (e # es)" using \<open>k \<noteq> j\<close> smaller_absent [OF ok(2,3)] e by auto
      then have "map_of fs j = None" unfolding Cons.prems(3) [symmetric] by (rule map_of_absent)
      then show False using fs f by simp
    qed
  qed
  have "map_of es x = map_of gs x" for x
    using fun_cong [OF Cons.prems(3), of x] e fs f kj map_of_absent [OF es] map_of_absent [OF gs] by (cases "x = j") auto
  then have "map_of es = map_of gs" ..
  then have "es = gs" using Cons.IH ok by blast
  moreover have "v = w" using \<open>map_of fs k = Some v\<close> fs f kj by simp
  ultimately show ?case using e fs f kj by simp
qed

subsection \<open>The loops\<close>

lemma find_loop_ok: "ok key \<Longrightarrow> (\<forall>e\<in>set es. ok (fst e)) \<Longrightarrow> find_loop (\<lambda>k. EQ T k key) es = map_of es key"
  by (induction es) auto

lemma find_word_ok: "find_loop (\<lambda>k. k = key) es = map_of es key"
  by (induction es) auto

lemma map_of_put_sorted: "key \<notin> fst ` set es \<Longrightarrow> map_of (put_sorted T key v es) = (map_of es)(key \<mapsto> v)"
  by (induction es) auto

lemma set_put_sorted: "set (put_sorted T key v es) = insert (key, v) (set es)"
  by (induction es) auto

lemma length_put_sorted [simp]: "length (put_sorted T key v es) = Suc (length es)"
  by (induction es) auto

lemma put_sorted_ok: "ok key \<Longrightarrow> sorted es \<Longrightarrow> key \<notin> fst ` set es \<Longrightarrow> sorted (put_sorted T key v es)"
proof (induction es)
  case (Cons e es)
  show ?case
  proof (cases "CMP_TERM T (fst e) key < 0")
    case True
    then show ?thesis using Cons by (auto simp: sorted_Cons set_put_sorted)
  next
    case False
    have e: "ok (fst e)" "sorted es" using Cons.prems(2) by (simp_all add: sorted_Cons)
    have "CMP_TERM T key (fst e) < 0" using False cmp_neq [OF Cons.prems(1) e(1)] Cons.prems(3) by auto
    then have "CMP_TERM T key (fst d) < 0" if "d \<in> set es" for d
      using that Cons.prems cmp_trans [OF Cons.prems(1) e(1)] sorted_ok [OF e(2)] by (auto simp: sorted_Cons)
    then show ?thesis using False Cons.prems \<open>CMP_TERM T key (fst e) < 0\<close> by (auto simp: sorted_Cons)
  qed
qed (simp add: sorted_Cons)

lemma remove_loop_ok:
  assumes "ok key" and "sorted es"
  shows "case remove_loop (same_key T key) es of
      None \<Rightarrow> map_of es key = None
    | Some fs \<Rightarrow> sorted fs \<and> map_of fs = (map_of es)(key := None) \<and> length es = Suc (length fs) \<and> set fs \<subseteq> set es"
  using assms(2)
proof (induction es)
  case (Cons e es)
  obtain k v where e: "e = (k, v)" by fastforce
  have s: "ok k" "sorted es" using Cons.prems e by (simp_all add: sorted_Cons)
  have ke: "k \<notin> fst ` set es" using Cons.prems e smaller_absent s by (simp add: sorted_Cons)
  show ?case
  proof (cases "k = key")
    case True
    then show ?thesis using s e ke assms(1) map_of_absent [OF ke] by (auto simp: fun_eq_iff)
  next
    case False
    then show ?thesis using Cons.IH [OF s(2)] Cons.prems s e assms(1)
      by (cases "remove_loop (same_key T key) es") (auto simp: sorted_Cons fun_eq_iff)
  qed
qed simp

lemma update_loop_ok:
  assumes "ok key" and "sorted es"
  shows "case update_loop (same_key T key) v es of
      None \<Rightarrow> map_of es key = None
    | Some vs \<Rightarrow> map_of es key \<noteq> None \<and> length vs = length es \<and> map_of (zip (map fst es) vs) = (map_of es)(key \<mapsto> v)"
  using assms(2)
proof (induction es)
  case (Cons e es)
  obtain k w where e: "e = (k, w)" by fastforce
  have s: "ok k" "sorted es" using Cons.prems e by (simp_all add: sorted_Cons)
  show ?case
  proof (cases "k = key")
    case True
    then show ?thesis using s e assms(1) by (simp add: zip_map_fst_snd)
  next
    case False
    then show ?thesis using Cons.IH [OF s(2)] s e assms(1)
      by (cases "update_loop (same_key T key) v es") (auto simp: fun_eq_iff)
  qed
qed simp

lemma sorted_same_keys: "map fst es = map fst fs \<Longrightarrow> sorted es \<Longrightarrow> sorted fs"
proof -
  have w: "sorted_wrt (\<lambda>a b. CMP_TERM T (fst a) (fst b) < 0) xs = sorted_wrt (\<lambda>a b. CMP_TERM T a b < 0) (map fst xs)" for xs :: "('t \<times> 't) list"
    by (simp add: sorted_wrt_map)
  assume e: "map fst es = map fst fs" and s: "sorted es"
  have "fst ` set es = fst ` set fs" using arg_cong [OF e, of set] by simp
  then show "sorted fs" using s unfolding sorted_entries_def w e by (metis imageE imageI)
qed

lemma map_of_replaced:
  "ok key \<Longrightarrow> \<forall>e\<in>set es. ok (fst e) \<Longrightarrow> key \<in> fst ` set es \<Longrightarrow>
     map_of (zip (map fst es) (map (\<lambda>(k, w). if same_key T key k then v else w) es)) = (map_of es)(key \<mapsto> v)"
proof -
  assume a: "ok key" "\<forall>e\<in>set es. ok (fst e)" "key \<in> fst ` set es"
  have "map_of (zip (map fst es) (map (\<lambda>(k, w). if same_key T key k then v else w) es)) j =
      (if j = key then (if key \<in> fst ` set es then Some v else None) else map_of es j)" for j
    using a(1,2) by (induction es) (auto simp: image_iff, force)
  then show ?thesis by (simp add: fun_eq_iff a(3))
qed

text \<open>The comparisons of two lists of keys have the sign that their value in an int has.\<close>

lemma below_trans:
  assumes "ok k" and "ok j" and "CMP_TERM T k j < 0" and "sorted es" and "\<forall>d\<in>set es. CMP_TERM T j (fst d) < 0"
  shows "\<forall>d\<in>set es. CMP_TERM T k (fst d) < 0"
  using assms cmp_trans sorted_ok by blast

text \<open>The first entry of two sorted lists comes first in their merge.\<close>

abbreviation merged :: "('t \<times> 't) list \<Rightarrow> ('t \<times> 't) list \<Rightarrow> ('t \<times> 't) list \<Rightarrow> bool" where
  "merged es es1 es2 \<equiv> sorted es \<and> fst ` set es = fst ` set es1 \<union> fst ` set es2 \<and> map_of es = map_of es1 ++ map_of es2"

lemma merged_below:
  assumes "fst ` set es = fst ` set es1 \<union> fst ` set es2"
    and "\<forall>d\<in>set es1. CMP_TERM T k (fst d) < 0" and "\<forall>d\<in>set es2. CMP_TERM T k (fst d) < 0"
  shows "\<forall>d\<in>set es. CMP_TERM T k (fst d) < 0"
proof
  fix d assume "d \<in> set es"
  then have "fst d \<in> fst ` set es1 \<union> fst ` set es2" using assms(1) by blast
  then show "CMP_TERM T k (fst d) < 0" using assms(2,3) by auto
qed

lemma map_add_shadow: "(m(k \<mapsto> v) ++ n)(k \<mapsto> w) = (m ++ n)(k \<mapsto> w)"
  by (rule ext) (simp add: map_add_def split: option.split)

lemma merged_both:
  assumes "sorted (e1 # es1)" and "sorted (e2 # es2)" and same: "fst e1 = fst e2" and "merged es es1 es2"
  shows "merged (e2 # es) (e1 # es1) (e2 # es2)"
proof -
  note es = conjunct1 [OF assms(4)] conjunct1 [OF conjunct2 [OF assms(4)]] conjunct2 [OF conjunct2 [OF assms(4)]]
  have low: "ok (fst e2)" "\<forall>d\<in>set es1. CMP_TERM T (fst e2) (fst d) < 0" "\<forall>d\<in>set es2. CMP_TERM T (fst e2) (fst d) < 0"
    using assms(1,2) unfolding same [symmetric] by (simp_all add: sorted_Cons same)
  have "sorted (e2 # es)" unfolding sorted_Cons using low(1) merged_below [OF es(2) low(2,3)] es(1) by blast
  moreover have "map_of (e2 # es) = map_of (e1 # es1) ++ map_of (e2 # es2)"
    by (simp add: es(3) same map_add_shadow)
  moreover have "fst ` set (e2 # es) = fst ` set (e1 # es1) \<union> fst ` set (e2 # es2)"
    by (simp add: es(2) same)
  ultimately show ?thesis by blast
qed

lemma merged_left:
  assumes "sorted (e1 # es1)" and "sorted (e2 # es2)" and "CMP_TERM T (fst e1) (fst e2) < 0" and "merged es es1 (e2 # es2)"
  shows "merged (e1 # es) (e1 # es1) (e2 # es2)"
proof -
  have ok: "ok (fst e1)" "ok (fst e2)" "sorted es2" "\<forall>d\<in>set es2. CMP_TERM T (fst e2) (fst d) < 0"
    using assms(1,2) by (simp_all add: sorted_Cons)
  have low: "\<forall>d\<in>set (e2 # es2). CMP_TERM T (fst e1) (fst d) < 0"
    using assms(3) below_trans [OF ok(1,2) assms(3) ok(3,4)] by simp
  have "\<forall>d\<in>set es. CMP_TERM T (fst e1) (fst d) < 0"
    using merged_below [of es es1 "e2 # es2", OF _ _ low] assms(1,4) by (simp add: sorted_Cons)
  then have "sorted (e1 # es)" using assms(4) ok(1) by (simp add: sorted_Cons)
  moreover have "fst e1 \<notin> dom (map_of (e2 # es2))"
    using smaller_absent [OF ok(1) assms(2) low] by (simp add: dom_map_of_conv_image_fst)
  then have "map_of (e1 # es) = map_of (e1 # es1) ++ map_of (e2 # es2)"
    using assms(4) by (simp add: map_add_upd_left fun_upd_twist [of "fst e1"])
  ultimately show ?thesis using assms(4) by (simp add: insert_commute)
qed

lemma merged_right:
  assumes "sorted (e1 # es1)" and "sorted (e2 # es2)" and "0 < CMP_TERM T (fst e1) (fst e2)" and "merged es (e1 # es1) es2"
  shows "merged (e2 # es) (e1 # es1) (e2 # es2)"
proof -
  have ok: "ok (fst e1)" "ok (fst e2)" "sorted es1" "\<forall>d\<in>set es1. CMP_TERM T (fst e1) (fst d) < 0"
    using assms(1,2) by (simp_all add: sorted_Cons)
  have less: "CMP_TERM T (fst e2) (fst e1) < 0" using assms(3) cmp_flip ok(1,2) by blast
  have low: "\<forall>d\<in>set (e1 # es1). CMP_TERM T (fst e2) (fst d) < 0"
    using less below_trans [OF ok(2,1) less ok(3,4)] by simp
  have "\<forall>d\<in>set es. CMP_TERM T (fst e2) (fst d) < 0"
    using merged_below [of es "e1 # es1" es2, OF _ low] assms(2,4) by (simp add: sorted_Cons)
  then have "sorted (e2 # es)" using assms(4) ok(2) by (simp add: sorted_Cons)
  then show ?thesis using assms(4) by simp
qed

lemma merge_loop_ok:
  assumes "sorted es1" and "sorted es2" and "int_compares T (map fst es1) (map fst es2)"
    and "merge_loop T es1 es2 u = (es, u')"
  shows "merged es es1 es2 \<and> length es + u' = length es1 + length es2 + u"
  using assms
proof (induction S \<equiv> T es1 es2 u arbitrary: es u' rule: merge_loop.induct)
  case (1 e1 es1 e2 es2 u)
  let ?c = "CMP_TERM T (fst e1) (fst e2)"
  have ok: "ok (fst e1)" "ok (fst e2)" "sorted es1" "sorted es2" using 1(4,5) by (simp_all add: sorted_Cons)
  have c: "as_int ?c = 0 \<longleftrightarrow> ?c = 0" "as_int ?c < 0 \<longleftrightarrow> ?c < 0"
    using 1(6) by (simp_all add: int_compares_def) (metis sgn_0_0, metis sgn_less)
  have fits: "int_compares T (map fst es1) (map fst es2)" "int_compares T (map fst es1) (map fst (e2 # es2))"
      "int_compares T (map fst (e1 # es1)) (map fst es2)"
    using 1(6) by (auto simp: int_compares_def)
  consider "?c = 0" | "?c < 0" | "0 < ?c" by linarith
  then show ?case
  proof cases
    case zero: 1
    then have same: "fst e1 = fst e2" using ok(1,2) cmp_zero by blast
    obtain fs where m: "merge_loop T es1 es2 (Suc u) = (fs, u')" "es = e2 # fs"
      using 1(7) zero c by (auto split: prod.splits)
    have ih: "merged fs es1 es2" "length fs + u' = length es1 + length es2 + Suc u"
      using 1(1) [OF refl _ ok(3,4) fits(1) m(1)] zero c by simp_all
    show ?thesis using merged_both [OF 1(4,5) same ih(1)] ih(2) unfolding m(2) by simp
  next
    case less: 2
    then obtain fs where m: "merge_loop T es1 (e2 # es2) u = (fs, u')" "es = e1 # fs"
      using 1(7) c by (auto split: prod.splits)
    have ih: "merged fs es1 (e2 # es2)" "length fs + u' = length es1 + length (e2 # es2) + u"
      using 1(2) [OF refl _ _ ok(3) 1(5) fits(2) m(1)] less c by simp_all
    show ?thesis using merged_left [OF 1(4,5) less ih(1)] ih(2) unfolding m(2) by simp
  next
    case greater: 3
    then obtain fs where m: "merge_loop T (e1 # es1) es2 u = (fs, u')" "es = e2 # fs"
      using 1(7) c by (auto split: prod.splits)
    have ih: "merged fs (e1 # es1) es2" "length fs + u' = length (e1 # es1) + length es2 + u"
      using 1(3) [OF refl _ _ 1(4) ok(4) fits(3) m(1)] greater c by simp_all
    show ?thesis using merged_right [OF 1(4,5) greater ih(1)] ih(2) unfolding m(2) by simp
  qed
qed (auto simp: fun_eq_iff map_add_def)

subsection \<open>Insertion of from\_list, and the sort\<close>

lemma search_back_spec:
  assumes "ok key" and "\<forall>k\<in>set ks. ok k" and "sorted_wrt (\<lambda>a b. CMP_TERM T a b < 0) ks" and "n \<le> length ks"
    and "search_back T key ks c0 n = (i, c)" and "0 < n \<or> c0 < 0" and "\<forall>j<length ks. n \<le> j \<longrightarrow> CMP_TERM T key (ks ! j) < 0"
  shows "i \<le> n \<and> (\<forall>j<length ks. i \<le> j \<longrightarrow> CMP_TERM T key (ks ! j) < 0) \<and>
    (if c = 0 then 0 < i \<and> ks ! (i - 1) = key else key \<notin> set ks \<and> (\<forall>j<i. CMP_TERM T (ks ! j) key < 0))"
  using assms(4-)
proof (induction n arbitrary: c0)
  case 0
  then show ?case using assms(1,2) less_neq by (auto simp: in_set_conv_nth)
next
  case (Suc n)
  let ?c = "CMP_TERM T key (ks ! n)"
  have okn: "ok (ks ! n)" using assms(2) Suc.prems(1) by simp
  show ?case
  proof (cases "?c < 0")
    case True
    have "\<forall>j<length ks. n \<le> j \<longrightarrow> CMP_TERM T key (ks ! j) < 0"
      using Suc.prems(4) True by (metis Suc_leI le_neq_implies_less)
    then show ?thesis using Suc.IH [of ?c] Suc.prems True by (auto simp: Let_def)
  next
    case False
    then have i: "i = Suc n" "c = ?c" using Suc.prems(2) by (simp_all add: Let_def)
    have below: "CMP_TERM T (ks ! j) key < 0" if "j < Suc n" "?c \<noteq> 0" for j
    proof -
      have n: "CMP_TERM T (ks ! n) key < 0" using False that(2) cmp_flip [OF okn assms(1)] by linarith
      show ?thesis
      proof (cases "j = n")
        case False
        then have "CMP_TERM T (ks ! j) (ks ! n) < 0"
          using that(1) Suc.prems(1) sorted_wrt_nth_less [OF assms(3), of j n] by simp
        then show ?thesis using n cmp_trans [of "ks ! j" "ks ! n" key] okn assms(1,2) that(1) Suc.prems(1) by simp
      qed (use n in simp)
    qed
    have "key \<notin> set ks" if "?c \<noteq> 0"
    proof
      assume "key \<in> set ks"
      then obtain j where j: "j < length ks" "ks ! j = key" by (auto simp: in_set_conv_nth)
      then show False using below [of j, OF _ that] Suc.prems(4) cmp_refl [OF assms(1)] by (cases "j < Suc n") force+
    qed
    then show ?thesis using i below Suc.prems(1,4) cmp_zero [OF assms(1) okn] by auto
  qed
qed

lemma map_of_list_update:
  "distinct (map fst es) \<Longrightarrow> n < length es \<Longrightarrow> fst (es ! n) = key \<Longrightarrow> map_of (es[n := (key, v)]) = (map_of es)(key \<mapsto> v)"
proof (induction es arbitrary: n)
  case (Cons e es)
  show ?case
  proof (cases n)
    case 0
    then show ?thesis using Cons.prems by (cases e) (simp add: fun_eq_iff)
  next
    case (Suc i)
    then have "fst e \<noteq> key" using Cons.prems by (auto simp: image_iff)
    then show ?thesis using Suc Cons.IH [of i] Cons.prems by (cases e) (simp add: fun_eq_iff)
  qed
qed simp

lemma map_of_inserted:
  assumes "key \<notin> fst ` set es"
  shows "map_of (take i es @ (key, v) # drop i es) = (map_of es)(key \<mapsto> v)"
proof -
  have "key \<notin> dom (map_of (take i es))" using assms set_take_subset [of i es] by (auto simp: dom_map_of_conv_image_fst)
  then have "map_of (take i es @ (key, v) # drop i es) = (map_of (drop i es) ++ map_of (take i es))(key \<mapsto> v)"
    by (simp add: map_add_upd_left)
  also have "map_of (drop i es) ++ map_of (take i es) = map_of es"
    unfolding map_of_append [symmetric] by simp
  finally show ?thesis .
qed

lemma sorted_keys: "sorted es \<longleftrightarrow> sorted_wrt (\<lambda>a b. CMP_TERM T a b < 0) (map fst es) \<and> (\<forall>k\<in>set (map fst es). ok k)"
  by (simp add: sorted_entries_def sorted_wrt_map)

lemma insert_sorted_ok:
  assumes "ok key" and "sorted es" and "es \<noteq> []"
  obtains fs where "insert_sorted T key v (map fst es, map snd es) = (map fst fs, map snd fs)"
    and "sorted fs" and "fs \<noteq> []" and "map_of fs = (map_of es)(key \<mapsto> v)"
proof -
  obtain i c where b: "search_back T key (map fst es) 0 (length (map fst es)) = (i, c)" by fastforce
  have k: "sorted_wrt (\<lambda>a b. CMP_TERM T a b < 0) (map fst es)" "\<forall>k\<in>set (map fst es). ok k"
    using assms(2) unfolding sorted_keys by simp_all
  have p: "0 < length (map fst es) \<or> (0::int) < 0" using assms(3) by simp
  have q: "\<forall>j<length (map fst es). length (map fst es) \<le> j \<longrightarrow> CMP_TERM T key (map fst es ! j) < 0" by simp
  note i = search_back_spec [OF assms(1) k(2,1) order_refl b p q]
  note i = i [THEN conjunct1] i [THEN conjunct2, THEN conjunct1] i [THEN conjunct2, THEN conjunct2]
  show ?thesis
  proof (cases "c = 0")
    case True
    let ?fs = "es[i - 1 := (key, v)]"
    have j: "i - 1 < length es" "map fst es ! (i - 1) = key" using i(1,3) True by auto
    then have same: "map fst ?fs = map fst es" using list_update_id [of "map fst es" "i - 1"] by (simp add: map_update)
    show ?thesis
    proof (rule that [of ?fs])
      show "insert_sorted T key v (map fst es, map snd es) = (map fst ?fs, map snd ?fs)"
        using b True by (simp add: insert_sorted_def map_update)
      show "sorted ?fs" using sorted_same_keys [OF same [symmetric] assms(2)] .
      show "map_of ?fs = (map_of es)(key \<mapsto> v)" using map_of_list_update [OF sorted_distinct [OF assms(2)] j(1)] j by simp
    qed (use assms(3) in simp)
  next
    case False
    let ?fs = "take i es @ (key, v) # drop i es"
    have key: "key \<notin> fst ` set es" and low: "\<forall>j<i. CMP_TERM T (map fst es ! j) key < 0" using i(3) [unfolded if_not_P [OF False] set_map] by blast+
    have "CMP_TERM T (fst d) key < 0" if d: "d \<in> set (take i es)" for d
    proof -
      obtain j where "j < i" "j < length es" "d = es ! j" using d i(1) by (auto simp: in_set_conv_nth)
      then show ?thesis using low by (metis nth_map)
    qed
    moreover have "CMP_TERM T key (fst d) < 0" if d: "d \<in> set (drop i es)" for d
    proof -
      obtain j where "j < length (drop i es)" "drop i es ! j = d" using d unfolding in_set_conv_nth by blast
      then show ?thesis using i(1) i(2) [rule_format, of "i + j"] by auto
    qed
    moreover have "sorted_wrt (\<lambda>a b. CMP_TERM T (fst a) (fst b) < 0) (take i es @ drop i es)"
      using assms(2) by (simp add: sorted_entries_def)
    moreover have "\<forall>e\<in>set (take i es) \<union> set (drop i es). ok (fst e)"
      using assms(2) unfolding sorted_entries_def by (metis append_take_drop_id set_append)
    ultimately have "sorted ?fs" using assms(1) unfolding sorted_entries_def sorted_wrt_append by auto
    then show ?thesis
      using b False map_of_inserted [OF key] by (intro that [of ?fs]) (simp_all add: insert_sorted_def take_map drop_map)
  qed
qed

lemma from_list_loop_ok:
  assumes "\<forall>e\<in>set kvs. ok (fst e)" and "sorted es" and "es \<noteq> []"
  shows "\<exists>fs. from_list_loop T (map (\<lambda>(k, v). Tuple2 k v) kvs) (map fst es, map snd es) = (map fst fs, map snd fs) \<and>
    sorted fs \<and> map_of fs = map_of es ++ map_of (rev kvs)"
  using assms
proof (induction kvs arbitrary: es)
  case (Cons e kvs)
  obtain k v where e: "e = (k, v)" by fastforce
  have "ok k" using Cons.prems(1) e by simp
  then obtain gs where gs: "insert_sorted T k v (map fst es, map snd es) = (map fst gs, map snd gs)"
      "sorted gs" "gs \<noteq> []" "map_of gs = (map_of es)(k \<mapsto> v)"
    using insert_sorted_ok Cons.prems(2,3) by metis
  have "map_of es ++ map_of (rev (e # kvs)) = map_of gs ++ map_of (rev kvs)"
    unfolding gs(4) by (simp add: e map_add_assoc)
  then show ?case using Cons.IH [OF _ gs(2,3)] Cons.prems(1) gs(1) e by simp
qed auto

lemma sorted_snoc: "sorted (es @ [e]) \<longleftrightarrow> sorted es \<and> ok (fst e) \<and> (\<forall>d\<in>set es. CMP_TERM T (fst d) (fst e) < 0)"
  by (auto simp: sorted_entries_def sorted_wrt_append)

lemma move_down_ok:
  assumes "ok (fst e)" and "sorted (rev ps)" and "int_compares T [fst e] (map fst ps)"
  shows "case move_down T e ps of
      None \<Rightarrow> fst e \<in> fst ` set ps
    | Some qs \<Rightarrow> fst e \<notin> fst ` set ps \<and> sorted (rev qs) \<and> mset qs = add_mset e (mset ps)"
  using assms(2,3)
proof (induction ps)
  case Nil
  then show ?case using assms(1) by (simp add: sorted_Cons)
next
  case (Cons p ps)
  let ?c = "CMP_TERM T (fst e) (fst p)"
  have ok: "ok (fst p)" "sorted (rev ps)" "\<forall>d\<in>set ps. CMP_TERM T (fst d) (fst p) < 0"
    using Cons.prems(1) by (simp_all add: sorted_snoc)
  have c: "as_int ?c = 0 \<longleftrightarrow> ?c = 0" "as_int ?c < 0 \<longleftrightarrow> ?c < 0"
    using Cons.prems(2) by (simp_all add: int_compares_def) (metis sgn_0_0, metis sgn_less)
  have fits: "int_compares T [fst e] (map fst ps)" using Cons.prems(2) by (simp add: int_compares_def)
  consider "?c = 0" | "?c < 0" | "0 < ?c" by linarith
  then show ?case
  proof cases
    case 1
    then have "fst e = fst p" using cmp_zero assms(1) ok(1) by blast
    then show ?thesis using 1 c by (simp add: Let_def)
  next
    case 2
    have ne: "fst e \<noteq> fst p" using less_neq assms(1) ok(1) 2 by blast
    show ?thesis
    proof (cases "move_down T e ps")
      case None
      then show ?thesis using Cons.IH [OF ok(2) fits] 2 c by (simp add: Let_def)
    next
      case (Some qs)
      then have qs: "fst e \<notin> fst ` set ps" "sorted (rev qs)" "mset qs = add_mset e (mset ps)"
        using Cons.IH [OF ok(2) fits] by simp_all
      have "set qs = insert e (set ps)" using arg_cong [OF qs(3), of set_mset] by simp
      then show ?thesis using qs 2 c ok(1,3) ne Some by (simp add: Let_def sorted_snoc)
    qed
  next
    case 3
    then have pe: "CMP_TERM T (fst p) (fst e) < 0" using cmp_flip assms(1) ok(1) by blast
    then have low: "\<forall>d\<in>set (p # ps). CMP_TERM T (fst d) (fst e) < 0"
      using ok cmp_trans [of _ "fst p" "fst e"] assms(1) sorted_ok [OF ok(2)] by auto
    then have "fst e \<notin> fst ` set (p # ps)" using less_neq assms(1) Cons.prems(1) sorted_ok [of "rev (p # ps)"] by fastforce
    moreover have "sorted (rev (p # ps) @ [e])" unfolding sorted_snoc using low Cons.prems(1) assms(1) by simp
    ultimately show ?thesis using 3 c by (simp add: Let_def)
  qed
qed

lemma sort_loop_ok:
  assumes "\<forall>e\<in>set es. ok (fst e)" and "sorted (rev ps)" and "int_compares T (map fst (ps @ es)) (map fst (ps @ es))"
  shows "case sort_loop T es ps of
      None \<Rightarrow> \<not> distinct (map fst (ps @ es))
    | Some fs \<Rightarrow> distinct (map fst (ps @ es)) \<and> sorted fs \<and> mset fs = mset (ps @ es)"
  using assms
proof (induction es arbitrary: ps)
  case Nil
  then show ?case using sorted_distinct [of "rev ps"] by (simp flip: rev_map)
next
  case (Cons e es)
  have ok: "ok (fst e)" "\<forall>e\<in>set es. ok (fst e)" "int_compares T [fst e] (map fst ps)"
    using Cons.prems(1,3) by (auto simp: int_compares_def)
  show ?case
  proof (cases "move_down T e ps")
    case None
    then have "fst e \<in> fst ` set ps" using move_down_ok [OF ok(1) Cons.prems(2) ok(3)] by simp
    then show ?thesis using None by auto
  next
    case (Some qs)
    then have qs: "fst e \<notin> fst ` set ps" "sorted (rev qs)" "mset qs = add_mset e (mset ps)"
      using move_down_ok [OF ok(1) Cons.prems(2) ok(3)] by simp_all
    have keys: "mset (map fst (qs @ es)) = mset (map fst (ps @ e # es))" using qs(3) by simp
    have "int_compares T (map fst (qs @ es)) (map fst (qs @ es))"
      using Cons.prems(3) mset_eq_setD [OF keys] by (simp only: int_compares_def)
    note ih = Cons.IH [OF ok(2) qs(2) this, unfolded mset_eq_imp_distinct_iff [OF keys]]
    have "mset (qs @ es) = mset (ps @ e # es)" using qs(3) by simp
    then show ?thesis
      using ih Some by (cases "sort_loop T es qs") (simp_all del: distinct.simps map_append mset_append)
  qed
qed

lemma same_entries:
  assumes "mset es = mset fs" and "distinct (map fst es)"
  shows "map_of es = map_of fs"
proof -
  have "distinct (map fst fs)" using assms by (metis mset_eq_imp_distinct_iff mset_map)
  then show ?thesis using assms map_of_inject_set mset_eq_setD by metis
qed

subsection \<open>The operations on well-formed maps\<close>

lemma get_ok:
  assumes "ok key" and "map_ok T ok m"
  shows "erts_maps_get T key m = map_fun m key"
proof -
  obtain es where m: "m = make_map es" "sorted es" using assms(2) by (rule map_ok_cases)
  have "find_loop (\<lambda>k. EQ T k key) es = map_of es key"
    using find_loop_ok [OF assms(1)] sorted_ok [OF m(2)] by blast
  then show ?thesis unfolding m by (simp add: erts_maps_get_def find_word_ok split: option.split)
qed

lemma find_ok:
  assumes "ok key" and "map_ok T ok m"
  shows "erts_maps_find T key m = map_fun m key"
proof -
  obtain es where m: "m = make_map es" "sorted es" using assms(2) by (rule map_ok_cases)
  then show ?thesis using find_loop_ok [OF assms(1)] sorted_ok [OF m(2)] by (auto simp: erts_maps_find_def)
qed

lemma key_member_ok:
  assumes "ok key" and "map_ok T ok m"
  shows "key_member T key m \<longleftrightarrow> key \<in> dom (map_fun m)"
proof -
  obtain es where m: "m = make_map es" "sorted es" using assms(2) by (rule map_ok_cases)
  have "list_ex (\<lambda>k. EQ T k key) (map fst es) \<longleftrightarrow> key \<in> fst ` set es"
    using assms(1) sorted_ok [OF m(2)] by (force simp: list_ex_iff)
  moreover have "list_ex (\<lambda>k. k = key) (map fst es) \<longleftrightarrow> key \<in> fst ` set es" by (force simp: list_ex_iff)
  ultimately show ?thesis unfolding m by (auto simp: key_member_def dom_map_of_conv_image_fst)
qed

lemma size_ok:
  assumes "map_ok T ok m"
  shows "map_get_size m = card (dom (map_fun m))"
proof -
  obtain es where m: "m = make_map es" "sorted es" using assms by (rule map_ok_cases)
  then show ?thesis using sorted_distinct [OF m(2)]
    by (simp add: dom_map_of_conv_image_fst distinct_card flip: set_map)
qed

lemma same_keys_map:
  "length vs = length es \<Longrightarrow>
     \<lparr>map_get_size = length es, map_get_keys = map fst es, map_get_values = vs\<rparr> = make_map (zip (map fst es) vs)"
  by (simp add: make_map_def)

lemma same_keys_ok: "length vs = length es \<Longrightarrow> sorted es \<Longrightarrow> sorted (zip (map fst es) vs)"
  by (rule sorted_same_keys [of es]) simp_all

lemma put_ok:
  assumes "ok key" and "map_ok T ok m"
  shows "map_ok T ok (erts_maps_put T key v m) \<and> map_fun (erts_maps_put T key v m) = (map_fun m)(key \<mapsto> v)"
proof -
  obtain es where m: "m = make_map es" "sorted es" using assms(2) by (rule map_ok_cases)
  have has: "list_ex (same_key T key) (map fst es) \<longleftrightarrow> key \<in> fst ` set es"
    using assms(1) sorted_ok [OF m(2)] by (force simp: list_ex_iff)
  consider "es = []" | "es \<noteq> []" "key \<in> fst ` set es" | "es \<noteq> []" "key \<notin> fst ` set es" by blast
  then show ?thesis
  proof cases
    case 1
    then show ?thesis using assms(1) m by (simp add: erts_maps_put_def sorted_Cons fun_eq_iff)
  next
    case 2
    let ?vs = "map (\<lambda>(k, w). if same_key T key k then v else w) es"
    have "erts_maps_put T key v m = make_map (zip (map fst es) ?vs)"
      using 2 has m same_keys_map [of ?vs es] by (simp add: erts_maps_put_def)
    then show ?thesis
      using map_of_replaced [OF assms(1) _ 2(2)] sorted_ok [OF m(2)] same_keys_ok [of ?vs es, OF _ m(2)] m(1) by simp
  next
    case 3
    let ?fs = "put_sorted T key v es"
    have "erts_maps_put T key v m = make_map ?fs"
      using 3 has m by (simp add: erts_maps_put_def make_map_def entries_def zip_map_fst_snd Let_def)
    then show ?thesis using put_sorted_ok [OF assms(1) m(2) 3(2)] map_of_put_sorted [OF 3(2)] m(1) by simp
  qed
qed

lemma remove_ok:
  assumes "ok key" and "map_ok T ok m"
  shows "map_ok T ok (erts_maps_remove T key m) \<and> map_fun (erts_maps_remove T key m) = (map_fun m)(key := None)"
proof -
  obtain es where m: "m = make_map es" "sorted es" using assms(2) by (rule map_ok_cases)
  show ?thesis
  proof (cases "remove_loop (same_key T key) es")
    case None
    then have "map_of es key = None" using remove_loop_ok [OF assms(1) m(2)] by simp
    then show ?thesis using None m by (auto simp: erts_maps_remove_def)
  next
    case (Some fs)
    then have "sorted fs" "map_of fs = (map_of es)(key := None)" "length es = Suc (length fs)"
      using remove_loop_ok [OF assms(1) m(2)] by simp_all
    moreover from this have "erts_maps_remove T key m = make_map fs"
      using Some m(1) by (auto simp: erts_maps_remove_def make_map_def entries_def zip_map_fst_snd)
    ultimately show ?thesis using m(1) by simp
  qed
qed

lemma update_ok:
  assumes "ok key" and "map_ok T ok m"
  shows "case erts_maps_update T key v m of
      None \<Rightarrow> map_fun m key = None
    | Some m' \<Rightarrow> map_fun m key \<noteq> None \<and> map_ok T ok m' \<and> map_fun m' = (map_fun m)(key \<mapsto> v)"
proof -
  obtain es where m: "m = make_map es" "sorted es" using assms(2) by (rule map_ok_cases)
  show ?thesis
  proof (cases "update_loop (same_key T key) v es")
    case None
    then show ?thesis using update_loop_ok [OF assms(1) m(2), of v] m by (simp add: erts_maps_update_def)
  next
    case (Some vs)
    then have u: "map_of es key \<noteq> None" "length vs = length es" "map_of (zip (map fst es) vs) = (map_of es)(key \<mapsto> v)"
      using update_loop_ok [OF assms(1) m(2), of v] by simp_all
    then have "erts_maps_update T key v m = Some (make_map (zip (map fst es) vs))"
      using Some m(1) same_keys_map [OF u(2)] by (auto simp: erts_maps_update_def)
    then show ?thesis using u same_keys_ok [OF u(2) m(2)] m(1) by simp
  qed
qed

lemma merge_ok:
  assumes "map_ok T ok m1" and "map_ok T ok m2" and "int_compares T (map_get_keys m1) (map_get_keys m2)"
  obtains m where "maps_merge_2 T (Some m1) (Some m2) = Inr m" and "map_ok T ok m" and "map_fun m = map_fun m1 ++ map_fun m2"
proof -
  obtain es1 where m1: "m1 = make_map es1" "sorted es1" using assms(1) by (rule map_ok_cases)
  obtain es2 where m2: "m2 = make_map es2" "sorted es2" using assms(2) by (rule map_ok_cases)
  obtain es u where e: "merge_loop T es1 es2 0 = (es, u)" by fastforce
  have es: "sorted es" "map_of es = map_of es1 ++ map_of es2" "length es + u = length es1 + length es2"
    using merge_loop_ok [OF m1(2) m2(2) _ e] assms(3) m1(1) m2(1) by simp_all
  then have "maps_merge_2 T (Some m1) (Some m2) = Inr (make_map es)"
    using e m1(1) m2(1) by (simp add: make_map_def entries_def zip_map_fst_snd flip: es(3))
  then show thesis using es m1(1) m2(1) by (intro that [of "make_map es"]) simp_all
qed

lemma from_list_ok:
  assumes "\<forall>e\<in>set kvs. ok (fst e)"
  obtains m where "maps_from_list_1 T (Proper (map (\<lambda>(k, v). Tuple2 k v) kvs)) = Inr m"
    and "map_ok T ok m" and "map_fun m = map_of (rev kvs)"
proof (cases kvs)
  case Nil
  then show thesis by (intro that [of "make_map []"]) simp_all
next
  case (Cons e es)
  obtain k v where e: "e = (k, v)" by fastforce
  have "ok k" "\<forall>e\<in>set es. ok (fst e)" using assms Cons e by simp_all
  then obtain fs where fs: "from_list_loop T (map (\<lambda>(k, v). Tuple2 k v) es) ([k], [v]) = (map fst fs, map snd fs)"
      "sorted fs" "map_of fs = map_of [(k, v)] ++ map_of (rev es)"
    using from_list_loop_ok [of es "[(k, v)]"] by (auto simp: sorted_Cons)
  have "Other_item \<notin> set (map (\<lambda>(k, v). Tuple2 k v) kvs)" by auto
  then have "maps_from_list_1 T (Proper (map (\<lambda>(k, v). Tuple2 k v) kvs)) = Inr (make_map fs)"
    using fs(1) Cons e by (simp add: make_map_def)
  moreover have "map_of fs = map_of (rev kvs)" using fs(3) Cons e by simp
  ultimately show thesis using fs(2) by (intro that [of "make_map fs"]) simp_all
qed

lemma unique_ok: "map_ok T ok m \<Longrightarrow> map_ok T ok m' \<Longrightarrow> map_fun m = map_fun m' \<Longrightarrow> m = m'"
  using sorted_unique by (metis map_fun_def map_ok_def)

lemma validate_ok:
  assumes "\<forall>e\<in>set es. ok (fst e)" and "int_compares T (map fst es) (map fst es)"
  shows "case erts_validate_and_sort_map T (make_map es) of
      None \<Rightarrow> \<not> distinct (map fst es)
    | Some m \<Rightarrow> distinct (map fst es) \<and> map_ok T ok m \<and> map_fun m = map_of es"
proof (cases "sort_loop T es []")
  case None
  then show ?thesis using sort_loop_ok [of es "[]"] assms by (simp add: erts_validate_and_sort_map_def)
next
  case (Some fs)
  then have fs: "distinct (map fst es)" "sorted fs" "mset fs = mset es"
    using sort_loop_ok [of es "[]"] assms by simp_all
  have "erts_validate_and_sort_map T (make_map es) = Some (make_map fs)"
    using Some mset_eq_length [OF fs(3)] by (simp add: erts_validate_and_sort_map_def make_map_def entries_def zip_map_fst_snd)
  then show ?thesis using fs same_entries [of es fs] by simp
qed

end

end
