(* ===== verification/Map_Instructions.thy ===== *)
theory Map_Instructions
  imports Erl_Map
begin

section \<open>The map instructions of the emulator: beam\_emu.c\<close>

text \<open>
  The instructions that test, read, build and update maps. Their keys are operands, in ascending order, and the
  instructions walk along them and the map together. Operands are terms here: the registers are read by GET\_TERM
  before. A result None is THE\_NON\_VALUE, which the instruction turns into badarg.
\<close>

subsection \<open>Definitions\<close>

definition has_not_map_field :: "'t term_ops \<Rightarrow> 't map_t \<Rightarrow> 't \<Rightarrow> bool" where
  "has_not_map_field T m key = (\<not> list_ex (same_key T key) (map_get_keys m))"

definition get_map_element :: "'t term_ops \<Rightarrow> 't map_t \<Rightarrow> 't \<Rightarrow> 't option" where
  "get_map_element T m key = find_loop (same_key T key) (entries m)"

fun has_fields :: "'t term_ops \<Rightarrow> 't list \<Rightarrow> 't list \<Rightarrow> bool" where
  "has_fields T [] ks = True"
| "has_fields T (f # fs) [] = False"
| "has_fields T (f # fs) (k # ks) = (if EQ T f k then has_fields T fs ks else has_fields T (f # fs) ks)"

definition i_has_map_fields :: "'t term_ops \<Rightarrow> 't map_t \<Rightarrow> 't list \<Rightarrow> bool" where
  "i_has_map_fields T m fs = (if map_get_size m = 0 then False else has_fields T fs (map_get_keys m))"

text \<open>The values go to target registers as their keys are found: the writes, and whether all keys were found.\<close>

fun get_elements :: "'t term_ops \<Rightarrow> ('t \<times> 'r) list \<Rightarrow> ('t \<times> 't) list \<Rightarrow> ('r \<times> 't) list \<times> bool" where
  "get_elements T [] es = ([], True)"
| "get_elements T (f # fs) [] = ([], False)"
| "get_elements T ((f, r) # fs) ((k, v) # es) =
     (if EQ T f k then (let (ws, found) = get_elements T fs es in ((r, v) # ws, found))
      else get_elements T ((f, r) # fs) es)"

definition i_get_map_elements :: "'t term_ops \<Rightarrow> 't map_t \<Rightarrow> ('t \<times> 'r) list \<Rightarrow> ('r \<times> 't) list \<times> bool" where
  "i_get_map_elements T m fs = (if map_get_size m = 0 then ([], False) else get_elements T fs (entries m))"

definition new_map :: "('t \<times> 't) list \<Rightarrow> 't map_t" where
  "new_map kvs = \<lparr>map_get_size = length kvs, map_get_keys = map fst kvs, map_get_values = map snd kvs\<rparr>"

fun assoc_loop :: "'t term_ops \<Rightarrow> ('t \<times> 't) list \<Rightarrow> ('t \<times> 't) list \<Rightarrow> ('t \<times> 't) list" where
  "assoc_loop T (e # es) (u # us) =
     (let c = CMP_TERM T (fst e) (fst u) in
      if c < 0 then e # assoc_loop T es (u # us)
      else if c > 0 then u # assoc_loop T (e # es) us
      else (fst e, snd u) # assoc_loop T es us)"
| "assoc_loop T es us = es @ us"

fun update_map_assoc :: "'t term_ops \<Rightarrow> 't map_t option \<Rightarrow> ('t \<times> 't) list \<Rightarrow> 't map_t option" where
  "update_map_assoc T (Some m) us =
     (if map_get_size m = 0 then Some (new_map us)
      else (let es = assoc_loop T (entries m) us
            in Some \<lparr>map_get_size = length es, map_get_keys = map fst es, map_get_values = map snd es\<rparr>))"
| "update_map_assoc T None us = None"

fun exact_loop :: "'t term_ops \<Rightarrow> ('t \<times> 't) list \<Rightarrow> ('t \<times> 't) list \<Rightarrow> 't list option" where
  "exact_loop T es [] = Some (map snd es)"
| "exact_loop T [] (u # us) = None"
| "exact_loop T (e # es) (u # us) =
     (if \<not> EQ T (fst e) (fst u) then map_option (Cons (snd e)) (exact_loop T es (u # us))
      else map_option (Cons (snd u)) (exact_loop T es us))"

fun update_map_exact :: "'t term_ops \<Rightarrow> 't map_t option \<Rightarrow> ('t \<times> 't) list \<Rightarrow> 't map_t option" where
  "update_map_exact T (Some m) us =
     (if map_get_size m = 0 then None
      else map_option (\<lambda>vs. \<lparr>map_get_size = map_get_size m, map_get_keys = map_get_keys m, map_get_values = vs\<rparr>)
        (exact_loop T (entries m) us))"
| "update_map_exact T None us = None"

subsection \<open>The instructions on well-formed maps\<close>

context map_terms
begin

lemma get_map_element_ok:
  assumes "ok key" and "map_ok T ok m"
  shows "get_map_element T m key = map_fun m key"
proof -
  have loop: "find_loop (same_key T key) es = map_of es key" if "sorted es" for es
    using that by (induction es) (auto simp: sorted_Cons assms(1))
  show ?thesis using assms(2) by (auto simp: get_map_element_def loop elim: map_ok_cases)
qed

lemma has_not_map_field_ok:
  assumes "ok key" and "map_ok T ok m"
  shows "has_not_map_field T m key \<longleftrightarrow> map_fun m key = None"
proof -
  obtain es where m: "m = make_map es" "sorted es" using assms(2) by (rule map_ok_cases)
  have "list_ex (same_key T key) (map fst es) \<longleftrightarrow> key \<in> fst ` set es"
    using assms(1) sorted_ok [OF m(2)] by (force simp: list_ex_iff)
  then show ?thesis unfolding m(1) by (simp add: has_not_map_field_def map_of_eq_None_iff)
qed

abbreviation sorted_key_list :: "'t list \<Rightarrow> bool" where
  "sorted_key_list ks \<equiv> sorted_wrt (\<lambda>a b. CMP_TERM T a b < 0) ks \<and> (\<forall>k\<in>set ks. ok k)"

lemma first_key_absent: "sorted_key_list (k # ks) \<Longrightarrow> k \<notin> set ks"
  using less_neq by fastforce

lemma subset_skip:
  assumes "sorted_key_list (k # ks)" and "sorted_key_list (f # fs)" and "f \<noteq> k"
  shows "set (f # fs) \<subseteq> set (k # ks) \<longleftrightarrow> set (f # fs) \<subseteq> set ks"
proof -
  have ok: "ok k" "ok f" using assms(1,2) by simp_all
  consider "CMP_TERM T k f < 0" | "CMP_TERM T f k < 0" using cmp_neq [OF ok] assms(3) by blast
  then show ?thesis
  proof cases
    case 1
    have "CMP_TERM T k x < 0" if "x \<in> set (f # fs)" for x
      using that 1 assms(2) cmp_trans [OF ok _ 1] by auto
    then have "k \<notin> set (f # fs)" using cmp_refl [OF ok(1)] by force
    then show ?thesis by auto
  next
    case 2
    have "CMP_TERM T f x < 0" if "x \<in> set (k # ks)" for x
      using that 2 assms(1) cmp_trans [OF ok(2,1) _ 2] by auto
    then have "f \<notin> set (k # ks)" using cmp_refl [OF ok(2)] by force
    then show ?thesis by auto
  qed
qed

lemma has_fields_ok:
  "sorted_key_list fs \<Longrightarrow> sorted_key_list ks \<Longrightarrow> has_fields T fs ks \<longleftrightarrow> set fs \<subseteq> set ks"
proof (induction S \<equiv> T fs ks rule: has_fields.induct)
  case (3 f fs k ks)
  have ok: "EQ T f k \<longleftrightarrow> f = k" using 3(3,4) by simp
  show ?case
  proof (cases "f = k")
    case True
    then have "set (f # fs) \<subseteq> set (k # ks) \<longleftrightarrow> set fs \<subseteq> set ks" using first_key_absent [OF 3(3)] by auto
    then show ?thesis using 3(1) 3(3,4) ok True by simp
  next
    case False
    then show ?thesis using 3(2) 3(3,4) ok subset_skip [OF 3(4,3) False] by simp
  qed
qed auto

text \<open>The values that match go to the registers, whether or not all keys are found.\<close>

lemma get_elements_found: "snd (get_elements T fs es) \<longleftrightarrow> has_fields T (map fst fs) (map fst es)"
  by (induction T fs es rule: get_elements.induct) (auto simp: Let_def split: prod.splits)

lemma get_elements_values:
  assumes "sorted es" and "sorted_key_list (map fst fs)" and "snd (get_elements T fs es)"
  shows "fst (get_elements T fs es) = map (\<lambda>(f, r). (r, the (map_of es f))) fs"
  using assms
proof (induction S \<equiv> T fs es rule: get_elements.induct)
  case (3 f r fs k v es)
  have ok: "EQ T f k \<longleftrightarrow> f = k" "sorted es" "sorted_key_list (map fst fs)" using 3(3,4) by (simp_all add: sorted_Cons)
  have keys: "sorted_key_list (map fst ((k, v) # es))" using 3(3) unfolding sorted_keys .
  have "has_fields T (map fst ((f, r) # fs)) (map fst ((k, v) # es))"
    using 3(5) unfolding get_elements_found .
  then have found: "set (f # map fst fs) \<subseteq> set (k # map fst es)" unfolding has_fields_ok [OF 3(4) keys] by simp
  show ?case
  proof (cases "f = k")
    case True
    have "\<forall>x\<in>set fs. fst x \<noteq> k" using first_key_absent [of f "map fst fs"] 3(4) True by force
    moreover have "snd (get_elements T fs es)" using 3(5) True ok(1) by (simp add: split_def Let_def)
    ultimately show ?thesis using 3(1) ok True by (simp add: split_def Let_def)
  next
    case False
    have "set (f # map fst fs) \<subseteq> set (map fst es)"
      using found subset_skip [of k "map fst es" f "map fst fs", OF _ _ False] 3(4) keys by simp
    then have "k \<notin> fst ` set ((f, r) # fs)"
      using smaller_absent [of k es] 3(3) by (auto simp: sorted_Cons)
    moreover have "snd (get_elements T ((f, r) # fs) es)" using 3(5) False ok(1) by simp
    ultimately show ?thesis using 3(2) 3(4) ok False by (auto simp: image_iff)
  qed
qed auto

lemma assoc_loop_ok:
  assumes "sorted es" and "sorted us"
  shows "merged (assoc_loop T es us) es us"
  using assms
proof (induction S \<equiv> T es us rule: assoc_loop.induct)
  case (1 e es u us)
  have ok: "ok (fst e)" "ok (fst u)" "sorted es" "sorted us" using 1(4,5) by (simp_all add: sorted_Cons)
  let ?c = "CMP_TERM T (fst e) (fst u)"
  consider "?c < 0" | "0 < ?c" | "?c = 0" by linarith
  then show ?case
  proof cases
    case less: 1
    have "merged (assoc_loop T es (u # us)) es (u # us)" using 1(1) [OF refl _ ok(3) 1(5)] less by simp
    from merged_left [OF 1(4,5) less this] show ?thesis using less by simp
  next
    case greater: 2
    have "merged (assoc_loop T (e # es) us) (e # es) us" using 1(2) [OF refl _ _ 1(4) ok(4)] greater by simp
    from merged_right [OF 1(4,5) greater this] show ?thesis using greater by simp
  next
    case zero: 3
    then have same: "fst e = fst u" using ok(1,2) cmp_zero by blast
    then have "(fst e, snd u) = u" by simp
    moreover have "merged (assoc_loop T es us) es us" using 1(3) [OF refl _ _ ok(3,4)] zero by simp
    from merged_both [OF 1(4,5) same this] have "merged (u # assoc_loop T es us) (e # es) (u # us)" .
    ultimately show ?thesis using zero by simp
  qed
qed simp_all

lemma exact_loop_ok:
  assumes "sorted es" and "sorted us"
  shows "case exact_loop T es us of
      None \<Rightarrow> \<not> fst ` set us \<subseteq> fst ` set es
    | Some vs \<Rightarrow> fst ` set us \<subseteq> fst ` set es \<and> length vs = length es \<and> map_of (zip (map fst es) vs) = map_of es ++ map_of us"
  using assms
proof (induction S \<equiv> T es us rule: exact_loop.induct)
  case (3 e es u us)
  have ok: "EQ T (fst e) (fst u) \<longleftrightarrow> fst e = fst u" "sorted es" "sorted us"
    using 3(3,4) by (simp_all add: sorted_Cons)
  show ?case
  proof (cases "fst e = fst u")
    case True
    have "fst u \<notin> fst ` set us" using first_key_absent [of "fst u" "map fst us"] 3(4) by (simp add: sorted_keys)
    then have sub: "fst ` set (u # us) \<subseteq> fst ` set (e # es) \<longleftrightarrow> fst ` set us \<subseteq> fst ` set es" using True by (simp add: subset_insert)
    show ?thesis using 3(2) ok True sub
      by (cases "exact_loop T es us") (simp_all add: map_add_shadow)
  next
    case False
    have sub: "fst ` set (u # us) \<subseteq> fst ` set (e # es) \<longleftrightarrow> fst ` set (u # us) \<subseteq> fst ` set es"
      using subset_skip [of "fst e" "map fst es" "fst u" "map fst us"] 3(3,4) False by (simp add: sorted_keys)
    have "fst e \<notin> fst ` set es" using 3(3) first_key_absent [of "fst e" "map fst es"] by (simp add: sorted_keys)
    then have "fst e \<notin> dom (map_of (u # us))" if "fst ` set (u # us) \<subseteq> fst ` set es"
      using that unfolding dom_map_of_conv_image_fst by blast
    then show ?thesis using 3(1) 3(4) ok False sub
      by (cases "exact_loop T es (u # us)") (simp_all add: map_add_upd_left fun_upd_twist [of "fst e"])
  qed
qed (auto simp: zip_map_fst_snd)

lemma i_has_map_fields_ok:
  assumes "map_ok T ok m" and "sorted us" and "us \<noteq> []"
  shows "i_has_map_fields T m (map fst us) \<longleftrightarrow> dom (map_of us) \<subseteq> dom (map_fun m)"
proof -
  obtain es where m: "m = make_map es" "sorted es" using assms(1) by (rule map_ok_cases)
  have "has_fields T (map fst us) (map fst es) \<longleftrightarrow> fst ` set us \<subseteq> fst ` set es"
    using has_fields_ok [of "map fst us" "map fst es"] assms(2) m(2) by (simp add: sorted_keys)
  then show ?thesis unfolding m(1) using assms(3) by (simp add: i_has_map_fields_def dom_map_of_conv_image_fst)
qed

lemma i_get_map_elements_ok:
  assumes "map_ok T ok m" and "sorted us" and "us \<noteq> []" and "length rs = length us"
    and "i_get_map_elements T m (zip (map fst us) rs) = (ws, found)"
  shows "(found \<longleftrightarrow> dom (map_of us) \<subseteq> dom (map_fun m)) \<and> (found \<longrightarrow> ws = zip rs (map (\<lambda>u. the (map_fun m (fst u))) us))"
proof -
  obtain es where m: "m = make_map es" "sorted es" using assms(1) by (rule map_ok_cases)
  let ?fs = "zip (map fst us) rs"
  have fs: "map fst ?fs = map fst us" using assms(4) by simp
  have keys: "sorted_key_list (map fst ?fs)" unfolding fs using assms(2) sorted_keys by simp
  have "found \<longleftrightarrow> i_has_map_fields T m (map fst us)"
    using assms(5) get_elements_found [of ?fs es] unfolding m(1) fs
    by (auto simp: i_get_map_elements_def i_has_map_fields_def)
  moreover have "ws = zip rs (map (\<lambda>u. the (map_fun m (fst u))) us)" if found
  proof -
    have "get_elements T ?fs es = (ws, found)" using assms(5) that unfolding m(1)
      by (auto simp: i_get_map_elements_def split: if_splits)
    then have "ws = map (\<lambda>(f, r). (r, the (map_of es f))) ?fs"
      using get_elements_values [OF m(2) keys] that by simp
    also have "\<dots> = zip rs (map (\<lambda>u. the (map_of es (fst u))) us)"
      using assms(4) by (intro nth_equalityI) (simp_all add: split_def)
    finally show ?thesis unfolding m(1) by simp
  qed
  ultimately show ?thesis using i_has_map_fields_ok [OF assms(1-3)] by blast
qed

lemma update_map_assoc_ok:
  assumes "map_ok T ok m" and "sorted us"
  obtains m' where "update_map_assoc T (Some m) us = Some m'" and "map_ok T ok m'" and "map_fun m' = map_fun m ++ map_of us"
proof -
  obtain es where m: "m = make_map es" "sorted es" using assms(1) by (rule map_ok_cases)
  have "update_map_assoc T (Some m) us = Some (make_map (if es = [] then us else assoc_loop T es us))"
    unfolding m(1) by (simp add: new_map_def Let_def make_map_def [symmetric])
  then show thesis using assoc_loop_ok [OF m(2) assms(2)] assms(2) m(1) by (intro that) auto
qed

lemma update_map_exact_ok:
  assumes "map_ok T ok m" and "sorted us" and "us \<noteq> []"
  shows "case update_map_exact T (Some m) us of
      None \<Rightarrow> \<not> dom (map_of us) \<subseteq> dom (map_fun m)
    | Some m' \<Rightarrow> dom (map_of us) \<subseteq> dom (map_fun m) \<and> map_ok T ok m' \<and> map_fun m' = map_fun m ++ map_of us"
proof -
  obtain es where m: "m = make_map es" "sorted es" using assms(1) by (rule map_ok_cases)
  show ?thesis
  proof (cases "exact_loop T es us")
    case None
    then have "\<not> dom (map_of us) \<subseteq> dom (map_of es)"
      using exact_loop_ok [OF m(2) assms(2)] by (simp add: dom_map_of_conv_image_fst)
    then show ?thesis using None assms(3) unfolding m(1) by simp
  next
    case (Some vs)
    have vs: "fst ` set us \<subseteq> fst ` set es" "length vs = length es" "map_of (zip (map fst es) vs) = map_of es ++ map_of us"
      using exact_loop_ok [OF m(2) assms(2)] Some by simp_all
    then have "es \<noteq> []" using assms(3) by auto
    then have "update_map_exact T (Some m) us = Some (make_map (zip (map fst es) vs))"
      using Some same_keys_map [OF vs(2)] unfolding m(1) by simp
    then show ?thesis using vs same_keys_ok [OF vs(2) m(2)] m(1) by (simp add: dom_map_of_conv_image_fst)
  qed
qed

end

end
