(* ===== verification/Term_Maps.thy ===== *)
theory Term_Maps
  imports Map_Instructions
begin

section \<open>Maps with keys of the modelled terms\<close>

text \<open>
  The terms of Node\_Terms have the functions that erl\_map.c calls, so maps of them are finite maps. The
  properties of maps are here, for these keys.
\<close>

subsection \<open>Maps of atoms, small integers and node containers\<close>

text \<open>
  eq of utils.c on these terms. It is called on terms of which one is not immediate; equal words are equal terms.
\<close>

definition eq_numbers :: "Uint32 list \<Rightarrow> Uint32 list \<Rightarrow> bool" where
  "eq_numbers anum bnum =
     (if anum ! 0 \<noteq> bnum ! 0 then False
      else if length anum = 3 \<and> length bnum = 3 then anum ! 1 = bnum ! 1 \<and> anum ! 2 = bnum ! 2
      else (let common_len = min (length anum) (length bnum) in
        take common_len anum = take common_len bnum \<and>
        (\<forall>n\<in>set (drop common_len anum). n = 0) \<and> (\<forall>n\<in>set (drop common_len bnum). n = 0)))"

fun eq_term :: "eterm \<Rightarrow> eterm \<Rightarrow> bool" where
  "eq_term (ExternalPid m a) (ExternalPid n b) = (m = n \<and> a = b)"
| "eq_term (ExternalPort m a) (ExternalPort n b) = (m = n \<and> a = b)"
| "eq_term (ExternalRef m a) (ExternalRef n b) = (m = n \<and> eq_numbers a b)"
| "eq_term (Ref a) (Ref b) = eq_numbers a b"
| "eq_term a b = (a = b)"

fun is_immed_term :: "eterm \<Rightarrow> bool" where
  "is_immed_term (ExternalPid _ _) = False"
| "is_immed_term (ExternalPort _ _) = False"
| "is_immed_term (ExternalRef _ _) = False"
| "is_immed_term (Ref _) = False"
| "is_immed_term _ = True"

definition node_ops :: "erl_node \<Rightarrow> eterm term_ops" where
  "node_ops this = \<lparr>is_immed = is_immed_term, eq = eq_term, CMP_TERM = cmp_term this\<rparr>"

lemma eq_numbers_3: "length a = 3 \<Longrightarrow> length b = 3 \<Longrightarrow> eq_numbers a b \<longleftrightarrow> a = b"
  by (auto simp: eq_numbers_def numeral_3_eq_3 length_Suc_conv)

lemma eq_term_iff: "term_ok this a \<Longrightarrow> term_ok this b \<Longrightarrow> eq_term a b \<longleftrightarrow> a = b"
  by (cases a; cases b) (auto simp: eq_numbers_3)

interpretation maps: map_terms "node_ops this" "term_ok this" for this
proof unfold_locales
  fix a b c
  assume a: "term_ok this a" and b: "term_ok this b"
  show "CMP_TERM (node_ops this) a b = 0 \<longleftrightarrow> a = b" using a b by (simp add: node_ops_def terms.cmp_zero)
  show "CMP_TERM (node_ops this) a b < 0 \<longleftrightarrow> 0 < CMP_TERM (node_ops this) b a"
    unfolding node_ops_def using terms.cmp_flip [OF a b] by simp
  show "eq (node_ops this) a b \<longleftrightarrow> a = b" using eq_term_iff [OF a b] by (simp add: node_ops_def)
  assume "term_ok this c" "CMP_TERM (node_ops this) a b < 0" "CMP_TERM (node_ops this) b c < 0"
  then show "CMP_TERM (node_ops this) a c < 0" using terms.cmp_trans [OF a b] by (simp add: node_ops_def)
qed

text \<open>Comparisons of other keys than integers far apart fit an int.\<close>

fun narrow_key :: "eterm \<Rightarrow> bool" where
  "narrow_key (Small i) = (- (2 ^ 30) \<le> sint i \<and> sint i < 2 ^ 30)"
| "narrow_key (Port d) = (d < 2 ^ 28)"
| "narrow_key (ExternalPort n d) = (d < 2 ^ 28)"
| "narrow_key _ = True"

lemma as_int_id: "- (2 ^ 31) \<le> c \<Longrightarrow> c < 2 ^ 31 \<Longrightarrow> as_int c = c"
  unfolding as_int_def signed_of_int by (simp add: signed_take_bit_int_eq_self)

abbreviation fits :: "int \<Rightarrow> bool" where
  "fits c \<equiv> - (2 ^ 31) \<le> c \<and> c < 2 ^ 31"

lemma atom_ord0_range: "0 \<le> atom_ord0 a \<and> atom_ord0 a < 2 ^ 31"
proof -
  have "atom_byte a 3 div 2 \<le> 127" "0 \<le> atom_byte a 3 div 2"
    using half_byte_range [OF atom_byte_range] by blast+
  then show ?thesis
    using atom_byte_range [of a 0] atom_byte_range [of a 1] atom_byte_range [of a 2]
    unfolding atom_ord0_def push_bit_eq_mult drop_bit_eq_div by simp
qed

lemma cmpbytes_from_range: "\<bar>cmpbytes_from i s1 l1 s2 l2\<bar> \<le> 1"
  by (induction i s1 l1 s2 l2 rule: cmpbytes_from.induct) (subst cmpbytes_from.simps, auto)

lemma fits_small: "\<bar>c\<bar> \<le> 1 \<Longrightarrow> fits c"
  by (simp, linarith)

lemma cmp_atoms_fits: "fits (cmp_atoms a b)"
proof (cases "atom_ord0 a = atom_ord0 b")
  case True
  then show ?thesis using fits_small [OF cmpbytes_from_range] by (simp add: cmp_atoms_def cmpbytes_def Let_def)
next
  case False
  then show ?thesis using atom_ord0_range [of a] atom_ord0_range [of b] by (simp add: cmp_atoms_def Let_def)
qed

lemma cmp_nodes_fits: "fits (cmp_nodes m n)"
  using cmp_atoms_fits [of "sysname m" "sysname n"] by (simp add: cmp_nodes_def)

lemma sint_fits: "fits (sint (x :: Uint32))"
  using sint_range_size [of x] by (simp add: word_size)

lemma cmp_numbers_fits: "fits (cmp_numbers_down xs)"
  by (induction xs rule: cmp_numbers_down.induct) (use sint_fits in simp_all)

lemma ref_common_fits: "fits (ref_common m a n b)"
  using cmp_nodes_fits [of m n] cmp_numbers_fits [of "rev (zip a b)"] by (simp add: ref_common_def Let_def)

lemma pid_common_fits: "fits (pid_common m a n b)"
  using cmp_nodes_fits [of m n] by (simp add: pid_common_def)

lemma port_common_fits: "a < 2 ^ 28 \<Longrightarrow> b < 2 ^ 28 \<Longrightarrow> fits (port_common m a n b)"
proof -
  assume a: "a < 2 ^ 28" and b: "b < 2 ^ 28"
  then have r: "uint a < 268435456" "uint b < 268435456" by (simp_all add: word_less_alt)
  have "sint (a - b) = uint a - uint b" using a b by (intro port_data_diff) (simp_all add: word_less_alt)
  moreover have "- 2147483648 \<le> uint a - uint b" "uint a - uint b < 2147483648"
    using r uint_ge_0 [of a] uint_ge_0 [of b] by linarith+
  ultimately have "fits (sint (a - b))" by simp
  then show ?thesis using cmp_nodes_fits [of m n] by (simp add: port_common_def Let_def)
qed

lemma tag_fits: "fits (tag_val_def b - tag_val_def a)"
  by (cases a; cases b) simp_all

lemma narrow_fits:
  assumes "narrow_key a" and "narrow_key b"
  shows "fits (cmp_term this a b)"
proof (cases "\<exists>i j. a = Small i \<and> b = Small j")
  case True
  then obtain i j where s: "a = Small i" "b = Small j" by blast
  have "sint (i - j) = sint i - sint j" using assms s by (intro small_diff) simp_all
  then show ?thesis using assms s by (simp add: cmp_small_def)
next
  case False
  note f = cmp_atoms_fits cmp_nodes_fits ref_common_fits pid_common_fits port_common_fits
  show ?thesis
    using assms False tag_fits [of a b]
    by (cases a; cases b) (simp_all only: cmp_term.simps narrow_key.simps f if_split_asm split: if_split, simp_all)
qed

text \<open>A map whose keys are given in any order.\<close>

abbreviation tuples :: "('t \<times> 't) list \<Rightarrow> 't list_term" where
  "tuples kvs \<equiv> Proper (map (\<lambda>(k, v). Tuple2 k v) kvs)"

lemma narrow_int_compares:
  assumes "\<forall>k\<in>set ks. narrow_key k" and "\<forall>l\<in>set ls. narrow_key l"
  shows "int_compares (node_ops this) ks ls"
  using assms narrow_fits as_int_id by (simp add: int_compares_def node_ops_def)

text \<open>A map with an atom, a small integer and the pids of two nodes as keys.\<close>

definition here :: erl_node where
  "here = \<lparr>sysname = [110], creation = 1\<rparr>"

definition sample_map :: "eterm map_t" where
  "sample_map = make_map [(Small 5, Atom [98]), (Atom [97], Small 1), (Pid 7, NilTerm),
     (ExternalPid \<lparr>sysname = [111], creation = 2\<rparr> 9, Pid 7)]"

lemma sample_map_ok: "map_ok (node_ops here) (term_ok here) sample_map"
proof -
  have "sorted_wrt (\<lambda>a b. cmp_term here (fst a) (fst b) < 0) [(Small 5, Atom [98]), (Atom [97], Small 1), (Pid 7, NilTerm),
     (ExternalPid \<lparr>sysname = [111], creation = 2\<rparr> 9, Pid 7)]"
    by code_simp
  moreover have "\<forall>e\<in>set [(Small 5, Atom [98]), (Atom [97], Small 1), (Pid 7, NilTerm),
     (ExternalPid \<lparr>sysname = [111], creation = 2\<rparr> 9, Pid 7)]. term_ok here (fst e)"
    by code_simp
  ultimately show ?thesis by (simp add: sample_map_def sorted_entries_def node_ops_def)
qed

subsection \<open>Properties\<close>

text \<open>
  C31: on a map with well-formed keys the built-in functions act as on the finite map of its entries: get, find, is\_key
  and map\_size read it, put, remove and update change it at the one key, keep the keys in their order, and refuse
  what is not there.
\<close>

theorem maps_refine_finite_maps:
  assumes "map_ok (node_ops this) (term_ok this) m" and "term_ok this key"
  shows "let T = node_ops this; ok = map_ok T (term_ok this); f = map_fun m in
    maps_get_2 T key (Some m) = (case f key of Some v \<Rightarrow> Inr v | None \<Rightarrow> Inl (bad_key key)) \<and>
    maps_find_2 T key (Some m) = Inr (f key) \<and>
    maps_is_key_2 T key (Some m) = Inr (key \<in> dom f) \<and>
    map_size_1 (Some m) = Inr (card (dom f)) \<and>
    (\<exists>m'. maps_put_3 T key v (Some m) = Inr m' \<and> ok m' \<and> map_fun m' = f(key \<mapsto> v)) \<and>
    (\<exists>m'. maps_remove_2 T key (Some m) = Inr m' \<and> ok m' \<and> map_fun m' = f(key := None)) \<and>
    (case maps_update_3 T key v (Some m) of
       Inl e \<Rightarrow> e = badarg \<and> key \<notin> dom f
     | Inr m' \<Rightarrow> key \<in> dom f \<and> ok m' \<and> map_fun m' = f(key \<mapsto> v))"
proof -
  note put = maps.put_ok [OF assms(2,1), of v] and remove = maps.remove_ok [OF assms(2,1)]
    and update = maps.update_ok [OF assms(2,1), of v]
  have u: "case maps_update_3 (node_ops this) key v (Some m) of
       Inl e \<Rightarrow> e = badarg \<and> key \<notin> dom (map_fun m)
     | Inr m' \<Rightarrow> key \<in> dom (map_fun m) \<and> map_ok (node_ops this) (term_ok this) m' \<and> map_fun m' = (map_fun m)(key \<mapsto> v)"
    using update by (cases "erts_maps_update (node_ops this) key v m") (simp_all add: domIff)
  have get: "maps_get_2 (node_ops this) key (Some m) = (case map_fun m key of Some v \<Rightarrow> Inr v | None \<Rightarrow> Inl (bad_key key))"
    by (simp only: maps_get_2.simps maps.get_ok [OF assms(2,1)])
  have read: "maps_find_2 (node_ops this) key (Some m) = Inr (map_fun m key)"
      "maps_is_key_2 (node_ops this) key (Some m) = Inr (key \<in> dom (map_fun m))"
      "map_size_1 (Some m) = Inr (card (dom (map_fun m)))"
    by (simp_all only: maps_find_2.simps maps_is_key_2.simps map_size_1.simps
      maps.find_ok [OF assms(2,1)] maps.key_member_ok [OF assms(2,1)] maps.size_ok [OF assms(1)])
  have p: "\<exists>m'. maps_put_3 (node_ops this) key v (Some m) = Inr m' \<and>
      map_ok (node_ops this) (term_ok this) m' \<and> map_fun m' = (map_fun m)(key \<mapsto> v)"
    by (rule exI [of _ "erts_maps_put (node_ops this) key v m"]) (simp only: maps_put_3.simps put)
  have r: "\<exists>m'. maps_remove_2 (node_ops this) key (Some m) = Inr m' \<and>
      map_ok (node_ops this) (term_ok this) m' \<and> map_fun m' = (map_fun m)(key := None)"
    by (rule exI [of _ "erts_maps_remove (node_ops this) key m"]) (simp only: maps_remove_2.simps remove)
  show ?thesis unfolding Let_def by (intro conjI get read p r u)
qed

theorem maps_refine_finite_maps_witness:
  "maps_get_2 (node_ops here) (Pid 7) (Some sample_map) = Inr NilTerm"
proof -
  have "term_ok here (Pid 7)" "map_fun sample_map (Pid 7) = Some NilTerm" by (simp_all add: sample_map_def)
  then show ?thesis
    using maps_refine_finite_maps [OF sample_map_ok, of "Pid 7" NilTerm, unfolded Let_def, THEN conjunct1] by simp
qed

text \<open>
  C32: from\_list keeps the last value of every key, and a finite map has one representation: lists with the same
  final values, in whatever order, and any other way to arrive at these entries, give the same map.
\<close>

theorem maps_from_list_canonical:
  assumes "\<forall>e\<in>set kvs. term_ok this (fst e)"
  shows "\<exists>m. maps_from_list_1 (node_ops this) (tuples kvs) = Inr m \<and>
    map_ok (node_ops this) (term_ok this) m \<and> map_fun m = map_of (rev kvs) \<and>
    (\<forall>m'. map_ok (node_ops this) (term_ok this) m' \<and> map_fun m' = map_of (rev kvs) \<longrightarrow> m' = m)"
proof -
  obtain m where m: "maps_from_list_1 (node_ops this) (tuples kvs) = Inr m"
      "map_ok (node_ops this) (term_ok this) m" "map_fun m = map_of (rev kvs)"
    using maps.from_list_ok [OF assms] .
  have "m' = m" if "map_ok (node_ops this) (term_ok this) m'" "map_fun m' = map_of (rev kvs)" for m'
    using maps.unique_ok [OF that(1) m(2)] that(2) m(3) by simp
  then show ?thesis by (intro exI [of _ m] conjI allI impI m) blast
qed

theorem maps_from_list_canonical_witness:
  "\<exists>m. maps_from_list_1 (node_ops here) (tuples [(Pid 7, NilTerm), (Small 3, Pid 1), (Pid 7, Small 2)]) = Inr m \<and>
     map_fun m (Pid 7) = Some (Small 2)"
proof -
  let ?kvs = "[(Pid 7, NilTerm), (Small 3, Pid 1), (Pid 7, Small 2)]"
  have "\<forall>e\<in>set ?kvs. term_ok here (fst e)" by simp
  then obtain m where "maps_from_list_1 (node_ops here) (tuples ?kvs) = Inr m" "map_fun m = map_of (rev ?kvs)"
    using maps_from_list_canonical [of ?kvs here] by metis
  then show ?thesis by (intro exI [of _ m]) simp
qed

text \<open>
  C33: to\_list lists the entries of a map in the order of its keys, and from\_list makes the same map from them in
  any order; keys and values give the two halves.
\<close>

theorem maps_list_round_trip:
  assumes "map_ok (node_ops this) (term_ok this) m"
  shows "\<exists>es. maps_to_list_1 (Some m) = Inr es \<and> map_of es = map_fun m \<and>
    maps_keys_1 (Some m) = Inr (map fst es) \<and> maps_values_1 (Some m) = Inr (map snd es) \<and>
    (\<forall>kvs. mset kvs = mset es \<longrightarrow> maps_from_list_1 (node_ops this) (tuples kvs) = Inr m)"
proof -
  obtain es where m: "m = make_map es" "sorted_entries (node_ops this) (term_ok this) es"
    using assms by (rule map_ok_cases)
  have d: "distinct (map fst es)" using maps.sorted_distinct [OF m(2)] .
  have "maps_from_list_1 (node_ops this) (tuples kvs) = Inr m" if kvs: "mset kvs = mset es" for kvs
  proof -
    have "\<forall>e\<in>set kvs. term_ok this (fst e)" using maps.sorted_ok [OF m(2)] mset_eq_setD [OF kvs] by simp
    then obtain m' where m': "maps_from_list_1 (node_ops this) (tuples kvs) = Inr m'"
        "map_ok (node_ops this) (term_ok this) m'" "map_fun m' = map_of (rev kvs)"
      using maps.from_list_ok by blast
    have "map_of (rev kvs) = map_of es" using maps.same_entries [of es "rev kvs"] kvs d by simp
    then have "m' = m" using maps.unique_ok [OF m'(2) assms] m'(3) m(1) by simp
    then show ?thesis using m'(1) by simp
  qed
  then show ?thesis unfolding m(1)
    by (intro exI [of _ es] conjI allI impI) (simp_all only: lists_of_make map_fun_make)
qed

theorem maps_list_round_trip_witness:
  "maps_from_list_1 (node_ops here) (tuples (rev (entries sample_map))) = Inr sample_map"
proof -
  obtain es where es: "maps_to_list_1 (Some sample_map) = Inr es"
      "\<forall>kvs. mset kvs = mset es \<longrightarrow> maps_from_list_1 (node_ops here) (tuples kvs) = Inr sample_map"
    using maps_list_round_trip [OF sample_map_ok] by metis
  have "es = entries sample_map" using es(1) by (simp only: sample_map_def lists_of_make entries_make sum.inject)
  then show ?thesis using es(2) by (metis mset_rev)
qed

text \<open>
  C34: merge gives the union of two maps, in which the second map's values win, when the comparisons of their keys
  keep their sign as an int; and erts\_validate\_and\_sort\_map refuses exactly the entries with a key twice,
  and makes the map of the others.
\<close>

theorem maps_merge_and_validate:
  assumes "map_ok (node_ops this) (term_ok this) m1" and "map_ok (node_ops this) (term_ok this) m2"
    and "int_compares (node_ops this) (map_get_keys m1) (map_get_keys m2)"
    and "\<forall>e\<in>set es. term_ok this (fst e)" and "int_compares (node_ops this) (map fst es) (map fst es)"
  shows "(\<exists>m. maps_merge_2 (node_ops this) (Some m1) (Some m2) = Inr m \<and>
       map_ok (node_ops this) (term_ok this) m \<and> map_fun m = map_fun m1 ++ map_fun m2) \<and>
    (case erts_validate_and_sort_map (node_ops this) (make_map es) of
       None \<Rightarrow> \<not> distinct (map fst es)
     | Some m \<Rightarrow> distinct (map fst es) \<and> map_ok (node_ops this) (term_ok this) m \<and> map_fun m = map_of es)"
proof
  show "\<exists>m. maps_merge_2 (node_ops this) (Some m1) (Some m2) = Inr m \<and>
       map_ok (node_ops this) (term_ok this) m \<and> map_fun m = map_fun m1 ++ map_fun m2"
    using maps.merge_ok [OF assms(1-3)] by metis
qed (rule maps.validate_ok [OF assms(4,5)])

theorem maps_merge_and_validate_witness:
  "\<exists>m. maps_merge_2 (node_ops here) (Some sample_map) (Some (make_map [(Small 5, Atom [99])])) = Inr m \<and>
     map_fun m (Small 5) = Some (Atom [99])"
proof -
  let ?m = "make_map [(Small 5, Atom [99])]"
  have "map_ok (node_ops here) (term_ok here) ?m" by (simp add: sorted_entries_def)
  moreover have "int_compares (node_ops here) (map_get_keys sample_map) (map_get_keys ?m)"
    by (rule narrow_int_compares) (simp_all add: sample_map_def)
  moreover have "int_compares (node_ops here) (map fst []) (map fst ([] :: (eterm \<times> eterm) list))"
    by (simp add: int_compares_def)
  ultimately obtain m where m: "maps_merge_2 (node_ops here) (Some sample_map) (Some ?m) = Inr m"
      "map_fun m = map_fun sample_map ++ map_fun ?m"
    using maps_merge_and_validate [OF sample_map_ok, of ?m "[]", THEN conjunct1] by auto
  then show ?thesis by (intro exI [of _ m]) simp
qed


text \<open>
  C36: the map instructions, whose keys are in ascending order, act on the finite map: an element is read if all keys are
  there, an update with => adds or replaces, and one with := replaces if all keys are there.
\<close>

theorem map_instructions_refine:
  assumes "map_ok (node_ops this) (term_ok this) m" and "sorted_entries (node_ops this) (term_ok this) us" and "us \<noteq> []"
    and "length regs = length us"
  shows "let T = node_ops this; ok = map_ok T (term_ok this); f = map_fun m; found = dom (map_of us) \<subseteq> dom f in
    i_has_map_fields T m (map fst us) = found \<and>
    (let (writes, success) = i_get_map_elements T m (zip (map fst us) regs)
     in success = found \<and> (found \<longrightarrow> writes = zip regs (map (\<lambda>u. the (f (fst u))) us))) \<and>
    (\<exists>m'. update_map_assoc T (Some m) us = Some m' \<and> ok m' \<and> map_fun m' = f ++ map_of us) \<and>
    (case update_map_exact T (Some m) us of
       None \<Rightarrow> \<not> found
     | Some m' \<Rightarrow> found \<and> ok m' \<and> map_fun m' = f ++ map_of us)"
proof -
  obtain ws found where w: "i_get_map_elements (node_ops this) m (zip (map fst us) regs) = (ws, found)" by fastforce
  note get = maps.i_get_map_elements_ok [OF assms w]
  have assoc: "\<exists>m'. update_map_assoc (node_ops this) (Some m) us = Some m' \<and>
      map_ok (node_ops this) (term_ok this) m' \<and> map_fun m' = map_fun m ++ map_of us"
    using maps.update_map_assoc_ok [OF assms(1,2)] by metis
  show ?thesis
    unfolding Let_def w prod.case
    by (intro conjI maps.i_has_map_fields_ok [OF assms(1-3)] conjunct1 [OF get] assoc maps.update_map_exact_ok [OF assms(1-3)])
      (use get in blast)
qed

theorem map_instructions_refine_witness:
  "i_get_map_elements (node_ops here) sample_map [(Small 5, 10), (Pid 7, 11 :: nat)] = ([(10, Atom [98]), (11, NilTerm)], True)"
proof -
  let ?us = "[(Small 5, NilTerm), (Pid 7, NilTerm)]"
  have "sorted_entries (node_ops here) (term_ok here) ?us" by (simp add: sorted_entries_def node_ops_def)
  from map_instructions_refine [OF sample_map_ok this, of "[10, 11]", unfolded Let_def, THEN conjunct2, THEN conjunct1]
  show ?thesis by (simp add: sample_map_def split: prod.splits)
qed

end
