(* ===== verification/Code_Ranges.thy ===== *)
theory Code_Ranges
  imports Prelude
begin

section \<open>Address ranges of the loaded modules: beam\_ranges.c\<close>

text \<open>
  There are three code indices; for each one, a sorted table of the address ranges of the loaded modules. The tables
  of the active index are read without a lock; new ones are built for the staging index. A table is the list of the
  entries written, None for NULL, and the cached start of the search a position in it. The code of a module is read
  through \<open>code_memory\<close>: the table of its functions and its table of lines.
\<close>

subsection \<open>Definitions\<close>

definition ERTS_NUM_CODE_IX :: nat where
  "ERTS_NUM_CODE_IX = 3"

record range =
  r_start :: Uint
  r_end :: Uint

record ranges =
  r_modules :: "range list option"
  r_n :: nat
  r_allocated :: nat
  r_mid :: nat

record code_ranges =
  r_table :: "nat \<Rightarrow> ranges"
  mem_used :: int

datatype ranges_error = Null_pointer | Out_of_bounds

definition erts_init_ranges :: code_ranges where
  "erts_init_ranges = \<lparr>r_table = (\<lambda>_. \<lparr>r_modules = None, r_n = 0, r_allocated = 0, r_mid = 0\<rparr>), mem_used = 0\<rparr>"

definition free_modules :: "nat \<Rightarrow> code_ranges \<Rightarrow> code_ranges" where
  "free_modules ix s =
     (if r_modules (r_table s ix) \<noteq> None
      then s\<lparr>mem_used := mem_used s - int (r_allocated (r_table s ix)),
             r_table := (r_table s)(ix := (r_table s ix)\<lparr>r_modules := None\<rparr>)\<rparr>
      else s)"

definition erts_start_staging_ranges :: "nat \<Rightarrow> code_ranges \<Rightarrow> code_ranges" where
  "erts_start_staging_ranges dst s = free_modules dst s"

text \<open>The entries of a table as a loop reads them.\<close>

definition read_modules :: "ranges \<Rightarrow> ranges_error + range list" where
  "read_modules rs =
     (if r_n rs = 0 then Inr []
      else case r_modules rs of
        None \<Rightarrow> Inl Null_pointer
      | Some ms \<Rightarrow> if r_n rs \<le> length ms then Inr (take (r_n rs) ms) else Inl Out_of_bounds)"

definition live :: "range \<Rightarrow> bool" where
  "live rp \<longleftrightarrow> r_start rp < r_end rp"

definition new_table :: "nat \<Rightarrow> range list \<Rightarrow> ranges" where
  "new_table alloc ms = \<lparr>r_modules = Some ms, r_n = length ms, r_allocated = alloc, r_mid = length ms div 2\<rparr>"

definition erts_end_staging_ranges :: "bool \<Rightarrow> nat \<Rightarrow> nat \<Rightarrow> code_ranges \<Rightarrow> ranges_error + code_ranges" where
  "erts_end_staging_ranges commit src dst s =
     (if commit \<and> r_modules (r_table s dst) = None then
        map_sum id (\<lambda>ms. s\<lparr>mem_used := mem_used s + int (r_n (r_table s src)),
            r_table := (r_table s)(dst := new_table (r_n (r_table s src)) (filter live ms))\<rparr>)
          (read_modules (r_table s src))
      else Inr s)"

text \<open>The two loops of erts\_update\_ranges, and the entry at the end.\<close>

fun insert_code :: "range \<Rightarrow> range list \<Rightarrow> range list" where
  "insert_code new [] = []"
| "insert_code new (rp # rps) =
     (if r_start new < r_start rp then new # filter live (rp # rps)
      else if r_start rp < r_end rp then rp # insert_code new rps
      else insert_code new rps)"

definition update_modules :: "range \<Rightarrow> range list \<Rightarrow> range list" where
  "update_modules new ms =
     (let ns = insert_code new ms in if ns = [] \<or> r_start new > r_start (last ns) then ns @ [new] else ns)"

definition erts_update_ranges :: "Uint \<Rightarrow> Uint \<Rightarrow> nat \<Rightarrow> nat \<Rightarrow> code_ranges \<Rightarrow> ranges_error + code_ranges" where
  "erts_update_ranges code sz src dst s =
     (let (src, s) =
        (if src = dst then
           let src = (src + 1) mod ERTS_NUM_CODE_IX; s = free_modules src s
           in (src, s\<lparr>r_table := (r_table s)(src := r_table s dst, dst := (r_table s dst)\<lparr>r_modules := None\<rparr>)\<rparr>)
         else (src, s));
        need = r_n (r_table s src) + 1
      in map_sum id (\<lambda>ms. s\<lparr>mem_used := mem_used s + int need,
             r_table := (r_table s)(dst := new_table need (update_modules \<lparr>r_start = code, r_end = code + sz\<rparr> ms))\<rparr>)
           (read_modules (r_table s src)))"

text \<open>
  The search starts at the cached place; the outer None is a search that does not end, the inner one NULL.
\<close>

partial_function (option) range_loop ::
  "range list \<Rightarrow> Uint \<Rightarrow> nat \<Rightarrow> nat \<Rightarrow> nat \<Rightarrow> (ranges_error + nat option) option" where
  "range_loop ms pc low high mid =
     (if low < high then
        (if mid < length ms then
           (if pc < r_start (ms ! mid) then range_loop ms pc low mid (low + (mid - low) div 2)
            else if pc > r_end (ms ! mid) then range_loop ms pc (Suc mid) high (Suc mid + (high - Suc mid) div 2)
            else Some (Inr (Some mid)))
         else Some (Inl Out_of_bounds))
      else Some (Inr None))"

definition find_range :: "Uint \<Rightarrow> nat \<Rightarrow> code_ranges \<Rightarrow> (ranges_error + nat option \<times> code_ranges) option" where
  "find_range pc active s =
     (case read_modules (r_table s active) of
        Inl e \<Rightarrow> Some (Inl e)
      | Inr ms \<Rightarrow> map_option (map_sum id (\<lambda>found. (found, case found of
            None \<Rightarrow> s
          | Some i \<Rightarrow> s\<lparr>r_table := (r_table s)(active := (r_table s active)\<lparr>r_mid := i\<rparr>)\<rparr>)))
          (range_loop ms pc 0 (length ms) (r_mid (r_table s active))))"

definition purge_entry :: "nat \<Rightarrow> ranges \<Rightarrow> ranges" where
  "purge_entry i rs = rs\<lparr>r_modules := map_option (\<lambda>ms. ms[i := (ms ! i)\<lparr>r_end := r_start (ms ! i)\<rparr>]) (r_modules rs)\<rparr>"

definition erts_remove_from_ranges :: "Uint \<Rightarrow> nat \<Rightarrow> code_ranges \<Rightarrow> (ranges_error + code_ranges) option" where
  "erts_remove_from_ranges code active s =
     map_option (\<lambda>res. case res of
         Inl e \<Rightarrow> Inl e
       | Inr (None, s) \<Rightarrow> Inl Null_pointer
       | Inr (Some i, s) \<Rightarrow> Inr (s\<lparr>r_table := (r_table s)(active := purge_entry i (r_table s active))\<rparr>))
     (find_range code active s)"

definition erts_ranges_sz :: "code_ranges \<Rightarrow> int" where
  "erts_ranges_sz s = mem_used s * 16"

text \<open>
  The tables in the code of a module. The function table has one more address, behind the last function; the tables
  of lines of the functions are parts of one list of addresses, from func\_tab[idx] to func\_tab[idx + 1].
\<close>

record line_table =
  fname_ptr :: "byte list list"
  func_tab :: "nat list"
  line_items :: "Uint list"
  loc_tab :: "Uint32 list"

record code_memory =
  mi_functions :: "Uint \<Rightarrow> Uint list"
  mi_line_table :: "Uint \<Rightarrow> line_table option"
  module_atom :: "Uint \<Rightarrow> byte list"

record function_info =
  fi_current :: "Uint option"
  fi_needed :: nat
  fi_loc :: Uint32

definition LINE_INVALID_LOCATION :: Uint32 where
  "LINE_INVALID_LOCATION = 0"

function search_table :: "Uint list \<Rightarrow> Uint \<Rightarrow> nat \<Rightarrow> nat \<Rightarrow> nat option" where
  "search_table tab pc low high =
     (if low < high then
        (let mid = low + (high - low) div 2 in
         if pc < tab ! mid then search_table tab pc low mid
         else if pc < tab ! (mid + 1) then Some mid
         else search_table tab pc (mid + 1) high)
      else None)"
  by pat_completeness auto
termination
  by (relation "measure (\<lambda>(tab, pc, low, high). high - low)") auto

declare search_table.simps [simp del]

definition lookup_loc :: "code_memory \<Rightarrow> function_info \<Rightarrow> Uint \<Rightarrow> Uint \<Rightarrow> nat \<Rightarrow> function_info" where
  "lookup_loc mem fi pc modp idx =
     (case mi_line_table mem modp of
        None \<Rightarrow> fi
      | Some line \<Rightarrow>
          (case search_table (line_items line) pc (func_tab line ! idx) (func_tab line ! (idx + 1)) of
             None \<Rightarrow> fi
           | Some mid \<Rightarrow>
               (let loc = loc_tab line ! (mid - func_tab line ! 0); fi = fi\<lparr>fi_loc := loc\<rparr> in
                if loc = LINE_INVALID_LOCATION then fi
                else
                  (let file = unat (drop_bit 24 loc);
                       needed = fi_needed fi + 3 + 2 + 3 + 2
                   in if file = 0
                      then fi\<lparr>fi_needed := needed + 2 * (length (module_atom mem (the (fi_current fi))) + 4)\<rparr>
                      else fi\<lparr>fi_needed := needed + 2 * length (fname_ptr line ! (file - 1))\<rparr>))))"

definition erts_lookup_function_info ::
  "code_memory \<Rightarrow> Uint \<Rightarrow> bool \<Rightarrow> nat \<Rightarrow> code_ranges \<Rightarrow> (ranges_error + function_info \<times> code_ranges) option" where
  "erts_lookup_function_info mem pc full_info active s =
     map_option (map_sum id (\<lambda>(found, s).
       (let fi = \<lparr>fi_current = None, fi_needed = 5, fi_loc = LINE_INVALID_LOCATION\<rparr> in
        case found of
          None \<Rightarrow> (fi, s)
        | Some i \<Rightarrow>
            (let modp = r_start (the (r_modules (r_table s active)) ! i); fp = mi_functions mem modp in
             case search_table fp pc 0 (length fp - 1) of
               None \<Rightarrow> (fi, s)
             | Some idx \<Rightarrow>
                 (let fi = fi\<lparr>fi_current := Some (fp ! idx + 16)\<rparr>
                  in (if full_info then lookup_loc mem fi pc modp idx else fi, s))))))
       (find_range pc active s)"

subsection \<open>Sorted tables\<close>

definition ranges_ok :: "range list \<Rightarrow> bool" where
  "ranges_ok ms \<longleftrightarrow> sorted_wrt (\<lambda>a b. r_end a < r_start b) ms \<and> (\<forall>rp\<in>set ms. r_start rp \<le> r_end rp)"

definition apart :: "range \<Rightarrow> range \<Rightarrow> bool" where
  "apart a b \<longleftrightarrow> r_end a < r_start b \<or> r_end b < r_start a"

lemma ranges_ok_Cons: "ranges_ok (rp # ms) \<longleftrightarrow> r_start rp \<le> r_end rp \<and> (\<forall>q\<in>set ms. r_end rp < r_start q) \<and> ranges_ok ms"
  by (auto simp: ranges_ok_def)

lemma ranges_ok_Nil [simp]: "ranges_ok []"
  by (simp add: ranges_ok_def)

lemma ranges_ok_filter: "ranges_ok ms \<Longrightarrow> ranges_ok (filter P ms)"
  by (simp add: ranges_ok_def sorted_wrt_filter)

lemma ranges_ok_append: "ranges_ok (ms @ ns) \<longleftrightarrow> ranges_ok ms \<and> ranges_ok ns \<and> (\<forall>a\<in>set ms. \<forall>b\<in>set ns. r_end a < r_start b)"
  by (auto simp: ranges_ok_def sorted_wrt_append)

lemma insert_code_ok:
  assumes "ranges_ok ms" and "r_start new \<le> r_end new" and "\<forall>rp\<in>set ms. live rp \<longrightarrow> apart rp new"
  shows "let below = \<forall>rp\<in>set ms. r_start rp \<le> r_start new; ns = insert_code new ms in
    ranges_ok ns \<and> set ns = {rp \<in> set ms. live rp} \<union> (if below then {} else {new}) \<and>
    (below \<longrightarrow> (\<forall>rp\<in>set ns. r_end rp < r_start new))"
  using assms(1,3)
proof (induction ms)
  case (Cons rp ms)
  have ok: "r_start rp \<le> r_end rp" "\<forall>q\<in>set ms. r_end rp < r_start q" "ranges_ok ms"
    using Cons.prems(1) by (simp_all add: ranges_ok_Cons)
  show ?case
  proof (cases "r_start new < r_start rp")
    case True
    have "r_end new < r_start q" if "q \<in> set (rp # ms)" "live q" for q
    proof -
      have "r_start rp \<le> r_start q" using that(1) ok by (auto intro: order_trans less_imp_le)
      then have "r_start new \<le> r_end q" using True that(2) by (auto simp: live_def)
      then have "\<not> r_end q < r_start new" by simp
      then show ?thesis using Cons.prems(2) that by (auto simp: apart_def)
    qed
    then have "ranges_ok (new # filter live (rp # ms))"
      using assms(2) ranges_ok_filter [OF Cons.prems(1), of live] by (auto simp: ranges_ok_Cons)
    then show ?thesis using True by (auto simp: Let_def)
  next
    case False
    then have le: "r_start rp \<le> r_start new" by simp
    note ih = Cons.IH [OF ok(3)]
    show ?thesis
    proof (cases "live rp")
      case True
      then have "r_end rp < r_start new" using Cons.prems(2) le assms(2) by (auto simp: apart_def)
      then show ?thesis using ih Cons.prems(2) False le ok True by (auto simp: Let_def live_def ranges_ok_Cons)
    next
      case False
      then show ?thesis using ih Cons.prems(2) le by (auto simp: Let_def live_def)
    qed
  qed
qed simp

lemma last_start:
  assumes "ranges_ok ms" and "rp \<in> set ms"
  shows "r_start rp \<le> r_start (last ms)"
proof -
  obtain i where i: "i < length ms" "rp = ms ! i" using assms(2) by (auto simp: in_set_conv_nth)
  have ne: "ms \<noteq> []" using assms(2) by auto
  show ?thesis
  proof (cases "i = length ms - 1")
    case False
    then have "r_end rp < r_start (last ms)"
      using assms(1) i ne unfolding ranges_ok_def last_conv_nth [OF ne] sorted_wrt_iff_nth_less by simp
    moreover have "r_start rp \<le> r_end rp" using assms by (simp add: ranges_ok_def)
    ultimately show ?thesis by (meson le_less_trans less_imp_le)
  qed (use i ne in \<open>simp add: last_conv_nth\<close>)
qed

lemma length_insert_code:
  "length (insert_code new ms) \<le> length ms + (if \<forall>rp\<in>set ms. r_start rp \<le> r_start new then 0 else 1)"
proof (induction ms)
  case (Cons rp ms)
  show ?case
  proof (cases "r_start new < r_start rp")
    case True
    then show ?thesis using length_filter_le [of live "rp # ms"] by (auto simp del: filter.simps)
  next
    case False
    then have "(\<forall>q\<in>set (rp # ms). r_start q \<le> r_start new) \<longleftrightarrow> (\<forall>q\<in>set ms. r_start q \<le> r_start new)" by auto
    then show ?thesis using Cons False by (simp split: if_splits)
  qed
qed simp

lemma update_modules_ok:
  assumes "ranges_ok ms" and "r_start new \<le> r_end new" and "\<forall>rp\<in>set ms. live rp \<longrightarrow> apart rp new"
  shows "ranges_ok (update_modules new ms) \<and> set (update_modules new ms) = insert new {rp \<in> set ms. live rp} \<and>
    length (update_modules new ms) \<le> Suc (length ms)"
proof -
  let ?ns = "insert_code new ms"
  note ns = insert_code_ok [OF assms, unfolded Let_def]
  show ?thesis
  proof (cases "\<forall>rp\<in>set ms. r_start rp \<le> r_start new")
    case True
    then have low: "\<forall>rp\<in>set ?ns. r_end rp < r_start new" and ok: "ranges_ok ?ns" and set: "set ?ns = {rp \<in> set ms. live rp}"
      using ns by simp_all
    have "r_start (last ?ns) < r_start new" if "?ns \<noteq> []"
      using that low ok last_in_set [OF that] unfolding ranges_ok_def by (metis order_le_less_trans)
    then have "update_modules new ms = ?ns @ [new]" by (auto simp: update_modules_def Let_def)
    then show ?thesis using ok low set assms(2) length_insert_code [of new ms] True by (simp add: ranges_ok_append ranges_ok_Cons)
  next
    case False
    have ok: "ranges_ok ?ns" and "set ?ns = {rp \<in> set ms. live rp} \<union> {new}"
      using ns unfolding if_not_P [OF False] by blast+
    then have set: "set ?ns = insert new {rp \<in> set ms. live rp}" by simp
    have "r_start new \<le> r_start (last ?ns)" using last_start [OF ok] set by simp
    then have "update_modules new ms = ?ns" using set by (auto simp: update_modules_def Let_def)
    then show ?thesis using ok set length_insert_code [of new ms] unfolding if_not_P [OF False] by simp
  qed
qed

subsection \<open>The searches\<close>

lemma range_loop_ok:
  assumes "ranges_ok ms" and "high \<le> length ms" and "low < high \<longrightarrow> low \<le> mid \<and> mid < high"
    and "\<forall>i<low. i < length ms \<longrightarrow> r_end (ms ! i) < pc" and "\<forall>i<length ms. high \<le> i \<longrightarrow> pc < r_start (ms ! i)"
  shows "\<exists>res. range_loop ms pc low high mid = Some (Inr res) \<and>
    (case res of
       Some i \<Rightarrow> i < length ms \<and> r_start (ms ! i) \<le> pc \<and> pc \<le> r_end (ms ! i)
     | None \<Rightarrow> \<not> (\<exists>rp\<in>set ms. r_start rp \<le> pc \<and> pc \<le> r_end rp))"
  using assms(2-)
proof (induction "high - low" arbitrary: low high mid rule: less_induct)
  case less
  have order: "r_end (ms ! i) < r_start (ms ! j)" if "i < j" "j < length ms" for i j
    using assms(1) that by (simp add: ranges_ok_def sorted_wrt_iff_nth_less)
  have range: "r_start (ms ! i) \<le> r_end (ms ! i)" if "i < length ms" for i
    using assms(1) that by (simp add: ranges_ok_def)
  show ?case
  proof (cases "low < high")
    case False
    have "\<not> (r_start (ms ! i) \<le> pc \<and> pc \<le> r_end (ms ! i))" if "i < length ms" for i
      using less.prems(3,4) that False by (cases "i < low") auto
    then have "\<not> (\<exists>rp\<in>set ms. r_start rp \<le> pc \<and> pc \<le> r_end rp)" by (metis in_set_conv_nth)
    then show ?thesis using False by (subst range_loop.simps) simp
  next
    case True
    then have mid: "low \<le> mid" "mid < high" "mid < length ms" using less.prems(1,2) by simp_all
    consider "pc < r_start (ms ! mid)" | "r_end (ms ! mid) < pc" | "r_start (ms ! mid) \<le> pc" "pc \<le> r_end (ms ! mid)"
      by fastforce
    then show ?thesis
    proof cases
      case 1
      have "\<forall>i<length ms. mid \<le> i \<longrightarrow> pc < r_start (ms ! i)"
      proof (intro allI impI)
        fix i assume i: "i < length ms" "mid \<le> i"
        show "pc < r_start (ms ! i)"
        proof (cases "i = mid")
          case False
          then have "r_end (ms ! mid) < r_start (ms ! i)" using i order [of mid i] by simp
          with range [OF mid(3)] have "r_start (ms ! mid) < r_start (ms ! i)" by (rule order_le_less_trans)
          with 1 show ?thesis by (rule less_trans)
        qed (use 1 in simp)
      qed
      moreover have "low < mid \<longrightarrow> low \<le> low + (mid - low) div 2 \<and> low + (mid - low) div 2 < mid" by auto
      moreover have "range_loop ms pc low high mid = range_loop ms pc low mid (low + (mid - low) div 2)"
        by (subst range_loop.simps) (simp add: True mid 1)
      ultimately show ?thesis using less.hyps [of mid low] less.prems(3) mid by simp
    next
      case 2
      have "\<forall>i<Suc mid. i < length ms \<longrightarrow> r_end (ms ! i) < pc"
      proof (intro allI impI)
        fix i assume i: "i < Suc mid" "i < length ms"
        show "r_end (ms ! i) < pc"
        proof (cases "i = mid")
          case False
          then have "r_end (ms ! i) < r_start (ms ! mid)" using i order [of i mid] mid(3) by simp
          with range [OF mid(3)] have "r_end (ms ! i) < r_end (ms ! mid)" by (rule order_less_le_trans [rotated])
          then show ?thesis using 2 by (rule less_trans)
        qed (use 2 in simp)
      qed
      moreover have "Suc mid < high \<longrightarrow> Suc mid \<le> Suc mid + (high - Suc mid) div 2 \<and> Suc mid + (high - Suc mid) div 2 < high" by auto
      moreover have "\<not> pc < r_start (ms ! mid)" using 2 range [OF mid(3)] by simp
      then have "range_loop ms pc low high mid = range_loop ms pc (Suc mid) high (Suc mid + (high - Suc mid) div 2)"
        by (subst range_loop.simps) (simp add: True mid 2)
      ultimately show ?thesis using less.hyps [of high "Suc mid"] less.prems(1,4) mid by simp
    next
      case 3
      then have "\<not> pc < r_start (ms ! mid)" "\<not> r_end (ms ! mid) < pc" by simp_all
      then have "range_loop ms pc low high mid = Some (Inr (Some mid))"
        by (subst range_loop.simps) (simp add: True mid)
      then show ?thesis using 3 mid by simp
    qed
  qed
qed

lemma search_table_ok:
  assumes "high < length tab" and "low \<le> high"
  shows "case search_table tab pc low high of
      Some i \<Rightarrow> low \<le> i \<and> i < high \<and> tab ! i \<le> pc \<and> pc < tab ! (i + 1)
    | None \<Rightarrow> pc < tab ! low \<or> tab ! high \<le> pc \<or> low = high"
  using assms
proof (induction tab pc low high rule: search_table.induct)
  case (1 tab pc low high)
  let ?mid = "low + (high - low) div 2"
  show ?case
  proof (cases "low < high")
    case False
    then show ?thesis using 1(4) by (subst search_table.simps) simp
  next
    case True
    then have mid: "low \<le> ?mid" "?mid < high" by auto
    consider "pc < tab ! ?mid" | "\<not> pc < tab ! ?mid" "pc < tab ! (?mid + 1)" | "\<not> pc < tab ! ?mid" "\<not> pc < tab ! (?mid + 1)"
      by blast
    then show ?thesis
    proof cases
      case below: 1
      have step: "search_table tab pc low high = search_table tab pc low ?mid"
        by (subst search_table.simps) (simp add: True below Let_def)
      have "case search_table tab pc low ?mid of
          Some i \<Rightarrow> low \<le> i \<and> i < ?mid \<and> tab ! i \<le> pc \<and> pc < tab ! (i + 1)
        | None \<Rightarrow> pc < tab ! low \<or> tab ! ?mid \<le> pc \<or> low = ?mid"
        using 1(1) [OF True refl below] 1(3) mid by simp
      then show ?thesis unfolding step using below mid by (cases "search_table tab pc low ?mid") auto
    next
      case here: 2
      have "search_table tab pc low high = Some ?mid"
        by (subst search_table.simps) (use True here in \<open>simp add: Let_def\<close>)
      then show ?thesis using here mid by simp
    next
      case above: 3
      have step: "search_table tab pc low high = search_table tab pc (?mid + 1) high"
        by (subst search_table.simps) (use True above in \<open>simp add: Let_def\<close>)
      have "case search_table tab pc (?mid + 1) high of
          Some i \<Rightarrow> ?mid + 1 \<le> i \<and> i < high \<and> tab ! i \<le> pc \<and> pc < tab ! (i + 1)
        | None \<Rightarrow> pc < tab ! (?mid + 1) \<or> tab ! high \<le> pc \<or> ?mid + 1 = high"
        using 1(2) [OF True refl above] 1(3) mid by simp
      then show ?thesis unfolding step using above mid
        by (cases "search_table tab pc (?mid + 1) high") (auto simp: not_less)
    qed
  qed
qed

subsection \<open>The tables of the three indices\<close>

definition table_ok :: "ranges \<Rightarrow> bool" where
  "table_ok rs \<longleftrightarrow> (case r_modules rs of
       None \<Rightarrow> True
     | Some ms \<Rightarrow> r_n rs = length ms \<and> ranges_ok ms \<and> length ms \<le> r_allocated rs \<and> (ms \<noteq> [] \<longrightarrow> r_mid rs < length ms))"

definition readable :: "ranges \<Rightarrow> bool" where
  "readable rs \<longleftrightarrow> (r_modules rs = None \<longrightarrow> r_n rs = 0)"

definition module_list :: "ranges \<Rightarrow> range list" where
  "module_list rs = (case r_modules rs of None \<Rightarrow> [] | Some ms \<Rightarrow> ms)"

text \<open>The ranges of the modules that are loaded, without the purged ones.\<close>

definition loaded :: "ranges \<Rightarrow> range set" where
  "loaded rs = {rp \<in> set (module_list rs). live rp}"

definition table_mem :: "ranges \<Rightarrow> int" where
  "table_mem rs = (if r_modules rs = None then 0 else int (r_allocated rs))"

definition total_mem :: "(nat \<Rightarrow> ranges) \<Rightarrow> int" where
  "total_mem t = table_mem (t 0) + table_mem (t 1) + table_mem (t 2)"

definition ranges_inv :: "nat \<Rightarrow> code_ranges \<Rightarrow> bool" where
  "ranges_inv active s \<longleftrightarrow> (\<forall>ix. table_ok (r_table s ix)) \<and> readable (r_table s active) \<and> mem_used s = total_mem (r_table s)"

lemma total_mem_upd: "ix < ERTS_NUM_CODE_IX \<Longrightarrow> total_mem (t(ix := rs)) = total_mem t - table_mem (t ix) + table_mem rs"
  by (auto simp: total_mem_def ERTS_NUM_CODE_IX_def less_Suc_eq numeral_3_eq_3)

lemma total_mem_same: "table_mem rs = table_mem (t ix) \<Longrightarrow> total_mem (t(ix := rs)) = total_mem t"
  by (simp add: total_mem_def)

lemma table_mem_sel [simp]:
  "table_mem (rs\<lparr>r_modules := None\<rparr>) = 0" "table_mem (new_table a ms) = int a" "table_mem (rs\<lparr>r_mid := i\<rparr>) = table_mem rs"
  by (simp_all add: table_mem_def new_table_def)

lemma table_ok_None [simp]: "table_ok (rs\<lparr>r_modules := None\<rparr>)"
  by (simp add: table_ok_def)

lemma table_ok_new: "ranges_ok ms \<Longrightarrow> length ms \<le> a \<Longrightarrow> table_ok (new_table a ms)"
  by (auto simp: table_ok_def new_table_def)

lemma new_table_sel [simp]:
  "r_modules (new_table a ms) = Some ms" "module_list (new_table a ms) = ms" "readable (new_table a ms)"
  by (simp_all add: new_table_def module_list_def readable_def)

lemma read_modules_ok: "table_ok rs \<Longrightarrow> readable rs \<Longrightarrow> read_modules rs = Inr (module_list rs)"
  by (auto simp: read_modules_def table_ok_def readable_def module_list_def split: option.splits)

lemma module_list_ok: "table_ok rs \<Longrightarrow> ranges_ok (module_list rs)"
  by (auto simp: table_ok_def module_list_def split: option.splits)

lemma module_list_n: "table_ok rs \<Longrightarrow> readable rs \<Longrightarrow> r_n rs = length (module_list rs)"
  by (auto simp: table_ok_def readable_def module_list_def split: option.splits)

lemma mid_ok: "table_ok rs \<Longrightarrow> module_list rs \<noteq> [] \<Longrightarrow> r_mid rs < length (module_list rs)"
  by (auto simp: table_ok_def module_list_def split: option.splits)

lemma init_inv: "ranges_inv active erts_init_ranges"
  by (simp add: ranges_inv_def erts_init_ranges_def table_ok_def readable_def total_mem_def table_mem_def)

lemma free_modules_ok:
  assumes "ranges_inv active s" and "ix < ERTS_NUM_CODE_IX" and "ix \<noteq> active"
  shows "ranges_inv active (free_modules ix s) \<and> r_modules (r_table (free_modules ix s) ix) = None \<and>
    (\<forall>j. j \<noteq> ix \<longrightarrow> r_table (free_modules ix s) j = r_table s j)"
proof (cases "r_modules (r_table s ix) = None")
  case True
  then show ?thesis using assms(1) by (simp add: free_modules_def)
next
  case False
  then have "table_mem (r_table s ix) = int (r_allocated (r_table s ix))" by (auto simp: table_mem_def)
  then show ?thesis using False assms by (simp add: free_modules_def ranges_inv_def total_mem_upd)
qed

lemma end_staging_ok:
  assumes "ranges_inv active s" and "dst < ERTS_NUM_CODE_IX" and "dst \<noteq> active"
  shows "\<exists>s'. erts_end_staging_ranges commit active dst s = Inr s' \<and> ranges_inv active s' \<and>
    (\<forall>j. j \<noteq> dst \<longrightarrow> r_table s' j = r_table s j) \<and>
    (commit \<longrightarrow> readable (r_table s' dst) \<and>
       loaded (r_table s' dst) = (if r_modules (r_table s dst) = None then loaded (r_table s active) else loaded (r_table s dst)))"
proof (cases "commit \<and> r_modules (r_table s dst) = None")
  case False
  then show ?thesis using assms(1) by (auto simp: erts_end_staging_ranges_def readable_def)
next
  case True
  have a: "table_ok (r_table s active)" "readable (r_table s active)" "table_mem (r_table s dst) = 0"
    using assms(1) True by (simp_all add: ranges_inv_def table_mem_def)
  let ?ms = "filter live (module_list (r_table s active))"
  let ?s = "s\<lparr>mem_used := mem_used s + int (r_n (r_table s active)), r_table := (r_table s)(dst := new_table (r_n (r_table s active)) ?ms)\<rparr>"
  have "erts_end_staging_ranges commit active dst s = Inr ?s"
    using True read_modules_ok [OF a(1,2)] by (simp add: erts_end_staging_ranges_def)
  moreover have "table_ok (new_table (r_n (r_table s active)) ?ms)"
    using module_list_ok [OF a(1)] by (intro table_ok_new ranges_ok_filter) (simp_all add: module_list_n [OF a(1,2)])
  then have "ranges_inv active ?s" using assms a(3) by (simp add: ranges_inv_def total_mem_upd)
  moreover have "loaded (new_table (r_n (r_table s active)) ?ms) = loaded (r_table s active)"
    by (auto simp: loaded_def)
  ultimately show ?thesis using True by (intro exI [of _ ?s]) simp
qed

text \<open>Loading a module when the active and the staging index differ, as after the start of the system.\<close>

lemma update_ranges_ok:
  assumes "ranges_inv active s" and "dst < ERTS_NUM_CODE_IX" and "dst \<noteq> active" and "r_modules (r_table s dst) = None"
    and "code < code + sz" and "\<forall>rp\<in>loaded (r_table s active). apart rp \<lparr>r_start = code, r_end = code + sz\<rparr>"
  shows "\<exists>s'. erts_update_ranges code sz active dst s = Inr s' \<and> ranges_inv active s' \<and>
    (\<forall>j. j \<noteq> dst \<longrightarrow> r_table s' j = r_table s j) \<and> r_modules (r_table s' dst) \<noteq> None \<and>
    loaded (r_table s' dst) = insert \<lparr>r_start = code, r_end = code + sz\<rparr> (loaded (r_table s active))"
proof -
  let ?new = "\<lparr>r_start = code, r_end = code + sz\<rparr>"
  have a: "table_ok (r_table s active)" "readable (r_table s active)" "table_mem (r_table s dst) = 0"
    using assms(1,4) by (simp_all add: ranges_inv_def table_mem_def)
  let ?ms = "module_list (r_table s active)"
  let ?t = "new_table (r_n (r_table s active) + 1) (update_modules ?new ?ms)"
  let ?s = "s\<lparr>mem_used := mem_used s + int (r_n (r_table s active) + 1), r_table := (r_table s)(dst := ?t)\<rparr>"
  have u: "ranges_ok (update_modules ?new ?ms)" "set (update_modules ?new ?ms) = insert ?new (loaded (r_table s active))"
      "length (update_modules ?new ?ms) \<le> Suc (length ?ms)"
    using update_modules_ok [of ?ms ?new] module_list_ok [OF a(1)] assms(5,6) by (auto simp: loaded_def less_imp_le)
  have "erts_update_ranges code sz active dst s = Inr ?s"
    using assms(3) read_modules_ok [OF a(1,2)] by (auto simp: erts_update_ranges_def Let_def)
  moreover have "table_ok ?t" using u by (intro table_ok_new) (simp_all add: module_list_n [OF a(1,2)])
  then have "ranges_inv active ?s" using assms a(3) by (simp add: ranges_inv_def total_mem_upd)
  moreover have "live ?new" using assms(5) by (simp add: live_def)
  then have "loaded ?t = insert ?new (loaded (r_table s active))" using u(2) by (auto simp: loaded_def)
  ultimately show ?thesis by (intro exI [of _ ?s]) simp
qed

text \<open>Loading a module at the start of the system, when both indices are the same: the new table takes effect at once.\<close>

lemma update_at_start:
  assumes "ranges_inv ix s" and "ix < ERTS_NUM_CODE_IX"
    and "code < code + sz" and "\<forall>rp\<in>loaded (r_table s ix). apart rp \<lparr>r_start = code, r_end = code + sz\<rparr>"
  shows "\<exists>s'. erts_update_ranges code sz ix ix s = Inr s' \<and> ranges_inv ix s' \<and>
    loaded (r_table s' ix) = insert \<lparr>r_start = code, r_end = code + sz\<rparr> (loaded (r_table s ix))"
proof -
  let ?src = "(ix + 1) mod ERTS_NUM_CODE_IX"
  have "ix = 0 \<or> ix = 1 \<or> ix = 2" using assms(2) unfolding ERTS_NUM_CODE_IX_def by arith
  then have src: "?src \<noteq> ix" "?src < ERTS_NUM_CODE_IX" by (auto simp: ERTS_NUM_CODE_IX_def)
  let ?s1 = "free_modules ?src s"
  have s1: "ranges_inv ix ?s1" "r_modules (r_table ?s1 ?src) = None" "r_table ?s1 ix = r_table s ix"
    using free_modules_ok [OF assms(1) src(2,1)] src(1) by auto
  let ?s2 = "?s1\<lparr>r_table := (r_table ?s1)(?src := r_table ?s1 ix, ix := (r_table ?s1 ix)\<lparr>r_modules := None\<rparr>)\<rparr>"
  have "table_mem (r_table ?s1 ?src) = 0" using s1(2) by (simp add: table_mem_def)
  then have "total_mem (r_table ?s2) = total_mem (r_table ?s1)"
    using src assms(2) by (simp add: total_mem_upd)
  then have s2: "ranges_inv ?src ?s2" using s1(1) src(1) by (simp add: ranges_inv_def)
  have "erts_update_ranges code sz ix ix s = erts_update_ranges code sz ?src ix ?s2"
    using src(1) by (simp add: erts_update_ranges_def Let_def)
  moreover have "\<exists>s'. erts_update_ranges code sz ?src ix ?s2 = Inr s' \<and> ranges_inv ?src s' \<and>
    (\<forall>j. j \<noteq> ix \<longrightarrow> r_table s' j = r_table ?s2 j) \<and> r_modules (r_table s' ix) \<noteq> None \<and>
    loaded (r_table s' ix) = insert \<lparr>r_start = code, r_end = code + sz\<rparr> (loaded (r_table ?s2 ?src))"
    using s2 src assms(2-4) s1(3) by (intro update_ranges_ok) simp_all
  ultimately show ?thesis using src(1) s1(3) by (auto simp: ranges_inv_def readable_def)
qed

lemma find_range_ok:
  assumes "ranges_inv active s"
  shows "\<exists>found s'. find_range pc active s = Some (Inr (found, s')) \<and> ranges_inv active s' \<and>
    (\<forall>j. j \<noteq> active \<longrightarrow> r_table s' j = r_table s j) \<and> r_modules (r_table s' active) = r_modules (r_table s active) \<and>
    (case found of
       Some i \<Rightarrow> i < length (module_list (r_table s active)) \<and>
         r_start (module_list (r_table s active) ! i) \<le> pc \<and> pc \<le> r_end (module_list (r_table s active) ! i)
     | None \<Rightarrow> \<not> (\<exists>rp\<in>set (module_list (r_table s active)). r_start rp \<le> pc \<and> pc \<le> r_end rp))"
proof -
  let ?rs = "r_table s active"
  let ?ms = "module_list ?rs"
  have a: "table_ok ?rs" "readable ?rs" using assms by (simp_all add: ranges_inv_def)
  obtain res where res: "range_loop ?ms pc 0 (length ?ms) (r_mid ?rs) = Some (Inr res)"
    "case res of
       Some i \<Rightarrow> i < length ?ms \<and> r_start (?ms ! i) \<le> pc \<and> pc \<le> r_end (?ms ! i)
     | None \<Rightarrow> \<not> (\<exists>rp\<in>set ?ms. r_start rp \<le> pc \<and> pc \<le> r_end rp)"
    using range_loop_ok [OF module_list_ok [OF a(1)] order_refl, of 0 "r_mid ?rs" pc] mid_ok [OF a(1)] by auto
  show ?thesis
  proof (cases res)
    case None
    then show ?thesis using res assms by (simp add: find_range_def read_modules_ok [OF a])
  next
    case (Some i)
    let ?s = "s\<lparr>r_table := (r_table s)(active := ?rs\<lparr>r_mid := i\<rparr>)\<rparr>"
    have i: "i < length ?ms" using res(2) Some by simp
    then have "table_ok (?rs\<lparr>r_mid := i\<rparr>)"
      using a(1) by (auto simp: table_ok_def module_list_def split: option.splits)
    moreover have "total_mem (r_table ?s) = total_mem (r_table s)" by (simp add: total_mem_same)
    ultimately have "ranges_inv active ?s" using assms by (simp add: ranges_inv_def readable_def)
    then show ?thesis using res Some by (simp add: find_range_def read_modules_ok [OF a])
  qed
qed

lemma found_unique:
  assumes "ranges_ok ms" and "i < length ms" and "j < length ms"
    and "r_start (ms ! i) \<le> pc \<and> pc \<le> r_end (ms ! i)" and "r_start (ms ! j) \<le> pc \<and> pc \<le> r_end (ms ! j)"
  shows "i = j"
proof (rule ccontr)
  assume "i \<noteq> j"
  then have "r_end (ms ! i) < r_start (ms ! j) \<or> r_end (ms ! j) < r_start (ms ! i)"
    using assms(1-3) unfolding ranges_ok_def sorted_wrt_iff_nth_less by (metis nat_neq_iff)
  then show False using assms(4,5) by auto
qed

lemma remove_range_ok:
  assumes "ranges_inv active s" and "rp \<in> loaded (r_table s active)"
  shows "\<exists>s'. erts_remove_from_ranges (r_start rp) active s = Some (Inr s') \<and> ranges_inv active s' \<and>
    (\<forall>j. j \<noteq> active \<longrightarrow> r_table s' j = r_table s j) \<and> loaded (r_table s' active) = loaded (r_table s active) - {rp}"
proof -
  let ?ms = "module_list (r_table s active)"
  have ms: "ranges_ok ?ms" using assms(1) by (simp add: ranges_inv_def module_list_ok)
  obtain k where k: "k < length ?ms" "rp = ?ms ! k" "live rp" using assms(2) by (auto simp: loaded_def in_set_conv_nth)
  have in_k: "r_start (?ms ! k) \<le> r_start rp \<and> r_start rp \<le> r_end (?ms ! k)" using k(2,3) by (simp add: live_def)
  obtain found s1 where f: "find_range (r_start rp) active s = Some (Inr (found, s1))" "ranges_inv active s1"
    "\<forall>j. j \<noteq> active \<longrightarrow> r_table s1 j = r_table s j" "r_modules (r_table s1 active) = r_modules (r_table s active)"
    "case found of
       Some i \<Rightarrow> i < length ?ms \<and> r_start (?ms ! i) \<le> r_start rp \<and> r_start rp \<le> r_end (?ms ! i)
     | None \<Rightarrow> \<not> (\<exists>q\<in>set ?ms. r_start q \<le> r_start rp \<and> r_start rp \<le> r_end q)"
    using find_range_ok [OF assms(1), of "r_start rp"] by blast
  have "found = Some k"
  proof (cases found)
    case None
    then show ?thesis using f(5) in_k k(1) nth_mem by fastforce
  next
    case (Some i)
    then show ?thesis using found_unique [OF ms _ k(1) _ in_k, of i] f(5) by simp
  qed
  let ?rs = "purge_entry k (r_table s1 active)"
  let ?s = "s1\<lparr>r_table := (r_table s1)(active := ?rs)\<rparr>"
  have ml: "module_list (r_table s1 active) = ?ms" using f(4) by (simp add: module_list_def)
  have some: "r_modules (r_table s1 active) = Some ?ms" using ml k(1) by (cases "r_modules (r_table s1 active)") (auto simp: module_list_def)
  have purged: "module_list ?rs = ?ms[k := rp\<lparr>r_end := r_start rp\<rparr>]"
    using some k(2) by (simp add: purge_entry_def module_list_def)
  have le: "r_start (?ms ! k) \<le> r_end (?ms ! k)" using in_k by (meson order_trans)
  have "ranges_ok (?ms[k := rp\<lparr>r_end := r_start rp\<rparr>])"
    unfolding ranges_ok_def sorted_wrt_iff_nth_less
  proof (intro conjI allI impI ballI)
    fix i j assume ij: "i < j" "j < length (?ms[k := rp\<lparr>r_end := r_start rp\<rparr>])"
    then have "r_end (?ms ! i) < r_start (?ms ! j)" using ms by (simp add: ranges_ok_def sorted_wrt_iff_nth_less)
    then show "r_end (?ms[k := rp\<lparr>r_end := r_start rp\<rparr>] ! i) < r_start (?ms[k := rp\<lparr>r_end := r_start rp\<rparr>] ! j)"
      using ij k(1,2) le by (auto simp: nth_list_update)
  next
    fix q assume "q \<in> set (?ms[k := rp\<lparr>r_end := r_start rp\<rparr>])"
    then have "q \<in> insert (rp\<lparr>r_end := r_start rp\<rparr>) (set ?ms)" using set_update_subset_insert by fast
    then show "r_start q \<le> r_end q" using ms by (auto simp: ranges_ok_def)
  qed
  moreover have "table_ok (r_table s1 active)" using f(2) by (simp add: ranges_inv_def)
  ultimately have "table_ok ?rs" using some k(2) by (simp add: table_ok_def purge_entry_def)
  moreover have "total_mem (r_table ?s) = total_mem (r_table s1)"
    by (simp add: total_mem_same table_mem_def purge_entry_def)
  ultimately have "ranges_inv active ?s" using f(2) some by (simp add: ranges_inv_def readable_def purge_entry_def)
  moreover have "loaded ?rs = loaded (r_table s active) - {rp}"
  proof -
    have dead: "\<not> live (rp\<lparr>r_end := r_start rp\<rparr>)" by (simp add: live_def)
    have d: "?ms ! i \<noteq> ?ms ! k" if "i < length ?ms" "i \<noteq> k" for i
      using found_unique [OF ms that(1) k(1) _ in_k] in_k that(2) by auto
    have "q \<in> loaded ?rs \<longleftrightarrow> q \<in> loaded (r_table s active) - {rp}" for q
    proof -
      have "q \<in> loaded ?rs \<longleftrightarrow> (\<exists>i<length ?ms. i \<noteq> k \<and> ?ms ! i = q \<and> live q)"
        unfolding loaded_def purged in_set_conv_nth mem_Collect_eq length_list_update
        by (metis dead k(1) nth_list_update_eq nth_list_update_neq)
      also have "\<dots> \<longleftrightarrow> q \<in> loaded (r_table s active) - {rp}"
        unfolding loaded_def in_set_conv_nth using d k(2) by auto
      finally show ?thesis .
    qed
    then show ?thesis by blast
  qed
  moreover have "erts_remove_from_ranges (r_start rp) active s = Some (Inr ?s)"
    using f(1) \<open>found = Some k\<close> by (simp add: erts_remove_from_ranges_def)
  ultimately show ?thesis using f(3) by (intro exI [of _ ?s]) simp
qed

subsection \<open>Functions and lines of an address\<close>

text \<open>
  The tables of a module: the addresses of its functions ascend, and every function has its part of the table of lines.
\<close>

definition memory_ok :: "code_memory \<Rightarrow> Uint \<Rightarrow> bool" where
  "memory_ok mem modp \<longleftrightarrow> mi_functions mem modp \<noteq> [] \<and> sorted_wrt (\<le>) (mi_functions mem modp) \<and>
     (case mi_line_table mem modp of
        None \<Rightarrow> True
      | Some line \<Rightarrow> length (mi_functions mem modp) \<le> length (func_tab line) \<and> sorted_wrt (\<le>) (func_tab line) \<and>
          last (func_tab line) < length (line_items line) \<and> sorted_wrt (\<le>) (line_items line))"

lemma table_unique:
  fixes tab :: "Uint list"
  assumes "sorted_wrt (\<le>) tab" and "i + 1 < length tab" and "j + 1 < length tab"
    and "tab ! i \<le> pc \<and> pc < tab ! (i + 1)" and "tab ! j \<le> pc \<and> pc < tab ! (j + 1)"
  shows "i = j"
proof (rule ccontr)
  assume "i \<noteq> j"
  then consider "i + 1 \<le> j" | "j + 1 \<le> i" by linarith
  then show False
  proof cases
    case 1
    then have "tab ! (i + 1) \<le> tab ! j" using assms(1,3) by (cases "i + 1 = j") (simp_all add: sorted_wrt_iff_nth_less)
    then show ?thesis using assms(4,5) by (meson leD less_le_trans order_trans)
  next
    case 2
    then have "tab ! (j + 1) \<le> tab ! i" using assms(1,2) by (cases "j + 1 = i") (simp_all add: sorted_wrt_iff_nth_less)
    then show ?thesis using assms(4,5) by (meson leD less_le_trans order_trans)
  qed
qed

lemma search_table_iff:
  assumes "sorted_wrt (\<le>) tab" and "high < length tab" and "low \<le> i" and "i < high"
  shows "search_table tab pc low high = Some i \<longleftrightarrow> tab ! i \<le> pc \<and> pc < tab ! (i + 1)"
proof
  assume "search_table tab pc low high = Some i"
  then show "tab ! i \<le> pc \<and> pc < tab ! (i + 1)" using search_table_ok [of high tab low pc] assms by simp
next
  assume here: "tab ! i \<le> pc \<and> pc < tab ! (i + 1)"
  have "tab ! low \<le> tab ! i" using assms by (cases "low = i") (simp_all add: sorted_wrt_iff_nth_less)
  moreover have "tab ! (i + 1) \<le> tab ! high" using assms by (cases "i + 1 = high") (simp_all add: sorted_wrt_iff_nth_less)
  ultimately have n: "\<not> pc < tab ! low" "\<not> tab ! high \<le> pc" using here by (auto simp: not_less not_le intro: order_trans less_le_trans)
  then show "search_table tab pc low high = Some i"
    using search_table_ok [of high tab low pc] assms here table_unique [OF assms(1), of _ i pc]
    by (auto split: option.splits)
qed

lemma lookup_loc_current [simp]: "fi_current (lookup_loc mem fi pc modp idx) = fi_current fi"
  by (simp add: lookup_loc_def Let_def split: option.split)

lemma lookup_loc_ok:
  assumes "memory_ok mem modp" and "idx + 1 < length (mi_functions mem modp)" and "mi_line_table mem modp = Some line"
    and "func_tab line ! idx \<le> j" and "j < func_tab line ! (idx + 1)"
    and "line_items line ! j \<le> pc \<and> pc < line_items line ! (j + 1)"
  shows "fi_loc (lookup_loc mem fi pc modp idx) = loc_tab line ! (j - func_tab line ! 0)"
proof -
  have l: "idx + 1 < length (func_tab line)" "sorted_wrt (\<le>) (func_tab line)"
      "last (func_tab line) < length (line_items line)" "sorted_wrt (\<le>) (line_items line)"
    using assms(1-3) by (simp_all add: memory_ok_def)
  then have ne: "func_tab line \<noteq> []" by auto
  have "func_tab line ! (idx + 1) \<le> last (func_tab line)"
  proof (cases "idx + 1 = length (func_tab line) - 1")
    case False
    then have "idx + 1 < length (func_tab line) - 1" using l(1) by linarith
    then show ?thesis using l(2) unfolding last_conv_nth [OF ne] by (simp add: sorted_wrt_iff_nth_less)
  qed (simp add: last_conv_nth [OF ne])
  then have "func_tab line ! (idx + 1) < length (line_items line)" using l(3) by simp
  then have "search_table (line_items line) pc (func_tab line ! idx) (func_tab line ! (idx + 1)) = Some j"
    using search_table_iff [OF l(4) _ assms(4,5)] assms(6) by blast
  then show ?thesis by (simp add: lookup_loc_def assms(3) Let_def)
qed

lemma lookup_function_ok:
  assumes "ranges_inv active s" and "rp \<in> loaded (r_table s active)" and "memory_ok mem (r_start rp)"
    and "r_start rp \<le> pc" and "pc \<le> r_end rp"
  obtains fi s' where "erts_lookup_function_info mem pc full active s = Some (Inr (fi, s'))"
    and "ranges_inv active s'" and "r_modules (r_table s' active) = r_modules (r_table s active)"
    and "case search_table (mi_functions mem (r_start rp)) pc 0 (length (mi_functions mem (r_start rp)) - 1) of
        None \<Rightarrow> fi_current fi = None
      | Some idx \<Rightarrow> fi_current fi = Some (mi_functions mem (r_start rp) ! idx + 16) \<and>
          (full \<longrightarrow> (\<exists>fi0. fi = lookup_loc mem fi0 pc (r_start rp) idx))"
proof -
  let ?ms = "module_list (r_table s active)"
  have ms: "ranges_ok ?ms" using assms(1) by (simp add: ranges_inv_def module_list_ok)
  obtain k where k: "k < length ?ms" "rp = ?ms ! k" using assms(2) by (auto simp: loaded_def in_set_conv_nth)
  obtain found s1 where f: "find_range pc active s = Some (Inr (found, s1))" "ranges_inv active s1"
    "r_modules (r_table s1 active) = r_modules (r_table s active)"
    "case found of
       Some i \<Rightarrow> i < length ?ms \<and> r_start (?ms ! i) \<le> pc \<and> pc \<le> r_end (?ms ! i)
     | None \<Rightarrow> \<not> (\<exists>q\<in>set ?ms. r_start q \<le> pc \<and> pc \<le> r_end q)"
    using find_range_ok [OF assms(1), of pc] by blast
  have "found = Some k"
  proof (cases found)
    case None
    then show ?thesis using f(4) assms(4,5) k nth_mem by fastforce
  next
    case (Some i)
    then show ?thesis using found_unique [OF ms _ k(1), of i pc] f(4) assms(4,5) k(2) by simp
  qed
  have rp: "the (r_modules (r_table s1 active)) ! k = rp"
    using f(3) k by (cases "r_modules (r_table s active)") (auto simp: module_list_def)
  let ?fp = "mi_functions mem (r_start rp)" and ?fi = "\<lparr>fi_current = None, fi_needed = 5, fi_loc = LINE_INVALID_LOCATION\<rparr>"
  show thesis
  proof (cases "search_table ?fp pc 0 (length ?fp - 1)")
    case None
    then have "erts_lookup_function_info mem pc full active s = Some (Inr (?fi, s1))"
      using f(1) \<open>found = Some k\<close> rp by (simp add: erts_lookup_function_info_def Let_def)
    then show thesis using f(2,3) None by (intro that [of ?fi s1]) simp_all
  next
    case (Some idx)
    let ?fi1 = "?fi\<lparr>fi_current := Some (?fp ! idx + 16)\<rparr>"
    have "erts_lookup_function_info mem pc full active s =
        Some (Inr (if full then lookup_loc mem ?fi1 pc (r_start rp) idx else ?fi1, s1))"
      using f(1) \<open>found = Some k\<close> rp Some by (simp add: erts_lookup_function_info_def Let_def)
    then show thesis using f(2,3) Some
      by (intro that [of "if full then lookup_loc mem ?fi1 pc (r_start rp) idx else ?fi1" s1]) auto
  qed
qed

subsection \<open>Properties\<close>

lemma lookup_nothing:
  assumes "ranges_inv active s"
    and "\<not> (\<exists>rp\<in>set (module_list (r_table s active)). r_start rp \<le> pc \<and> pc \<le> r_end rp)"
  shows "\<exists>fi. erts_lookup_function_info mem pc full active s = Some (Inr (fi, s)) \<and>
    fi_current fi = None \<and> fi_loc fi = LINE_INVALID_LOCATION"
proof -
  obtain found s1 where f: "find_range pc active s = Some (Inr (found, s1))"
    "case found of
       Some i \<Rightarrow> i < length (module_list (r_table s active)) \<and>
         r_start (module_list (r_table s active) ! i) \<le> pc \<and> pc \<le> r_end (module_list (r_table s active) ! i)
     | None \<Rightarrow> \<not> (\<exists>rp\<in>set (module_list (r_table s active)). r_start rp \<le> pc \<and> pc \<le> r_end rp)"
    using find_range_ok [OF assms(1), of pc] by blast
  have "found = None" using f(2) assms(2) nth_mem by (cases found) fastforce+
  moreover have "s1 = s"
  proof (cases "read_modules (r_table s active)")
    case (Inr ms)
    then obtain z where z: "range_loop ms pc 0 (length ms) (r_mid (r_table s active)) = Some z"
        "map_sum id (\<lambda>found. (found, case found of None \<Rightarrow> s
          | Some i \<Rightarrow> s\<lparr>r_table := (r_table s)(active := (r_table s active)\<lparr>r_mid := i\<rparr>)\<rparr>)) z = Inr (None, s1)"
      using f(1) \<open>found = None\<close> by (auto simp: find_range_def)
    then show ?thesis by (cases z) auto
  qed (use f(1) in \<open>simp add: find_range_def\<close>)
  ultimately show ?thesis using f(1) by (simp add: erts_lookup_function_info_def Let_def)
qed

text \<open>
  C37: the lookup of an address in a loaded module always returns, and finds the function whose part of the code the
  address is in, if there is one; with full information, also the entry of the line table for it. The tables stay as
  they are, but for the cached start of the search. An address that is in no entry of the table has no function.
\<close>

theorem function_of_address:
  assumes "ranges_inv active s" and "\<forall>rp\<in>loaded (r_table s active). memory_ok mem (r_start rp)"
  shows "(\<forall>rp\<in>loaded (r_table s active). r_start rp \<le> pc \<and> pc \<le> r_end rp \<longrightarrow>
      (\<exists>fi s'. erts_lookup_function_info mem pc full active s = Some (Inr (fi, s')) \<and> ranges_inv active s' \<and>
        r_modules (r_table s' active) = r_modules (r_table s active) \<and>
        (case fi_current fi of
           None \<Rightarrow> \<not> (\<exists>i. i + 1 < length (mi_functions mem (r_start rp)) \<and>
             mi_functions mem (r_start rp) ! i \<le> pc \<and> pc < mi_functions mem (r_start rp) ! (i + 1))
         | Some fun \<Rightarrow> \<exists>i. i + 1 < length (mi_functions mem (r_start rp)) \<and>
             mi_functions mem (r_start rp) ! i \<le> pc \<and> pc < mi_functions mem (r_start rp) ! (i + 1) \<and>
             fun = mi_functions mem (r_start rp) ! i + 16 \<and>
             (full \<longrightarrow> (\<forall>line j. mi_line_table mem (r_start rp) = Some line \<and>
                func_tab line ! i \<le> j \<and> j < func_tab line ! (i + 1) \<and>
                line_items line ! j \<le> pc \<and> pc < line_items line ! (j + 1) \<longrightarrow>
                fi_loc fi = loc_tab line ! (j - func_tab line ! 0)))))) \<and>
    ((\<forall>rp\<in>set (module_list (r_table s active)). \<not> (r_start rp \<le> pc \<and> pc \<le> r_end rp)) \<longrightarrow>
      (\<exists>fi. erts_lookup_function_info mem pc full active s = Some (Inr (fi, s)) \<and>
        fi_current fi = None \<and> fi_loc fi = LINE_INVALID_LOCATION))"
proof (intro conjI ballI impI)
  fix rp assume rp: "rp \<in> loaded (r_table s active)" and pc: "r_start rp \<le> pc \<and> pc \<le> r_end rp"
  let ?fp = "mi_functions mem (r_start rp)"
  have m: "memory_ok mem (r_start rp)" using assms(2) rp by blast
  then have fp: "length ?fp - 1 < length ?fp" "sorted_wrt (\<le>) ?fp" by (simp_all add: memory_ok_def)
  obtain fi s' where l: "erts_lookup_function_info mem pc full active s = Some (Inr (fi, s'))" "ranges_inv active s'"
    "r_modules (r_table s' active) = r_modules (r_table s active)"
    "case search_table ?fp pc 0 (length ?fp - 1) of
        None \<Rightarrow> fi_current fi = None
      | Some idx \<Rightarrow> fi_current fi = Some (?fp ! idx + 16) \<and> (full \<longrightarrow> (\<exists>fi0. fi = lookup_loc mem fi0 pc (r_start rp) idx))"
    using lookup_function_ok [OF assms(1) rp m] pc by blast
  have here: "search_table ?fp pc 0 (length ?fp - 1) = Some i" if "i + 1 < length ?fp" "?fp ! i \<le> pc \<and> pc < ?fp ! (i + 1)" for i
    using that search_table_iff [OF fp(2,1), of 0 i pc] by simp
  show "\<exists>fi s'. erts_lookup_function_info mem pc full active s = Some (Inr (fi, s')) \<and> ranges_inv active s' \<and>
        r_modules (r_table s' active) = r_modules (r_table s active) \<and>
        (case fi_current fi of
           None \<Rightarrow> \<not> (\<exists>i. i + 1 < length ?fp \<and> ?fp ! i \<le> pc \<and> pc < ?fp ! (i + 1))
         | Some fun \<Rightarrow> \<exists>i. i + 1 < length ?fp \<and> ?fp ! i \<le> pc \<and> pc < ?fp ! (i + 1) \<and> fun = ?fp ! i + 16 \<and>
             (full \<longrightarrow> (\<forall>line j. mi_line_table mem (r_start rp) = Some line \<and> func_tab line ! i \<le> j \<and> j < func_tab line ! (i + 1) \<and>
                line_items line ! j \<le> pc \<and> pc < line_items line ! (j + 1) \<longrightarrow> fi_loc fi = loc_tab line ! (j - func_tab line ! 0))))"
  proof (cases "search_table ?fp pc 0 (length ?fp - 1)")
    case None
    then have "fi_current fi = None" using l(4) by simp
    moreover have "\<not> (\<exists>i. i + 1 < length ?fp \<and> ?fp ! i \<le> pc \<and> pc < ?fp ! (i + 1))" using here None by fastforce
    ultimately show ?thesis using l(1-3) by (intro exI [of _ fi] exI [of _ s']) simp
  next
    case (Some i)
    have i: "i + 1 < length ?fp" "?fp ! i \<le> pc \<and> pc < ?fp ! (i + 1)"
      using search_table_ok [OF fp(1), of 0 pc] Some by auto
    have "\<forall>line j. mi_line_table mem (r_start rp) = Some line \<and> func_tab line ! i \<le> j \<and> j < func_tab line ! (i + 1) \<and>
        line_items line ! j \<le> pc \<and> pc < line_items line ! (j + 1) \<longrightarrow> fi_loc fi = loc_tab line ! (j - func_tab line ! 0)"
      if full
      using lookup_loc_ok [OF m i(1)] l(4) Some that by auto
    then show ?thesis using l Some i by (intro exI [of _ fi] exI [of _ s']) auto
  qed
next
  assume "\<forall>rp\<in>set (module_list (r_table s active)). \<not> (r_start rp \<le> pc \<and> pc \<le> r_end rp)"
  then show "\<exists>fi. erts_lookup_function_info mem pc full active s = Some (Inr (fi, s)) \<and>
        fi_current fi = None \<and> fi_loc fi = LINE_INVALID_LOCATION"
    using lookup_nothing [OF assms(1), of pc mem full] by blast
qed

text \<open>One module at 1000, of two functions, each with one line.\<close>

definition one_module :: code_ranges where
  "one_module = erts_init_ranges\<lparr>r_table := (r_table erts_init_ranges)(1 := new_table 1 [\<lparr>r_start = 1000, r_end = 1400\<rparr>]), mem_used := 1\<rparr>"

definition module_memory :: code_memory where
  "module_memory = \<lparr>mi_functions = (\<lambda>_. [1100, 1200, 1400]),
     mi_line_table = (\<lambda>_. Some \<lparr>fname_ptr = [], func_tab = [0, 1, 2], line_items = [1100, 1200, 1400], loc_tab = [11, 12]\<rparr>),
     module_atom = (\<lambda>_. [])\<rparr>"

lemma one_module_inv: "ranges_inv 1 one_module" "loaded (r_table one_module 1) = {\<lparr>r_start = 1000, r_end = 1400\<rparr>}"
  by (auto simp: ranges_inv_def one_module_def erts_init_ranges_def new_table_def table_ok_def readable_def total_mem_def
      table_mem_def ranges_ok_def loaded_def module_list_def live_def)

theorem function_of_address_witness:
  "\<exists>fi s'. erts_lookup_function_info module_memory 1300 True 1 one_module = Some (Inr (fi, s')) \<and> fi_current fi = Some 1216"
proof -
  have m: "\<forall>rp\<in>loaded (r_table one_module 1). memory_ok module_memory (r_start rp)"
    by (simp add: memory_ok_def module_memory_def)
  let ?F = "[1100, 1200, 1400] :: Uint list"
  have mf: "mi_functions module_memory x = ?F" for x by (simp add: module_memory_def)
  have rp: "\<lparr>r_start = 1000, r_end = 1400\<rparr> \<in> loaded (r_table one_module 1)" unfolding one_module_inv(2) by simp
  have pc: "r_start \<lparr>r_start = 1000, r_end = 1400\<rparr> \<le> 1300 \<and> 1300 \<le> r_end \<lparr>r_start = 1000, r_end = 1400\<rparr>" by simp
  obtain fi s' where l: "erts_lookup_function_info module_memory 1300 True 1 one_module = Some (Inr (fi, s'))"
      "case fi_current fi of
         None \<Rightarrow> \<not> (\<exists>i. i + 1 < length ?F \<and> ?F ! i \<le> 1300 \<and> 1300 < ?F ! (i + 1))
       | Some fun \<Rightarrow> \<exists>i. i + 1 < length ?F \<and> ?F ! i \<le> 1300 \<and> 1300 < ?F ! (i + 1) \<and> fun = ?F ! i + 16 \<and>
           (True \<longrightarrow> (\<forall>line j. mi_line_table module_memory 1000 = Some line \<and> func_tab line ! i \<le> j \<and> j < func_tab line ! (i + 1) \<and>
              line_items line ! j \<le> 1300 \<and> 1300 < line_items line ! (j + 1) \<longrightarrow> fi_loc fi = loc_tab line ! (j - func_tab line ! 0)))"
    using function_of_address [OF one_module_inv(1) m, of 1300 True, THEN conjunct1, rule_format, OF rp pc, unfolded mf range.simps] by blast
  have 1: "1 + 1 < length ?F \<and> ?F ! 1 \<le> 1300 \<and> 1300 < ?F ! (1 + 1)" by simp
  have "i = 1" if "i + 1 < length ?F" "?F ! i \<le> 1300" "1300 < ?F ! (i + 1)" for i :: nat
    using that by (cases i) auto
  moreover have "fi_current fi \<noteq> None"
  proof
    assume n: "fi_current fi = None"
    show False using l(2) 1 unfolding n option.case by blast
  qed
  then obtain f where f: "fi_current fi = Some f" by blast
  moreover obtain i where "i + 1 < length ?F" "?F ! i \<le> 1300" "1300 < ?F ! (i + 1)" "f = ?F ! i + 16"
    using l(2) unfolding f option.case by blast
  ultimately have "fi_current fi = Some (?F ! 1 + 16)" by blast
  then show ?thesis using l(1) by auto
qed

text \<open>
  C38: a module whose code overlaps no loaded one is loaded in the staging tables: until they become the active ones,
  the active table stays as it is, and afterwards the new module is among those that are loaded, in a table in which
  addresses are found. Removing it from the active table again leaves the modules there were before.
\<close>

theorem module_loaded_by_commit:
  assumes "ranges_inv active s" and "stg < ERTS_NUM_CODE_IX" and "stg \<noteq> active"
    and "code < code + sz" and "\<forall>rp\<in>loaded (r_table s active). apart rp \<lparr>r_start = code, r_end = code + sz\<rparr>"
  shows "\<exists>s1 s2 s3. erts_update_ranges code sz active stg (erts_start_staging_ranges stg s) = Inr s1 \<and>
    erts_end_staging_ranges True active stg s1 = Inr s2 \<and> r_table s2 active = r_table s active \<and>
    ranges_inv stg s2 \<and> loaded (r_table s2 stg) = insert \<lparr>r_start = code, r_end = code + sz\<rparr> (loaded (r_table s active)) \<and>
    erts_remove_from_ranges code stg s2 = Some (Inr s3) \<and> ranges_inv stg s3 \<and>
    loaded (r_table s3 stg) = loaded (r_table s active)"
proof -
  let ?new = "\<lparr>r_start = code, r_end = code + sz\<rparr>"
  let ?s0 = "erts_start_staging_ranges stg s"
  have s0: "ranges_inv active ?s0" "r_modules (r_table ?s0 stg) = None" "r_table ?s0 active = r_table s active"
    using free_modules_ok [OF assms(1-3)] assms(3) by (simp_all add: erts_start_staging_ranges_def)
  obtain s1 where s1: "erts_update_ranges code sz active stg ?s0 = Inr s1" "ranges_inv active s1"
      "\<forall>j. j \<noteq> stg \<longrightarrow> r_table s1 j = r_table ?s0 j" "r_modules (r_table s1 stg) \<noteq> None"
      "loaded (r_table s1 stg) = insert ?new (loaded (r_table ?s0 active))"
    using update_ranges_ok [OF s0(1) assms(2,3) s0(2) assms(4)] assms(5) s0(3) by auto
  obtain s2 where s2: "erts_end_staging_ranges True active stg s1 = Inr s2" "ranges_inv active s2"
      "\<forall>j. j \<noteq> stg \<longrightarrow> r_table s2 j = r_table s1 j" "readable (r_table s2 stg)" "loaded (r_table s2 stg) = loaded (r_table s1 stg)"
    using end_staging_ok [OF s1(2) assms(2,3), of True] s1(4) by auto
  have inv: "ranges_inv stg s2" using s2(2,4) by (simp add: ranges_inv_def)
  have in2: "?new \<in> loaded (r_table s2 stg)" using s1(5) s2(5) by simp
  obtain s3 where s3: "erts_remove_from_ranges code stg s2 = Some (Inr s3)" "ranges_inv stg s3"
      "loaded (r_table s3 stg) = loaded (r_table s2 stg) - {?new}"
    using remove_range_ok [OF inv in2] by auto
  have "?new \<notin> loaded (r_table s active)" using assms(4,5) by (auto simp: apart_def)
  then have "loaded (r_table s3 stg) = loaded (r_table s active)" using s1(5) s2(5) s3(3) s0(3) by simp
  moreover have "r_table s2 active = r_table s active" using s1(3) s2(3) s0(3) assms(3) by simp
  ultimately show ?thesis using s1(1,5) s2(1,5) s3(1,2) inv s0(3)
    by (intro exI [of _ s1] exI [of _ s2] exI [of _ s3]) simp
qed

theorem module_loaded_by_commit_witness:
  "\<exists>s1 s2. erts_update_ranges 2000 80 1 2 (erts_start_staging_ranges 2 one_module) = Inr s1 \<and>
    erts_end_staging_ranges True 1 2 s1 = Inr s2 \<and>
    loaded (r_table s2 2) = {\<lparr>r_start = 2000, r_end = 2080\<rparr>, \<lparr>r_start = 1000, r_end = 1400\<rparr>}"
proof -
  have apart: "\<forall>rp\<in>loaded (r_table one_module 1). apart rp \<lparr>r_start = 2000, r_end = 2000 + 80\<rparr>"
    unfolding one_module_inv(2) by (simp add: apart_def)
  have ix: "(2 :: nat) < ERTS_NUM_CODE_IX" "(2 :: nat) \<noteq> 1" "(2000 :: Uint) < 2000 + 80" by (simp_all add: ERTS_NUM_CODE_IX_def)
  obtain s1 s2 where s: "erts_update_ranges 2000 80 1 2 (erts_start_staging_ranges 2 one_module) = Inr s1"
      "erts_end_staging_ranges True 1 2 s1 = Inr s2"
      "loaded (r_table s2 2) = insert \<lparr>r_start = 2000, r_end = 2000 + 80\<rparr> (loaded (r_table one_module 1))"
    using module_loaded_by_commit [OF one_module_inv(1) ix apart] by blast
  then show ?thesis unfolding one_module_inv(2) by (intro exI [of _ s1] exI [of _ s2]) simp
qed

end
