(* ===== verification/Beam_Catches.thy ===== *)
theory Beam_Catches
  imports Code_Ranges
begin

section \<open>Catch tags: beam\_catches.c\<close>

text \<open>
  A catch instruction is named in terms by its index in a table, so that it can be found when the stack is unwound.
  The entries of a module are chained by \<open>bc_cdr\<close>, and so are the free ones of a pool. The three pools, one for each
  code index, can share one vector of entries, so the vectors are in a store; None is one that was freed.
\<close>

subsection \<open>Definitions\<close>

record beam_catch =
  bc_cp :: Uint
  bc_cdr :: Uint32

record bc_pool =
  bc_free_list :: Uint32
  bc_high_mark :: nat
  bc_tabsize :: nat
  bc_vec :: nat

record catches =
  bccix :: "nat \<Rightarrow> bc_pool"
  vecs :: "nat \<Rightarrow> beam_catch list option"
  next_vec :: nat

datatype catch_error = Index_out_of_range nat | Cp_not_in_module nat | Freed_vector

definition DEFAULT_TABSIZE :: nat where
  "DEFAULT_TABSIZE = 1024"

definition BEAM_CATCHES_NIL :: Uint32 where
  "BEAM_CATCHES_NIL = - 1"

text \<open>The new vector has any content.\<close>

definition beam_catches_init :: "beam_catch list \<Rightarrow> catches" where
  "beam_catches_init junk =
     \<lparr>bccix = (\<lambda>_. \<lparr>bc_free_list = - 1, bc_high_mark = 0, bc_tabsize = DEFAULT_TABSIZE, bc_vec = 0\<rparr>),
      vecs = (\<lambda>a. if a = 0 then Some (take DEFAULT_TABSIZE junk) else None), next_vec = 1\<rparr>"

definition gc_old_vec :: "nat \<Rightarrow> catches \<Rightarrow> catches" where
  "gc_old_vec vec s =
     (if list_ex (\<lambda>i. bc_vec (bccix s i) = vec) [0..<ERTS_NUM_CODE_IX] then s else s\<lparr>vecs := (vecs s)(vec := None)\<rparr>)"

definition beam_catches_start_staging :: "nat \<Rightarrow> nat \<Rightarrow> catches \<Rightarrow> catches" where
  "beam_catches_start_staging src dst s =
     gc_old_vec (bc_vec (bccix s dst)) (s\<lparr>bccix := (bccix s)(dst := bccix s src)\<rparr>)"

definition beam_catches_end_staging :: "bool \<Rightarrow> catches \<Rightarrow> catches" where
  "beam_catches_end_staging commit s = s"

text \<open>The table of twice the size; the rest of the new vector has any content.\<close>

definition grow_pool :: "nat \<Rightarrow> beam_catch list \<Rightarrow> catches \<Rightarrow> catch_error + catches" where
  "grow_pool stg junk s =
     (let p = bccix s stg; newsize = bc_tabsize p * 2 mod 2 ^ 32 in
      case vecs s (bc_vec p) of
        None \<Rightarrow> Inl Freed_vector
      | Some v \<Rightarrow> Inr (gc_old_vec (bc_vec p)
          (s\<lparr>bccix := (bccix s)(stg := p\<lparr>bc_tabsize := newsize, bc_vec := next_vec s\<rparr>),
             vecs := (vecs s)(next_vec s := Some (take newsize (take (bc_tabsize p) v @ junk))),
             next_vec := next_vec s + 1\<rparr>)))"

definition write_catch :: "nat \<Rightarrow> nat \<Rightarrow> beam_catch \<Rightarrow> catches \<Rightarrow> catch_error + catches" where
  "write_catch ix i c s =
     (case vecs s (bc_vec (bccix s ix)) of
        None \<Rightarrow> Inl Freed_vector
      | Some v \<Rightarrow> if i < length v then Inr (s\<lparr>vecs := (vecs s)(bc_vec (bccix s ix) := Some (v[i := c]))\<rparr>)
                  else Inl (Index_out_of_range i))"

definition beam_catches_cons ::
  "beam_catch list \<Rightarrow> Uint \<Rightarrow> Uint32 \<Rightarrow> nat \<Rightarrow> catches \<Rightarrow> catch_error + Uint32 \<times> catches" where
  "beam_catches_cons junk cp cdr stg s =
     (let p = bccix s stg in
      if sint (bc_free_list p) \<ge> 0 then
        (case vecs s (bc_vec p) of
           None \<Rightarrow> Inl Freed_vector
         | Some v \<Rightarrow>
             (let i = unat (bc_free_list p) in
              if i < length v then
                map_sum id (Pair (of_nat i)) (write_catch stg i \<lparr>bc_cp = cp, bc_cdr = cdr\<rparr>
                  (s\<lparr>bccix := (bccix s)(stg := p\<lparr>bc_free_list := bc_cdr (v ! i)\<rparr>)\<rparr>))
              else Inl (Index_out_of_range i)))
      else
        (case (if bc_high_mark p \<ge> bc_tabsize p then grow_pool stg junk s else Inr s) of
           Inl e \<Rightarrow> Inl e
         | Inr s \<Rightarrow>
             (let p = bccix s stg; i = bc_high_mark p in
              map_sum id (Pair (of_nat i)) (write_catch stg i \<lparr>bc_cp = cp, bc_cdr = cdr\<rparr>
                (s\<lparr>bccix := (bccix s)(stg := p\<lparr>bc_high_mark := i + 1\<rparr>)\<rparr>)))))"

definition beam_catches_car :: "Uint32 \<Rightarrow> nat \<Rightarrow> catches \<Rightarrow> catch_error + Uint" where
  "beam_catches_car i act s =
     (let p = bccix s act in
      if unat i \<ge> bc_tabsize p then Inl (Index_out_of_range (unat i))
      else case vecs s (bc_vec p) of
        None \<Rightarrow> Inl Freed_vector
      | Some v \<Rightarrow> Inr (bc_cp (v ! unat i)))"

text \<open>
  The loop over the chain of a module: the entries join the free list. The distance of the address from the code is a
  signed difference. A chain with a cycle would not end.
\<close>

partial_function (option) delmod_loop ::
  "nat \<Rightarrow> Uint \<Rightarrow> Uint32 \<Rightarrow> Uint32 \<Rightarrow> Uint32 \<Rightarrow> beam_catch list \<Rightarrow> (catch_error + Uint32 \<times> beam_catch list) option" where
  "delmod_loop tabsize code code_bytes i free v =
     (if i = BEAM_CATCHES_NIL then Some (Inr (free, v))
      else if unat i \<ge> tabsize then Some (Inl (Index_out_of_range (unat i)))
      else if sint (bc_cp (v ! unat i) - code) \<ge> uint code_bytes then Some (Inl (Cp_not_in_module (unat i)))
      else delmod_loop tabsize code code_bytes (bc_cdr (v ! unat i)) i (v[unat i := \<lparr>bc_cp = 0, bc_cdr = free\<rparr>]))"

definition beam_catches_delmod ::
  "Uint32 \<Rightarrow> Uint \<Rightarrow> Uint32 \<Rightarrow> nat \<Rightarrow> catches \<Rightarrow> (catch_error + catches) option" where
  "beam_catches_delmod head code code_bytes ix s =
     (let p = bccix s ix in
      if head = BEAM_CATCHES_NIL then Some (Inr s)
      else case vecs s (bc_vec p) of
        None \<Rightarrow> Some (Inl Freed_vector)
      | Some v \<Rightarrow>
          map_option (map_sum id (\<lambda>(free, v). s\<lparr>bccix := (bccix s)(ix := p\<lparr>bc_free_list := free\<rparr>),
              vecs := (vecs s)(bc_vec p := Some v)\<rparr>))
            (delmod_loop (bc_tabsize p) code code_bytes head (bc_free_list p) v))"

subsection \<open>Chains, free and used entries\<close>

fun chain :: "beam_catch list \<Rightarrow> Uint32 \<Rightarrow> nat list \<Rightarrow> bool" where
  "chain v h [] = (h = BEAM_CATCHES_NIL)"
| "chain v h (x # xs) = (h = of_nat x \<and> x < length v \<and> chain v (bc_cdr (v ! x)) xs)"

definition pool_ok :: "catches \<Rightarrow> bc_pool \<Rightarrow> beam_catch list \<Rightarrow> nat list \<Rightarrow> bool" where
  "pool_ok s p v fl \<longleftrightarrow> vecs s (bc_vec p) = Some v \<and> length v = bc_tabsize p \<and> chain v (bc_free_list p) fl \<and> distinct fl \<and>
     set fl \<subseteq> {..<bc_high_mark p} \<and> bc_high_mark p \<le> bc_tabsize p \<and> bc_tabsize p < 2 ^ 31 \<and> 0 < bc_tabsize p"

definition used :: "bc_pool \<Rightarrow> nat list \<Rightarrow> nat set" where
  "used p fl = {..<bc_high_mark p} - set fl"

lemma chain_frame: "set xs \<inter> set ys = {} \<Longrightarrow> (\<forall>i. i \<notin> set ys \<longrightarrow> v' ! i = v ! i) \<Longrightarrow> length v' = length v \<Longrightarrow> chain v' h xs = chain v h xs"
  by (induction xs arbitrary: h) auto

lemma chain_update: "j \<notin> set xs \<Longrightarrow> chain (v[j := c]) h xs = chain v h xs"
  by (rule chain_frame [of _ "[j]"]) auto

lemma sint_index: "x < 2 ^ 31 \<Longrightarrow> sint (of_nat x :: Uint32) = int x"
proof -
  assume "x < 2 ^ 31"
  then have "int x < 2 ^ 31" by (metis of_nat_less_iff of_nat_numeral of_nat_power)
  then show ?thesis by (simp add: signed_of_nat signed_take_bit_int_eq_self)
qed

lemma unat_index: "x < 2 ^ 31 \<Longrightarrow> unat (of_nat x :: Uint32) = x"
  by (simp add: unat_of_nat)

lemma index_not_nil: "x < 2 ^ 31 \<Longrightarrow> (of_nat x :: Uint32) \<noteq> BEAM_CATCHES_NIL"
  using sint_index [of x] by (auto simp: BEAM_CATCHES_NIL_def)

lemma chain_free:
  assumes "chain v h xs" and "length v < 2 ^ 31"
  shows "sint h \<ge> 0 \<longleftrightarrow> xs \<noteq> []"
proof (cases xs)
  case Nil
  then show ?thesis using assms(1) by (simp add: BEAM_CATCHES_NIL_def)
next
  case (Cons x ys)
  then show ?thesis using assms sint_index [of x] by simp
qed

subsection \<open>Adding a catch\<close>

definition vecs_ok :: "catches \<Rightarrow> bool" where
  "vecs_ok s \<longleftrightarrow> (\<forall>i. bc_vec (bccix s i) < next_vec s) \<and> (\<forall>a. next_vec s \<le> a \<longrightarrow> vecs s a = None)"

text \<open>What another pool reads: its entries but the one at \<open>i\<close>.\<close>

definition other_pools :: "nat \<Rightarrow> nat set \<Rightarrow> catches \<Rightarrow> catches \<Rightarrow> bool" where
  "other_pools stg A s s' \<longleftrightarrow> (\<forall>ix w. ix < ERTS_NUM_CODE_IX \<longrightarrow> ix \<noteq> stg \<longrightarrow> vecs s (bc_vec (bccix s ix)) = Some w \<longrightarrow>
     bccix s' ix = bccix s ix \<and>
     (\<exists>w'. vecs s' (bc_vec (bccix s ix)) = Some w' \<and> length w' = length w \<and> (\<forall>j. j \<notin> A \<longrightarrow> w' ! j = w ! j)))"

lemma other_pools_trans: "other_pools stg A s s1 \<Longrightarrow> other_pools stg A s1 s2 \<Longrightarrow> other_pools stg A s s2"
  unfolding other_pools_def by metis

lemma gc_old_vec_sel [simp]: "bccix (gc_old_vec a s) = bccix s" "next_vec (gc_old_vec a s) = next_vec s"
  by (simp_all add: gc_old_vec_def)

lemma gc_old_vec_vecs:
  "vecs (gc_old_vec a s) b = (if b = a \<and> (\<forall>i<ERTS_NUM_CODE_IX. bc_vec (bccix s i) \<noteq> a) then None else vecs s b)"
proof -
  have "list_ex (\<lambda>i. bc_vec (bccix s i) = a) [0..<ERTS_NUM_CODE_IX] \<longleftrightarrow> (\<exists>i<ERTS_NUM_CODE_IX. bc_vec (bccix s i) = a)"
    by (auto simp: list_ex_iff)
  then show ?thesis by (auto simp: gc_old_vec_def)
qed

lemma grow_pool_ok:
  assumes "pool_ok s (bccix s stg) v fl" and "bc_tabsize (bccix s stg) < 2 ^ 30" and "vecs_ok s"
    and "bc_tabsize (bccix s stg) \<le> length junk"
  shows "\<exists>s' v'. grow_pool stg junk s = Inr s' \<and> vecs_ok s' \<and> pool_ok s' (bccix s' stg) v' fl \<and>
    bccix s' stg = (bccix s stg)\<lparr>bc_tabsize := bc_tabsize (bccix s stg) * 2, bc_vec := next_vec s\<rparr> \<and>
    (\<forall>j<length v. v' ! j = v ! j) \<and> length v' = 2 * length v \<and> other_pools stg {} s s'"
proof -
  let ?p = "bccix s stg"
  let ?n = "bc_tabsize ?p * 2"
  let ?v = "take ?n (v @ junk)"
  let ?p' = "?p\<lparr>bc_tabsize := ?n, bc_vec := next_vec s\<rparr>"
  let ?s1 = "s\<lparr>bccix := (bccix s)(stg := ?p'), vecs := (vecs s)(next_vec s := Some ?v), next_vec := next_vec s + 1\<rparr>"
  let ?s = "gc_old_vec (bc_vec ?p) ?s1"
  have p: "vecs s (bc_vec ?p) = Some v" "length v = bc_tabsize ?p" "chain v (bc_free_list ?p) fl"
    using assms(1) by (simp_all add: pool_ok_def)
  have old: "bc_vec ?p < next_vec s" using assms(3) by (simp add: vecs_ok_def)
  have g: "bccix ?s = bccix ?s1" "next_vec ?s = next_vec s + 1" by (simp_all add: gc_old_vec_def)
  note gv = gc_old_vec_vecs
  have "?n mod 2 ^ 32 = ?n" using assms(2) by (intro mod_less) simp
  then have grow: "grow_pool stg junk s = Inr ?s" using p(1,2) by (simp add: grow_pool_def Let_def)
  have vok: "vecs_ok ?s" unfolding vecs_ok_def g
  proof (intro conjI allI impI)
    show "bc_vec (bccix ?s1 i) < next_vec s + 1" for i
      using assms(3) by (simp add: vecs_ok_def less_Suc_eq)
    show "vecs ?s a = None" if "next_vec s + 1 \<le> a" for a
      using that assms(3) unfolding gv by (simp add: vecs_ok_def)
  qed
  have nth: "?v ! j = v ! j" if "j < length v" for j
    using that p(2) by (simp add: nth_append)
  have len: "length ?v = ?n" using assms(4) p(2) by simp
  have "chain ?v (bc_free_list ?p) fl"
  proof -
    have "chain ?v h xs" if "chain v h xs" for h xs
      using that by (induction xs arbitrary: h) (use len p(2) nth in auto)
    then show ?thesis using p(3) by blast
  qed
  moreover have "vecs ?s (next_vec s) = Some ?v" unfolding gv using old by simp
  moreover have "distinct fl" "set fl \<subseteq> {..<bc_high_mark ?p}" "bc_high_mark ?p \<le> ?n" "?n < 2 ^ 31" "0 < ?n"
    using assms(1,2) by (simp_all add: pool_ok_def)
  ultimately have "pool_ok ?s ?p' ?v fl" using len by (simp add: pool_ok_def)
  moreover have "other_pools stg {} s ?s"
    unfolding other_pools_def g gv using assms(3) by (auto simp: vecs_ok_def)
  ultimately show ?thesis using grow vok g(1) len p(2) nth by (intro exI [of _ ?s] exI [of _ ?v]) simp
qed

lemma write_catch_ok:
  assumes "vecs s (bc_vec (bccix s stg)) = Some v" and "i < length v"
  shows "\<exists>s'. write_catch stg i c s = Inr s' \<and> vecs s' (bc_vec (bccix s stg)) = Some (v[i := c]) \<and>
    bccix s' = bccix s \<and> next_vec s' = next_vec s \<and> (vecs_ok s \<longrightarrow> vecs_ok s') \<and> other_pools stg {i} s s'"
  using assms by (auto simp: write_catch_def other_pools_def vecs_ok_def)

lemma take_slot:
  assumes "pool_ok s p v fl" and "bc_vec p' = bc_vec p" and "bc_tabsize p' = bc_tabsize p"
    and "bc_high_mark p \<le> bc_high_mark p'" and "bc_high_mark p' \<le> bc_tabsize p"
    and "chain v (bc_free_list p') fl'" and "set fl' \<subseteq> set fl" and "distinct fl'"
    and "i < length v" and "i \<notin> set fl'" and "vecs s' (bc_vec p) = Some (v[i := c])"
  shows "pool_ok s' p' (v[i := c]) fl'"
  using assms by (auto simp: pool_ok_def chain_update)

text \<open>A new catch gets an entry that was not used, and no used entry of any pool changes.\<close>

lemma beam_catches_cons_ok:
  assumes "pool_ok s (bccix s stg) v fl" and "bc_tabsize (bccix s stg) < 2 ^ 30" and "vecs_ok s"
    and "bc_tabsize (bccix s stg) \<le> length junk" and "stg < ERTS_NUM_CODE_IX"
  shows "\<exists>i s' v' fl'. beam_catches_cons junk cp cdr stg s = Inr (of_nat i, s') \<and> vecs_ok s' \<and>
    i \<notin> used (bccix s stg) fl \<and> pool_ok s' (bccix s' stg) v' fl' \<and>
    used (bccix s' stg) fl' = insert i (used (bccix s stg) fl) \<and> v' ! i = \<lparr>bc_cp = cp, bc_cdr = cdr\<rparr> \<and>
    (\<forall>j\<in>used (bccix s stg) fl. v' ! j = v ! j) \<and> other_pools stg {i} s s'"
proof (cases fl)
  case (Cons i fs)
  let ?p = "bccix s stg" and ?c = "\<lparr>bc_cp = cp, bc_cdr = cdr\<rparr>"
  have p: "vecs s (bc_vec ?p) = Some v" "length v = bc_tabsize ?p" "bc_free_list ?p = of_nat i" "i < length v"
      "chain v (bc_cdr (v ! i)) fs" "distinct (i # fs)" "i < bc_high_mark ?p" "bc_tabsize ?p < 2 ^ 31"
      "bc_high_mark ?p \<le> bc_tabsize ?p"
    using assms(1) Cons by (simp_all add: pool_ok_def)
  have i: "i < 2 ^ 31" "\<not> sint (bc_free_list ?p) < 0" "unat (bc_free_list ?p) = i"
    using p(2,4,8) sint_index [of i] unat_index [of i] unfolding p(3) by simp_all
  let ?s1 = "s\<lparr>bccix := (bccix s)(stg := ?p\<lparr>bc_free_list := bc_cdr (v ! i)\<rparr>)\<rparr>"
  obtain s' where w: "write_catch stg i ?c ?s1 = Inr s'" "vecs s' (bc_vec ?p) = Some (v[i := ?c])" "bccix s' = bccix ?s1"
      "vecs_ok ?s1 \<longrightarrow> vecs_ok s'" "other_pools stg {i} ?s1 s'"
    using write_catch_ok [of ?s1 stg v i ?c] p(1,4) by auto
  have "vecs_ok ?s1" using assms(3) by (auto simp: vecs_ok_def)
  moreover have "other_pools stg {i} s ?s1" by (auto simp: other_pools_def)
  moreover have "beam_catches_cons junk cp cdr stg s = Inr (of_nat i, s')"
    using i p(1,4) w(1) by (simp add: beam_catches_cons_def Let_def)
  moreover have "pool_ok s' (bccix s' stg) (v[i := ?c]) fs"
    using take_slot [OF assms(1), of "bccix s' stg" fs i s' ?c] w(2,3) p Cons by auto
  ultimately show ?thesis using w(3-5) p Cons
    by (intro exI [of _ i] exI [of _ s'] exI [of _ "v[i := ?c]"] exI [of _ fs])
      (auto simp: used_def intro: other_pools_trans)
next
  case Nil
  let ?p = "bccix s stg" and ?c = "\<lparr>bc_cp = cp, bc_cdr = cdr\<rparr>"
  have p: "vecs s (bc_vec ?p) = Some v" "length v = bc_tabsize ?p" "bc_tabsize ?p < 2 ^ 31" "0 < bc_tabsize ?p"
      "bc_high_mark ?p \<le> bc_tabsize ?p" "bc_free_list ?p = BEAM_CATCHES_NIL"
    using assms(1) Nil by (simp_all add: pool_ok_def)
  have free: "sint (bc_free_list ?p) < 0" unfolding p(6) by (simp add: BEAM_CATCHES_NIL_def)
  obtain s1 v1 where s1: "(if bc_high_mark ?p \<ge> bc_tabsize ?p then grow_pool stg junk s else Inr s) = Inr s1"
      "vecs_ok s1" "pool_ok s1 (bccix s1 stg) v1 []" "bc_high_mark (bccix s1 stg) = bc_high_mark ?p"
      "bc_high_mark ?p < bc_tabsize (bccix s1 stg)" "bc_free_list (bccix s1 stg) = BEAM_CATCHES_NIL"
      "\<forall>j<length v. v1 ! j = v ! j" "other_pools stg {} s s1"
  proof (cases "bc_high_mark ?p \<ge> bc_tabsize ?p")
    case False
    then show thesis using assms(1,3) Nil p that [of s v] by (auto simp: other_pools_def)
  next
    case True
    obtain s' v' where g: "grow_pool stg junk s = Inr s'" "vecs_ok s'" "pool_ok s' (bccix s' stg) v' fl"
        "bccix s' stg = ?p\<lparr>bc_tabsize := bc_tabsize ?p * 2, bc_vec := next_vec s\<rparr>" "\<forall>j<length v. v' ! j = v ! j"
        "other_pools stg {} s s'"
      using grow_pool_ok [OF assms(1-4)] by blast
    then show thesis using True Nil p by (intro that [of s' v']) auto
  qed
  let ?i = "bc_high_mark ?p" and ?p1 = "bccix s1 stg"
  let ?s2 = "s1\<lparr>bccix := (bccix s1)(stg := ?p1\<lparr>bc_high_mark := ?i + 1\<rparr>)\<rparr>"
  have v1: "vecs s1 (bc_vec ?p1) = Some v1" "length v1 = bc_tabsize ?p1" using s1(3) by (simp_all add: pool_ok_def)
  obtain s' where w: "write_catch stg ?i ?c ?s2 = Inr s'" "vecs s' (bc_vec ?p1) = Some (v1[?i := ?c])" "bccix s' = bccix ?s2"
      "vecs_ok ?s2 \<longrightarrow> vecs_ok s'" "other_pools stg {?i} ?s2 s'"
    using write_catch_ok [of ?s2 stg v1 ?i ?c] v1 s1(5) by auto
  have "vecs_ok ?s2" using s1(2) by (auto simp: vecs_ok_def)
  moreover have "other_pools stg {?i} s s'"
  proof (rule other_pools_trans [OF _ w(5)])
    show "other_pools stg {?i} s ?s2" using s1(8) by (fastforce simp: other_pools_def)
  qed
  moreover have "beam_catches_cons junk cp cdr stg s = Inr (of_nat ?i, s')"
    using free s1(1,4) w(1) by (simp add: beam_catches_cons_def Let_def)
  moreover have "pool_ok s' (bccix s' stg) (v1[?i := ?c]) []"
    using take_slot [OF s1(3), of "bccix s' stg" "[]" ?i s' ?c] w(2,3) s1(4-6) v1 by auto
  moreover have "\<forall>j\<in>used ?p fl. (v1[?i := ?c]) ! j = v ! j" using s1(7) p(2,5) by (auto simp: used_def)
  moreover have "used (bccix s' stg) [] = insert ?i (used ?p fl)" using w(3) Nil by (auto simp: used_def)
  ultimately show ?thesis using w(4) v1(2) s1(5) Nil
    by (intro exI [of _ ?i] exI [of _ s'] exI [of _ "v1[?i := ?c]"] exI [of _ "[]"]) (simp add: used_def)
qed

subsection \<open>Removing the catches of a module\<close>

lemma delmod_loop_ok:
  assumes "chain v h cs" and "chain v free fl" and "distinct (cs @ fl)" and "length v = tabsize" and "tabsize < 2 ^ 31"
    and "\<forall>x\<in>set cs. sint (bc_cp (v ! x) - code) < uint code_bytes"
  shows "\<exists>free' v'. delmod_loop tabsize code code_bytes h free v = Some (Inr (free', v')) \<and> chain v' free' (rev cs @ fl) \<and>
    length v' = length v \<and> (\<forall>j. j \<notin> set cs \<longrightarrow> v' ! j = v ! j) \<and> (\<forall>j\<in>set cs. bc_cp (v' ! j) = 0)"
  using assms
proof (induction cs arbitrary: h free v fl)
  case Nil
  then show ?case by (subst delmod_loop.simps) simp
next
  case (Cons x cs)
  let ?v = "v[x := \<lparr>bc_cp = 0, bc_cdr = free\<rparr>]"
  have x: "h = of_nat x" "x < length v" "chain v (bc_cdr (v ! x)) cs" using Cons.prems(1) by simp_all
  have ux: "unat h = x" "h \<noteq> BEAM_CATCHES_NIL" using x(1,2) Cons.prems(4,5) unat_index index_not_nil by simp_all
  have step: "delmod_loop tabsize code code_bytes h free v = delmod_loop tabsize code code_bytes (bc_cdr (v ! x)) h ?v"
    by (subst delmod_loop.simps) (use ux x Cons.prems(4,6) in simp)
  have "x \<notin> set cs" "x \<notin> set fl" using Cons.prems(3) by auto
  then have c: "chain ?v (bc_cdr (v ! x)) cs" "chain ?v h (x # fl)"
    using x Cons.prems(2) by (simp_all add: chain_update)
  have d: "distinct (cs @ x # fl)" using Cons.prems(3) by auto
  have b: "\<forall>y\<in>set cs. sint (bc_cp (?v ! y) - code) < uint code_bytes"
    using Cons.prems(6) \<open>x \<notin> set cs\<close> by (metis list.set_intros(2) nth_list_update_neq)
  obtain free' v' where "delmod_loop tabsize code code_bytes (bc_cdr (v ! x)) h ?v = Some (Inr (free', v'))"
      "chain v' free' (rev cs @ x # fl)" "length v' = length ?v" "\<forall>j. j \<notin> set cs \<longrightarrow> v' ! j = ?v ! j" "\<forall>j\<in>set cs. bc_cp (v' ! j) = 0"
    using Cons.IH [OF c d _ Cons.prems(5) b] Cons.prems(4) by auto
  then show ?case unfolding step using \<open>x \<notin> set cs\<close> x(2)
    by (intro exI [of _ free'] exI [of _ v']) (auto simp: nth_list_update)
qed

lemma delmod_loop_refuses:
  assumes "chain v h cs" and "distinct cs" and "length v = tabsize" and "tabsize < 2 ^ 31"
    and "\<exists>x\<in>set cs. \<not> sint (bc_cp (v ! x) - code) < uint code_bytes"
  shows "\<exists>x\<in>set cs. delmod_loop tabsize code code_bytes h free v = Some (Inl (Cp_not_in_module x))"
  using assms
proof (induction cs arbitrary: h free v)
  case (Cons x cs)
  let ?v = "v[x := \<lparr>bc_cp = 0, bc_cdr = free\<rparr>]"
  have x: "h = of_nat x" "x < length v" "chain v (bc_cdr (v ! x)) cs" "x \<notin> set cs" using Cons.prems(1,2) by simp_all
  have ux: "unat h = x" "h \<noteq> BEAM_CATCHES_NIL" using x(1,2) Cons.prems(3,4) unat_index index_not_nil by simp_all
  show ?case
  proof (cases "sint (bc_cp (v ! x) - code) < uint code_bytes")
    case False
    then have "delmod_loop tabsize code code_bytes h free v = Some (Inl (Cp_not_in_module x))"
      by (subst delmod_loop.simps) (use ux x Cons.prems(3) in simp)
    then show ?thesis by simp
  next
    case True
    have step: "delmod_loop tabsize code code_bytes h free v = delmod_loop tabsize code code_bytes (bc_cdr (v ! x)) h ?v"
      by (subst delmod_loop.simps) (use True ux x Cons.prems(3) in simp)
    have "\<exists>y\<in>set cs. \<not> sint (bc_cp (?v ! y) - code) < uint code_bytes"
      using Cons.prems(5) True x(4) by (metis nth_list_update_neq set_ConsD)
    then show ?thesis unfolding step using Cons.IH [of ?v "bc_cdr (v ! x)" h] x Cons.prems(2-4) by (auto simp: chain_update)
  qed
qed simp

lemma beam_catches_delmod_ok:
  assumes "pool_ok s (bccix s ix) v fl" and "chain v head cs" and "distinct cs" and "set cs \<subseteq> used (bccix s ix) fl"
    and "\<forall>x\<in>set cs. sint (bc_cp (v ! x) - code) < uint code_bytes"
  shows "\<exists>s' v'. beam_catches_delmod head code code_bytes ix s = Some (Inr s') \<and>
    pool_ok s' (bccix s' ix) v' (rev cs @ fl) \<and> used (bccix s' ix) (rev cs @ fl) = used (bccix s ix) fl - set cs \<and>
    (\<forall>j. j \<notin> set cs \<longrightarrow> v' ! j = v ! j)"
proof (cases cs)
  case Nil
  then show ?thesis using assms(1,2) by (intro exI [of _ s] exI [of _ v]) (simp add: beam_catches_delmod_def)
next
  case (Cons x xs)
  let ?p = "bccix s ix"
  have p: "vecs s (bc_vec ?p) = Some v" "length v = bc_tabsize ?p" "chain v (bc_free_list ?p) fl" "distinct fl"
      "bc_tabsize ?p < 2 ^ 31" "set fl \<subseteq> {..<bc_high_mark ?p}"
    using assms(1) by (simp_all add: pool_ok_def)
  have d: "distinct (cs @ fl)" using assms(3,4) p(4) by (auto simp: used_def)
  obtain free' v' where l: "delmod_loop (bc_tabsize ?p) code code_bytes head (bc_free_list ?p) v = Some (Inr (free', v'))"
      "chain v' free' (rev cs @ fl)" "length v' = length v" "\<forall>j. j \<notin> set cs \<longrightarrow> v' ! j = v ! j"
    using delmod_loop_ok [OF assms(2) p(3) d p(2,5) assms(5)] by blast
  have "head \<noteq> BEAM_CATCHES_NIL" using assms(2) Cons p(2,5) index_not_nil [of x] by simp
  let ?s = "s\<lparr>bccix := (bccix s)(ix := ?p\<lparr>bc_free_list := free'\<rparr>), vecs := (vecs s)(bc_vec ?p := Some v')\<rparr>"
  have "beam_catches_delmod head code code_bytes ix s = Some (Inr ?s)"
    using l(1) p(1) \<open>head \<noteq> BEAM_CATCHES_NIL\<close> by (simp add: beam_catches_delmod_def Let_def)
  moreover have "pool_ok ?s (bccix ?s ix) v' (rev cs @ fl)"
    using assms(1,4) l(2,3) d by (auto simp: pool_ok_def used_def)
  ultimately show ?thesis using l(4) by (intro exI [of _ ?s] exI [of _ v']) (auto simp: used_def)
qed

subsection \<open>Properties\<close>

lemma car_used:
  assumes "pool_ok s (bccix s ix) v fl" and "j \<in> used (bccix s ix) fl"
  shows "beam_catches_car (of_nat j) ix s = Inr (bc_cp (v ! j))"
proof -
  have "vecs s (bc_vec (bccix s ix)) = Some v" "j < bc_tabsize (bccix s ix)" "j < 2 ^ 31"
    using assms by (auto simp: pool_ok_def used_def)
  then show ?thesis using unat_index [of j] by (simp add: beam_catches_car_def Let_def)
qed



lemma sint_distance:
  fixes a b :: Uint
  assumes "- (2 ^ 63) \<le> uint a - uint b" and "uint a - uint b < 2 ^ 63"
  shows "sint (a - b) = uint a - uint b"
proof -
  have "sint (a - b) = sint (word_of_int (uint a - uint b) :: Uint)" by simp
  also have "\<dots> = signed_take_bit 63 (uint a - uint b)" unfolding signed_of_int by simp
  also have "\<dots> = uint a - uint b" using assms by (intro signed_take_bit_int_eq_self) simp_all
  finally show ?thesis .
qed

text \<open>
  C40: removing the chain of catches of a module returns, frees exactly these entries and keeps all others, when their
  addresses lie before the end of the module: an address behind it is refused, but one before the module is not noticed.
\<close>

theorem catches_of_module_removed:
  assumes "pool_ok s (bccix s ix) v fl" and "chain v head cs" and "distinct cs" and "set cs \<subseteq> used (bccix s ix) fl"
    and "\<forall>x\<in>set cs. - (2 ^ 63) \<le> uint (bc_cp (v ! x)) - uint code \<and> uint (bc_cp (v ! x)) - uint code < 2 ^ 63"
  shows "if \<forall>x\<in>set cs. uint (bc_cp (v ! x)) < uint code + uint code_bytes
    then \<exists>s' v'. beam_catches_delmod head code code_bytes ix s = Some (Inr s') \<and>
        pool_ok s' (bccix s' ix) v' (rev cs @ fl) \<and> used (bccix s' ix) (rev cs @ fl) = used (bccix s ix) fl - set cs \<and>
        (\<forall>j. j \<notin> set cs \<longrightarrow> v' ! j = v ! j)
    else \<exists>x\<in>set cs. beam_catches_delmod head code code_bytes ix s = Some (Inl (Cp_not_in_module x))"
proof -
  have d: "sint (bc_cp (v ! x) - code) = uint (bc_cp (v ! x)) - uint code" if "x \<in> set cs" for x
    using assms(5) that by (intro sint_distance) simp_all
  show ?thesis
  proof (cases "\<forall>x\<in>set cs. uint (bc_cp (v ! x)) < uint code + uint code_bytes")
    case True
    then have "\<forall>x\<in>set cs. sint (bc_cp (v ! x) - code) < uint code_bytes" using d by auto
    then show ?thesis using beam_catches_delmod_ok [OF assms(1-4)] True by simp
  next
    case False
    have p: "vecs s (bc_vec (bccix s ix)) = Some v" "length v = bc_tabsize (bccix s ix)" "bc_tabsize (bccix s ix) < 2 ^ 31"
      using assms(1) by (simp_all add: pool_ok_def)
    have r: "\<exists>x\<in>set cs. delmod_loop (bc_tabsize (bccix s ix)) code code_bytes head free v = Some (Inl (Cp_not_in_module x))"
      if "\<exists>x\<in>set cs. \<not> sint (bc_cp (v ! x) - code) < uint code_bytes" for free
      using delmod_loop_refuses [OF assms(2,3) p(2,3) that] .
    obtain x where x: "x \<in> set cs" "\<not> uint (bc_cp (v ! x)) < uint code + uint code_bytes" using False by blast
    then have "\<not> sint (bc_cp (v ! x) - code) < uint code_bytes" using d [OF x(1)] by linarith
    then have "\<exists>x\<in>set cs. \<not> sint (bc_cp (v ! x) - code) < uint code_bytes" using x(1) by blast
    then obtain y where y: "y \<in> set cs" "delmod_loop (bc_tabsize (bccix s ix)) code code_bytes head
        (bc_free_list (bccix s ix)) v = Some (Inl (Cp_not_in_module y))" using r by blast
    have "head \<noteq> BEAM_CATCHES_NIL" using assms(2) x(1) p(2,3) index_not_nil by (cases cs) auto
    then have "beam_catches_delmod head code code_bytes ix s = Some (Inl (Cp_not_in_module y))"
      using y(2) p(1) by (simp add: beam_catches_delmod_def Let_def)
    then show ?thesis unfolding if_not_P [OF False] using y(1) by blast
  qed
qed

definition sample_catches :: catches where
  "sample_catches = \<lparr>bccix = (\<lambda>_. \<lparr>bc_free_list = - 1, bc_high_mark = 1, bc_tabsize = 2, bc_vec = 0\<rparr>),
     vecs = (\<lambda>a. if a = 0 then Some [\<lparr>bc_cp = 100, bc_cdr = - 1\<rparr>, \<lparr>bc_cp = 0, bc_cdr = 0\<rparr>] else None), next_vec = 1\<rparr>"

theorem catches_of_module_removed_witness:
  "\<exists>s' v'. beam_catches_delmod 0 200 50 0 sample_catches = Some (Inr s') \<and> pool_ok s' (bccix s' 0) v' [0]"
proof -
  let ?v = "[\<lparr>bc_cp = 100, bc_cdr = - 1\<rparr>, \<lparr>bc_cp = 0, bc_cdr = 0\<rparr>] :: beam_catch list"
  have p: "pool_ok sample_catches (bccix sample_catches 0) ?v []"
    by (simp add: pool_ok_def sample_catches_def BEAM_CATCHES_NIL_def)
  have c: "chain ?v 0 [0]" by (simp add: BEAM_CATCHES_NIL_def)
  have u: "set [0] \<subseteq> used (bccix sample_catches 0) []" by (simp add: used_def sample_catches_def)
  show ?thesis using catches_of_module_removed [OF p c _ u, of 200 50] by auto
qed

end
